(* ===== verification/Prelude.thy ===== *)
theory Prelude
  imports Main "HOL-Library.Word"
begin

unbundle bit_operations_syntax

text \<open>
  Shared material of the development: the Go machine types the code uses, byte constants
  for the characters the code compares with, slices \<open>xs[i:j]\<close> and reads
  \<open>xs[i]\<close> at \<open>int\<close> indices, the index loop that looks for the first
  byte with some property, decimal numerals, and the generic lemmas about them.
  The collection \<open>wfs\<close> gathers the unfolding facts of the well-formedness proofs.
\<close>

named_theorems wfs \<open>unfolding facts for the iterator's well-formedness\<close>
named_theorems rd \<open>what the reading operations return and leave\<close>

section \<open>Machine types and characters\<close>

type_synonym byte = "8 word"
type_synonym u16 = "16 word"
type_synonym u32 = "32 word"
type_synonym u64 = "64 word"
type_synonym bytes = "byte list"

text \<open>Go's character literals, as bytes.\<close>

abbreviation (input) ch_tab :: byte where "ch_tab \<equiv> 0x09"
abbreviation (input) ch_nl :: byte where "ch_nl \<equiv> 0x0A"
abbreviation (input) ch_cr :: byte where "ch_cr \<equiv> 0x0D"
abbreviation (input) ch_space :: byte where "ch_space \<equiv> 0x20"
abbreviation (input) ch_quote :: byte where "ch_quote \<equiv> 0x22"
abbreviation (input) ch_amp :: byte where "ch_amp \<equiv> 0x26"
abbreviation (input) ch_plus :: byte where "ch_plus \<equiv> 0x2B"
abbreviation (input) ch_comma :: byte where "ch_comma \<equiv> 0x2C"
abbreviation (input) ch_minus :: byte where "ch_minus \<equiv> 0x2D"
abbreviation (input) ch_dot :: byte where "ch_dot \<equiv> 0x2E"
abbreviation (input) ch_slash :: byte where "ch_slash \<equiv> 0x2F"
abbreviation (input) ch_0 :: byte where "ch_0 \<equiv> 0x30"
abbreviation (input) ch_9 :: byte where "ch_9 \<equiv> 0x39"
abbreviation (input) ch_colon :: byte where "ch_colon \<equiv> 0x3A"
abbreviation (input) ch_lt :: byte where "ch_lt \<equiv> 0x3C"
abbreviation (input) ch_gt :: byte where "ch_gt \<equiv> 0x3E"
abbreviation (input) ch_A :: byte where "ch_A \<equiv> 0x41"
abbreviation (input) ch_E :: byte where "ch_E \<equiv> 0x45"
abbreviation (input) ch_Z :: byte where "ch_Z \<equiv> 0x5A"
abbreviation (input) ch_lbrack :: byte where "ch_lbrack \<equiv> 0x5B"
abbreviation (input) ch_bslash :: byte where "ch_bslash \<equiv> 0x5C"
abbreviation (input) ch_rbrack :: byte where "ch_rbrack \<equiv> 0x5D"
abbreviation (input) ch_a :: byte where "ch_a \<equiv> 0x61"
abbreviation (input) ch_b :: byte where "ch_b \<equiv> 0x62"
abbreviation (input) ch_e :: byte where "ch_e \<equiv> 0x65"
abbreviation (input) ch_f :: byte where "ch_f \<equiv> 0x66"
abbreviation (input) ch_l :: byte where "ch_l \<equiv> 0x6C"
abbreviation (input) ch_n :: byte where "ch_n \<equiv> 0x6E"
abbreviation (input) ch_r :: byte where "ch_r \<equiv> 0x72"
abbreviation (input) ch_s :: byte where "ch_s \<equiv> 0x73"
abbreviation (input) ch_t :: byte where "ch_t \<equiv> 0x74"
abbreviation (input) ch_u :: byte where "ch_u \<equiv> 0x75"
abbreviation (input) ch_lbrace :: byte where "ch_lbrace \<equiv> 0x7B"
abbreviation (input) ch_rbrace :: byte where "ch_rbrace \<equiv> 0x7D"

text \<open>\<open>string([]byte{c})\<close>: the one-byte string, for error messages.\<close>

definition byte_str :: "byte \<Rightarrow> string" where
  "byte_str c = [char_of (unat c)]"

section \<open>Slices and index loops\<close>

text \<open>Go's \<open>xs[i:j]\<close> and \<open>xs[i]\<close>; where the code uses them it has
  \<open>0 \<le> i \<le> j \<le> len(xs)\<close> and \<open>0 \<le> i < len(xs)\<close> (the well-formedness invariant of
  the iterator), so no slice bound panics.\<close>

definition gslice :: "'a list \<Rightarrow> int \<Rightarrow> int \<Rightarrow> 'a list" where
  "gslice xs i j = take (nat (j - i)) (drop (nat i) xs)"

definition byte_at :: "'a list \<Rightarrow> int \<Rightarrow> 'a" where
  "byte_at xs i = xs ! nat i"

lemma gslice_empty [simp]: "j \<le> i \<Longrightarrow> gslice xs i j = []"
  by (simp add: gslice_def)

lemma length_gslice [simp]:
  "0 \<le> i \<Longrightarrow> i \<le> j \<Longrightarrow> j \<le> int (length xs) \<Longrightarrow> length (gslice xs i j) = nat (j - i)"
  by (simp add: gslice_def)

lemma gslice_Cons:
  assumes "0 \<le> i" "i < j" "j \<le> int (length xs)"
  shows "gslice xs i j = byte_at xs i # gslice xs (i + 1) j"
proof -
  have "nat i < length xs" using assms by linarith
  moreover have "nat (j - i) = Suc (nat (j - (i + 1)))" using assms by linarith
  moreover have "nat (i + 1) = Suc (nat i)" using assms by linarith
  ultimately show ?thesis
    by (simp add: gslice_def byte_at_def Cons_nth_drop_Suc [symmetric])
qed

lemma gslice_append:
  assumes "0 \<le> i" "i \<le> k" "k \<le> j"
  shows "gslice xs i j = gslice xs i k @ gslice xs k j"
proof -
  have "nat (j - i) = nat (k - i) + nat (j - k)" using assms by linarith
  moreover have "nat k = nat (k - i) + nat i" using assms by linarith
  ultimately show ?thesis
    by (simp add: gslice_def take_add drop_drop)
qed

lemma gslice_snoc:
  assumes "0 \<le> i" "i < j" "j \<le> int (length xs)"
  shows "gslice xs i j = gslice xs i (j - 1) @ [byte_at xs (j - 1)]"
  using assms gslice_append [of i "j - 1" j xs] gslice_Cons [of "j - 1" j xs] by simp

lemma gslice_all [simp]: "gslice xs 0 (int (length xs)) = xs"
  by (simp add: gslice_def)

lemma gslice_take_prefix: "gslice (xs @ ys) 0 (int (length xs)) = xs"
  by (simp add: gslice_def)

lemma byte_at_append_left: "0 \<le> i \<Longrightarrow> i < int (length xs) \<Longrightarrow> byte_at (xs @ ys) i = byte_at xs i"
  by (simp add: byte_at_def nth_append nat_less_iff)

lemma gslice_ConsD:
  assumes "gslice xs i j = c # ys" "0 \<le> i" "j \<le> int (length xs)"
  shows "i < j \<and> c = byte_at xs i \<and> ys = gslice xs (i + 1) j"
proof -
  have "i < j" using assms(1) by (cases "i < j") auto
  with assms gslice_Cons [of i j xs] show ?thesis by simp
qed

text \<open>\<open>for i := lo; i < hi; i++ { if P(xs[i]) return i }\<close>.\<close>

function find_from :: "('a \<Rightarrow> bool) \<Rightarrow> 'a list \<Rightarrow> int \<Rightarrow> int \<Rightarrow> int option" where
  "find_from P xs i hi =
     (if i < hi then (if P (byte_at xs i) then Some i else find_from P xs (i + 1) hi) else None)"
  by pat_completeness auto
termination by (relation "measure (\<lambda>(P, xs, i, hi). nat (hi - i))") auto

declare find_from.simps [simp del]

lemma find_from_Some:
  assumes "find_from P xs i hi = Some k" "0 \<le> i" "hi \<le> int (length xs)"
  shows "i \<le> k \<and> k < hi \<and> P (byte_at xs k)
    \<and> gslice xs i hi = gslice xs i k @ byte_at xs k # gslice xs (k + 1) hi
    \<and> (\<forall>c \<in> set (gslice xs i k). \<not> P c)"
  using assms
proof (induction P xs i hi rule: find_from.induct)
  case (1 P xs i hi)
  then have lt: "i < hi" by (auto simp: find_from.simps [of P xs i hi] split: if_splits)
  show ?case
  proof (cases "P (byte_at xs i)")
    case True
    with 1 lt show ?thesis
      by (simp add: find_from.simps [of P xs i hi] gslice_Cons)
  next
    case False
    with 1 lt have *: "find_from P xs (i + 1) hi = Some k"
      by (simp add: find_from.simps [of P xs i hi])
    with 1 lt False have IH: "i + 1 \<le> k \<and> k < hi \<and> P (byte_at xs k)
      \<and> gslice xs (i + 1) hi = gslice xs (i + 1) k @ byte_at xs k # gslice xs (k + 1) hi
      \<and> (\<forall>c \<in> set (gslice xs (i + 1) k). \<not> P c)" by simp
    with 1 lt False show ?thesis
      using gslice_Cons [of i hi xs] gslice_Cons [of i k xs] by auto
  qed
qed

lemma find_from_None:
  assumes "find_from P xs i hi = None" "0 \<le> i" "hi \<le> int (length xs)"
  shows "\<forall>c \<in> set (gslice xs i hi). \<not> P c"
  using assms
proof (induction P xs i hi rule: find_from.induct)
  case (1 P xs i hi)
  show ?case
  proof (cases "i < hi")
    case True
    with 1 show ?thesis
      by (auto simp: find_from.simps [of P xs i hi] gslice_Cons split: if_splits)
  qed simp
qed

lemma length_takeWhile_lt: "\<exists>x \<in> set xs. \<not> P x \<Longrightarrow> length (takeWhile P xs) < length xs"
  by (induction xs) auto

lemma takeWhile_append_prefix: "\<exists>zs. takeWhile P (xs @ ys) = takeWhile P xs @ zs"
  by (induction xs) auto

lemma takeWhile_all: "list_all P xs \<Longrightarrow> takeWhile P xs = xs"
  by (simp add: list_all_iff takeWhile_eq_all_conv)

section \<open>Decimal numerals\<close>

text \<open>The decimal digits of a number, most significant first: the reference for the
  integer writers, and \<open>strconv.FormatInt\<close> / \<open>FormatUint\<close> in base 10.\<close>

fun dec_bytes :: "nat \<Rightarrow> bytes" where
  "dec_bytes n =
     (if n < 10 then [ch_0 + of_nat n] else dec_bytes (n div 10) @ [ch_0 + of_nat (n mod 10)])"

declare dec_bytes.simps [simp del]

definition FormatInt :: "int \<Rightarrow> string" where
  "FormatInt i = (if i < 0 then ''-'' else []) @ concat (map byte_str (dec_bytes (nat \<bar>i\<bar>)))"

definition is_digit :: "byte \<Rightarrow> bool" where
  "is_digit c \<longleftrightarrow> ch_0 \<le> c \<and> c \<le> ch_9"

definition digit_val :: "byte \<Rightarrow> nat" where
  "digit_val c = unat (c - ch_0)"

text \<open>The value of a run of digits, and of a run continued from \<open>v\<close>.\<close>

fun dec_val_from :: "nat \<Rightarrow> bytes \<Rightarrow> nat" where
  "dec_val_from v [] = v"
| "dec_val_from v (c # cs) = dec_val_from (10 * v + digit_val c) cs"

definition dec_val :: "bytes \<Rightarrow> nat" where
  "dec_val cs = dec_val_from 0 cs"

lemma dec_val_from_append: "dec_val_from v (xs @ ys) = dec_val_from (dec_val_from v xs) ys"
  by (induction xs arbitrary: v) auto

lemma dec_val_from_ge: "v \<le> dec_val_from v cs"
proof (induction cs arbitrary: v)
  case (Cons c cs)
  have "v \<le> 10 * v + digit_val c" by simp
  also have "\<dots> \<le> dec_val_from (10 * v + digit_val c) cs" by (rule Cons)
  finally show ?case by simp
qed simp

lemma dec_val_from_eq: "dec_val_from v cs = v * 10 ^ length cs + dec_val cs"
proof (induction cs arbitrary: v)
  case Nil
  then show ?case by (simp add: dec_val_def)
next
  case (Cons c cs)
  have "dec_val (c # cs) = digit_val c * 10 ^ length cs + dec_val cs"
    using Cons.IH [of "digit_val c"] by (simp add: dec_val_def)
  then show ?case using Cons.IH [of "10 * v + digit_val c"] by (simp add: algebra_simps)
qed

lemma digit_val_less: "is_digit c \<Longrightarrow> digit_val c < 10"
proof -
  assume "is_digit c"
  then have "48 \<le> unat c" "unat c \<le> 57"
    by (auto simp: is_digit_def word_le_nat_alt)
  moreover from this have "unat (c - 48) = unat c - 48"
    by (simp add: unat_sub word_le_nat_alt)
  ultimately show ?thesis by (simp add: digit_val_def)
qed

lemma dec_val_less: "\<forall>c \<in> set cs. is_digit c \<Longrightarrow> dec_val cs < 10 ^ length cs"
proof (induction cs)
  case Nil
  then show ?case by (simp add: dec_val_def)
next
  case (Cons c cs)
  have "digit_val c \<le> 9" using digit_val_less [of c] Cons.prems by simp
  then have "digit_val c * 10 ^ length cs \<le> 9 * 10 ^ length cs" by (rule mult_le_mono1)
  moreover have "dec_val (c # cs) = digit_val c * 10 ^ length cs + dec_val cs"
    using dec_val_from_eq [of "digit_val c" cs] by (simp add: dec_val_def)
  moreover have "dec_val cs < 10 ^ length cs" using Cons by simp
  ultimately have "dec_val (c # cs) < 10 * 10 ^ length cs" by linarith
  then show ?case by simp
qed

lemma is_digit_of_nat: "n < 10 \<Longrightarrow> is_digit (ch_0 + of_nat n)"
proof -
  assume n: "n < 10"
  then have "unat (0x30 + of_nat n :: byte) = 48 + n"
    by (simp add: unat_word_ariths unat_of_nat)
  with n show ?thesis by (simp add: is_digit_def word_le_nat_alt)
qed

lemma digit_val_of_nat: "n < 10 \<Longrightarrow> digit_val (ch_0 + of_nat n) = n"
  by (simp add: digit_val_def unat_of_nat)

lemma dec_bytes_digits: "\<forall>c \<in> set (dec_bytes n). is_digit c"
proof (induction n rule: dec_bytes.induct)
  case (1 n)
  then show ?case
    by (auto simp: dec_bytes.simps [of n] is_digit_of_nat)
qed

lemma dec_val_dec_bytes: "dec_val (dec_bytes n) = n"
proof (induction n rule: dec_bytes.induct)
  case (1 n)
  show ?case
  proof (cases "n < 10")
    case True
    then show ?thesis
      by (simp add: dec_bytes.simps [of n] dec_val_def digit_val_of_nat)
  next
    case False
    with 1 have "dec_val_from 0 (dec_bytes (n div 10)) = n div 10" by (simp add: dec_val_def)
    with False show ?thesis
      by (simp add: dec_bytes.simps [of n] dec_val_def dec_val_from_append digit_val_of_nat)
  qed
qed

lemma dec_bytes_nonempty: "dec_bytes n \<noteq> []"
  by (simp add: dec_bytes.simps [of n])

text \<open>No leading zero, but for the number zero.\<close>

lemma hd_dec_bytes: "0 < n \<Longrightarrow> hd (dec_bytes n) \<noteq> ch_0"
proof (induction n rule: dec_bytes.induct)
  case (1 n)
  show ?case
  proof (cases "n < 10")
    case True
    have "digit_val (0x30 + of_nat n) = n" using True by (simp add: digit_val_of_nat)
    moreover have "digit_val 0x30 = 0" by (simp add: digit_val_def)
    ultimately have "ch_0 + of_nat n \<noteq> ch_0" using 1(2) by fastforce
    with True show ?thesis by (simp add: dec_bytes.simps [of n])
  next
    case False
    with 1 have "hd (dec_bytes (n div 10)) \<noteq> 0x30" by simp
    with False show ?thesis
      by (simp add: dec_bytes.simps [of n] dec_bytes_nonempty)
  qed
qed

end
