(* ===== verification/Config.thy ===== *)
theory Config
  imports Prelude
begin

text \<open>
  \<open>config.go\<close>: the user's \<open>Config\<close>, the \<open>frozenConfig\<close> made from it by
  \<open>Froze\<close>, and the three predefined configurations. The caches, the extension maps, the
  registered extensions and the pools of \<open>frozenConfig\<close> are not fields here: they hold
  codecs chosen by reflection and recycled objects.
\<close>

section \<open>Config and frozenConfig\<close>

record Config =
  IndentionStep :: int
  MarshalFloatWith6Digits :: bool
  EscapeHTML :: bool
  SortMapKeys :: bool
  UseNumber :: bool
  DisallowUnknownFields :: bool
  TagKey :: string
  OnlyTaggedField :: bool
  ValidateJsonRawMessage :: bool
  ObjectFieldMustBeSimpleString :: bool
  CaseSensitive :: bool
  InvalidFloatToNil :: bool

record frozenConfig =
  configBeforeFrozen :: Config
  sortMapKeys :: bool
  indentionStep :: int
  objectFieldMustBeSimpleString :: bool
  onlyTaggedField :: bool
  disallowUnknownFields :: bool
  caseSensitive :: bool
  invalidFloatToNil :: bool

text \<open>The zero value of \<open>Config\<close>, the base of Go's composite literals.\<close>

definition zero_Config :: Config where
  "zero_Config = \<lparr>IndentionStep = 0, MarshalFloatWith6Digits = False, EscapeHTML = False,
     SortMapKeys = False, UseNumber = False, DisallowUnknownFields = False, TagKey = [],
     OnlyTaggedField = False, ValidateJsonRawMessage = False,
     ObjectFieldMustBeSimpleString = False, CaseSensitive = False, InvalidFloatToNil = False\<rparr>"

definition Froze :: "Config \<Rightarrow> frozenConfig" where
  "Froze c = \<lparr>configBeforeFrozen = c, sortMapKeys = SortMapKeys c,
     indentionStep = IndentionStep c,
     objectFieldMustBeSimpleString = ObjectFieldMustBeSimpleString c,
     onlyTaggedField = OnlyTaggedField c, disallowUnknownFields = DisallowUnknownFields c,
     caseSensitive = CaseSensitive c, invalidFloatToNil = InvalidFloatToNil c\<rparr>"

definition ConfigDefault :: frozenConfig where
  "ConfigDefault = Froze (zero_Config\<lparr>EscapeHTML := True\<rparr>)"

definition ConfigCompatibleWithStandardLibrary :: frozenConfig where
  "ConfigCompatibleWithStandardLibrary =
     Froze (zero_Config\<lparr>EscapeHTML := True, SortMapKeys := True,
       ValidateJsonRawMessage := True\<rparr>)"

definition ConfigFastest :: frozenConfig where
  "ConfigFastest =
     Froze (zero_Config\<lparr>EscapeHTML := False, MarshalFloatWith6Digits := True,
       ObjectFieldMustBeSimpleString := True\<rparr>)"

definition getTagKey :: "frozenConfig \<Rightarrow> string" where
  "getTagKey cfg =
     (let tagKey = TagKey (configBeforeFrozen cfg)
      in if tagKey = [] then ''json'' else tagKey)"

end
