(* ===== verification/Iter.thy ===== *)
theory Iter
  imports Config
begin

text \<open>
  \<open>iter.go\<close>: the iterator over a byte buffer that an \<open>io.Reader\<close> refills, its
  byte and token operations, error reporting and the nesting depth.

  An \<open>io.Reader\<close> is the finite list of the results its \<open>Read\<close> calls will give
  (bytes delivered and error); when the list is used up every call gives \<open>(0, io.EOF)\<close>.
  A theorem over all such lists is a theorem over all ways the input can be cut into buffers.

  \<open>pending it\<close> is the input the iterator still has to deliver, \<open>cap_log it\<close> the bytes
  captured so far, and \<open>consumes it xs it'\<close> says that the code went from \<open>it\<close> to
  \<open>it'\<close> by reading exactly \<open>xs\<close>: it is the relation the reading lemmas of all
  later theories are stated with, and it composes.
\<close>

section \<open>State\<close>

datatype ValueType = InvalidValue | StringValue | NumberValue | NilValue | BoolValue
  | ArrayValue | ObjectValue

text \<open>\<open>fmt.Errorf\<close> values keep what they were built from: \<open>Reported\<close> is the
  error of \<open>ReportError\<close> (operation, message, offset in the excerpt, excerpt, context),
  \<open>Wrapped\<close> an error with a prefix; \<open>ReadErr\<close> is an error of the reader and
  \<open>LibErr\<close> one of a library call.\<close>

datatype go_error = EOF | ReadErr string | LibErr string
  | Reported string string int bytes bytes | Wrapped string go_error

type_synonym reader = "(bytes \<times> go_error option) list"

record iterator =
  cfg :: frozenConfig
  reader :: "reader option"
  buf :: bytes
  head :: int
  tail :: int
  depth :: int
  captureStartedAt :: int
  captured :: "bytes option"
  inputOffset :: int
  Error :: "go_error option"

definition valueTypes :: "byte \<Rightarrow> ValueType" where
  "valueTypes c =
     (if c = ch_quote then StringValue
      else if c = ch_minus \<or> is_digit c then NumberValue
      else if c = ch_t \<or> c = ch_f then BoolValue
      else if c = ch_n then NilValue
      else if c = ch_lbrack then ArrayValue
      else if c = ch_lbrace then ObjectValue
      else InvalidValue)"

definition NewIterator :: "frozenConfig \<Rightarrow> iterator" where
  "NewIterator c = \<lparr>cfg = c, reader = None, buf = [], head = 0, tail = 0, depth = 0,
     captureStartedAt = 0, captured = None, inputOffset = 0, Error = None\<rparr>"

definition Parse :: "frozenConfig \<Rightarrow> reader \<Rightarrow> nat \<Rightarrow> iterator" where
  "Parse c r bufSize = \<lparr>cfg = c, reader = Some r, buf = replicate bufSize 0, head = 0, tail = 0,
     depth = 0, captureStartedAt = 0, captured = None, inputOffset = 0, Error = None\<rparr>"

definition ParseBytes :: "frozenConfig \<Rightarrow> bytes \<Rightarrow> iterator" where
  "ParseBytes c input = \<lparr>cfg = c, reader = None, buf = input, head = 0, tail = int (length input),
     depth = 0, captureStartedAt = 0, captured = None, inputOffset = 0, Error = None\<rparr>"

definition ParseString :: "frozenConfig \<Rightarrow> bytes \<Rightarrow> iterator" where
  "ParseString c input = ParseBytes c input"

definition Reset :: "reader \<Rightarrow> iterator \<Rightarrow> iterator" where
  "Reset r it = it\<lparr>reader := Some r, head := 0, tail := 0, depth := 0, inputOffset := 0\<rparr>"

definition ResetBytes :: "bytes \<Rightarrow> iterator \<Rightarrow> iterator" where
  "ResetBytes input it = it\<lparr>reader := None, buf := input, head := 0, tail := int (length input),
     depth := 0, inputOffset := 0\<rparr>"

section \<open>Bytes, tokens, errors\<close>

definition is_space :: "byte \<Rightarrow> bool" where
  "is_space c \<longleftrightarrow> c = ch_space \<or> c = ch_nl \<or> c = ch_tab \<or> c = ch_cr"

text \<open>The \<open>Read\<close> loop of \<open>loadMore\<close>: an empty read without error is retried.\<close>

fun load_loop :: "reader \<Rightarrow> iterator \<Rightarrow> bool \<times> iterator" where
  "load_loop [] it =
     (False, it\<lparr>reader := Some [], Error := (if Error it = None then Some EOF else Error it)\<rparr>)"
| "load_loop ((chunk, err) # r) it =
     (if chunk = [] then
        (case err of
           Some e \<Rightarrow>
             (False, it\<lparr>reader := Some r, Error := (if Error it = None then Some e else Error it)\<rparr>)
         | None \<Rightarrow> load_loop r it)
      else (True, it\<lparr>reader := Some r, buf := chunk @ drop (length chunk) (buf it),
              inputOffset := inputOffset it + tail it, head := 0, tail := int (length chunk)\<rparr>))"

definition loadMore :: "iterator \<Rightarrow> bool \<times> iterator" where
  "loadMore it =
     (case reader it of
        None \<Rightarrow>
          (False, if Error it = None then it\<lparr>head := tail it, Error := Some EOF\<rparr> else it)
      | Some r \<Rightarrow>
          load_loop r
            (case captured it of
               None \<Rightarrow> it
             | Some cap \<Rightarrow>
                 it\<lparr>captured := Some (cap @ gslice (buf it) (captureStartedAt it) (tail it)),
                    captureStartedAt := 0\<rparr>))"

definition reads_left :: "iterator \<Rightarrow> nat" where
  "reads_left it = (case reader it of None \<Rightarrow> 0 | Some r \<Rightarrow> length r)"

lemma load_loop_decreases:
  "load_loop r it = (True, it') \<Longrightarrow> reads_left it' < length r"
  by (induction r it rule: load_loop.induct)
    (auto simp: reads_left_def split: if_splits option.splits)

lemma loadMore_decreases: "loadMore it = (True, it') \<Longrightarrow> reads_left it' < reads_left it"
  by (auto simp: loadMore_def reads_left_def split: option.splits dest: load_loop_decreases)

function nextToken :: "iterator \<Rightarrow> byte \<times> iterator" where
  "nextToken it =
     (case find_from (\<lambda>c. \<not> is_space c) (buf it) (head it) (tail it) of
        Some i \<Rightarrow> (byte_at (buf it) i, it\<lparr>head := i + 1\<rparr>)
      | None \<Rightarrow>
          (case loadMore it of (ok, it') \<Rightarrow> if ok then nextToken it' else (0, it')))"
  by pat_completeness auto
termination
  by (relation "measure reads_left") (auto dest: loadMore_decreases [OF sym])

declare nextToken.simps [simp del]

definition isNextTokenBuffered :: "iterator \<Rightarrow> bool \<times> iterator" where
  "isNextTokenBuffered it =
     (if head it < 0 \<or> head it \<ge> tail it \<or> tail it > int (length (buf it)) then (False, it)
      else case find_from (\<lambda>c. \<not> is_space c) (buf it) (head it) (tail it) of
             Some i \<Rightarrow> (True, it\<lparr>head := i\<rparr>)
           | None \<Rightarrow> (False, it))"

definition readByte :: "iterator \<Rightarrow> byte \<times> iterator" where
  "readByte it =
     (if head it = tail it then
        (case loadMore it of (ok, it') \<Rightarrow>
           if ok then (byte_at (buf it') (head it'), it'\<lparr>head := head it' + 1\<rparr>) else (0, it'))
      else (byte_at (buf it) (head it), it\<lparr>head := head it + 1\<rparr>))"

definition unreadByte :: "iterator \<Rightarrow> iterator" where
  "unreadByte it = (if Error it \<noteq> None then it else it\<lparr>head := head it - 1\<rparr>)"

definition WhatIsNext :: "iterator \<Rightarrow> ValueType \<times> iterator" where
  "WhatIsNext it = (case nextToken it of (c, it') \<Rightarrow> (valueTypes c, unreadByte it'))"

definition InputOffset :: "iterator \<Rightarrow> int" where
  "InputOffset it = inputOffset it + head it"

definition Buffered :: "iterator \<Rightarrow> bytes" where
  "Buffered it = gslice (buf it) (head it) (tail it)"

definition ReportError :: "string \<Rightarrow> string \<Rightarrow> iterator \<Rightarrow> iterator" where
  "ReportError operation msg it =
     (if Error it \<noteq> None \<and> Error it \<noteq> Some EOF then it
      else
        let peekStart = (if head it - 10 < 0 then 0 else head it - 10);
            peekEnd = (if head it + 10 > tail it then tail it else head it + 10);
            contextStart = (if head it - 50 < 0 then 0 else head it - 50);
            contextEnd = (if head it + 50 > tail it then tail it else head it + 50)
        in it\<lparr>Error := Some (Reported operation msg (head it - peekStart)
                 (gslice (buf it) peekStart peekEnd) (gslice (buf it) contextStart contextEnd))\<rparr>)"

definition maxDepth :: int where
  "maxDepth = 10000"

definition incrementDepth :: "iterator \<Rightarrow> bool \<times> iterator" where
  "incrementDepth it =
     (let it1 = it\<lparr>depth := depth it + 1\<rparr>
      in if depth it1 \<le> maxDepth then (True, it1)
         else (False, ReportError ''incrementDepth'' ''exceeded max depth'' it1))"

definition decrementDepth :: "iterator \<Rightarrow> bool \<times> iterator" where
  "decrementDepth it =
     (let it1 = it\<lparr>depth := depth it - 1\<rparr>
      in if depth it1 \<ge> 0 then (True, it1)
         else (False, ReportError ''decrementDepth'' ''unexpected negative nesting'' it1))"

section \<open>Well-formedness, pending input, consumption\<close>

text \<open>The window \<open>[head, tail)\<close> lies in the buffer; every result of the reader fits the
  buffer it is read into (the contract of \<open>io.Reader\<close>); a capture starts at or before
  \<open>head\<close>.\<close>

fun reader_fits :: "nat \<Rightarrow> reader option \<Rightarrow> bool" where
  "reader_fits n None = True"
| "reader_fits n (Some r) = list_all (\<lambda>x. length (fst x) \<le> n) r"

declare reader_fits.simps [simp del] reader_fits.simps(1) [simp]

definition wf_iter :: "iterator \<Rightarrow> bool" where
  "wf_iter it \<longleftrightarrow> 0 \<le> head it \<and> head it \<le> tail it \<and> tail it \<le> int (length (buf it))
     \<and> reader_fits (length (buf it)) (reader it)
     \<and> (captured it \<noteq> None \<longrightarrow> 0 \<le> captureStartedAt it \<and> captureStartedAt it \<le> head it)"

fun src_bytes :: "reader \<Rightarrow> bytes" where
  "src_bytes [] = []"
| "src_bytes ((chunk, err) # r) =
     (if chunk = [] \<and> err \<noteq> None then [] else chunk @ src_bytes r)"

fun src_end :: "reader \<Rightarrow> go_error" where
  "src_end [] = EOF"
| "src_end ((chunk, err) # r) =
     (case err of Some e \<Rightarrow> (if chunk = [] then e else src_end r) | None \<Rightarrow> src_end r)"

definition rest_bytes :: "iterator \<Rightarrow> bytes" where
  "rest_bytes it = (case reader it of None \<Rightarrow> [] | Some r \<Rightarrow> src_bytes r)"

definition end_err :: "iterator \<Rightarrow> go_error" where
  "end_err it = (case reader it of None \<Rightarrow> EOF | Some r \<Rightarrow> src_end r)"

text \<open>The error the iterator will hold once the input is used up.\<close>

definition final_err :: "iterator \<Rightarrow> go_error" where
  "final_err it = (case Error it of None \<Rightarrow> end_err it | Some e \<Rightarrow> e)"

definition pending :: "iterator \<Rightarrow> bytes" where
  "pending it = gslice (buf it) (head it) (tail it) @ rest_bytes it"

definition cap_log :: "iterator \<Rightarrow> bytes option" where
  "cap_log it =
     map_option (\<lambda>c. c @ gslice (buf it) (captureStartedAt it) (head it)) (captured it)"

definition same_frame :: "iterator \<Rightarrow> iterator \<Rightarrow> bool" where
  "same_frame it it' \<longleftrightarrow> cfg it' = cfg it \<and> (reader it' = None \<longleftrightarrow> reader it = None)
     \<and> (reader it = None \<longrightarrow> buf it' = buf it \<and> tail it' = tail it)
     \<and> (captured it' = None \<longleftrightarrow> captured it = None)"

definition consumes :: "iterator \<Rightarrow> bytes \<Rightarrow> iterator \<Rightarrow> bool" where
  "consumes it xs it' \<longleftrightarrow> wf_iter it \<and> wf_iter it' \<and> same_frame it it' \<and> depth it' = depth it
     \<and> Error it' = Error it \<and> end_err it' = end_err it \<and> pending it = xs @ pending it'
     \<and> cap_log it' = map_option (\<lambda>l. l @ xs) (cap_log it)"

text \<open>The byte just read is still in the buffer, so \<open>unreadByte\<close> may step back.\<close>

definition can_unread :: "byte \<Rightarrow> iterator \<Rightarrow> bool" where
  "can_unread c it \<longleftrightarrow> 1 \<le> head it \<and> byte_at (buf it) (head it - 1) = c
     \<and> (captured it \<noteq> None \<longrightarrow> captureStartedAt it \<le> head it - 1)"

lemma reader_fits_mono: "reader_fits n (Some r) \<Longrightarrow> set r' \<subseteq> set r \<Longrightarrow> reader_fits n (Some r')"
  by (auto simp: reader_fits.simps list_all_iff)

lemma reader_fits_chunk: "reader_fits n (Some r) \<Longrightarrow> c \<in> fst ` set r \<Longrightarrow> length c \<le> n"
  by (auto simp: reader_fits.simps list_all_iff)

lemma same_frame_refl [simp]: "same_frame it it"
  by (simp add: same_frame_def)

lemma same_frame_trans: "same_frame a b \<Longrightarrow> same_frame b c \<Longrightarrow> same_frame a c"
  by (auto simp: same_frame_def)

lemma consumes_refl: "wf_iter it \<Longrightarrow> consumes it [] it"
  by (simp add: consumes_def option.map_ident)

lemma consumes_trans: "consumes a xs b \<Longrightarrow> consumes b ys c \<Longrightarrow> consumes a (xs @ ys) c"
  by (auto simp: consumes_def option.map_comp o_def dest: same_frame_trans)

lemma consumes_wf: "consumes it xs it' \<Longrightarrow> wf_iter it'"
  by (simp add: consumes_def)

lemma consumes_pending: "consumes it xs it' \<Longrightarrow> pending it = xs @ pending it'"
  by (simp add: consumes_def)

lemma consumes_Error: "consumes it xs it' \<Longrightarrow> Error it' = Error it"
  by (simp add: consumes_def)

lemma consumes_final_err: "consumes it xs it' \<Longrightarrow> final_err it' = final_err it"
  by (cases "Error it") (simp_all add: consumes_def final_err_def)

lemma consumes_depth: "consumes it xs it' \<Longrightarrow> depth it' = depth it"
  by (simp add: consumes_def)

lemma consumes_cfg: "consumes it xs it' \<Longrightarrow> cfg it' = cfg it"
  by (simp add: consumes_def same_frame_def)

lemma wf_depth_update [simp]: "wf_iter (it\<lparr>depth := d\<rparr>) = wf_iter it"
  by (simp add: wf_iter_def)

lemma pending_depth_update [simp]: "pending (it\<lparr>depth := d\<rparr>) = pending it"
  by (simp add: pending_def rest_bytes_def)

lemma cap_log_depth_update [simp]: "cap_log (it\<lparr>depth := d\<rparr>) = cap_log it"
  by (simp add: cap_log_def)

lemma wf_Error_update [simp]: "wf_iter (it\<lparr>Error := e\<rparr>) = wf_iter it"
  by (simp add: wf_iter_def)

lemma consumes_depth_update:
  "consumes it xs it' \<Longrightarrow> consumes (it\<lparr>depth := d\<rparr>) xs (it'\<lparr>depth := d\<rparr>)"
  by (simp add: consumes_def same_frame_def end_err_def)

text \<open>Moving \<open>head\<close> forward inside the buffer consumes that slice.\<close>

lemma consumes_head:
  assumes "wf_iter it" "head it \<le> k" "k \<le> tail it"
  shows "consumes it (gslice (buf it) (head it) k) (it\<lparr>head := k\<rparr>)"
proof -
  have 1: "gslice (buf it) (head it) (tail it)
      = gslice (buf it) (head it) k @ gslice (buf it) k (tail it)"
    using assms gslice_append by (auto simp: wf_iter_def)
  have 2: "gslice (buf it) (captureStartedAt it) k
      = gslice (buf it) (captureStartedAt it) (head it) @ gslice (buf it) (head it) k"
    if "captured it \<noteq> None"
    using assms that by (intro gslice_append) (auto simp: wf_iter_def)
  show ?thesis
    using assms 1 2
    by (cases "captured it")
      (auto simp: consumes_def same_frame_def pending_def rest_bytes_def cap_log_def wf_iter_def end_err_def)
qed

section \<open>Refilling the buffer\<close>

lemma load_loop_True:
  "load_loop r it = (True, it') \<Longrightarrow> \<exists>r' chunk. chunk \<noteq> [] \<and> src_bytes r = chunk @ src_bytes r'
     \<and> src_end r = src_end r' \<and> set r' \<subseteq> set r \<and> chunk \<in> fst ` set r
     \<and> it' = it\<lparr>reader := Some r', buf := chunk @ drop (length chunk) (buf it),
            inputOffset := inputOffset it + tail it, head := 0, tail := int (length chunk)\<rparr>"
proof (induction r it rule: load_loop.induct)
  case (2 chunk err r it)
  then show ?case
  proof (cases "chunk = []")
    case True
    with 2 have "err = None" "load_loop r it = (True, it')" by (auto split: option.splits)
    with 2 True obtain r' chunk' where "chunk' \<noteq> [] \<and> src_bytes r = chunk' @ src_bytes r'
     \<and> src_end r = src_end r' \<and> set r' \<subseteq> set r \<and> chunk' \<in> fst ` set r
     \<and> it' = it\<lparr>reader := Some r', buf := chunk' @ drop (length chunk') (buf it),
            inputOffset := inputOffset it + tail it, head := 0, tail := int (length chunk')\<rparr>"
      by auto
    with True \<open>err = None\<close> show ?thesis by (intro exI [of _ r'] exI [of _ chunk']) auto
  next
    case False
    with 2 show ?thesis
      by (intro exI [of _ r] exI [of _ chunk]) (auto split: option.splits)
  qed
qed simp

lemma load_loop_False:
  "load_loop r it = (False, it') \<Longrightarrow> src_bytes r = [] \<and> (\<exists>r'. set r' \<subseteq> set r
     \<and> it' = it\<lparr>reader := Some r',
                Error := Some (case Error it of None \<Rightarrow> src_end r | Some e \<Rightarrow> e)\<rparr>)"
  by (induction r it rule: load_loop.induct)
    (auto split: if_splits option.splits intro: exI [of _ "[]"])

lemma loadMore_True:
  assumes "loadMore it = (True, it')" "wf_iter it"
  shows "consumes it (gslice (buf it) (head it) (tail it)) it' \<and> head it' = 0 \<and> 0 < tail it'"
proof -
  let ?it = "case captured it of None \<Rightarrow> it
             | Some cap \<Rightarrow>
                 it\<lparr>captured := Some (cap @ gslice (buf it) (captureStartedAt it) (tail it)),
                    captureStartedAt := 0\<rparr>"
  from assms obtain r where r: "reader it = Some r" and l: "load_loop r ?it = (True, it')"
    by (auto simp: loadMore_def split: option.splits)
  from load_loop_True [OF l] obtain r' chunk where *: "chunk \<noteq> []" "src_bytes r = chunk @ src_bytes r'"
     "set r' \<subseteq> set r" "chunk \<in> fst ` set r" and se: "src_end r = src_end r'"
     and up: "it' = ?it\<lparr>reader := Some r', buf := chunk @ drop (length chunk) (buf ?it),
            inputOffset := inputOffset ?it + tail ?it, head := 0, tail := int (length chunk)\<rparr>"
    by blast
  have len: "length chunk \<le> length (buf it)"
    using *(4) assms(2) r by (auto simp: wf_iter_def dest: reader_fits_chunk)
  have cap: "gslice (buf it) (captureStartedAt it) (tail it)
      = gslice (buf it) (captureStartedAt it) (head it) @ gslice (buf it) (head it) (tail it)"
    if "captured it \<noteq> None"
    using assms(2) that by (intro gslice_append) (auto simp: wf_iter_def)
  show ?thesis
    using assms(2) r * up len cap se reader_fits_mono [OF _ *(3)]
    by (auto simp: consumes_def end_err_def same_frame_def pending_def rest_bytes_def cap_log_def wf_iter_def
        gslice_take_prefix split: option.splits)
qed

lemma loadMore_False:
  assumes "loadMore it = (False, it')" "wf_iter it"
  shows "rest_bytes it = [] \<and> wf_iter it' \<and> same_frame it it' \<and> depth it' = depth it
    \<and> Error it' = Some (final_err it)
    \<and> buf it' = buf it \<and> tail it' = tail it \<and> (head it' = head it \<or> head it' = tail it)"
proof (cases "reader it")
  case None
  then show ?thesis using assms
    by (auto simp: loadMore_def rest_bytes_def end_err_def final_err_def wf_iter_def same_frame_def
        split: if_splits)
next
  case (Some r)
  let ?it = "case captured it of None \<Rightarrow> it
             | Some cap \<Rightarrow>
                 it\<lparr>captured := Some (cap @ gslice (buf it) (captureStartedAt it) (tail it)),
                    captureStartedAt := 0\<rparr>"
  from assms Some have l: "load_loop r ?it = (False, it')"
    by (auto simp: loadMore_def split: option.splits)
  from load_loop_False [OF l] obtain r' where *: "src_bytes r = []" "set r' \<subseteq> set r"
     "it' = ?it\<lparr>reader := Some r',
                Error := Some (case Error ?it of None \<Rightarrow> src_end r | Some e \<Rightarrow> e)\<rparr>"
    by blast
  show ?thesis using Some * assms(2) reader_fits_mono [OF _ *(2)]
    by (auto simp: rest_bytes_def end_err_def final_err_def wf_iter_def same_frame_def
        split: option.splits)
qed

lemma loadMore_rest: "wf_iter it \<Longrightarrow> fst (loadMore it) \<longleftrightarrow> rest_bytes it \<noteq> []"
proof (cases "loadMore it")
  case (Pair ok it')
  assume wf: "wf_iter it"
  show ?thesis
  proof (cases ok)
    case True
    with Pair wf have c: "consumes it (gslice (buf it) (head it) (tail it)) it'"
      and "head it' = 0" "0 < tail it'" using loadMore_True by auto
    then have "pending it' = rest_bytes it" by (simp add: consumes_def pending_def)
    moreover have "gslice (buf it') (head it') (tail it') \<noteq> []"
      using \<open>head it' = 0\<close> \<open>0 < tail it'\<close> consumes_wf [OF c]
      by (subst gslice_Cons) (auto simp: wf_iter_def)
    ultimately show ?thesis using Pair True by (auto simp: pending_def)
  next
    case False
    with Pair wf show ?thesis using loadMore_False by auto
  qed
qed

section \<open>What the token operations read\<close>

lemma dropWhile_span:
  assumes "ws @ c # rest = xs" "\<forall>x \<in> set ws. P x" "\<not> P c"
  shows "dropWhile P xs = c # rest" "takeWhile P xs = ws"
  using assms by (auto simp: dropWhile_append takeWhile_append)

text \<open>\<open>nextToken\<close> returns the first byte that is not white space of the input still to
  come, wherever the buffer ends fall, and leaves what follows it.\<close>

lemma nextToken_spec:
  assumes "wf_iter it" "dropWhile is_space (pending it) = c # rest"
  shows "\<exists>it'. nextToken it = (c, it')
    \<and> consumes it (takeWhile is_space (pending it) @ [c]) it' \<and> can_unread c it' \<and> pending it' = rest"
  using assms
proof (induction it rule: nextToken.induct)
  case (1 it)
  let ?P = "\<lambda>c. \<not> is_space c"
  have b: "0 \<le> head it" "tail it \<le> int (length (buf it))" using "1.prems" by (auto simp: wf_iter_def)
  show ?case
  proof (cases "find_from ?P (buf it) (head it) (tail it)")
    case (Some k)
    note f = find_from_Some [OF Some b]
    let ?it' = "it\<lparr>head := k + 1\<rparr>"
    have w: "gslice (buf it) (head it) (k + 1) = gslice (buf it) (head it) k @ [byte_at (buf it) k]"
      using f b gslice_snoc [of "head it" "k + 1" "buf it"] by auto
    have con: "consumes it (gslice (buf it) (head it) k @ [byte_at (buf it) k]) ?it'"
      using consumes_head [of it "k + 1"] "1.prems"(1) f w by simp
    have p: "pending it = gslice (buf it) (head it) k @ byte_at (buf it) k # pending ?it'"
      using consumes_pending [OF con] by simp
    have "byte_at (buf it) k = c \<and> pending ?it' = rest \<and> takeWhile is_space (pending it) = gslice (buf it) (head it) k"
      using dropWhile_span [OF p [symmetric], of is_space] f "1.prems"(2) by auto
    moreover have "can_unread c ?it'"
      using f b "1.prems"(1) calculation by (auto simp: can_unread_def wf_iter_def)
    ultimately show ?thesis using Some con nextToken.simps [of it] by auto
  next
    case None
    note f = find_from_None [OF None b]
    show ?thesis
    proof (cases "loadMore it")
      case (Pair ok it1)
      have "rest_bytes it \<noteq> []"
        using "1.prems"(2) f by (auto simp: pending_def dropWhile_append)
      with Pair "1.prems"(1) loadMore_rest have ok: ok by force
      then have con: "consumes it (gslice (buf it) (head it) (tail it)) it1"
        using loadMore_True [of it it1] Pair "1.prems"(1) by simp
      have p: "pending it = gslice (buf it) (head it) (tail it) @ pending it1"
        using consumes_pending [OF con] .
      have "dropWhile is_space (pending it1) = c # rest"
        using "1.prems"(2) p f by (simp add: dropWhile_append)
      then obtain it' where it': "nextToken it1 = (c, it')"
        "consumes it1 (takeWhile is_space (pending it1) @ [c]) it'" "can_unread c it'" "pending it' = rest"
        using "1.IH" [OF None Pair [symmetric]] ok consumes_wf [OF con] by blast
      have "nextToken it = (c, it')" using None Pair ok it'(1) by (simp add: nextToken.simps [of it])
      moreover have "takeWhile is_space (pending it)
          = gslice (buf it) (head it) (tail it) @ takeWhile is_space (pending it1)"
        using p f by (simp add: takeWhile_append)
      moreover have "consumes it (gslice (buf it) (head it) (tail it)
          @ takeWhile is_space (pending it1) @ [c]) it'"
        using consumes_trans [OF con it'(2)] .
      ultimately show ?thesis using it' by auto
    qed
  qed
qed

text \<open>With only white space left it returns 0, and the error records why.\<close>

lemma nextToken_end:
  assumes "wf_iter it" "dropWhile is_space (pending it) = []"
  shows "\<exists>it'. nextToken it = (0, it') \<and> wf_iter it' \<and> same_frame it it' \<and> depth it' = depth it
    \<and> Error it' = Some (final_err it)
    \<and> dropWhile is_space (gslice (buf it') (head it') (tail it')) = []"
  using assms
proof (induction it rule: nextToken.induct)
  case (1 it)
  let ?P = "\<lambda>c. \<not> is_space c"
  have b: "0 \<le> head it" "tail it \<le> int (length (buf it))" using "1.prems" by (auto simp: wf_iter_def)
  have none: "find_from ?P (buf it) (head it) (tail it) = None"
  proof (rule ccontr)
    assume "\<not> ?thesis"
    then obtain k where "find_from ?P (buf it) (head it) (tail it) = Some k" by auto
    note f = find_from_Some [OF this b]
    then have "byte_at (buf it) k \<in> set (pending it)" "\<not> is_space (byte_at (buf it) k)" by (auto simp: pending_def)
    with "1.prems"(2) show False by auto
  qed
  show ?case
  proof (cases "loadMore it")
    case (Pair ok it1)
    show ?thesis
    proof (cases ok)
      case True
      then have con: "consumes it (gslice (buf it) (head it) (tail it)) it1"
        using loadMore_True [of it it1] Pair "1.prems"(1) by simp
      have p: "pending it = gslice (buf it) (head it) (tail it) @ pending it1"
        using consumes_pending [OF con] .
      then have "dropWhile is_space (pending it1) = []" using "1.prems"(2) by auto
      then obtain it' where it': "nextToken it1 = (0, it')" "wf_iter it'" "same_frame it1 it'"
        "depth it' = depth it1" "Error it' = Some (final_err it1)"
        "dropWhile is_space (gslice (buf it') (head it') (tail it')) = []"
        using "1.IH" [OF none Pair [symmetric]] True consumes_wf [OF con] by blast
      have "final_err it1 = final_err it" using consumes_final_err [OF con] .
      with it' con True none Pair show ?thesis
        by (auto simp: nextToken.simps [of it] consumes_def dest: same_frame_trans)
    next
      case False
      have "dropWhile is_space (gslice (buf it) k (tail it)) = []"
        if "k = head it \<or> k = tail it" for k
        using that find_from_None [OF none b] by (auto simp: dropWhile_eq_Nil_conv)
      with False none Pair loadMore_False [of it it1] "1.prems"(1) show ?thesis
        by (fastforce simp: nextToken.simps [of it])
    qed
  qed
qed

lemma unreadByte_spec:
  assumes "consumes it (xs @ [c]) it'" "can_unread c it'" "Error it' = None"
  shows "consumes it xs (unreadByte it') \<and> pending (unreadByte it') = c # pending it'"
proof -
  have wf: "wf_iter it'" using consumes_wf [OF assms(1)] .
  let ?u = "it'\<lparr>head := head it' - 1\<rparr>"
  have g: "gslice (buf it') (head it' - 1) (tail it') = c # gslice (buf it') (head it') (tail it')"
    using wf assms(2) gslice_Cons [of "head it' - 1" "tail it'" "buf it'"]
    by (auto simp: wf_iter_def can_unread_def)
  have cap: "gslice (buf it') (captureStartedAt it') (head it')
      = gslice (buf it') (captureStartedAt it') (head it' - 1) @ [c]" if "captured it' \<noteq> None"
    using wf that assms(2) gslice_snoc [of "captureStartedAt it'" "head it'" "buf it'"]
    by (auto simp: wf_iter_def can_unread_def)
  have "pending ?u = c # pending it'"
    using g by (simp add: pending_def rest_bytes_def)
  moreover have "cap_log ?u = map_option (\<lambda>l. l @ xs) (cap_log it)"
    using assms(1) cap by (cases "captured it'"; cases "cap_log it") (auto simp: consumes_def cap_log_def)
  moreover have "wf_iter ?u" using wf assms(2) by (auto simp: wf_iter_def can_unread_def)
  ultimately show ?thesis using assms
    by (auto simp: unreadByte_def consumes_def same_frame_def end_err_def)
qed

lemma readByte_spec:
  assumes "wf_iter it" "pending it = c # rest"
  shows "\<exists>it'. readByte it = (c, it') \<and> consumes it [c] it' \<and> can_unread c it' \<and> pending it' = rest"
proof -
  have step: "consumes j [c] (j\<lparr>head := head j + 1\<rparr>) \<and> can_unread c (j\<lparr>head := head j + 1\<rparr>)
      \<and> pending (j\<lparr>head := head j + 1\<rparr>) = rest \<and> byte_at (buf j) (head j) = c"
    if j: "wf_iter j" "pending j = c # rest" "head j < tail j" for j
  proof -
    have "gslice (buf j) (head j) (head j + 1) = [byte_at (buf j) (head j)]"
      using j gslice_Cons [of "head j" "head j + 1" "buf j"] by (simp add: wf_iter_def)
    then have con: "consumes j [byte_at (buf j) (head j)] (j\<lparr>head := head j + 1\<rparr>)"
      using consumes_head [of j "head j + 1"] j by simp
    then have "byte_at (buf j) (head j) = c \<and> pending (j\<lparr>head := head j + 1\<rparr>) = rest"
      using j(2) consumes_pending [OF con] by simp
    with con j show ?thesis by (auto simp: can_unread_def wf_iter_def)
  qed
  show ?thesis
  proof (cases "head it = tail it")
    case False
    then have "head it < tail it" using assms(1) by (simp add: wf_iter_def)
    with step [of it] assms False show ?thesis by (auto simp: readByte_def)
  next
    case True
    then have "rest_bytes it \<noteq> []" using assms(2) by (simp add: pending_def)
    then obtain it1 where l: "loadMore it = (True, it1)"
      using loadMore_rest [OF assms(1)] by (cases "loadMore it") auto
    with loadMore_True assms(1) True have con: "consumes it [] it1" "head it1 = 0" "0 < tail it1"
      by fastforce+
    then have "pending it1 = c # rest" using consumes_pending [of it "[]" it1] assms(2) by simp
    then have st: "consumes it1 [c] (it1\<lparr>head := head it1 + 1\<rparr>)" "can_unread c (it1\<lparr>head := head it1 + 1\<rparr>)"
      "pending (it1\<lparr>head := head it1 + 1\<rparr>) = rest" "byte_at (buf it1) (head it1) = c"
      using step [of it1] consumes_wf [OF con(1)] con(2,3) by auto
    then show ?thesis using l True consumes_trans [OF con(1) st(1)] by (auto simp: readByte_def)
  qed
qed

lemma readByte_end:
  assumes "wf_iter it" "pending it = []"
  shows "\<exists>it'. readByte it = (0, it') \<and> wf_iter it' \<and> same_frame it it' \<and> depth it' = depth it
    \<and> Error it' = Some (final_err it) \<and> head it' = tail it'"
proof -
  have e: "gslice (buf it) (head it) (tail it) = []" "rest_bytes it = []"
    using assms(2) by (auto simp: pending_def)
  then have h: "head it = tail it"
    using assms(1) gslice_Cons [of "head it" "tail it" "buf it"] by (fastforce simp: wf_iter_def)
  obtain ok it1 where l: "loadMore it = (ok, it1)" by force
  then have "\<not> ok" using loadMore_rest [OF assms(1)] e by force
  with l loadMore_False [of it it1] assms(1) h show ?thesis by (auto simp: readByte_def)
qed

text \<open>\<open>WhatIsNext\<close> peeks: it classifies the next token and consumes only white space.\<close>

lemma WhatIsNext_spec:
  assumes "wf_iter it" "Error it = None" "dropWhile is_space (pending it) = c # rest"
  shows "\<exists>it'. WhatIsNext it = (valueTypes c, it')
    \<and> consumes it (takeWhile is_space (pending it)) it' \<and> pending it' = c # rest"
proof -
  from nextToken_spec [OF assms(1,3)] obtain it1 where n: "nextToken it = (c, it1)"
    "consumes it (takeWhile is_space (pending it) @ [c]) it1" "can_unread c it1" "pending it1 = rest"
    by blast
  have "Error it1 = None" using consumes_Error [OF n(2)] assms(2) by simp
  from unreadByte_spec [OF n(2,3) this] n(1,4) show ?thesis by (simp add: WhatIsNext_def)
qed

text \<open>\<open>isNextTokenBuffered\<close> skips white space only, never refills the buffer, and when it
  answers yes the next token needs no refill either.\<close>

lemma isNextTokenBuffered_True:
  assumes "isNextTokenBuffered it = (True, it')" "wf_iter it"
  shows "\<exists>c rest. dropWhile is_space (pending it) = c # rest
    \<and> consumes it (takeWhile is_space (pending it)) it' \<and> pending it' = c # rest
    \<and> (\<exists>k. it' = it\<lparr>head := k\<rparr> \<and> nextToken it' = (c, it\<lparr>head := k + 1\<rparr>))"
proof -
  have b: "0 \<le> head it" "tail it \<le> int (length (buf it))" using assms by (auto simp: wf_iter_def)
  from assms obtain k where k: "find_from (\<lambda>c. \<not> is_space c) (buf it) (head it) (tail it) = Some k"
    and it': "it' = it\<lparr>head := k\<rparr>"
    by (auto simp: isNextTokenBuffered_def split: if_splits option.splits)
  note f = find_from_Some [OF k b]
  have con: "consumes it (gslice (buf it) (head it) k) it'"
    unfolding it' using f assms(2) by (intro consumes_head) auto
  have pk: "pending it' = byte_at (buf it) k # gslice (buf it) (k + 1) (tail it) @ rest_bytes it"
    using f b it' gslice_Cons [of k "tail it" "buf it"] by (simp add: pending_def rest_bytes_def)
  have "find_from (\<lambda>c. \<not> is_space c) (buf it') (head it') (tail it') = Some k"
    using f it' by (simp add: find_from.simps [of _ _ k])
  then have "nextToken it' = (byte_at (buf it) k, it\<lparr>head := k + 1\<rparr>)"
    using it' by (simp add: nextToken.simps [of "it\<lparr>head := k\<rparr>"])
  moreover have "dropWhile is_space (pending it) = pending it'"
    "takeWhile is_space (pending it) = gslice (buf it) (head it) k"
    using dropWhile_span [of "gslice (buf it) (head it) k" "byte_at (buf it) k" _ "pending it" is_space]
      consumes_pending [OF con] pk f by auto
  ultimately show ?thesis using con pk it' by auto
qed

lemma isNextTokenBuffered_False:
  "isNextTokenBuffered it = (False, it') \<Longrightarrow> it' = it"
  by (auto simp: isNextTokenBuffered_def split: if_splits option.splits)

section \<open>Errors and depth\<close>

definition failed :: "iterator \<Rightarrow> bool" where
  "failed it \<longleftrightarrow> Error it \<noteq> None \<and> Error it \<noteq> Some EOF"

lemma ReportError_failed [simp]: "failed (ReportError op msg it)"
  by (simp add: failed_def ReportError_def Let_def)

lemma ReportError_sticky: "failed it \<Longrightarrow> ReportError op msg it = it"
  by (simp add: failed_def ReportError_def)

lemma ReportError_upd: "ReportError op msg it = it\<lparr>Error := Error (ReportError op msg it)\<rparr>"
  by (simp add: ReportError_def Let_def)

lemma ReportError_frame [simp]:
  "cfg (ReportError op msg it) = cfg it" "reader (ReportError op msg it) = reader it"
  "buf (ReportError op msg it) = buf it" "head (ReportError op msg it) = head it"
  "tail (ReportError op msg it) = tail it" "depth (ReportError op msg it) = depth it"
  "captured (ReportError op msg it) = captured it"
  "captureStartedAt (ReportError op msg it) = captureStartedAt it"
  "wf_iter (ReportError op msg it) = wf_iter it" "pending (ReportError op msg it) = pending it"
  by (subst ReportError_upd, simp add: pending_def rest_bytes_def)+

lemma ReportError_Error_not_None [simp]: "Error (ReportError op msg it) \<noteq> None"
  using ReportError_failed [of op msg it] unfolding failed_def by blast

lemma unreadByte_frame [simp]:
  "cfg (unreadByte it) = cfg it" "reader (unreadByte it) = reader it"
  "buf (unreadByte it) = buf it" "tail (unreadByte it) = tail it"
  "depth (unreadByte it) = depth it" "Error (unreadByte it) = Error it"
  "captured (unreadByte it) = captured it"
  by (auto simp: unreadByte_def)

lemma unreadByte_Error: "Error it \<noteq> None \<Longrightarrow> unreadByte it = it"
  by (simp add: unreadByte_def)

lemma incrementDepth_ok:
  "depth it < maxDepth \<Longrightarrow> incrementDepth it = (True, it\<lparr>depth := depth it + 1\<rparr>)"
  by (simp add: incrementDepth_def Let_def)

lemma incrementDepth_limit:
  "maxDepth \<le> depth it \<Longrightarrow> incrementDepth it
     = (False, ReportError ''incrementDepth'' ''exceeded max depth'' (it\<lparr>depth := depth it + 1\<rparr>))"
  by (simp add: incrementDepth_def Let_def)

lemma decrementDepth_ok:
  "1 \<le> depth it \<Longrightarrow> decrementDepth it = (True, it\<lparr>depth := depth it - 1\<rparr>)"
  by (simp add: decrementDepth_def Let_def)

lemma fst_incrementDepth: "fst (incrementDepth it) \<longleftrightarrow> depth it < maxDepth"
  by (simp add: incrementDepth_def Let_def)

end
