(* ===== verification/IterLiteral.thy ===== *)
theory IterLiteral
  imports Iter
begin

text \<open>
  The parts of \<open>iter_skip.go\<close> below \<open>Skip\<close>: the fixed literals \<open>null\<close>, \<open>true\<close>,
  \<open>false\<close>, \<open>ReadNil\<close>, \<open>ReadBool\<close>, and the capture of raw input. A panic of
  the code is the result \<open>None\<close>.
\<close>

section \<open>Literals\<close>

definition skipThreeBytes :: "byte \<Rightarrow> byte \<Rightarrow> byte \<Rightarrow> iterator \<Rightarrow> iterator" where
  "skipThreeBytes b1 b2 b3 it =
     (let msg = ''expect '' @ byte_str b1 @ byte_str b2 @ byte_str b3 in
      case readByte it of (c1, it1) \<Rightarrow>
      if c1 \<noteq> b1 then ReportError ''skipThreeBytes'' msg it1 else
      case readByte it1 of (c2, it2) \<Rightarrow>
      if c2 \<noteq> b2 then ReportError ''skipThreeBytes'' msg it2 else
      case readByte it2 of (c3, it3) \<Rightarrow>
      if c3 \<noteq> b3 then ReportError ''skipThreeBytes'' msg it3 else it3)"

definition skipFourBytes :: "byte \<Rightarrow> byte \<Rightarrow> byte \<Rightarrow> byte \<Rightarrow> iterator \<Rightarrow> iterator" where
  "skipFourBytes b1 b2 b3 b4 it =
     (let msg = ''expect '' @ byte_str b1 @ byte_str b2 @ byte_str b3 @ byte_str b4 in
      case readByte it of (c1, it1) \<Rightarrow>
      if c1 \<noteq> b1 then ReportError ''skipFourBytes'' msg it1 else
      case readByte it1 of (c2, it2) \<Rightarrow>
      if c2 \<noteq> b2 then ReportError ''skipFourBytes'' msg it2 else
      case readByte it2 of (c3, it3) \<Rightarrow>
      if c3 \<noteq> b3 then ReportError ''skipFourBytes'' msg it3 else
      case readByte it3 of (c4, it4) \<Rightarrow>
      if c4 \<noteq> b4 then ReportError ''skipFourBytes'' msg it4 else it4)"

definition ReadNil :: "iterator \<Rightarrow> bool \<times> iterator" where
  "ReadNil it =
     (case nextToken it of (c, it1) \<Rightarrow>
      if c = ch_n then (True, skipThreeBytes ch_u ch_l ch_l it1)
      else (False, unreadByte it1))"

definition ReadBool :: "iterator \<Rightarrow> bool \<times> iterator" where
  "ReadBool it =
     (case nextToken it of (c, it1) \<Rightarrow>
      if c = ch_t then (True, skipThreeBytes ch_r ch_u ch_e it1)
      else if c = ch_f then (False, skipFourBytes ch_a ch_l ch_s ch_e it1)
      else (False, ReportError ''ReadBool'' (''expect t or f, but found '' @ byte_str c) it1))"

section \<open>Capture\<close>

definition startCaptureTo :: "bytes \<Rightarrow> int \<Rightarrow> iterator \<Rightarrow> iterator option" where
  "startCaptureTo b startedAt it =
     (if captured it \<noteq> None then None
      else Some (it\<lparr>captureStartedAt := startedAt, captured := Some b\<rparr>))"

definition startCapture :: "int \<Rightarrow> iterator \<Rightarrow> iterator option" where
  "startCapture startedAt it = startCaptureTo [] startedAt it"

definition stopCapture :: "iterator \<Rightarrow> (bytes \<times> iterator) option" where
  "stopCapture it =
     (case captured it of
        None \<Rightarrow> None
      | Some cap \<Rightarrow>
          (let remaining = gslice (buf it) (captureStartedAt it) (head it)
           in Some (cap @ remaining, it\<lparr>captureStartedAt := -1, captured := None\<rparr>)))"

section \<open>What the literal readers accept\<close>

lemma readByte_frame:
  assumes "wf_iter it" "readByte it = (c, it')"
  shows "wf_iter it' \<and> depth it' = depth it \<and> same_frame it it'"
proof (cases "pending it")
  case Nil
  from readByte_end [OF assms(1) Nil] assms(2) show ?thesis by auto
next
  case (Cons x xs)
  from readByte_spec [OF assms(1) Cons] assms(2) show ?thesis by (auto simp: consumes_def)
qed

lemma readByte_Error:
  assumes "wf_iter it" "readByte it = (c, it')" "Error it' = None"
  shows "Error it = None \<and> pending it = c # pending it' \<and> consumes it [c] it'"
proof (cases "pending it")
  case Nil
  from readByte_end [OF assms(1) Nil] assms(2,3) show ?thesis by auto
next
  case (Cons x xs)
  from readByte_spec [OF assms(1) Cons] assms(2,3) Cons show ?thesis
    by (auto simp: consumes_Error)
qed

lemma skipThreeBytes_ok:
  assumes "wf_iter it" "pending it = b1 # b2 # b3 # rest"
  shows "consumes it [b1, b2, b3] (skipThreeBytes b1 b2 b3 it) \<and> pending (skipThreeBytes b1 b2 b3 it) = rest"
proof -
  from readByte_spec [OF assms] obtain it1 where 1: "readByte it = (b1, it1)" "consumes it [b1] it1"
    "pending it1 = b2 # b3 # rest" by blast
  from readByte_spec [OF consumes_wf [OF 1(2)] 1(3)] obtain it2 where
    2: "readByte it1 = (b2, it2)" "consumes it1 [b2] it2" "pending it2 = b3 # rest" by blast
  from readByte_spec [OF consumes_wf [OF 2(2)] 2(3)] obtain it3 where
    3: "readByte it2 = (b3, it3)" "consumes it2 [b3] it3" "pending it3 = rest" by blast
  have "consumes it [b1, b2, b3] it3"
    using consumes_trans [OF 1(2) consumes_trans [OF 2(2) 3(2)]] by simp
  with 1 2 3 show ?thesis by (simp add: skipThreeBytes_def Let_def)
qed

lemma skipFourBytes_ok:
  assumes "wf_iter it" "pending it = b1 # b2 # b3 # b4 # rest"
  shows "consumes it [b1, b2, b3, b4] (skipFourBytes b1 b2 b3 b4 it)
    \<and> pending (skipFourBytes b1 b2 b3 b4 it) = rest"
proof -
  from readByte_spec [OF assms] obtain it1 where 1: "readByte it = (b1, it1)" "consumes it [b1] it1"
    "pending it1 = b2 # b3 # b4 # rest" by blast
  from readByte_spec [OF consumes_wf [OF 1(2)] 1(3)] obtain it2 where
    2: "readByte it1 = (b2, it2)" "consumes it1 [b2] it2" "pending it2 = b3 # b4 # rest" by blast
  from readByte_spec [OF consumes_wf [OF 2(2)] 2(3)] obtain it3 where
    3: "readByte it2 = (b3, it3)" "consumes it2 [b3] it3" "pending it3 = b4 # rest" by blast
  from readByte_spec [OF consumes_wf [OF 3(2)] 3(3)] obtain it4 where
    4: "readByte it3 = (b4, it4)" "consumes it3 [b4] it4" "pending it4 = rest" by blast
  have "consumes it [b1, b2, b3, b4] it4"
    using consumes_trans [OF 1(2) consumes_trans [OF 2(2) consumes_trans [OF 3(2) 4(2)]]] by simp
  with 1 2 3 4 show ?thesis by (simp add: skipFourBytes_def Let_def)
qed

lemma skipThreeBytes_frame:
  assumes "wf_iter it"
  shows "wf_iter (skipThreeBytes b1 b2 b3 it) \<and> depth (skipThreeBytes b1 b2 b3 it) = depth it"
proof -
  obtain c1 it1 where 1: "readByte it = (c1, it1)" by force
  obtain c2 it2 where 2: "readByte it1 = (c2, it2)" by force
  obtain c3 it3 where 3: "readByte it2 = (c3, it3)" by force
  note m1 = readByte_frame [OF assms 1]
  note m2 = readByte_frame [OF conjunct1 [OF m1] 2]
  note m3 = readByte_frame [OF conjunct1 [OF m2] 3]
  from 1 2 3 m1 m2 m3 show ?thesis by (simp add: skipThreeBytes_def Let_def)
qed

lemma skipThreeBytes_Error:
  assumes "wf_iter it" "Error (skipThreeBytes b1 b2 b3 it) = None"
  shows "Error it = None \<and> (\<exists>rest. pending it = b1 # b2 # b3 # rest)"
proof -
  obtain c1 it1 where 1: "readByte it = (c1, it1)" by force
  obtain c2 it2 where 2: "readByte it1 = (c2, it2)" by force
  obtain c3 it3 where 3: "readByte it2 = (c3, it3)" by force
  note m1 = readByte_frame [OF assms(1) 1]
  note m2 = readByte_frame [OF conjunct1 [OF m1] 2]
  from assms(2) 1 2 3 have c: "c1 = b1" "c2 = b2" "c3 = b3" "Error it3 = None"
    by (auto simp: skipThreeBytes_def Let_def split: if_splits)
  from readByte_Error [OF conjunct1 [OF m2] 3 c(4)] have e3: "Error it2 = None" "pending it2 = c3 # pending it3"
    by simp_all
  from readByte_Error [OF conjunct1 [OF m1] 2 e3(1)] have e2: "Error it1 = None" "pending it1 = c2 # pending it2"
    by simp_all
  from readByte_Error [OF assms(1) 1 e2(1)] e2 e3 c show ?thesis by simp
qed

lemma skipFourBytes_frame:
  assumes "wf_iter it"
  shows "wf_iter (skipFourBytes b1 b2 b3 b4 it) \<and> depth (skipFourBytes b1 b2 b3 b4 it) = depth it"
proof -
  obtain c1 it1 where 1: "readByte it = (c1, it1)" by force
  obtain c2 it2 where 2: "readByte it1 = (c2, it2)" by force
  obtain c3 it3 where 3: "readByte it2 = (c3, it3)" by force
  obtain c4 it4 where 4: "readByte it3 = (c4, it4)" by force
  note m1 = readByte_frame [OF assms 1]
  note m2 = readByte_frame [OF conjunct1 [OF m1] 2]
  note m3 = readByte_frame [OF conjunct1 [OF m2] 3]
  note m4 = readByte_frame [OF conjunct1 [OF m3] 4]
  from 1 2 3 4 m1 m2 m3 m4 show ?thesis by (simp add: skipFourBytes_def Let_def)
qed

lemma skipFourBytes_Error:
  assumes "wf_iter it" "Error (skipFourBytes b1 b2 b3 b4 it) = None"
  shows "Error it = None \<and> (\<exists>rest. pending it = b1 # b2 # b3 # b4 # rest)"
proof -
  obtain c1 it1 where 1: "readByte it = (c1, it1)" by force
  obtain c2 it2 where 2: "readByte it1 = (c2, it2)" by force
  obtain c3 it3 where 3: "readByte it2 = (c3, it3)" by force
  obtain c4 it4 where 4: "readByte it3 = (c4, it4)" by force
  note m1 = readByte_frame [OF assms(1) 1]
  note m2 = readByte_frame [OF conjunct1 [OF m1] 2]
  note m3 = readByte_frame [OF conjunct1 [OF m2] 3]
  from assms(2) 1 2 3 4 have c: "c1 = b1" "c2 = b2" "c3 = b3" "c4 = b4" "Error it4 = None"
    by (auto simp: skipFourBytes_def Let_def split: if_splits)
  from readByte_Error [OF conjunct1 [OF m3] 4 c(5)] have e4: "Error it3 = None" "pending it3 = c4 # pending it4"
    by simp_all
  from readByte_Error [OF conjunct1 [OF m2] 3 e4(1)] have e3: "Error it2 = None" "pending it2 = c3 # pending it3"
    by simp_all
  from readByte_Error [OF conjunct1 [OF m1] 2 e3(1)] have e2: "Error it1 = None" "pending it1 = c2 # pending it2"
    by simp_all
  from readByte_Error [OF assms(1) 1 e2(1)] e2 e3 e4 c show ?thesis by simp
qed

lemma startCapture_log:
  assumes "startCaptureTo b (head it) it = Some it'" "wf_iter it"
  shows "wf_iter it' \<and> cap_log it' = Some b \<and> pending it' = pending it \<and> Error it' = Error it
    \<and> depth it' = depth it \<and> cfg it' = cfg it \<and> head it' = head it"
  using assms
  by (auto simp: startCaptureTo_def wf_iter_def cap_log_def pending_def rest_bytes_def split: if_splits)

lemma stopCapture_log: "cap_log it = Some l \<Longrightarrow> \<exists>it'. stopCapture it = Some (l, it') \<and> captured it' = None
    \<and> pending it' = pending it \<and> Error it' = Error it"
  by (auto simp: stopCapture_def cap_log_def pending_def rest_bytes_def)

end
