(* ===== verification/IterInt.thy ===== *)
theory IterInt
  imports IterLiteral
begin

text \<open>
  \<open>iter_int.go\<close>: reading integers of every width. \<open>readUint32\<close> and
  \<open>readUint64\<close> are the same code at two widths, so their body is written once over
  \<open>'a word\<close>: the unrolled fast path (used when more than ten bytes are buffered), the
  digit loop over the buffer and the outer loop that refills it.

  The lemmas show that the fast path computes what the digit loop computes, that both read
  exactly the run of digits that follows, across buffer ends, that the value is the decimal
  value modulo \<open>2 ^ w\<close>, and that a number that fits is never refused.
\<close>

section \<open>Definitions\<close>

definition invalidCharForNumber :: int where
  "invalidCharForNumber = -1"

definition intDigits :: "byte \<Rightarrow> int" where
  "intDigits c = (if is_digit c then int (digit_val c) else invalidCharForNumber)"

definition uint32SafeToMultiply10 :: u32 where
  "uint32SafeToMultiply10 = 0xffffffff div 10 - 1"

definition uint64SafeToMultiple10 :: u64 where
  "uint64SafeToMultiple10 = 0xffffffffffffffff div 10 - 1"

definition assertInteger :: "iterator \<Rightarrow> iterator" where
  "assertInteger it =
     (if head it < tail it \<and> byte_at (buf it) (head it) = ch_dot
      then ReportError ''assertInteger'' ''can not decode float as int'' it else it)"

text \<open>How the inner digit loop ends: at a byte that is no digit, by the overflow test, or at
  the end of the buffer.\<close>

datatype 'v digit_scan = ScanStop int 'v | ScanOverflow | ScanEnd 'v

function scan_digits :: "'a::len word \<Rightarrow> bytes \<Rightarrow> int \<Rightarrow> int \<Rightarrow> 'a word \<Rightarrow> 'a word digit_scan" where
  "scan_digits safe b i hi value =
     (if i < hi then
        let ind = intDigits (byte_at b i) in
        if ind = invalidCharForNumber then ScanStop i value
        else if value > safe then
          let value2 = push_bit 3 value + push_bit 1 value + word_of_int ind in
          if value2 < value then ScanOverflow else scan_digits safe b (i + 1) hi value2
        else scan_digits safe b (i + 1) hi (push_bit 3 value + push_bit 1 value + word_of_int ind)
      else ScanEnd value)"
  by pat_completeness auto
termination by (relation "measure (\<lambda>(s, b, i, hi, v). nat (hi - i))") auto

function readUint_loop :: "string \<Rightarrow> 'a::len word \<Rightarrow> 'a word \<Rightarrow> iterator \<Rightarrow> 'a word \<times> iterator" where
  "readUint_loop op safe value it =
     (case scan_digits safe (buf it) (head it) (tail it) value of
        ScanStop i v \<Rightarrow> (v, assertInteger (it\<lparr>head := i\<rparr>))
      | ScanOverflow \<Rightarrow> (0, ReportError op ''overflow'' it)
      | ScanEnd v \<Rightarrow>
          (case loadMore it of (ok, it') \<Rightarrow>
             if ok then readUint_loop op safe v it' else (v, assertInteger it')))"
  by pat_completeness auto
termination
  by (relation "measure (\<lambda>(op, s, v, it). reads_left it)") (auto dest: loadMore_decreases [OF sym])

declare scan_digits.simps [simp del] readUint_loop.simps [simp del]

text \<open>The unrolled prefix: \<open>Inl\<close> is a return from \<open>readUint32\<close>, \<open>Inr\<close> goes on to
  the loop with the value of the first eight digits.\<close>

definition readUint_fast ::
    "'a::len word \<Rightarrow> iterator \<Rightarrow> ('a word \<times> iterator) + ('a word \<times> iterator)" where
  "readUint_fast value it =
     (let i = head it; ind2 = intDigits (byte_at (buf it) i) in
      if ind2 = invalidCharForNumber then Inl (value, assertInteger (it\<lparr>head := i\<rparr>)) else
      let i = i + 1; ind3 = intDigits (byte_at (buf it) i) in
      if ind3 = invalidCharForNumber then
        Inl (value * 10 + word_of_int ind2, assertInteger (it\<lparr>head := i\<rparr>)) else
      let i = i + 1; ind4 = intDigits (byte_at (buf it) i) in
      if ind4 = invalidCharForNumber then
        Inl (value * 100 + word_of_int ind2 * 10 + word_of_int ind3, assertInteger (it\<lparr>head := i\<rparr>)) else
      let i = i + 1; ind5 = intDigits (byte_at (buf it) i) in
      if ind5 = invalidCharForNumber then
        Inl (value * 1000 + word_of_int ind2 * 100 + word_of_int ind3 * 10 + word_of_int ind4,
          assertInteger (it\<lparr>head := i\<rparr>)) else
      let i = i + 1; ind6 = intDigits (byte_at (buf it) i) in
      if ind6 = invalidCharForNumber then
        Inl (value * 10000 + word_of_int ind2 * 1000 + word_of_int ind3 * 100 + word_of_int ind4 * 10
          + word_of_int ind5, assertInteger (it\<lparr>head := i\<rparr>)) else
      let i = i + 1; ind7 = intDigits (byte_at (buf it) i) in
      if ind7 = invalidCharForNumber then
        Inl (value * 100000 + word_of_int ind2 * 10000 + word_of_int ind3 * 1000 + word_of_int ind4 * 100
          + word_of_int ind5 * 10 + word_of_int ind6, assertInteger (it\<lparr>head := i\<rparr>)) else
      let i = i + 1; ind8 = intDigits (byte_at (buf it) i) in
      if ind8 = invalidCharForNumber then
        Inl (value * 1000000 + word_of_int ind2 * 100000 + word_of_int ind3 * 10000
          + word_of_int ind4 * 1000 + word_of_int ind5 * 100 + word_of_int ind6 * 10 + word_of_int ind7,
          assertInteger (it\<lparr>head := i\<rparr>)) else
      let i = i + 1; ind9 = intDigits (byte_at (buf it) i);
          value = value * 10000000 + word_of_int ind2 * 1000000 + word_of_int ind3 * 100000
            + word_of_int ind4 * 10000 + word_of_int ind5 * 1000 + word_of_int ind6 * 100
            + word_of_int ind7 * 10 + word_of_int ind8;
          it = it\<lparr>head := i\<rparr> in
      if ind9 = invalidCharForNumber then Inl (value, assertInteger it) else Inr (value, it))"

definition readUint_gen :: "string \<Rightarrow> 'a::len word \<Rightarrow> byte \<Rightarrow> iterator \<Rightarrow> 'a word \<times> iterator" where
  "readUint_gen op safe c it =
     (let ind = intDigits c in
      if ind = 0 then (0, assertInteger it)
      else if ind = invalidCharForNumber then
        (0, ReportError op (''unexpected character: '' @ byte_str (word_of_int ind)) it)
      else
        let value = word_of_int ind in
        if tail it - head it > 10 then
          (case readUint_fast value it of
             Inl r \<Rightarrow> r
           | Inr (value', it') \<Rightarrow> readUint_loop op safe value' it')
        else readUint_loop op safe value it)"

definition readUint32 :: "byte \<Rightarrow> iterator \<Rightarrow> u32 \<times> iterator" where
  "readUint32 c it = readUint_gen ''readUint32'' uint32SafeToMultiply10 c it"

definition readUint64 :: "byte \<Rightarrow> iterator \<Rightarrow> u64 \<times> iterator" where
  "readUint64 c it = readUint_gen ''readUint64'' uint64SafeToMultiple10 c it"

definition ReadUint32 :: "iterator \<Rightarrow> u32 \<times> iterator" where
  "ReadUint32 it = (case nextToken it of (c, it1) \<Rightarrow> readUint32 c it1)"

definition ReadUint64 :: "iterator \<Rightarrow> u64 \<times> iterator" where
  "ReadUint64 it = (case nextToken it of (c, it1) \<Rightarrow> readUint64 c it1)"

definition overflow_msg :: "'a::len word \<Rightarrow> string" where
  "overflow_msg val = ''overflow: '' @ FormatInt (int (unat val))"

definition ReadInt8 :: "iterator \<Rightarrow> 8 word \<times> iterator" where
  "ReadInt8 it =
     (case nextToken it of (c, it1) \<Rightarrow>
      if c = ch_minus then
        (case readByte it1 of (c2, it2) \<Rightarrow>
         case readUint32 c2 it2 of (val, it3) \<Rightarrow>
         if val > 128 then (0, ReportError ''ReadInt8'' (overflow_msg val) it3) else (- ucast val, it3))
      else
        (case readUint32 c it1 of (val, it3) \<Rightarrow>
         if val > 127 then (0, ReportError ''ReadInt8'' (overflow_msg val) it3) else (ucast val, it3)))"

definition ReadUint8 :: "iterator \<Rightarrow> 8 word \<times> iterator" where
  "ReadUint8 it =
     (case nextToken it of (c, it1) \<Rightarrow> case readUint32 c it1 of (val, it2) \<Rightarrow>
      if val > 255 then (0, ReportError ''ReadUint8'' (overflow_msg val) it2) else (ucast val, it2))"

definition ReadInt16 :: "iterator \<Rightarrow> u16 \<times> iterator" where
  "ReadInt16 it =
     (case nextToken it of (c, it1) \<Rightarrow>
      if c = ch_minus then
        (case readByte it1 of (c2, it2) \<Rightarrow>
         case readUint32 c2 it2 of (val, it3) \<Rightarrow>
         if val > 32768 then (0, ReportError ''ReadInt16'' (overflow_msg val) it3) else (- ucast val, it3))
      else
        (case readUint32 c it1 of (val, it3) \<Rightarrow>
         if val > 32767 then (0, ReportError ''ReadInt16'' (overflow_msg val) it3) else (ucast val, it3)))"

definition ReadUint16 :: "iterator \<Rightarrow> u16 \<times> iterator" where
  "ReadUint16 it =
     (case nextToken it of (c, it1) \<Rightarrow> case readUint32 c it1 of (val, it2) \<Rightarrow>
      if val > 65535 then (0, ReportError ''ReadUint16'' (overflow_msg val) it2) else (ucast val, it2))"

definition ReadInt32 :: "iterator \<Rightarrow> u32 \<times> iterator" where
  "ReadInt32 it =
     (case nextToken it of (c, it1) \<Rightarrow>
      if c = ch_minus then
        (case readByte it1 of (c2, it2) \<Rightarrow>
         case readUint32 c2 it2 of (val, it3) \<Rightarrow>
         if val > 2147483648 then (0, ReportError ''ReadInt32'' (overflow_msg val) it3) else (- val, it3))
      else
        (case readUint32 c it1 of (val, it3) \<Rightarrow>
         if val > 2147483647 then (0, ReportError ''ReadInt32'' (overflow_msg val) it3) else (val, it3)))"

definition ReadInt64 :: "iterator \<Rightarrow> u64 \<times> iterator" where
  "ReadInt64 it =
     (case nextToken it of (c, it1) \<Rightarrow>
      if c = ch_minus then
        (case readByte it1 of (c2, it2) \<Rightarrow>
         case readUint64 c2 it2 of (val, it3) \<Rightarrow>
         if val > 9223372036854775808 then (0, ReportError ''ReadInt64'' (overflow_msg val) it3)
         else (- val, it3))
      else
        (case readUint64 c it1 of (val, it3) \<Rightarrow>
         if val > 9223372036854775807 then (0, ReportError ''ReadInt64'' (overflow_msg val) it3)
         else (val, it3)))"

text \<open>\<open>int\<close> and \<open>uint\<close> have the platform's width \<open>strconv.IntSize\<close>, 32 or 64;
  the result is given as the 64-bit word with the same value.\<close>

definition ReadUint :: "nat \<Rightarrow> iterator \<Rightarrow> u64 \<times> iterator" where
  "ReadUint intSize it =
     (if intSize = 32 then (case ReadUint32 it of (v, it') \<Rightarrow> (ucast v, it')) else ReadUint64 it)"

definition ReadInt :: "nat \<Rightarrow> iterator \<Rightarrow> u64 \<times> iterator" where
  "ReadInt intSize it =
     (if intSize = 32 then (case ReadInt32 it of (v, it') \<Rightarrow> (scast v, it')) else ReadInt64 it)"

section \<open>The digit loop\<close>

text \<open>What the loop does to the run of digits \<open>cs\<close>: multiply by ten and add modulo
  \<open>2 ^ w\<close>, with the code's overflow test (\<open>None\<close>).\<close>

fun fold_digits :: "'a::len word \<Rightarrow> 'a word \<Rightarrow> bytes \<Rightarrow> 'a word option" where
  "fold_digits safe v [] = Some v"
| "fold_digits safe v (c # cs) =
     (let v2 = 10 * v + of_nat (digit_val c)
      in if safe < v \<and> v2 < v then None else fold_digits safe v2 cs)"

lemma times10: "push_bit 3 v + push_bit 1 v = 10 * (v :: 'a::len word)"
  by (simp add: push_bit_eq_mult)

lemma intDigits_invalid [simp]: "intDigits c = invalidCharForNumber \<longleftrightarrow> \<not> is_digit c"
  by (simp add: intDigits_def invalidCharForNumber_def)

lemma intDigits_digit: "is_digit c \<Longrightarrow> intDigits c = int (digit_val c)"
  by (simp add: intDigits_def)

lemma scan_digits_unfold:
  "scan_digits safe b i hi v =
     (if i < hi then
        (if is_digit (byte_at b i) then
           (let v2 = 10 * v + of_nat (digit_val (byte_at b i))
            in if safe < v \<and> v2 < v then ScanOverflow else scan_digits safe b (i + 1) hi v2)
         else ScanStop i v)
      else ScanEnd v)"
  unfolding scan_digits.simps [of safe b i hi v] times10 Let_def
  by (simp add: intDigits_digit)

lemma fold_digits_append:
  "fold_digits safe v (xs @ ys) = Option.bind (fold_digits safe v xs) (\<lambda>v'. fold_digits safe v' ys)"
  by (induction safe v xs rule: fold_digits.induct) (auto simp: Let_def)

lemma scan_digits_spec:
  assumes "0 \<le> i" "hi \<le> int (length b)"
  shows "scan_digits safe b i hi v =
    (case fold_digits safe v (takeWhile is_digit (gslice b i hi)) of
       None \<Rightarrow> ScanOverflow
     | Some v' \<Rightarrow> if list_all is_digit (gslice b i hi) then ScanEnd v'
         else ScanStop (i + int (length (takeWhile is_digit (gslice b i hi)))) v')"
  using assms
proof (induction safe b i hi v rule: scan_digits.induct)
  case (1 safe b i hi v)
  show ?case
  proof (cases "i < hi")
    case False
    then show ?thesis by (simp add: scan_digits.simps [of safe b i hi v])
  next
    case True
    note g = gslice_Cons [OF "1.prems"(1) True "1.prems"(2)]
    show ?thesis
    proof (cases "is_digit (byte_at b i)")
      case False
      with True g show ?thesis by (simp add: scan_digits_unfold [of safe b i hi v])
    next
      case d: True
      let ?v2 = "10 * v + of_nat (digit_val (byte_at b i))"
      show ?thesis
      proof (cases "safe < v \<and> ?v2 < v")
        case ov: True
        with True d g show ?thesis
          by (simp add: scan_digits_unfold [of safe b i hi v] Let_def)
      next
        case nov: False
        have v2: "push_bit 3 v + push_bit 1 v + word_of_int (intDigits (byte_at b i)) = ?v2"
          unfolding times10 using d by (simp add: intDigits_digit)
        have unf: "scan_digits safe b i hi v = scan_digits safe b (i + 1) hi ?v2"
          using True d nov by (auto simp: scan_digits_unfold [of safe b i hi v] Let_def)
        have "scan_digits safe b (i + 1) hi ?v2 =
          (case fold_digits safe ?v2 (takeWhile is_digit (gslice b (i + 1) hi)) of
             None \<Rightarrow> ScanOverflow
           | Some v' \<Rightarrow> if list_all is_digit (gslice b (i + 1) hi) then ScanEnd v'
               else ScanStop (i + 1 + int (length (takeWhile is_digit (gslice b (i + 1) hi)))) v')"
        proof (cases "safe < v")
          case True
          show ?thesis
            using "1.IH"(1) [OF \<open>i < hi\<close> refl _ True refl, unfolded v2] d nov True "1.prems" by simp
        next
          case False
          show ?thesis
            using "1.IH"(2) [OF \<open>i < hi\<close> refl _ False, unfolded v2] d "1.prems" by simp
        qed
        with unf g d nov show ?thesis by (auto simp: Let_def add.assoc split: option.split)
      qed
    qed
  qed
qed

lemma assertInteger_frame:
  "wf_iter (assertInteger it) = wf_iter it" "pending (assertInteger it) = pending it"
  "depth (assertInteger it) = depth it"
  by (auto simp: assertInteger_def)

text \<open>What reading the rest of a number gives, from the value \<open>v\<close> of the digits already
  read: the overflow error, the value at the end of the input, or the value and the iterator on
  the byte after the digits (where a dot is reported by \<open>assertInteger\<close>).\<close>

definition uint_spec :: "'a::len word \<Rightarrow> 'a word \<Rightarrow> iterator \<Rightarrow> 'a word \<times> iterator \<Rightarrow> bool" where
  "uint_spec safe v it r \<longleftrightarrow>
     (case fold_digits safe v (takeWhile is_digit (pending it)) of
        None \<Rightarrow> fst r = 0 \<and> failed (snd r)
      | Some v' \<Rightarrow>
          (case dropWhile is_digit (pending it) of
             [] \<Rightarrow> fst r = v' \<and> wf_iter (snd r) \<and> depth (snd r) = depth it
               \<and> Error (snd r) = Some (final_err it)
           | x # xs \<Rightarrow> (\<exists>it1. r = (v', assertInteger it1)
               \<and> consumes it (takeWhile is_digit (pending it)) it1 \<and> pending it1 = x # xs
               \<and> head it1 < tail it1 \<and> byte_at (buf it1) (head it1) = x)))"

lemma uint_spec_advance:
  assumes "consumes it ds it1" "list_all is_digit ds" "fold_digits safe v ds = Some v1"
    "uint_spec safe v1 it1 r"
  shows "uint_spec safe v it r"
proof -
  have p: "pending it = ds @ pending it1" using consumes_pending [OF assms(1)] .
  have tw: "takeWhile is_digit (pending it) = ds @ takeWhile is_digit (pending it1)"
    and dw: "dropWhile is_digit (pending it) = dropWhile is_digit (pending it1)"
    using p assms(2) by (auto simp: list_all_iff takeWhile_append dropWhile_append)
  have fd: "fold_digits safe v (takeWhile is_digit (pending it))
      = fold_digits safe v1 (takeWhile is_digit (pending it1))"
    by (simp add: tw fold_digits_append assms(3))
  show ?thesis
  proof (cases "fold_digits safe v1 (takeWhile is_digit (pending it1))")
    case None
    with assms(4) fd show ?thesis by (simp add: uint_spec_def)
  next
    case (Some v')
    show ?thesis
    proof (cases "dropWhile is_digit (pending it1)")
      case Nil
      with assms(4) have "fst r = v' \<and> wf_iter (snd r) \<and> depth (snd r) = depth it1
          \<and> Error (snd r) = Some (final_err it1)"
        unfolding uint_spec_def Some Nil by simp
      then show ?thesis
        unfolding uint_spec_def fd Some dw Nil
        using consumes_depth [OF assms(1)] consumes_final_err [OF assms(1)] by simp
    next
      case (Cons x xs)
      with assms(4) obtain it2 where it2: "r = (v', assertInteger it2)"
        "consumes it1 (takeWhile is_digit (pending it1)) it2" "pending it2 = x # xs"
        "head it2 < tail it2" "byte_at (buf it2) (head it2) = x"
        unfolding uint_spec_def Some Cons by auto
      have "consumes it (takeWhile is_digit (pending it)) it2"
        using consumes_trans [OF assms(1) it2(2)] tw by simp
      with it2 show ?thesis unfolding uint_spec_def fd Some dw Cons by auto
    qed
  qed
qed

lemma uint_spec_stop:
  assumes "consumes it ds it1" "list_all is_digit ds" "fold_digits safe v ds = Some v1"
    "head it1 < tail it1" "\<not> is_digit (byte_at (buf it1) (head it1))"
  shows "uint_spec safe v it (v1, assertInteger it1)"
proof (rule uint_spec_advance [OF assms(1-3)])
  have wf: "wf_iter it1" using consumes_wf [OF assms(1)] .
  then have p: "pending it1 = byte_at (buf it1) (head it1) # gslice (buf it1) (head it1 + 1) (tail it1) @ rest_bytes it1"
    using assms(4) by (simp add: pending_def wf_iter_def gslice_Cons)
  show "uint_spec safe v1 it1 (v1, assertInteger it1)"
    using assms(4,5) p consumes_refl [OF wf] by (auto simp: uint_spec_def)
qed

text \<open>The outer loop reads the whole run of digits, wherever the buffer ends fall.\<close>

lemma readUint_loop_spec: "wf_iter it \<Longrightarrow> uint_spec safe v it (readUint_loop op safe v it)"
proof (induction op safe v it rule: readUint_loop.induct)
  case (1 op safe v it)
  let ?g = "gslice (buf it) (head it) (tail it)"
  let ?ds = "takeWhile is_digit ?g"
  let ?k = "head it + int (length ?ds)"
  have b: "0 \<le> head it" "head it \<le> tail it" "tail it \<le> int (length (buf it))"
    using "1.prems" by (auto simp: wf_iter_def)
  note sc = scan_digits_spec [OF b(1,3), of safe v]
  have ds: "list_all is_digit ?ds" by (auto simp: list_all_iff dest: set_takeWhileD)
  show ?case
  proof (cases "fold_digits safe v ?ds")
    case None
    obtain zs where "takeWhile is_digit (pending it) = ?ds @ zs"
      using takeWhile_append_prefix unfolding pending_def by blast
    then have "fold_digits safe v (takeWhile is_digit (pending it)) = None"
      by (simp add: None fold_digits_append)
    with sc None show ?thesis by (simp add: readUint_loop.simps [of op safe v it] uint_spec_def)
  next
    case (Some v1)
    show ?thesis
    proof (cases "list_all is_digit ?g")
      case False
      have "length ?ds < length ?g" using False by (intro length_takeWhile_lt) (auto simp: list_all_iff)
      then have k: "head it \<le> ?k" "?k < tail it" using b by auto
      have sp: "?g = gslice (buf it) (head it) ?k @ gslice (buf it) ?k (tail it)"
        using k b by (intro gslice_append) auto
      moreover have "length (gslice (buf it) (head it) ?k) = length ?ds" using k b by simp
      ultimately have gk: "gslice (buf it) (head it) ?k = ?ds"
        "dropWhile is_digit ?g = gslice (buf it) ?k (tail it)"
        using takeWhile_dropWhile_id [of is_digit ?g] by (metis append_eq_append_conv)+
      have con: "consumes it ?ds (it\<lparr>head := ?k\<rparr>)"
        using consumes_head [OF "1.prems", of ?k] k gk by simp
      have "\<not> is_digit (byte_at (buf it) ?k)"
        using gk(2) k b gslice_Cons [of ?k "tail it" "buf it"] hd_dropWhile [of is_digit ?g] by auto
      then have "uint_spec safe v it (v1, assertInteger (it\<lparr>head := ?k\<rparr>))"
        using uint_spec_stop [OF con ds Some] k by simp
      with sc Some False show ?thesis by (simp add: readUint_loop.simps [of op safe v it])
    next
      case True
      note tg = takeWhile_all [OF True]
      have se: "scan_digits safe (buf it) (head it) (tail it) v = ScanEnd v1"
        using sc True Some by simp
      obtain ok it1 where l: "loadMore it = (ok, it1)" by force
      show ?thesis
      proof (cases ok)
        case ok: True
        with l have lt: "loadMore it = (True, it1)" by simp
        from loadMore_True [OF lt "1.prems"] have con: "consumes it ?g it1" by simp
        have "readUint_loop op safe v it = readUint_loop op safe v1 it1"
          using se lt by (simp add: readUint_loop.simps [of op safe v it])
        moreover have "uint_spec safe v1 it1 (readUint_loop op safe v1 it1)"
          using "1.IH" [OF se l [symmetric] ok consumes_wf [OF con]] .
        ultimately show ?thesis using uint_spec_advance [OF con True] Some tg by simp
      next
        case False
        with l have lf: "loadMore it = (False, it1)" by simp
        note f = loadMore_False [OF lf "1.prems"]
        have "byte_at (buf it1) (head it1) \<noteq> ch_dot" if "head it1 < tail it1"
        proof -
          from that f have "head it1 = head it" "tail it1 = tail it" "buf it1 = buf it" by auto
          then have "is_digit (byte_at (buf it1) (head it1))"
            using True that b gslice_Cons [of "head it" "tail it" "buf it"] by simp
          then show ?thesis by (auto simp: is_digit_def)
        qed
        then have "assertInteger it1 = it1" by (auto simp: assertInteger_def)
        then have unf: "readUint_loop op safe v it = (v1, it1)"
          using se lf by (simp add: readUint_loop.simps [of op safe v it])
        have dn: "dropWhile is_digit (pending it) = []" and tn: "takeWhile is_digit (pending it) = ?g"
          using f True tg by (auto simp: pending_def list_all_iff)
        have "fold_digits safe v ?g = Some v1" using Some tg by simp
        then show ?thesis unfolding uint_spec_def tn dn unf using f by simp
      qed
    qed
  qed
qed

section \<open>The value read\<close>

lemma fold_digits_value:
  "fold_digits safe (of_nat n) cs = Some v \<Longrightarrow> v = of_nat (dec_val_from n cs)"
proof (induction cs arbitrary: n)
  case (Cons c cs)
  have "10 * of_nat n + of_nat (digit_val c) = (of_nat (10 * n + digit_val c) :: 'a word)" by simp
  with Cons show ?case by (simp add: Let_def split: if_splits del: of_nat_add of_nat_mult)
qed simp

text \<open>A number that fits is never refused.\<close>

lemma fold_digits_fits:
  "dec_val_from n cs < 2 ^ LENGTH('a)
    \<Longrightarrow> fold_digits safe (of_nat n :: 'a::len word) cs = Some (of_nat (dec_val_from n cs))"
proof (induction cs arbitrary: n)
  case (Cons c cs)
  let ?m = "10 * n + digit_val c"
  have le: "n \<le> ?m" "?m \<le> dec_val_from ?m cs" by (auto intro: dec_val_from_ge)
  then have m: "?m < 2 ^ LENGTH('a)" using Cons.prems by simp
  have v2: "10 * of_nat n + of_nat (digit_val c) = (of_nat ?m :: 'a word)" by simp
  have "\<not> (of_nat ?m :: 'a word) < of_nat n"
    using m le by (simp add: word_less_nat_alt of_nat_inverse del: of_nat_add of_nat_mult)
  with Cons v2 show ?case by (simp add: Let_def del: of_nat_add of_nat_mult)
qed simp

lemma dec_val_from_bound:
  assumes "list_all is_digit ds" "length ds \<le> 7" "n \<le> 9"
  shows "dec_val_from n ds < 10 ^ 8"
proof -
  have "dec_val ds < 10 ^ length ds" using assms(1) by (intro dec_val_less) (auto simp: list_all_iff)
  then have "dec_val_from n ds < (n + 1) * 10 ^ length ds" by (simp add: dec_val_from_eq)
  also have "\<dots> \<le> 10 * 10 ^ length ds" using assms(3) by (intro mult_right_mono) auto
  also have "\<dots> \<le> 10 * 10 ^ 7" using assms(2) by (intro mult_left_mono power_increasing) auto
  finally show ?thesis by simp
qed

section \<open>The unrolled fast path\<close>

lemma fast_prefix:
  assumes "wf_iter it" "head it \<le> k" "k \<le> tail it" "k \<le> head it + 7" "n \<le> 9"
    "list_all is_digit (gslice (buf it) (head it) k)" "10 ^ 8 \<le> (2::nat) ^ LENGTH('a)"
  shows "consumes it (gslice (buf it) (head it) k) (it\<lparr>head := k\<rparr>)
    \<and> fold_digits safe (of_nat n :: 'a::len word) (gslice (buf it) (head it) k)
        = Some (of_nat (dec_val_from n (gslice (buf it) (head it) k)))"
proof -
  have "length (gslice (buf it) (head it) k) \<le> 7" using assms by (simp add: wf_iter_def)
  then have "dec_val_from n (gslice (buf it) (head it) k) < 10 ^ 8"
    using dec_val_from_bound assms by blast
  then have "dec_val_from n (gslice (buf it) (head it) k) < 2 ^ LENGTH('a)" using assms(7) by linarith
  with consumes_head [OF assms(1-3)] fold_digits_fits show ?thesis by blast
qed

lemma fast_stop:
  assumes "wf_iter it" "head it \<le> k" "k < tail it" "k \<le> head it + 7" "n \<le> 9"
    "list_all is_digit (gslice (buf it) (head it) k)" "10 ^ 8 \<le> (2::nat) ^ LENGTH('a)"
    "\<not> is_digit (byte_at (buf it) k)"
    "value = (of_nat (dec_val_from n (gslice (buf it) (head it) k)) :: 'a::len word)"
  shows "uint_spec safe (of_nat n) it (value, assertInteger (it\<lparr>head := k\<rparr>))"
proof -
  have "k \<le> tail it" using assms(3) by simp
  note f = fast_prefix [OF assms(1,2) this assms(4-7), of safe]
  show ?thesis
    unfolding assms(9)
    by (rule uint_spec_stop [OF conjunct1 [OF f] assms(6) conjunct2 [OF f]]) (use assms in auto)
qed

definition fast_spec :: "'a::len word \<Rightarrow> 'a word \<Rightarrow> iterator
    \<Rightarrow> ('a word \<times> iterator) + ('a word \<times> iterator) \<Rightarrow> bool" where
  "fast_spec safe v it r \<longleftrightarrow>
     (case r of
        Inl r1 \<Rightarrow> uint_spec safe v it r1
      | Inr (v1, it1) \<Rightarrow> (\<exists>ds. consumes it ds it1 \<and> list_all is_digit ds
          \<and> fold_digits safe v ds = Some v1))"

lemma readUint_fast_spec:
  assumes wf: "wf_iter it" and room: "tail it - head it > 10" and n: "n \<le> 9"
    and w: "10 ^ 8 \<le> (2::nat) ^ LENGTH('a)"
  shows "fast_spec safe (of_nat n :: 'a::len word) it (readUint_fast (of_nat n) it)"
proof -
  let ?x = "byte_at (buf it) (head it)" and ?y = "byte_at (buf it) (head it + 1)"
  let ?a = "\<lambda>k. byte_at (buf it) (k + head it)"
  let ?g = "\<lambda>k. gslice (buf it) (head it) k"
  have h: "0 \<le> head it" "tail it \<le> int (length (buf it))" using wf by (auto simp: wf_iter_def)
  have g: "?g (head it) = []"
    "?g (head it + 1) = [?x]"
    "?g (2 + head it) = [?x, ?y]"
    "?g (3 + head it) = [?x, ?y, ?a 2]"
    "?g (4 + head it) = [?x, ?y, ?a 2, ?a 3]"
    "?g (5 + head it) = [?x, ?y, ?a 2, ?a 3, ?a 4]"
    "?g (6 + head it) = [?x, ?y, ?a 2, ?a 3, ?a 4, ?a 5]"
    "?g (7 + head it) = [?x, ?y, ?a 2, ?a 3, ?a 4, ?a 5, ?a 6]"
    using h room by (simp_all add: gslice_Cons)
  have c0: "\<not> is_digit (?x) \<Longrightarrow> ?thesis"
    using fast_stop [OF wf _ _ _ n _ w, of "head it" _ safe] g room
    by (simp add: fast_spec_def readUint_fast_def Let_def intDigits_digit algebra_simps)
  have c1: "is_digit (?x) \<Longrightarrow> \<not> is_digit (?y) \<Longrightarrow> ?thesis"
    using fast_stop [OF wf _ _ _ n _ w, of "head it + 1" _ safe] g room
    by (simp add: fast_spec_def readUint_fast_def Let_def intDigits_digit algebra_simps)
  have c2: "is_digit (?x) \<Longrightarrow> is_digit (?y) \<Longrightarrow> \<not> is_digit (?a 2) \<Longrightarrow> ?thesis"
    using fast_stop [OF wf _ _ _ n _ w, of "2 + head it" _ safe] g room
    by (simp add: fast_spec_def readUint_fast_def Let_def intDigits_digit algebra_simps)
  have c3: "is_digit (?x) \<Longrightarrow> is_digit (?y) \<Longrightarrow> is_digit (?a 2) \<Longrightarrow> \<not> is_digit (?a 3) \<Longrightarrow> ?thesis"
    using fast_stop [OF wf _ _ _ n _ w, of "3 + head it" _ safe] g room
    by (simp add: fast_spec_def readUint_fast_def Let_def intDigits_digit algebra_simps)
  have c4: "is_digit (?x) \<Longrightarrow> is_digit (?y) \<Longrightarrow> is_digit (?a 2) \<Longrightarrow> is_digit (?a 3) \<Longrightarrow> \<not> is_digit (?a 4) \<Longrightarrow> ?thesis"
    using fast_stop [OF wf _ _ _ n _ w, of "4 + head it" _ safe] g room
    by (simp add: fast_spec_def readUint_fast_def Let_def intDigits_digit algebra_simps)
  have c5: "is_digit (?x) \<Longrightarrow> is_digit (?y) \<Longrightarrow> is_digit (?a 2) \<Longrightarrow> is_digit (?a 3) \<Longrightarrow> is_digit (?a 4) \<Longrightarrow> \<not> is_digit (?a 5) \<Longrightarrow> ?thesis"
    using fast_stop [OF wf _ _ _ n _ w, of "5 + head it" _ safe] g room
    by (simp add: fast_spec_def readUint_fast_def Let_def intDigits_digit algebra_simps)
  have c6: "is_digit (?x) \<Longrightarrow> is_digit (?y) \<Longrightarrow> is_digit (?a 2) \<Longrightarrow> is_digit (?a 3) \<Longrightarrow> is_digit (?a 4) \<Longrightarrow> is_digit (?a 5) \<Longrightarrow> \<not> is_digit (?a 6) \<Longrightarrow> ?thesis"
    using fast_stop [OF wf _ _ _ n _ w, of "6 + head it" _ safe] g room
    by (simp add: fast_spec_def readUint_fast_def Let_def intDigits_digit algebra_simps)
  have c7: "is_digit (?x) \<Longrightarrow> is_digit (?y) \<Longrightarrow> is_digit (?a 2) \<Longrightarrow> is_digit (?a 3) \<Longrightarrow> is_digit (?a 4) \<Longrightarrow> is_digit (?a 5) \<Longrightarrow> is_digit (?a 6) \<Longrightarrow> \<not> is_digit (?a 7) \<Longrightarrow> ?thesis"
    using fast_stop [OF wf _ _ _ n _ w, of "7 + head it" _ safe] g room
    by (simp add: fast_spec_def readUint_fast_def Let_def intDigits_digit algebra_simps)
  have c8: "is_digit (?x) \<Longrightarrow> is_digit (?y) \<Longrightarrow> is_digit (?a 2) \<Longrightarrow> is_digit (?a 3) \<Longrightarrow> is_digit (?a 4) \<Longrightarrow> is_digit (?a 5) \<Longrightarrow> is_digit (?a 6) \<Longrightarrow> is_digit (?a 7) \<Longrightarrow> ?thesis"
    using fast_prefix [OF wf _ _ _ n _ w, of "7 + head it" safe] g room
    by (auto simp: fast_spec_def readUint_fast_def Let_def intDigits_digit algebra_simps)
  show ?thesis using c0 c1 c2 c3 c4 c5 c6 c7 c8 by blast
qed

text \<open>The fast path and the loop together: what follows a first digit other than zero.\<close>

lemma readUint_gen_spec:
  assumes wf: "wf_iter it" and c: "is_digit c" "c \<noteq> ch_0"
    and w: "10 ^ 8 \<le> (2::nat) ^ LENGTH('a)"
  shows "uint_spec safe (of_nat (digit_val c) :: 'a::len word) it (readUint_gen op safe c it)"
proof -
  have n: "digit_val c \<le> 9" using digit_val_less [OF c(1)] by simp
  have nz: "intDigits c \<noteq> 0"
  proof
    assume "intDigits c = 0"
    then have "digit_val c = 0" using c(1) by (simp add: intDigits_digit)
    then have "c - 48 = 0" by (simp add: digit_val_def unat_eq_0)
    with c(2) show False by simp
  qed
  have v: "word_of_int (intDigits c) = (of_nat (digit_val c) :: 'a word)"
    using c(1) by (simp add: intDigits_digit)
  show ?thesis
  proof (cases "tail it - head it > 10")
    case False
    with c nz v readUint_loop_spec [OF wf] show ?thesis by (simp add: readUint_gen_def Let_def)
  next
    case True
    note f = readUint_fast_spec [OF wf True n w, of safe]
    show ?thesis
    proof (cases "readUint_fast (of_nat (digit_val c) :: 'a word) it")
      case (Inl r)
      with f True c nz v show ?thesis by (simp add: readUint_gen_def Let_def fast_spec_def)
    next
      case (Inr p)
      obtain v1 it1 where p: "p = (v1, it1)" by force
      with f Inr obtain ds where ds: "consumes it ds it1" "list_all is_digit ds"
        "fold_digits safe (of_nat (digit_val c)) ds = Some v1" by (auto simp: fast_spec_def)
      have "uint_spec safe (of_nat (digit_val c)) it (readUint_loop op safe v1 it1)"
        by (rule uint_spec_advance [OF ds readUint_loop_spec [OF consumes_wf [OF ds(1)]]])
      with Inr p True c nz v show ?thesis by (simp add: readUint_gen_def Let_def)
    qed
  qed
qed

text \<open>A byte that ends a number: no digit, and no dot (which the integer readers refuse).\<close>

definition ends_int :: "byte \<Rightarrow> bool" where
  "ends_int c \<longleftrightarrow> \<not> is_digit c \<and> c \<noteq> ch_dot"

lemma dec_bytes_Cons:
  assumes "dec_bytes n = c # cs"
  shows "is_digit c" "list_all is_digit cs" "dec_val_from (digit_val c) cs = n"
    "0 < n \<Longrightarrow> c \<noteq> ch_0" "n = 0 \<Longrightarrow> c = ch_0 \<and> cs = []"
proof -
  show "is_digit c" "list_all is_digit cs"
    using dec_bytes_digits [of n] assms by (auto simp: list_all_iff)
  show "dec_val_from (digit_val c) cs = n"
    using dec_val_dec_bytes [of n] assms by (simp add: dec_val_def)
  show "0 < n \<Longrightarrow> c \<noteq> ch_0" using hd_dec_bytes [of n] assms by simp
  show "n = 0 \<Longrightarrow> c = ch_0 \<and> cs = []" using assms by (simp add: dec_bytes.simps [of 0])
qed

lemma assertInteger_id: "byte_at (buf it) (head it) \<noteq> ch_dot \<Longrightarrow> assertInteger it = it"
  by (simp add: assertInteger_def)

lemma head_pending:
  assumes "wf_iter it" "head it < tail it"
  shows "\<exists>xs. pending it = byte_at (buf it) (head it) # xs"
  using assms gslice_Cons [of "head it" "tail it" "buf it"] by (auto simp: pending_def wf_iter_def)

text \<open>The decimal numeral of a number that fits reads back as that number.\<close>

lemma readUint_gen_dec:
  assumes "wf_iter it" "dec_bytes n = c # cs" "pending it = cs @ r # rs" "ends_int r"
    and w: "10 ^ 8 \<le> (2::nat) ^ LENGTH('a)" and n: "n < 2 ^ LENGTH('a)"
  shows "\<exists>it'. readUint_gen op safe c it = (of_nat n :: 'a::len word, it')
    \<and> consumes it cs it' \<and> pending it' = r # rs"
proof (cases "n = 0")
  case True
  then have c: "c = ch_0" "cs = []" using dec_bytes_Cons(5) [OF assms(2)] by auto
  have "assertInteger it = it"
  proof (cases "head it < tail it")
    case True
    with head_pending [OF assms(1)] assms(3) c have "byte_at (buf it) (head it) = r" by auto
    with assms(4) show ?thesis by (intro assertInteger_id) (simp add: ends_int_def)
  qed (simp add: assertInteger_def)
  moreover have "intDigits ch_0 = 0" by (simp add: intDigits_def is_digit_def digit_val_def)
  ultimately show ?thesis using c assms(1,3) True consumes_refl [OF assms(1)]
    by (simp add: readUint_gen_def Let_def)
next
  case False
  note d = dec_bytes_Cons [OF assms(2)]
  have dw: "dropWhile is_digit (pending it) = r # rs" and tw: "takeWhile is_digit (pending it) = cs"
    using dropWhile_span [of cs r rs "pending it" is_digit] assms(3,4) d(2)
    by (auto simp: ends_int_def list_all_iff)
  have f: "fold_digits safe (of_nat (digit_val c) :: 'a word) cs = Some (of_nat n)"
    using fold_digits_fits [of "digit_val c" cs] d(3) n by simp
  have "uint_spec safe (of_nat (digit_val c) :: 'a word) it (readUint_gen op safe c it)"
    using readUint_gen_spec assms(1) d(1,4) False w by blast
  then obtain it1 where it1: "readUint_gen op safe c it = (of_nat n :: 'a word, assertInteger it1)"
    "consumes it cs it1" "pending it1 = r # rs" "byte_at (buf it1) (head it1) = r"
    unfolding uint_spec_def tw dw f by auto
  then show ?thesis using assms(4) by (auto simp: assertInteger_id ends_int_def)
qed

lemma readUint_gen_dec_end:
  assumes "wf_iter it" "dec_bytes n = c # cs" "pending it = cs" "0 < n"
    and w: "10 ^ 8 \<le> (2::nat) ^ LENGTH('a)" and n: "n < 2 ^ LENGTH('a)"
  shows "\<exists>it'. readUint_gen op safe c it = (of_nat n :: 'a::len word, it')
    \<and> wf_iter it' \<and> depth it' = depth it \<and> Error it' = Some (final_err it)"
proof -
  note d = dec_bytes_Cons [OF assms(2)]
  have dw: "dropWhile is_digit (pending it) = []" and tw: "takeWhile is_digit (pending it) = cs"
    using assms(3) d(2) by (auto simp: takeWhile_all list_all_iff)
  have f: "fold_digits safe (of_nat (digit_val c) :: 'a word) cs = Some (of_nat n)"
    using fold_digits_fits [of "digit_val c" cs] d(3) n by simp
  have "uint_spec safe (of_nat (digit_val c) :: 'a word) it (readUint_gen op safe c it)"
    using readUint_gen_spec assms(1) d(1,4) assms(4) w by blast
  then show ?thesis unfolding uint_spec_def tw dw f by (cases "readUint_gen op safe c it") auto
qed

text \<open>A first byte that is no digit is refused.\<close>

lemma readUint_gen_bad: "\<not> is_digit c \<Longrightarrow> failed (snd (readUint_gen op safe c it))"
  by (auto simp: readUint_gen_def Let_def intDigits_def invalidCharForNumber_def)

section \<open>Signed and narrow readers on a decimal numeral\<close>

definition int_text :: "int \<Rightarrow> bytes" where
  "int_text i = (if i < 0 then ch_minus # dec_bytes (nat (- i)) else dec_bytes (nat i))"

text \<open>The text in front of the iterator: white space, the numeral of \<open>i\<close>, then \<open>rest\<close>.\<close>

definition at_int :: "iterator \<Rightarrow> bytes \<Rightarrow> int \<Rightarrow> bytes \<Rightarrow> bool" where
  "at_int it ws i rest \<longleftrightarrow> wf_iter it \<and> list_all is_space ws \<and> pending it = ws @ int_text i @ rest
     \<and> (\<exists>r rs. rest = r # rs \<and> ends_int r)"

lemma nextToken_at:
  assumes "wf_iter it" "list_all is_space ws" "pending it = ws @ c # rest" "\<not> is_space c"
  shows "\<exists>it1. nextToken it = (c, it1) \<and> consumes it (ws @ [c]) it1 \<and> can_unread c it1
    \<and> pending it1 = rest"
proof -
  have "dropWhile is_space (pending it) = c # rest" "takeWhile is_space (pending it) = ws"
    using dropWhile_span [of ws c rest "pending it" is_space] assms by (auto simp: list_all_iff)
  with nextToken_spec [OF assms(1)] show ?thesis by metis
qed

lemma digit_not_space: "is_digit c \<Longrightarrow> \<not> is_space c \<and> c \<noteq> ch_minus"
  by (auto simp: is_digit_def is_space_def)

text \<open>Both readers of magnitudes, after the sign has been dealt with as the code does.\<close>

lemma read_magnitude:
  assumes "at_int it ws i rest" and w: "10 ^ 8 \<le> (2::nat) ^ LENGTH('a)" and n: "nat \<bar>i\<bar> < 2 ^ LENGTH('a)"
  shows "\<exists>c it1. nextToken it = (c, it1) \<and> (c = ch_minus \<longleftrightarrow> i < 0) \<and>
    (\<exists>c2 it2 it3. (if i < 0 then readByte it1 = (c2, it2) else c2 = c \<and> it2 = it1)
       \<and> readUint_gen op safe c2 it2 = (of_nat (nat \<bar>i\<bar>) :: 'a::len word, it3)
       \<and> consumes it (ws @ int_text i) it3 \<and> pending it3 = rest)"
proof -
  from assms(1) have wf: "wf_iter it" and ws: "list_all is_space ws"
    and p: "pending it = ws @ int_text i @ rest" by (auto simp: at_int_def)
  from assms(1) obtain r rs where r: "rest = r # rs" "ends_int r" by (auto simp: at_int_def)
  obtain c cs where d: "dec_bytes (nat \<bar>i\<bar>) = c # cs"
    using dec_bytes_nonempty [of "nat \<bar>i\<bar>"] by (cases "dec_bytes (nat \<bar>i\<bar>)") auto
  have dg: "\<not> is_space c" "c \<noteq> ch_minus" using dec_bytes_Cons(1) [OF d] digit_not_space by auto
  show ?thesis
  proof (cases "i < 0")
    case False
    then have t: "int_text i = c # cs" using d by (simp add: int_text_def)
    obtain it1 where 1: "nextToken it = (c, it1)" "consumes it (ws @ [c]) it1" "pending it1 = cs @ rest"
      using nextToken_at [OF wf ws, of c "cs @ rest"] p t dg by auto
    obtain it2 where 2: "readUint_gen op safe c it1 = (of_nat (nat \<bar>i\<bar>) :: 'a word, it2)"
      "consumes it1 cs it2" "pending it2 = rest"
      using readUint_gen_dec [OF consumes_wf [OF 1(2)] d _ r(2) w n] 1(3) r(1) by metis
    have "consumes it (ws @ int_text i) it2" using consumes_trans [OF 1(2) 2(2)] t by simp
    with 1 2 False dg show ?thesis by auto
  next
    case True
    then have t: "int_text i = ch_minus # c # cs" using d by (simp add: int_text_def)
    obtain it1 where 1: "nextToken it = (ch_minus, it1)" "consumes it (ws @ [ch_minus]) it1"
      "pending it1 = c # cs @ rest"
      using nextToken_at [OF wf ws, of ch_minus "c # cs @ rest"] p t by (auto simp: is_space_def)
    obtain it2 where 2: "readByte it1 = (c, it2)" "consumes it1 [c] it2" "pending it2 = cs @ rest"
      using readByte_spec [OF consumes_wf [OF 1(2)] 1(3)] by auto
    obtain it3 where 3: "readUint_gen op safe c it2 = (of_nat (nat \<bar>i\<bar>) :: 'a word, it3)"
      "consumes it2 cs it3" "pending it3 = rest"
      using readUint_gen_dec [OF consumes_wf [OF 2(2)] d _ r(2) w n] 2(3) r(1) by metis
    have "consumes it (ws @ int_text i) it3"
      using consumes_trans [OF 1(2) consumes_trans [OF 2(2) 3(2)]] t by simp
    with 1 2 3 True show ?thesis by auto
  qed
qed

lemma readUint_specs:
  assumes "wf_iter it" "is_digit c" "c \<noteq> ch_0"
  shows "uint_spec uint32SafeToMultiply10 (of_nat (digit_val c)) it (readUint32 c it)"
    "uint_spec uint64SafeToMultiple10 (of_nat (digit_val c)) it (readUint64 c it)"
  unfolding readUint32_def readUint64_def by (rule readUint_gen_spec [OF assms]; simp)+

lemma ucast_of_nat_small:
  "k < 2 ^ LENGTH('a) \<Longrightarrow> ucast (of_nat k :: 'a::len word) = (of_nat k :: 'b::len word)"
  by (simp add: unsigned_of_nat take_bit_nat_eq_self)

lemma magnitude_word:
  "i < 0 \<Longrightarrow> - (of_nat (nat \<bar>i\<bar>) :: 'a::len word) = of_int i"
  "0 \<le> i \<Longrightarrow> (of_nat (nat \<bar>i\<bar>) :: 'a::len word) = of_int i"
  by simp_all

lemma magnitude_cmp:
  assumes "nat \<bar>i\<bar> < 2 ^ LENGTH('a)"
  shows "(of_nat (nat \<bar>i\<bar>) :: 'a::len word) > k \<longleftrightarrow> \<bar>i\<bar> > int (unat k)"
proof -
  have "unat (of_nat (nat \<bar>i\<bar>) :: 'a word) = nat \<bar>i\<bar>" using assms of_nat_inverse by blast
  then show ?thesis by (simp add: word_less_nat_alt zless_nat_eq_int_zless)
qed

text \<open>Each signed reader \<open>rd\<close> returns the number where it fits in its \<open>w\<close> bits.\<close>

definition reads_int :: "(iterator \<Rightarrow> 'a::len word \<times> iterator) \<Rightarrow> int \<Rightarrow> int \<Rightarrow> bool" where
  "reads_int rdr lo hi \<longleftrightarrow>
     (\<forall>it ws i rest. at_int it ws i rest \<longrightarrow> lo \<le> i \<longrightarrow> i \<le> hi \<longrightarrow>
        (\<exists>it'. rdr it = (of_int i, it') \<and> consumes it (ws @ int_text i) it' \<and> pending it' = rest))"

text \<open>\<dots> and refuses it, with result 0, where it does not (up to \<open>m\<close>).\<close>

definition refuses_int :: "(iterator \<Rightarrow> 'a::len word \<times> iterator) \<Rightarrow> int \<Rightarrow> int \<Rightarrow> int \<Rightarrow> bool" where
  "refuses_int rdr lo hi m \<longleftrightarrow>
     (\<forall>it ws i rest. at_int it ws i rest \<longrightarrow> \<not> (lo \<le> i \<and> i \<le> hi) \<longrightarrow> \<bar>i\<bar> < m \<longrightarrow>
        fst (rdr it) = 0 \<and> failed (snd (rdr it)))"

lemma w32: "10 ^ 8 \<le> (2::nat) ^ LENGTH(32)" and w64: "10 ^ 8 \<le> (2::nat) ^ LENGTH(64)"
  by simp_all

text \<open>The shape shared by the signed readers: \<open>f\<close> reads the magnitude, \<open>neg\<close> and
  \<open>pos\<close> are the bounds of the two overflow tests, \<open>conv\<close> the conversion to the result.\<close>

definition read_signed :: "string \<Rightarrow> (byte \<Rightarrow> iterator \<Rightarrow> 'a::len word \<times> iterator) \<Rightarrow> 'a word
    \<Rightarrow> 'a word \<Rightarrow> ('a word \<Rightarrow> 'b::len word) \<Rightarrow> iterator \<Rightarrow> 'b word \<times> iterator" where
  "read_signed op f neg pos conv it =
     (case nextToken it of (c, it1) \<Rightarrow>
      if c = ch_minus then
        (case readByte it1 of (c2, it2) \<Rightarrow>
         case f c2 it2 of (val, it3) \<Rightarrow>
         if val > neg then (0, ReportError op (overflow_msg val) it3) else (- conv val, it3))
      else
        (case f c it1 of (val, it3) \<Rightarrow>
         if val > pos then (0, ReportError op (overflow_msg val) it3) else (conv val, it3)))"

lemma signed_readers:
  "ReadInt8 = read_signed ''ReadInt8'' readUint32 128 127 ucast"
  "ReadInt16 = read_signed ''ReadInt16'' readUint32 32768 32767 ucast"
  "ReadInt32 = read_signed ''ReadInt32'' readUint32 2147483648 2147483647 (\<lambda>v. v)"
  "ReadInt64 = read_signed ''ReadInt64'' readUint64 9223372036854775808 9223372036854775807 (\<lambda>v. v)"
  by (auto simp: fun_eq_iff ReadInt8_def ReadInt16_def ReadInt32_def ReadInt64_def read_signed_def)

lemma read_signed_result:
  assumes "at_int it ws i rest" "10 ^ 8 \<le> (2::nat) ^ LENGTH('a)" "nat \<bar>i\<bar> < 2 ^ LENGTH('a)"
    and conv: "conv (of_nat (nat \<bar>i\<bar>) :: 'a::len word) = (of_nat (nat \<bar>i\<bar>) :: 'b::len word)"
  shows "\<exists>it'. consumes it (ws @ int_text i) it' \<and> pending it' = rest
    \<and> read_signed op (readUint_gen op' safe) neg pos conv it =
       (if \<bar>i\<bar> > int (unat (if i < 0 then neg else pos))
        then (0, ReportError op (overflow_msg (of_nat (nat \<bar>i\<bar>) :: 'a word)) it') else (of_int i, it'))"
proof -
  define M where "M = (of_nat (nat \<bar>i\<bar>) :: 'a word)"
  have cmp: "M > k \<longleftrightarrow> \<bar>i\<bar> > int (unat k)" for k
    unfolding M_def by (rule magnitude_cmp [OF assms(3)])
  have conv': "conv M = (of_nat (nat \<bar>i\<bar>) :: 'b word)" using conv by (simp add: M_def)
  from read_magnitude [OF assms(1-3), of op' safe] obtain c it1 c2 it2 it3 where
    r: "nextToken it = (c, it1)" "(c = ch_minus) = (i < 0)"
      "if i < 0 then readByte it1 = (c2, it2) else c2 = c \<and> it2 = it1"
      "readUint_gen op' safe c2 it2 = (M, it3)"
      "consumes it (ws @ int_text i) it3" "pending it3 = rest" unfolding M_def by metis
  have "read_signed op (readUint_gen op' safe) neg pos conv it =
       (if \<bar>i\<bar> > int (unat (if i < 0 then neg else pos))
        then (0, ReportError op (overflow_msg M) it3) else (of_int i, it3))"
  proof (cases "i < 0")
    case True
    with r conv' magnitude_word(1) [OF True, where 'a = 'b] show ?thesis
      by (simp add: read_signed_def cmp)
  next
    case False
    with r conv' magnitude_word(2) [of i, where 'a = 'b] show ?thesis
      by (simp add: read_signed_def cmp)
  qed
  with r(5,6) show ?thesis unfolding M_def by blast
qed

lemma read_signed_ok:
  assumes "\<And>c it. f c it = readUint_gen op' safe c (it :: iterator)"
    and "10 ^ 8 \<le> (2::nat) ^ LENGTH('a)" "int (unat neg) < 2 ^ LENGTH('a)" "int (unat pos) < int (unat neg)"
    and conv: "\<And>k. k < 2 ^ LENGTH('a) \<Longrightarrow> conv (of_nat k :: 'a::len word) = (of_nat k :: 'b::len word)"
  shows "reads_int (read_signed op f neg pos conv) (- int (unat neg)) (int (unat pos))
    \<and> refuses_int (read_signed op f neg pos conv) (- int (unat neg)) (int (unat pos)) (2 ^ LENGTH('a))"
proof -
  have f: "f = readUint_gen op' safe" using assms(1) by blast
  have lim: "nat \<bar>i\<bar> < 2 ^ LENGTH('a)" if "\<bar>i\<bar> < 2 ^ LENGTH('a)" for i
    using that by (simp add: nat_less_iff)
  have 1: "\<exists>it'. read_signed op f neg pos conv it = (of_int i, it') \<and> consumes it (ws @ int_text i) it'
      \<and> pending it' = rest"
    if "at_int it ws i rest" "- int (unat neg) \<le> i" "i \<le> int (unat pos)" for it ws i rest
  proof -
    have "\<bar>i\<bar> < 2 ^ LENGTH('a)" using that assms(3,4) by linarith
    then have l: "nat \<bar>i\<bar> < 2 ^ LENGTH('a)" by (rule lim)
    note res = read_signed_result [where conv = conv, OF that(1) assms(2) l conv [OF l], of op op' safe neg pos]
    obtain it' where "consumes it (ws @ int_text i) it'" "pending it' = rest"
      "read_signed op f neg pos conv it =
       (if \<bar>i\<bar> > int (unat (if i < 0 then neg else pos))
        then (0, ReportError op (overflow_msg (of_nat (nat \<bar>i\<bar>) :: 'a word)) it') else (of_int i, it'))"
      using res
      unfolding f by blast
    with that show ?thesis by (cases "i < 0") auto
  qed
  have 2: "fst (read_signed op f neg pos conv it) = 0 \<and> failed (snd (read_signed op f neg pos conv it))"
    if "at_int it ws i rest" "\<not> (- int (unat neg) \<le> i \<and> i \<le> int (unat pos))" "\<bar>i\<bar> < 2 ^ LENGTH('a)"
    for it ws i rest
  proof -
    have l: "nat \<bar>i\<bar> < 2 ^ LENGTH('a)" using that(3) by (rule lim)
    note res = read_signed_result [where conv = conv, OF that(1) assms(2) l conv [OF l], of op op' safe neg pos]
    obtain it' where
      "read_signed op f neg pos conv it =
       (if \<bar>i\<bar> > int (unat (if i < 0 then neg else pos))
        then (0, ReportError op (overflow_msg (of_nat (nat \<bar>i\<bar>) :: 'a word)) it') else (of_int i, it'))"
      using res
      unfolding f by blast
    moreover have "\<bar>i\<bar> > int (unat (if i < 0 then neg else pos))"
      using that(2) unsigned_greater_eq [of neg, where ?'a = int] unsigned_greater_eq [of pos, where ?'a = int]
      by (cases "i < 0") auto
    ultimately show ?thesis by simp
  qed
  show ?thesis using 1 2 by (auto simp: reads_int_def refuses_int_def)
qed

lemma readUint_funs: "readUint32 = readUint_gen ''readUint32'' uint32SafeToMultiply10"
  "readUint64 = readUint_gen ''readUint64'' uint64SafeToMultiple10"
  by (simp_all add: fun_eq_iff readUint32_def readUint64_def)

text \<open>\<dots> and of the unsigned readers of fewer than 32 bits.\<close>

definition read_unsigned :: "string \<Rightarrow> (byte \<Rightarrow> iterator \<Rightarrow> 'a::len word \<times> iterator) \<Rightarrow> 'a word
    \<Rightarrow> ('a word \<Rightarrow> 'b::len word) \<Rightarrow> iterator \<Rightarrow> 'b word \<times> iterator" where
  "read_unsigned op f lim conv it =
     (case nextToken it of (c, it1) \<Rightarrow> case f c it1 of (val, it2) \<Rightarrow>
      if val > lim then (0, ReportError op (overflow_msg val) it2) else (conv val, it2))"

lemma unsigned_readers:
  "ReadUint8 = read_unsigned ''ReadUint8'' readUint32 255 ucast"
  "ReadUint16 = read_unsigned ''ReadUint16'' readUint32 65535 ucast"
  "ReadUint32 = read_unsigned ''ReadUint32'' readUint32 (- 1) (\<lambda>v. v)"
  "ReadUint64 = read_unsigned ''ReadUint64'' readUint64 (- 1) (\<lambda>v. v)"
  by (auto simp: fun_eq_iff ReadUint8_def ReadUint16_def ReadUint32_def ReadUint64_def read_unsigned_def
      not_less word_order.extremum split: prod.splits)

lemma read_unsigned_ok:
  assumes f: "f = readUint_gen op' safe" and w: "10 ^ 8 \<le> (2::nat) ^ LENGTH('a)"
    and a: "at_int it ws i rest" "0 \<le> i" "i < 2 ^ LENGTH('a)"
    and conv: "conv (of_nat (nat i) :: 'a::len word) = (of_nat (nat i) :: 'b::len word)"
  shows "\<exists>it'. consumes it (ws @ int_text i) it' \<and> pending it' = rest
    \<and> read_unsigned op f lim conv it =
       (if i > int (unat lim) then (0, ReportError op (overflow_msg (of_int i :: 'a word)) it')
        else (of_int i, it'))"
proof -
  have l: "nat \<bar>i\<bar> < 2 ^ LENGTH('a)" using a(2,3) by (simp add: nat_less_iff)
  define M where "M = (of_nat (nat \<bar>i\<bar>) :: 'a word)"
  have M: "M = of_int i" using a(2) by (simp add: M_def)
  have cmp: "M > lim \<longleftrightarrow> i > int (unat lim)"
    unfolding M_def using magnitude_cmp [OF l, of lim] a(2) by simp
  have c: "conv M = of_int i" using conv a(2) by (simp add: M_def)
  from read_magnitude [OF a(1) w l, of op' safe] obtain c it1 it3 where
    "nextToken it = (c, it1)" "readUint_gen op' safe c it1 = (M, it3)"
    "consumes it (ws @ int_text i) it3" "pending it3 = rest"
    unfolding M_def using a(2) by (smt (verit))
  then show ?thesis using c cmp unfolding M [symmetric]
    by (intro exI [of _ it3]) (simp add: read_unsigned_def f)
qed

lemma nextToken_int:
  assumes "at_int it ws i rest" "i < 0"
  shows "\<exists>it1. nextToken it = (ch_minus, it1)"
  using nextToken_at [of it ws ch_minus "dec_bytes (nat (- i)) @ rest"] assms
  by (auto simp: at_int_def int_text_def is_space_def)

lemma read_unsigned_contract:
  assumes "f = readUint_gen op' safe" "10 ^ 8 \<le> (2::nat) ^ LENGTH('a)"
    "\<And>k. k < 2 ^ LENGTH('a) \<Longrightarrow> conv (of_nat k :: 'a::len word) = (of_nat k :: 'b::len word)"
    "conv 0 = 0"
  shows "reads_int (read_unsigned op f lim conv) 0 (int (unat lim))
    \<and> refuses_int (read_unsigned op f lim conv) 0 (int (unat lim)) (2 ^ LENGTH('a))"
proof -
  have lim: "int (unat lim) < 2 ^ LENGTH('a)" using unsigned_less [of lim, where ?'a = int] by simp
  have "reads_int (read_unsigned op f lim conv) 0 (int (unat lim))"
    unfolding reads_int_def
  proof (intro allI impI)
    fix it ws i rest
    assume a: "at_int it ws i rest" "0 \<le> i" "i \<le> int (unat lim)"
    have i: "i < 2 ^ LENGTH('a)" using a(3) lim by linarith
    then have "conv (of_nat (nat i)) = of_nat (nat i)" using a(2) by (intro assms(3)) (simp add: nat_less_iff)
    with i read_unsigned_ok [where conv = conv, OF assms(1,2), of it ws i rest op lim] lim a
    show "\<exists>it'. read_unsigned op f lim conv it = (of_int i, it') \<and> consumes it (ws @ int_text i) it'
        \<and> pending it' = rest" by fastforce
  qed
  moreover have "refuses_int (read_unsigned op f lim conv) 0 (int (unat lim)) (2 ^ LENGTH('a))"
    unfolding refuses_int_def
  proof (intro allI impI)
    fix it ws i rest
    assume a: "at_int it ws i rest" "\<not> (0 \<le> i \<and> i \<le> int (unat lim))" "\<bar>i\<bar> < 2 ^ LENGTH('a)"
    show "fst (read_unsigned op f lim conv it) = 0 \<and> failed (snd (read_unsigned op f lim conv it))"
    proof (cases "i < 0")
      case True
      then obtain it1 where n: "nextToken it = (ch_minus, it1)" using nextToken_int a(1) by blast
      have "intDigits ch_minus = invalidCharForNumber" by (simp add: is_digit_def)
      then have "readUint_gen op' safe ch_minus it1
        = (0, ReportError op' (''unexpected character: '' @ byte_str (word_of_int invalidCharForNumber)) it1)"
        by (simp add: readUint_gen_def invalidCharForNumber_def)
      with n assms(1,4) show ?thesis by (simp add: read_unsigned_def)
    next
      case False
      then have "conv (of_nat (nat i)) = of_nat (nat i)" using a(3) by (intro assms(3)) (simp add: nat_less_iff)
      with False read_unsigned_ok [where conv = conv, OF assms(1,2), of it ws i rest op lim] a
      show ?thesis by fastforce
    qed
  qed
  ultimately show ?thesis ..
qed

lemma signed_reader_laws:
  "reads_int ReadInt8 (- 128) 127 \<and> refuses_int ReadInt8 (- 128) 127 (2 ^ 32)"
  "reads_int ReadInt16 (- 32768) 32767 \<and> refuses_int ReadInt16 (- 32768) 32767 (2 ^ 32)"
  "reads_int ReadInt32 (- 2147483648) 2147483647 \<and> refuses_int ReadInt32 (- 2147483648) 2147483647 (2 ^ 32)"
  "reads_int ReadInt64 (- 9223372036854775808) 9223372036854775807
    \<and> refuses_int ReadInt64 (- 9223372036854775808) 9223372036854775807 (2 ^ 64)"
proof -
  note r32 = read_signed_ok [where f = readUint32 and op' = "''readUint32''" and safe = uint32SafeToMultiply10]
  note r64 = read_signed_ok [where f = readUint64 and op' = "''readUint64''" and safe = uint64SafeToMultiple10]
  show "reads_int ReadInt8 (- 128) 127 \<and> refuses_int ReadInt8 (- 128) 127 (2 ^ 32)"
    "reads_int ReadInt16 (- 32768) 32767 \<and> refuses_int ReadInt16 (- 32768) 32767 (2 ^ 32)"
    "reads_int ReadInt32 (- 2147483648) 2147483647 \<and> refuses_int ReadInt32 (- 2147483648) 2147483647 (2 ^ 32)"
    "reads_int ReadInt64 (- 9223372036854775808) 9223372036854775807
      \<and> refuses_int ReadInt64 (- 9223372036854775808) 9223372036854775807 (2 ^ 64)"
    unfolding signed_readers
    using r32 [of 128 127 "ucast :: u32 \<Rightarrow> 8 word" "''ReadInt8''"]
      r32 [of 32768 32767 "ucast :: u32 \<Rightarrow> u16" "''ReadInt16''"]
      r32 [of 2147483648 2147483647 "\<lambda>v. v" "''ReadInt32''"]
      r64 [of 9223372036854775808 9223372036854775807 "\<lambda>v. v" "''ReadInt64''"]
    by (simp_all add: readUint32_def readUint64_def ucast_of_nat_small)
qed

lemma unsigned_reader_laws:
  "reads_int ReadUint8 0 255 \<and> refuses_int ReadUint8 0 255 (2 ^ 32)"
  "reads_int ReadUint16 0 65535 \<and> refuses_int ReadUint16 0 65535 (2 ^ 32)"
  "reads_int ReadUint32 0 4294967295 \<and> refuses_int ReadUint32 0 4294967295 (2 ^ 32)"
  "reads_int ReadUint64 0 18446744073709551615 \<and> refuses_int ReadUint64 0 18446744073709551615 (2 ^ 64)"
  unfolding unsigned_readers
  using read_unsigned_contract [OF readUint_funs(1), of "ucast :: u32 \<Rightarrow> 8 word" "''ReadUint8''" 255]
    read_unsigned_contract [OF readUint_funs(1), of "ucast :: u32 \<Rightarrow> u16" "''ReadUint16''" 65535]
    read_unsigned_contract [OF readUint_funs(1), of "\<lambda>v. v" "''ReadUint32''" "- 1"]
    read_unsigned_contract [OF readUint_funs(2), of "\<lambda>v. v" "''ReadUint64''" "- 1"]
  by (simp_all add: ucast_of_nat_small unsigned_minus_1_eq_mask mask_eq_exp_minus_1)

section \<open>Properties of the integer readers\<close>



text \<open>Two readings agree: same value, same failure, and after success the same input is left.\<close>

definition same_reading :: "'a \<times> iterator \<Rightarrow> 'a \<times> iterator \<Rightarrow> bool" where
  "same_reading r r' \<longleftrightarrow> fst r = fst r' \<and> (failed (snd r) \<longleftrightarrow> failed (snd r'))
     \<and> (Error (snd r) = None \<longleftrightarrow> Error (snd r') = None)
     \<and> (Error (snd r) = None \<longrightarrow> pending (snd r) = pending (snd r'))"

lemma assertInteger_result:
  assumes "head it < tail it" "byte_at (buf it) (head it) = x" "Error it = None"
  shows "failed (assertInteger it) \<longleftrightarrow> x = ch_dot"
    "Error (assertInteger it) = None \<longleftrightarrow> x \<noteq> ch_dot" "pending (assertInteger it) = pending it"
  using assms ReportError_failed [of _ _ it] ReportError_Error_not_None [of _ _ it]
  by (auto simp: assertInteger_def failed_def simp del: ReportError_failed ReportError_Error_not_None)

lemma uint_spec_same:
  assumes "uint_spec safe v a r" "uint_spec safe v b r'" "pending a = pending b"
    "Error a = None" "Error b = None" "final_err a = final_err b"
  shows "same_reading r r'"
proof (cases "fold_digits safe v (takeWhile is_digit (pending b))")
  case None
  with assms show ?thesis by (auto simp: uint_spec_def same_reading_def failed_def)
next
  case (Some v')
  show ?thesis
  proof (cases "dropWhile is_digit (pending b)")
    case Nil
    with Some assms show ?thesis by (simp add: uint_spec_def same_reading_def failed_def)
  next
    case (Cons x xs)
    have dw: "dropWhile is_digit (pending a) = x # xs"
      and fd: "fold_digits safe v (takeWhile is_digit (pending a)) = Some v'"
      using Some Cons assms(3) by simp_all
    from assms(1) dw fd obtain a1 where a1: "r = (v', assertInteger a1)" "pending a1 = x # xs"
        "head a1 < tail a1" "byte_at (buf a1) (head a1) = x" "consumes a (takeWhile is_digit (pending a)) a1"
      unfolding uint_spec_def by auto
    from assms(2) Some Cons obtain b1 where b1: "r' = (v', assertInteger b1)" "pending b1 = x # xs"
        "head b1 < tail b1" "byte_at (buf b1) (head b1) = x" "consumes b (takeWhile is_digit (pending b)) b1"
      unfolding uint_spec_def by auto
    have "Error a1 = None" "Error b1 = None"
      using consumes_Error [OF a1(5)] consumes_Error [OF b1(5)] assms(4,5) by simp_all
    note ra = assertInteger_result [OF a1(3,4) this(1)] and rb = assertInteger_result [OF b1(3,4) this(2)]
    from ra rb show ?thesis
      unfolding a1(1) b1(1) same_reading_def fst_conv snd_conv by (simp add: a1(2) b1(2))
  qed
qed

text \<open>The unrolled fast path is an optimisation only: with more than ten bytes buffered it
  gives the value, the verdict and the remaining input that the digit loop alone gives.\<close>

lemma readUint_fast_path_equiv:
  assumes "wf_iter it" "Error it = None" "is_digit c" "c \<noteq> ch_0" "tail it - head it > 10"
  shows "same_reading (readUint64 c it)
      (readUint_loop ''readUint64'' uint64SafeToMultiple10 (word_of_int (intDigits c)) it)"
proof -
  have "uint_spec uint64SafeToMultiple10 (of_nat (digit_val c)) it (readUint64 c it)"
    using readUint_specs [OF assms(1,3,4)] by simp
  moreover have "uint_spec uint64SafeToMultiple10 (of_nat (digit_val c)) it
      (readUint_loop ''readUint64'' uint64SafeToMultiple10 (word_of_int (intDigits c)) it)"
    using readUint_loop_spec [OF assms(1)] assms(3) by (simp add: intDigits_digit)
  ultimately show ?thesis using uint_spec_same assms(2) by blast
qed

text \<open>How the input is cut into buffers is invisible: two iterators with the same pending input
  give the same reading, unless the token starts with the digit 0 (for which
  \<open>zero_fraction_depends_on_buffer\<close> shows the exception).\<close>

lemma ReadUint64_buffering_invisible:
  assumes "wf_iter a" "wf_iter b" "pending a = pending b" "Error a = None" "Error b = None"
    "end_err a = end_err b" "\<forall>rest. dropWhile is_space (pending a) \<noteq> ch_0 # rest"
  shows "same_reading (ReadUint64 a) (ReadUint64 b)"
proof (cases "dropWhile is_space (pending a)")
  case Nil
  from nextToken_end [OF assms(1) Nil] obtain a1 where a1: "nextToken a = (0, a1)" by blast
  from nextToken_end [OF assms(2)] Nil assms(3) obtain b1 where b1: "nextToken b = (0, b1)" by auto
  have "intDigits 0 = -1" by (simp add: intDigits_def is_digit_def invalidCharForNumber_def)
  then have "\<exists>msg. readUint64 0 it = (0, ReportError ''readUint64'' msg it)" for it
    by (auto simp: readUint64_def readUint_gen_def Let_def invalidCharForNumber_def)
  then obtain m n where "readUint64 0 a1 = (0, ReportError ''readUint64'' m a1)"
    "readUint64 0 b1 = (0, ReportError ''readUint64'' n b1)" by blast
  with a1 b1 show ?thesis by (simp add: ReadUint64_def same_reading_def)
next
  case (Cons c rest)
  from nextToken_spec [OF assms(1) Cons] obtain a1 where a1: "nextToken a = (c, a1)"
    "consumes a (takeWhile is_space (pending a) @ [c]) a1" "pending a1 = rest" by blast
  from nextToken_spec [OF assms(2)] Cons assms(3) obtain b1 where b1: "nextToken b = (c, b1)"
    "consumes b (takeWhile is_space (pending b) @ [c]) b1" "pending b1 = rest" by metis
  note fr = consumes_Error [OF a1(2)] consumes_Error [OF b1(2)] consumes_final_err [OF a1(2)]
    consumes_final_err [OF b1(2)] consumes_wf [OF a1(2)] consumes_wf [OF b1(2)]
  show ?thesis
  proof (cases "is_digit c")
    case True
    have "c \<noteq> ch_0" using Cons assms(7) by blast
    then have "uint_spec uint64SafeToMultiple10 (of_nat (digit_val c)) a1 (readUint64 c a1)"
      "uint_spec uint64SafeToMultiple10 (of_nat (digit_val c)) b1 (readUint64 c b1)"
      using readUint_specs [OF fr(5) True] readUint_specs [OF fr(6) True] by simp_all
    moreover have "pending a1 = pending b1" "Error a1 = None" "Error b1 = None" "final_err a1 = final_err b1"
      using a1(3) b1(3) fr assms(4-6) by (simp_all add: final_err_def)
    ultimately have "same_reading (readUint64 c a1) (readUint64 c b1)"
      by (rule uint_spec_same)
    with a1 b1 show ?thesis by (simp add: ReadUint64_def)
  next
    case False
    then have "\<exists>msg. readUint64 c it = (0, ReportError ''readUint64'' msg it)" for it
      by (auto simp: readUint64_def readUint_gen_def Let_def intDigits_def invalidCharForNumber_def)
    then obtain m n where "readUint64 c a1 = (0, ReportError ''readUint64'' m a1)"
      "readUint64 c b1 = (0, ReportError ''readUint64'' n b1)" by blast
    with a1 b1 show ?thesis by (simp add: ReadUint64_def same_reading_def)
  qed
qed

text \<open>Whatever digits follow, when \<open>ReadUint64\<close> reports nothing its result is the decimal
  value modulo \<open>2 ^ 64\<close>.\<close>

lemma ReadUint64_modular:
  assumes "wf_iter it" "dropWhile is_space (pending it) = c # rest" "is_digit c"
    "\<not> failed (snd (ReadUint64 it))" "c \<noteq> ch_0"
  shows "fst (ReadUint64 it) = of_nat (dec_val (c # takeWhile is_digit rest))"
proof -
  from nextToken_spec [OF assms(1,2)] obtain it1 where it1: "nextToken it = (c, it1)"
    "consumes it (takeWhile is_space (pending it) @ [c]) it1" "pending it1 = rest" by blast
  let ?r = "readUint64 c it1"
  have "uint_spec uint64SafeToMultiple10 (of_nat (digit_val c)) it1 ?r"
    using readUint_specs [OF consumes_wf [OF it1(2)] assms(3,5)] by simp
  moreover have "ReadUint64 it = ?r" using it1 by (simp add: ReadUint64_def)
  ultimately obtain v where "fold_digits uint64SafeToMultiple10 (of_nat (digit_val c)) (takeWhile is_digit rest)
      = Some v" "fst (ReadUint64 it) = v"
    using assms(4) it1(3) by (auto simp: uint_spec_def split: option.splits list.splits)
  with fold_digits_value show ?thesis by (fastforce simp: dec_val_def)
qed

text \<open>The overflow tests compare the new value with the old one only, so a numeral beyond
  the width can wrap past the old value and be accepted: \<open>5000000000\<close> reads as 705032704 into a
  \<open>uint32\<close> and an \<open>int32\<close>, and \<open>45000000000000000000\<close> as 8106511852580896768 into an \<open>int64\<close>, all
  without an error.\<close>

lemma overflow_test_misses_wraps:
  "(case ReadUint32 (ParseBytes ConfigDefault ([0x35] @ replicate 9 ch_0 @ [ch_space])) of
      (v, it) \<Rightarrow> v = 705032704 \<and> Error it = None)
    \<and> (case ReadInt32 (ParseBytes ConfigDefault ([0x35] @ replicate 9 ch_0 @ [ch_space])) of
      (v, it) \<Rightarrow> v = 705032704 \<and> Error it = None)
    \<and> (case ReadInt64 (ParseBytes ConfigDefault ([0x34, 0x35] @ replicate 18 ch_0 @ [ch_space])) of
      (v, it) \<Rightarrow> v = 8106511852580896768 \<and> Error it = None)"
  by code_simp

text \<open>The check against fractions looks at the buffered bytes only, so the same input
  \<open>0.5\<close> is refused when it is buffered whole and read as 0 when the buffer ends after the zero.\<close>

lemma zero_fraction_depends_on_buffer:
  "(case ReadUint64 (Parse ConfigDefault [([0x30, 0x2E, 0x35], None)] 8) of
      (v, it) \<Rightarrow> v = 0 \<and> failed it)
    \<and> (case ReadUint64 (Parse ConfigDefault [([0x30], None), ([0x2E, 0x35], None)] 8) of
      (v, it) \<Rightarrow> v = 0 \<and> Error it = None)"
  by code_simp

section \<open>Witnesses\<close>

lemma readUint_fast_path_equiv_witness:
  "same_reading (readUint64 0x31 (ParseBytes ConfigDefault (replicate 12 0x32)))
     (readUint_loop ''readUint64'' uint64SafeToMultiple10 (word_of_int (intDigits 0x31))
        (ParseBytes ConfigDefault (replicate 12 0x32)))"
  by (rule readUint_fast_path_equiv) code_simp+

lemma ReadUint64_buffering_invisible_witness:
  "same_reading (ReadUint64 (Parse ConfigDefault [([0x20, 0x31], None), ([0x32, 0x20], None)] 4))
     (ReadUint64 (ParseBytes ConfigDefault [0x20, 0x31, 0x32, 0x20]))"
  by (rule ReadUint64_buffering_invisible)
    (code_simp, code_simp, code_simp, code_simp, code_simp, code_simp,
      simp add: pending_def Parse_def rest_bytes_def gslice_def is_space_def)

lemma ReadUint64_modular_witness:
  "fst (ReadUint64 (ParseBytes ConfigDefault [0x20, 0x31, 0x32, 0x20])) = 12"
proof -
  have "fst (ReadUint64 (ParseBytes ConfigDefault [0x20, 0x31, 0x32, 0x20]))
      = of_nat (dec_val (0x31 # takeWhile is_digit [0x32, 0x20]))"
    by (rule ReadUint64_modular) code_simp+
  also have "\<dots> = 12" by code_simp
  finally show ?thesis .
qed

end
