(* ===== verification/IterStr.thy ===== *)
theory IterStr
  imports IterInt
begin

text \<open>
  \<open>iter_str.go\<close> and \<open>rawstring.go\<close>: reading string literals, with escapes decoded
  (\<open>ReadString\<close>) or left as they are (\<open>ReadRawString\<close>). The runes of the code are
  \<open>int\<close>s between -1 and 0x10FFFF; \<open>strings.Builder\<close> and \<open>bytes.Buffer\<close> are the bytes
  written so far.

  A \<open>RawString\<close> is a view into the iterator's buffer (\<open>View lo hi\<close>: the code keeps the
  slice \<open>iter.buf[lo:hi]\<close>, whose bytes change when the buffer is refilled) or owns a copy
  (\<open>Owned\<close>); \<open>raw_bytes\<close> reads it against the present contents of the buffer.

  \<open>decode_str\<close> and \<open>raw_str\<close> are the reference: what a string literal means as a
  function of the bytes after its opening quote. The lemmas show that the readers compute them
  whatever the buffer ends are.
\<close>

section \<open>Runes\<close>

definition RuneError :: int where "RuneError = 0xFFFD"

definition IsSurrogate :: "int \<Rightarrow> bool" where
  "IsSurrogate r \<longleftrightarrow> 0xD800 \<le> r \<and> r < 0xE000"

definition DecodeRune :: "int \<Rightarrow> int \<Rightarrow> int" where
  "DecodeRune r1 r2 =
     (if 0xD800 \<le> r1 \<and> r1 < 0xDC00 \<and> 0xDC00 \<le> r2 \<and> r2 < 0xE000
      then (r1 - 0xD800) * 1024 + (r2 - 0xDC00) + 0x10000 else RuneError)"

text \<open>The UTF-8 form that \<open>WriteRune\<close> appends.\<close>

definition utf8_bytes :: "int \<Rightarrow> bytes" where
  "utf8_bytes r =
     (if r < 0x80 then [word_of_int r]
      else if r < 0x800 then [word_of_int (0xC0 + r div 64), word_of_int (0x80 + r mod 64)]
      else if r < 0x10000 then
        [word_of_int (0xE0 + r div 4096), word_of_int (0x80 + r div 64 mod 64),
         word_of_int (0x80 + r mod 64)]
      else
        [word_of_int (0xF0 + r div 262144), word_of_int (0x80 + r div 4096 mod 64),
         word_of_int (0x80 + r div 64 mod 64), word_of_int (0x80 + r mod 64)])"

definition WriteRune :: "int \<Rightarrow> bytes" where
  "WriteRune r = utf8_bytes (if r < 0 \<or> r > 0x10FFFF \<or> IsSurrogate r then RuneError else r)"

section \<open>Hexadecimal escapes\<close>

definition hex_digit :: "byte \<Rightarrow> int option" where
  "hex_digit c =
     (let c = c - ch_0 in
      if c \<le> 9 then Some (uint c)
      else
        let c = (c OR 0x20) - (ch_a - ch_0) in
        if c \<le> 5 then Some (uint (c + 10)) else None)"

function parseU4_loop :: "bytes \<Rightarrow> int \<Rightarrow> int \<Rightarrow> int \<Rightarrow> int option" where
  "parseU4_loop b i e ret =
     (if i < e then
        (case hex_digit (byte_at b i) of
           Some d \<Rightarrow> parseU4_loop b (i + 1) e (ret * 16 + d)
         | None \<Rightarrow> None)
      else Some ret)"
  by pat_completeness auto
termination by (relation "measure (\<lambda>(b, i, e, r). nat (e - i))") auto

declare parseU4_loop.simps [simp del]

definition parseU4 :: "iterator \<Rightarrow> int \<times> iterator" where
  "parseU4 it =
     (let e = head it + 4 in
      if head it < 0 \<or> e > int (length (buf it)) then (-1, it)
      else (case parseU4_loop (buf it) (head it) e 0 of
              None \<Rightarrow> (-1, it)
            | Some ret \<Rightarrow> (ret, it\<lparr>head := e\<rparr>)))"

fun readU4_loop :: "nat \<Rightarrow> int \<Rightarrow> iterator \<Rightarrow> int \<times> iterator" where
  "readU4_loop 0 ret it = (ret, it)"
| "readU4_loop (Suc n) ret it =
     (case readByte it of (c, it1) \<Rightarrow>
      if Error it1 \<noteq> None then (ret, it1)
      else (case hex_digit c of
              Some d \<Rightarrow> readU4_loop n (ret * 16 + d) it1
            | None \<Rightarrow> (ret, ReportError ''readU4'' ''invalid hex char'' it1)))"

definition readU4 :: "iterator \<Rightarrow> int \<times> iterator" where
  "readU4 it =
     (if tail it - head it \<ge> 4 then
        (case parseU4 it of (ret, it1) \<Rightarrow>
           if ret < 0 then (0, ReportError ''readU4'' ''invalid hex char'' it1) else (ret, it1))
      else readU4_loop 4 0 it)"

text \<open>\<open>readAndFillU4\<close> also stores the bytes it reads into the caller's array of four.\<close>

fun readAndFillU4_loop :: "nat \<Rightarrow> nat \<Rightarrow> bytes \<Rightarrow> int \<Rightarrow> iterator \<Rightarrow> bytes \<times> int \<times> iterator" where
  "readAndFillU4_loop 0 i b ret it = (b, ret, it)"
| "readAndFillU4_loop (Suc n) i b ret it =
     (case readByte it of (c, it1) \<Rightarrow>
      if Error it1 \<noteq> None then (b, ret, it1)
      else (case hex_digit c of
              Some d \<Rightarrow> readAndFillU4_loop n (i + 1) (b[i := c]) (ret * 16 + d) it1
            | None \<Rightarrow> (b[i := c], ret, ReportError ''readU4'' ''invalid hex char'' it1)))"

definition readAndFillU4 :: "bytes \<Rightarrow> iterator \<Rightarrow> bytes \<times> int \<times> iterator" where
  "readAndFillU4 b it = readAndFillU4_loop 4 0 b 0 it"

section \<open>Decoded strings\<close>

text \<open>The escapes of one character, and the error of the \<open>default\<close> branch.\<close>

definition simple_escape :: "byte \<Rightarrow> byte option" where
  "simple_escape c =
     (if c = ch_quote then Some ch_quote
      else if c = ch_bslash then Some ch_bslash
      else if c = ch_slash then Some ch_slash
      else if c = ch_b then Some 0x08
      else if c = ch_f then Some 0x0C
      else if c = ch_n then Some ch_nl
      else if c = ch_r then Some ch_cr
      else if c = ch_t then Some ch_tab
      else None)"

definition escape_msg :: string where
  "escape_msg = ''invalid escape char after '' @ [CHR 0x5C]"

definition escape_default :: "byte \<Rightarrow> bytes \<Rightarrow> iterator \<Rightarrow> bytes \<times> iterator" where
  "escape_default c sb it =
     (case simple_escape c of
        Some x \<Rightarrow> (sb @ [x], it)
      | None \<Rightarrow> (sb, ReportError ''readEscapedChar'' escape_msg it))"

text \<open>After \<open>\u\<close> gave the surrogate \<open>r\<close>: what the code does next. \<open>goto start\<close> is only taken
  with \<open>c\<close> other than \<open>'u'\<close>, so it goes to the one-character escapes.\<close>

definition readSurrogate :: "bytes \<Rightarrow> int \<Rightarrow> iterator \<Rightarrow> bytes \<times> iterator" where
  "readSurrogate sb r it2 =
     (case readByte it2 of (c, it3) \<Rightarrow>
      if Error it3 \<noteq> None then (sb, it3)
      else if c \<noteq> ch_bslash then (sb @ WriteRune r, unreadByte it3)
      else
        (case readByte it3 of (c, it4) \<Rightarrow>
         if Error it4 \<noteq> None then (sb, it4)
         else if c \<noteq> ch_u then escape_default c (sb @ WriteRune r) it4
         else
           (case readU4 it4 of (r2, it5) \<Rightarrow>
            if Error it5 \<noteq> None then (sb, it5)
            else
              let combined = DecodeRune r r2 in
              if combined = RuneError then (sb @ WriteRune r @ WriteRune r2, it5)
              else (sb @ WriteRune combined, it5))))"

definition readEscapedChar :: "bytes \<Rightarrow> iterator \<Rightarrow> bytes \<times> iterator" where
  "readEscapedChar sb it =
     (case readByte it of (c, it1) \<Rightarrow>
      if c = ch_u then
        (case readU4 it1 of (r, it2) \<Rightarrow>
         if IsSurrogate r then readSurrogate sb r it2
         else if Error it2 = None then (sb @ WriteRune r, it2)
         else (sb, it2))
      else escape_default c sb it1)"

text \<open>For termination: a step leaves the reader further on, or the window no longer.\<close>

definition no_later :: "iterator \<Rightarrow> iterator \<Rightarrow> bool" where
  "no_later it it' \<longleftrightarrow> reads_left it' < reads_left it
     \<or> reads_left it' = reads_left it \<and> nat (tail it' - head it') \<le> nat (tail it - head it)"

lemma no_later_refl: "no_later it it"
  by (simp add: no_later_def)

lemma no_later_trans: "no_later a b \<Longrightarrow> no_later b c \<Longrightarrow> no_later a c"
  by (auto simp: no_later_def)

lemma load_loop_fails_reads: "load_loop r it = (False, it') \<Longrightarrow>
    reads_left it' \<le> length r \<and> head it' = head it \<and> tail it' = tail it"
  by (induction r it rule: load_loop.induct) (auto simp: reads_left_def split: if_splits option.splits)

lemma loadMore_fails: "loadMore it = (False, it') \<Longrightarrow> no_later it it' \<and> Error it' \<noteq> None"
proof (cases "reader it")
  case None
  then show "loadMore it = (False, it') \<Longrightarrow> ?thesis"
    by (auto simp: loadMore_def no_later_def reads_left_def split: if_splits)
next
  case (Some r)
  let ?it = "case captured it of None \<Rightarrow> it
             | Some cap \<Rightarrow>
                 it\<lparr>captured := Some (cap @ gslice (buf it) (captureStartedAt it) (tail it)),
                    captureStartedAt := 0\<rparr>"
  assume "loadMore it = (False, it')"
  with Some have l: "load_loop r ?it = (False, it')" by (auto simp: loadMore_def split: option.splits)
  have "head ?it = head it" "tail ?it = tail it" by (auto split: option.splits)
  with load_loop_fails_reads [OF l] load_loop_False [OF l] Some show ?thesis
    by (auto simp: no_later_def reads_left_def)
qed

lemma loadMore_no_later:
  "loadMore it = (ok, it') \<Longrightarrow> no_later it it' \<and> (if ok then reads_left it' < reads_left it else Error it' \<noteq> None)"
  by (cases ok) (auto simp: no_later_def dest: loadMore_decreases dest!: loadMore_fails)

lemma readByte_no_later:
  assumes "readByte it = (c, it')"
  shows "no_later it it' \<and> (Error it' = None \<longrightarrow> no_later it (unreadByte it'))"
proof (cases "head it = tail it")
  case True
  with assms show ?thesis
    by (auto simp: readByte_def unreadByte_def no_later_def reads_left_def split: prod.splits if_splits
        dest!: loadMore_no_later)
next
  case False
  with assms show ?thesis
    by (auto simp: readByte_def unreadByte_def no_later_def reads_left_def)
qed

lemma no_later_ReportError [simp]: "no_later a (ReportError op msg it) = no_later a it"
  by (simp add: no_later_def reads_left_def)

lemma parseU4_no_later: "tail it - head it \<ge> 4 \<Longrightarrow> parseU4 it = (r, it') \<Longrightarrow> no_later it it'"
  by (auto simp: parseU4_def no_later_def reads_left_def Let_def split: if_splits option.splits)

lemma readU4_loop_no_later: "readU4_loop n ret it = (r, it') \<Longrightarrow> no_later it it'"
  by (induction n ret it rule: readU4_loop.induct)
    (auto simp: no_later_refl split: prod.splits if_splits option.splits
      dest: readByte_no_later intro: no_later_trans)

lemma readU4_no_later: "readU4 it = (r, it') \<Longrightarrow> no_later it it'"
  by (auto simp: readU4_def split: if_splits prod.splits dest: readU4_loop_no_later parseU4_no_later)

lemma readAndFillU4_loop_no_later: "readAndFillU4_loop n i b ret it = (b', r, it') \<Longrightarrow> no_later it it'"
  by (induction n i b ret it rule: readAndFillU4_loop.induct)
    (auto simp: no_later_refl split: prod.splits if_splits option.splits
      dest: readByte_no_later intro: no_later_trans)

lemma escape_default_no_later: "escape_default c sb it = (sb', it') \<Longrightarrow> no_later it it'"
  by (auto simp: escape_default_def no_later_refl split: option.splits)

lemma readEscapedChar_no_later: "readEscapedChar sb it = (sb', it') \<Longrightarrow> no_later it it'"
  unfolding readEscapedChar_def readSurrogate_def
  by (auto simp: Let_def split: prod.splits if_splits dest!: readByte_no_later readU4_no_later escape_default_no_later)
    (meson no_later_trans)+

text \<open>The loop of \<open>readStringInner\<close>: stop bytes are the quote, the backslash and the control
  characters.\<close>

function readStringInner_loop :: "bytes \<Rightarrow> iterator \<Rightarrow> bytes \<times> iterator" where
  "readStringInner_loop sb it =
     (if Error it \<noteq> None then ([], ReportError ''ReadString'' ''unexpected end of input'' it)
      else if head it < 0 \<or> tail it > int (length (buf it)) then ([], it)
      else
        (case find_from (\<lambda>c. c = ch_quote \<or> c = ch_bslash \<or> c < ch_space) (buf it) (head it) (tail it) of
           Some i \<Rightarrow>
             let c = byte_at (buf it) i; res = gslice (buf it) (head it) i; it1 = it\<lparr>head := i + 1\<rparr> in
             if c = ch_quote then (if sb = [] then (res, it1) else (sb @ res, it1))
             else if c = ch_bslash then
               (case readEscapedChar (sb @ res) it1 of (sb', it2) \<Rightarrow> readStringInner_loop sb' it2)
             else
               ([], ReportError ''ReadString''
                      (''invalid control character found: '' @ FormatInt (uint c)) it)
         | None \<Rightarrow>
             (case readByte (it\<lparr>head := tail it\<rparr>) of (c, it1) \<Rightarrow>
              if c = 0 then ([], ReportError ''ReadString'' ''unexpected end of input'' it1)
              else readStringInner_loop (sb @ gslice (buf it) (head it) (tail it)) (unreadByte it1))))"
  by pat_completeness auto

lemma find_from_range: "find_from P xs i hi = Some k \<Longrightarrow> i \<le> k \<and> k < hi"
  by (induction P xs i hi rule: find_from.induct)
    (auto simp: find_from.simps [of P xs i hi for P xs i hi] split: if_splits)

lemma reads_left_head [simp]: "reads_left (it\<lparr>head := k\<rparr>) = reads_left it"
  by (simp add: reads_left_def)

lemma refill_decreases:
  assumes "readByte (it\<lparr>head := tail it\<rparr>) = (c, it')" "c \<noteq> 0"
  shows "reads_left (unreadByte it') < reads_left it"
  using assms loadMore_decreases [of "it\<lparr>head := tail it\<rparr>"]
  by (auto simp: readByte_def unreadByte_def split: prod.splits if_splits)

text \<open>Going on behind position \<open>i\<close> of the window makes the window smaller.\<close>

definition earlier :: "iterator \<Rightarrow> iterator \<Rightarrow> bool" where
  "earlier it it' \<longleftrightarrow> reads_left it' < reads_left it
     \<or> reads_left it' = reads_left it \<and> nat (tail it' - head it') < nat (tail it - head it)"

lemma no_later_behind:
  "no_later (it\<lparr>head := k\<rparr>) it' \<Longrightarrow> head it < k \<Longrightarrow> k \<le> tail it \<Longrightarrow> earlier it it'"
  by (auto simp: no_later_def earlier_def)

lemma earlier_wf: "wf {(it', it). earlier it it'}"
proof -
  have "{(it', it). earlier it it'} = inv_image (less_than <*lex*> less_than)
      (\<lambda>it. (reads_left it, nat (tail it - head it)))"
    by (auto simp: earlier_def)
  then show ?thesis using wf_inv_image [OF wf_lex_prod [OF wf_less_than wf_less_than]] by metis
qed

lemma escape_earlier:
  assumes "find_from P (buf it) (head it) (tail it) = Some i"
  shows "earlier it (snd (readEscapedChar sb (it\<lparr>head := i + 1\<rparr>)))"
proof (rule no_later_behind)
  show "no_later (it\<lparr>head := i + 1\<rparr>) (snd (readEscapedChar sb (it\<lparr>head := i + 1\<rparr>)))"
    by (metis prod.collapse readEscapedChar_no_later)
qed (use find_from_range [OF assms] in auto)

lemma refill_earlier: "readByte (it\<lparr>head := tail it\<rparr>) = (c, it') \<Longrightarrow> c \<noteq> 0 \<Longrightarrow> earlier it (unreadByte it')"
  by (simp add: earlier_def refill_decreases)

termination readStringInner_loop
  by (relation "inv_image {(it', it). earlier it it'} snd")
    (use earlier_wf in \<open>auto simp: escape_earlier dest: refill_earlier [OF sym]\<close>)

declare readStringInner_loop.simps [simp del]

definition readStringInner :: "iterator \<Rightarrow> bytes \<times> iterator" where
  "readStringInner it = readStringInner_loop [] it"

definition ReadString :: "iterator \<Rightarrow> bytes \<times> iterator" where
  "ReadString it =
     (case nextToken it of (c, it1) \<Rightarrow>
      if c = ch_quote then readStringInner it1
      else if c = ch_n then ([], skipThreeBytes ch_u ch_l ch_l it1)
      else ([], ReportError ''ReadString'' (''expects '' @ [CHR 0x22] @ '' or n, but found '' @ byte_str c)
                  (unreadByte it1)))"

section \<open>Raw strings\<close>

datatype raw_buf = View int int | Owned bytes

record RawString =
  rs_buf :: "raw_buf option"
  isRaw :: bool
  hasEscapes :: bool

definition nil_RawString :: RawString where
  "nil_RawString = \<lparr>rs_buf = None, isRaw = False, hasEscapes = False\<rparr>"

text \<open>The bytes of a slice, given the present contents \<open>arr\<close> of the iterator's buffer.\<close>

fun deref :: "bytes \<Rightarrow> raw_buf \<Rightarrow> bytes" where
  "deref arr (View lo hi) = gslice arr lo hi"
| "deref arr (Owned bs) = bs"

definition raw_bytes :: "bytes \<Rightarrow> RawString \<Rightarrow> bytes" where
  "raw_bytes arr r = (case rs_buf r of None \<Rightarrow> [] | Some b \<Rightarrow> deref arr b)"

text \<open>The byte loop of \<open>readRawStringInner\<close> up to its next exit: the closing quote, a control
  character, \<open>\u\<close> at a position, another character after a backslash, or the end of the window
  (with the two flags).\<close>

datatype raw_scan = RawQuote int bool | RawControl byte | RawU int | RawBadEscape | RawEnd bool bool

function scan_raw :: "bytes \<Rightarrow> int \<Rightarrow> int \<Rightarrow> bool \<Rightarrow> bool \<Rightarrow> raw_scan" where
  "scan_raw b i hi readingEscape hasEsc =
     (if i < hi then
        let c = byte_at b i in
        if c = ch_quote then
          (if readingEscape then scan_raw b (i + 1) hi False hasEsc else RawQuote i hasEsc)
        else if c = ch_bslash then scan_raw b (i + 1) hi (readingEscape \<noteq> True) True
        else if c < ch_space then RawControl c
        else if \<not> readingEscape then scan_raw b (i + 1) hi readingEscape hasEsc
        else if c = ch_slash \<or> c = ch_b \<or> c = ch_f \<or> c = ch_n \<or> c = ch_r \<or> c = ch_t
        then scan_raw b (i + 1) hi False hasEsc
        else if c = ch_u then RawU i
        else RawBadEscape
      else RawEnd readingEscape hasEsc)"
  by pat_completeness auto
termination by (relation "measure (\<lambda>(b, i, hi, r, h). nat (hi - i))") auto

declare scan_raw.simps [simp del]

function readRawStringInner_loop :: "bytes \<Rightarrow> bool \<Rightarrow> bool \<Rightarrow> iterator \<Rightarrow> RawString \<times> iterator" where
  "readRawStringInner_loop copied readingEscape hasEsc it =
     (if Error it \<noteq> None then (nil_RawString, ReportError ''ReadRawString'' ''unexpected end of input'' it)
      else if head it < 0 \<or> tail it > int (length (buf it)) then (nil_RawString, it)
      else
        (case scan_raw (buf it) (head it) (tail it) readingEscape hasEsc of
           RawQuote i he \<Rightarrow>
             if copied = [] then
               (\<lparr>rs_buf = Some (View (head it) (i + 1)), isRaw = True, hasEscapes = he\<rparr>, it\<lparr>head := i + 1\<rparr>)
             else
               (\<lparr>rs_buf = Some (Owned (copied @ gslice (buf it) (head it) (i + 1))), isRaw = False,
                  hasEscapes = he\<rparr>, it\<lparr>head := i + 1\<rparr>)
         | RawControl c \<Rightarrow>
             (nil_RawString, ReportError ''ReadRawString''
                (''invalid control character found: '' @ FormatInt (uint c)) it)
         | RawBadEscape \<Rightarrow> (nil_RawString, ReportError ''ReadRawString'' escape_msg it)
         | RawU i \<Rightarrow>
             let it1 = it\<lparr>head := i + 1\<rparr> in
             if i + 4 \<ge> tail it then
               (case readAndFillU4 (replicate 4 0) it1 of (b, ret, it2) \<Rightarrow>
                readRawStringInner_loop (copied @ gslice (buf it) (head it) (i + 1) @ b) False True it2)
             else
               (case parseU4 it1 of (ret, it2) \<Rightarrow>
                if ret = -1 then
                  (nil_RawString, ReportError ''ReadRawString'' ''invalid unicode escape sequence'' it2)
                else
                  readRawStringInner_loop (copied @ gslice (buf it2) (head it) (head it2)) False True it2)
         | RawEnd re he \<Rightarrow>
             (case readByte (it\<lparr>head := tail it\<rparr>) of (c, it1) \<Rightarrow>
              if c = 0 then (nil_RawString, ReportError ''ReadRawString'' ''unexpected end of input'' it1)
              else readRawStringInner_loop (copied @ gslice (buf it) (head it) (tail it)) re he
                     (unreadByte it1))))"
  by pat_completeness auto

lemma scan_raw_range: "scan_raw b i hi re he = RawU k \<Longrightarrow> i \<le> k \<and> k < hi"
proof (induction b i hi re he rule: scan_raw.induct)
  case (1 b i hi re he)
  have "i < hi" using "1.prems" by (cases "i < hi") (simp_all add: scan_raw.simps [of b i hi re he])
  moreover have "i = k \<or> i + 1 \<le> k \<and> k < hi"
    using "1.prems" "1.IH" \<open>i < hi\<close> unfolding scan_raw.simps [of b i hi re he] Let_def
    by (auto split: if_splits)
  ultimately show ?case by auto
qed

lemma fill_earlier:
  assumes "scan_raw (buf it) (head it) (tail it) re he = RawU i"
    "(b, r, it2) = readAndFillU4 bs (it\<lparr>head := i + 1\<rparr>)"
  shows "earlier it it2"
  using assms scan_raw_range [OF assms(1)] readAndFillU4_loop_no_later [of 4 0 bs 0 "it\<lparr>head := i + 1\<rparr>" b r it2]
  by (intro no_later_behind [where k = "i + 1"]) (auto simp: readAndFillU4_def)

lemma parse_earlier:
  assumes "scan_raw (buf it) (head it) (tail it) re he = RawU i" "\<not> i + 4 \<ge> tail it"
    "(r, it2) = parseU4 (it\<lparr>head := i + 1\<rparr>)"
  shows "earlier it it2"
  using scan_raw_range [OF assms(1)] assms(2) parseU4_no_later [of "it\<lparr>head := i + 1\<rparr>" r it2] assms(3)
  by (intro no_later_behind [where k = "i + 1"]) auto

termination readRawStringInner_loop
  by (relation "inv_image {(it', it). earlier it it'} (\<lambda>(c, re, he, it). it)")
    (use earlier_wf in \<open>auto dest: fill_earlier parse_earlier refill_earlier [OF sym]\<close>)

declare readRawStringInner_loop.simps [simp del]

definition readRawStringInner :: "iterator \<Rightarrow> RawString \<times> iterator" where
  "readRawStringInner it = readRawStringInner_loop [] False False it"

definition ReadRawString :: "iterator \<Rightarrow> RawString \<times> iterator" where
  "ReadRawString it =
     (case nextToken it of (c, it1) \<Rightarrow>
      if c = ch_quote then readRawStringInner it1
      else if c = ch_n then (nil_RawString, skipThreeBytes ch_u ch_l ch_l it1)
      else (nil_RawString, ReportError ''ReadRawString''
              (''expects '' @ [CHR 0x22] @ '' or n, but found '' @ byte_str c) (unreadByte it1)))"

definition ReadStringAsSlice :: "iterator \<Rightarrow> raw_buf option \<times> iterator" where
  "ReadStringAsSlice it = (case ReadRawString it of (r, it1) \<Rightarrow> (rs_buf r, it1))"

text \<open>The methods of \<open>RawString\<close>, given the contents of the buffer it may view. In
  \<open>RawString_String\<close> the iterator is a fresh one (its \<open>cfg\<close> is nil and never read); the result
  \<open>None\<close> is the panic.\<close>

definition IsNil :: "RawString \<Rightarrow> bool" where
  "IsNil r \<longleftrightarrow> rs_buf r = None"

definition Realize :: "bytes \<Rightarrow> RawString \<Rightarrow> RawString" where
  "Realize arr r = (if isRaw r then r\<lparr>rs_buf := Some (Owned (raw_bytes arr r)), isRaw := False\<rparr> else r)"

definition RawString_String :: "bytes \<Rightarrow> RawString \<Rightarrow> bytes option" where
  "RawString_String arr r =
     (if rs_buf r = None then Some []
      else
        let b = raw_bytes arr r in
        if \<not> hasEscapes r then Some (gslice b 0 (int (length b) - 1))
        else
          (case readStringInner (ParseBytes ConfigDefault b) of (res, it) \<Rightarrow>
           if Error it \<noteq> None then None else Some res))"

definition RawString_Bytes :: "bytes \<Rightarrow> RawString \<Rightarrow> bytes \<times> bool" where
  "RawString_Bytes arr r =
     (let raw = raw_bytes arr r in
      (if length raw > 0 then gslice raw 0 (int (length raw) - 1) else raw, isRaw r))"

definition ContainsEscapes :: "RawString \<Rightarrow> bool" where
  "ContainsEscapes r = hasEscapes r"

section \<open>Reference: string literals as byte lists\<close>

fun hexn :: "nat \<Rightarrow> int \<Rightarrow> bytes \<Rightarrow> (int \<times> bytes) option" where
  "hexn 0 ret cs = Some (ret, cs)"
| "hexn (Suc n) ret [] = None"
| "hexn (Suc n) ret (c # cs) =
     (case hex_digit c of None \<Rightarrow> None | Some d \<Rightarrow> hexn n (ret * 16 + d) cs)"

abbreviation hex4 :: "bytes \<Rightarrow> (int \<times> bytes) option" where
  "hex4 cs \<equiv> hexn 4 0 cs"

definition decode_simple :: "byte \<Rightarrow> bytes \<Rightarrow> (bytes \<times> bytes) option" where
  "decode_simple e cs = map_option (\<lambda>x. ([x], cs)) (simple_escape e)"

text \<open>A surrogate takes the escape behind it along: with a matching low surrogate it makes one
  rune, otherwise each becomes U+FFFD.\<close>

definition decode_surrogate :: "int \<Rightarrow> bytes \<Rightarrow> (bytes \<times> bytes) option" where
  "decode_surrogate r cs =
     (case cs of
        [] \<Rightarrow> None
      | c # cs1 \<Rightarrow>
          if c \<noteq> ch_bslash then Some (WriteRune r, cs)
          else
            (case cs1 of
               [] \<Rightarrow> None
             | e # cs2 \<Rightarrow>
                 if e \<noteq> ch_u then map_option (\<lambda>(out, rest). (WriteRune r @ out, rest)) (decode_simple e cs2)
                 else
                   (case hex4 cs2 of
                      None \<Rightarrow> None
                    | Some (r2, rest) \<Rightarrow>
                        Some (if DecodeRune r r2 = RuneError then WriteRune r @ WriteRune r2
                              else WriteRune (DecodeRune r r2), rest))))"

text \<open>One escape sequence, after its backslash: the decoded bytes and what follows.\<close>

definition decode_escape :: "bytes \<Rightarrow> (bytes \<times> bytes) option" where
  "decode_escape cs =
     (case cs of
        [] \<Rightarrow> None
      | e # cs1 \<Rightarrow>
          if e \<noteq> ch_u then decode_simple e cs1
          else
            (case hex4 cs1 of
               None \<Rightarrow> None
             | Some (r, rest) \<Rightarrow> if IsSurrogate r then decode_surrogate r rest else Some (WriteRune r, rest)))"

lemma hexn_Some: "hexn n ret cs = Some (r, rest) \<Longrightarrow> rest = drop n cs \<and> n \<le> length cs"
  by (induction n ret cs rule: hexn.induct) (auto split: option.splits)

lemma hex4_shorter: "hex4 cs = Some (r, rest) \<Longrightarrow> length rest < length cs"
  using hexn_Some [of 4 0 cs r rest] by auto

lemma decode_escape_shorter: "decode_escape cs = Some (out, rest) \<Longrightarrow> length rest < length cs"
  by (auto simp: decode_escape_def decode_surrogate_def decode_simple_def split: list.splits if_splits option.splits
      dest!: hex4_shorter)

text \<open>The rest of a string literal after its opening quote: decoded contents, and the input after
  the closing quote.\<close>

function decode_str :: "bytes \<Rightarrow> (bytes \<times> bytes) option" where
  "decode_str [] = None"
| "decode_str (c # cs) =
     (if c = ch_quote then Some ([], cs)
      else if c = ch_bslash then
        (case decode_escape cs of
           None \<Rightarrow> None
         | Some (out, rest) \<Rightarrow> map_option (\<lambda>(s, r). (out @ s, r)) (decode_str rest))
      else if c < ch_space then None
      else map_option (\<lambda>(s, r). (c # s, r)) (decode_str cs))"
  by pat_completeness auto
termination
  by (relation "measure length") (auto dest: decode_escape_shorter [OF sym] decode_escape_shorter)

text \<open>The literal as it is written, closing quote included, and whether it has escapes; the first
  flag says that a backslash has just been read.\<close>

definition raw_prefix :: "bytes \<Rightarrow> (bytes \<times> bool \<times> bytes) option \<Rightarrow> (bytes \<times> bool \<times> bytes) option" where
  "raw_prefix p = map_option (\<lambda>(s, h, r). (p @ s, h, r))"

function raw_str :: "bool \<Rightarrow> bool \<Rightarrow> bytes \<Rightarrow> (bytes \<times> bool \<times> bytes) option" where
  "raw_str re he [] = None"
| "raw_str False he (c # cs) =
     (if c = ch_quote then Some ([c], he, cs)
      else if c = ch_bslash then raw_prefix [c] (raw_str True True cs)
      else if c < ch_space then None
      else raw_prefix [c] (raw_str False he cs))"
| "raw_str True he (c # cs) =
     (if c = ch_u then
        (case hex4 cs of
           None \<Rightarrow> None
         | Some (r, rest) \<Rightarrow> raw_prefix (c # take 4 cs) (raw_str False True rest))
      else if simple_escape c = None then None
      else raw_prefix [c] (raw_str False he cs))"
  by pat_completeness auto
termination
  by (relation "measure (\<lambda>(re, he, cs). length cs)") (auto dest!: hex4_shorter)

section \<open>The readers compute the reference\<close>

text \<open>What every operation keeps, also when it fails.\<close>

definition stays :: "iterator \<Rightarrow> iterator \<Rightarrow> bool" where
  "stays it it' \<longleftrightarrow> wf_iter it' \<and> same_frame it it' \<and> depth it' = depth it"

lemma stays_trans: "stays a b \<Longrightarrow> stays b c \<Longrightarrow> stays a c"
  by (auto simp: stays_def dest: same_frame_trans)

lemma stays_refl: "wf_iter it \<Longrightarrow> stays it it"
  by (simp add: stays_def)

lemma stays_ReportError [simp]: "stays a (ReportError op msg it) = stays a it"
  by (simp add: stays_def same_frame_def)

lemma consumes_stays: "consumes a xs b \<Longrightarrow> stays a b"
  by (simp add: consumes_def stays_def)

lemma readByte_stays: "wf_iter it \<Longrightarrow> readByte it = (c, it') \<Longrightarrow> stays it it'"
  unfolding stays_def using readByte_frame [of it c it'] by blast

lemma readByte_Nil:
  assumes "wf_iter it" "readByte it = (c, it')" "pending it = []"
  shows "c = 0 \<and> Error it' \<noteq> None"
  using readByte_end [OF assms(1,3)] assms(2) by auto

lemma readByte_Cons:
  assumes "wf_iter it" "readByte it = (c, it')" "pending it = x # xs"
  shows "c = x \<and> consumes it [x] it' \<and> can_unread x it' \<and> pending it' = xs"
  using readByte_spec [OF assms(1,3)] assms(2) by auto

text \<open>A result \<open>(v, it')\<close> that reads what the reference \<open>ref\<close> gives, or fails.\<close>

definition reads_as :: "iterator \<Rightarrow> ('v \<times> bytes) option \<Rightarrow> 'v \<Rightarrow> iterator \<Rightarrow> bool" where
  "reads_as it ref v it' \<longleftrightarrow>
     (case ref of
        None \<Rightarrow> Error it' \<noteq> None \<and> stays it it'
      | Some (x, rest) \<Rightarrow> v = x \<and> (\<exists>xs. consumes it xs it') \<and> pending it' = rest)"

lemma hex_digit_range: "hex_digit c = Some d \<Longrightarrow> 0 \<le> d \<and> d < 16"
proof -
  assume h: "hex_digit c = Some d"
  have 1: "uint x \<le> 9" if "x \<le> 9" for x :: byte using that by (simp add: word_le_def)
  have 2: "uint (x + 10) \<le> 15 \<and> 0 \<le> uint (x + 10)" if "x \<le> 5" for x :: byte
    using that by (simp add: word_le_def uint_word_ariths)
  from h show ?thesis
    using 1 [of "c - 0x30"] 2 [of "((c - 0x30) OR 0x20) - (ch_a - ch_0)"]
    by (auto simp: hex_digit_def Let_def split: if_splits)
qed

lemma hexn_range: "hexn n ret cs = Some (r, rest) \<Longrightarrow> 0 \<le> ret \<Longrightarrow> 0 \<le> r"
  by (induction n ret cs rule: hexn.induct) (auto split: option.splits dest: hex_digit_range)

lemma readU4_loop_reads:
  assumes "wf_iter it" "Error it = None"
  shows "reads_as it (hexn n ret (pending it)) (fst (readU4_loop n ret it)) (snd (readU4_loop n ret it))"
  using assms
proof (induction n arbitrary: ret it)
  case 0
  then show ?case using consumes_refl by (auto simp: reads_as_def)
next
  case (Suc n)
  obtain c it1 where rb: "readByte it = (c, it1)" by force
  show ?case
  proof (cases "pending it")
    case Nil
    with readByte_Nil [OF _ rb] readByte_stays [OF _ rb] Suc.prems rb show ?thesis by (auto simp: reads_as_def)
  next
    case (Cons x xs)
    note r = readByte_Cons [OF Suc.prems(1) rb Cons]
    have e: "Error it1 = None" using r consumes_Error Suc.prems by metis
    show ?thesis
    proof (cases "hex_digit x")
      case None
      with r e rb Cons consumes_stays show ?thesis by (auto simp: reads_as_def)
    next
      case (Some d)
      have IH: "reads_as it1 (hexn n (ret * 16 + d) xs) (fst (readU4_loop n (ret * 16 + d) it1))
          (snd (readU4_loop n (ret * 16 + d) it1))"
        using Suc.IH [of it1 "ret * 16 + d"] r e consumes_wf by metis
      with Some r e rb Cons show ?thesis
        by (auto simp: reads_as_def split: option.splits intro: consumes_trans stays_trans consumes_stays)
    qed
  qed
qed

lemma parseU4_loop_hexn:
  assumes "0 \<le> i" "i + int n \<le> int (length b)"
  shows "hexn n ret (gslice b i (i + int n) @ xs) = map_option (\<lambda>r. (r, xs)) (parseU4_loop b i (i + int n) ret)"
  using assms
proof (induction n arbitrary: i ret)
  case 0
  then show ?case by (simp add: parseU4_loop.simps [of b i i])
next
  case (Suc n)
  have g: "gslice b i (i + int (Suc n)) = byte_at b i # gslice b (i + 1) (i + 1 + int n)"
    using Suc.prems gslice_Cons [of i "i + int (Suc n)" b] by (simp add: algebra_simps)
  have e: "i + int (Suc n) = i + 1 + int n" by simp
  have st: "parseU4_loop b i (i + int (Suc n)) ret = (case hex_digit (byte_at b i) of
      Some d \<Rightarrow> parseU4_loop b (i + 1) (i + 1 + int n) (ret * 16 + d) | None \<Rightarrow> None)"
    unfolding e by (subst parseU4_loop.simps) simp
  show ?case
    unfolding g st using Suc.IH [of "i + 1"] Suc.prems by (auto split: option.splits)
qed

text \<open>\<open>parseU4\<close> with four bytes in the window.\<close>

lemma parseU4_reads:
  assumes "wf_iter it" "tail it - head it \<ge> 4"
  shows "case hex4 (pending it) of
      None \<Rightarrow> parseU4 it = (-1, it)
    | Some (r, rest) \<Rightarrow> 0 \<le> r \<and> parseU4 it = (r, it\<lparr>head := head it + 4\<rparr>)
        \<and> consumes it (take 4 (pending it)) (it\<lparr>head := head it + 4\<rparr>)
        \<and> pending (it\<lparr>head := head it + 4\<rparr>) = rest
        \<and> take 4 (pending it) = gslice (buf it) (head it) (head it + 4)"
proof -
  have b: "0 \<le> head it" "head it + 4 \<le> tail it" "tail it \<le> int (length (buf it))"
    using assms by (auto simp: wf_iter_def)
  let ?w = "gslice (buf it) (head it) (head it + 4)" and ?it = "it\<lparr>head := head it + 4\<rparr>"
  have con: "consumes it ?w ?it" using consumes_head [OF assms(1), of "head it + 4"] b by simp
  have p: "pending it = ?w @ pending ?it" using consumes_pending [OF con] .
  have l: "length ?w = 4" using b by simp
  have h: "hex4 (pending it) = map_option (\<lambda>r. (r, pending ?it)) (parseU4_loop (buf it) (head it) (head it + 4) 0)"
    using parseU4_loop_hexn [of "head it" 4 "buf it" 0 "pending ?it"] b p by simp
  show ?thesis
  proof (cases "parseU4_loop (buf it) (head it) (head it + 4) 0")
    case None
    with h b show ?thesis by (simp add: parseU4_def Let_def)
  next
    case (Some r)
    then have "0 \<le> r" using h hexn_range by simp
    with Some h b p l con show ?thesis by (simp add: parseU4_def Let_def)
  qed
qed

lemma readU4_reads:
  assumes "wf_iter it" "Error it = None"
  shows "reads_as it (hex4 (pending it)) (fst (readU4 it)) (snd (readU4 it))"
proof (cases "tail it - head it \<ge> 4")
  case True
  show ?thesis
  proof (cases "hex4 (pending it)")
    case None
    with parseU4_reads [OF assms(1) True] True stays_refl [OF assms(1)] show ?thesis
      by (auto simp: readU4_def reads_as_def)
  next
    case (Some p)
    with parseU4_reads [OF assms(1) True] True show ?thesis
      by (auto simp: readU4_def reads_as_def)
  qed
next
  case False
  with readU4_loop_reads [OF assms] show ?thesis by (simp add: readU4_def)
qed

lemma readAndFillU4_loop_reads:
  assumes "wf_iter it" "Error it = None" "length b = i + n"
  shows "reads_as it (map_option (\<lambda>(r, rest). (take i b @ take n (pending it), rest)) (hexn n ret (pending it)))
    (fst (readAndFillU4_loop n i b ret it)) (snd (snd (readAndFillU4_loop n i b ret it)))"
  using assms
proof (induction n arbitrary: ret it i b)
  case 0
  then show ?case using consumes_refl by (auto simp: reads_as_def)
next
  case (Suc n)
  obtain c it1 where rb: "readByte it = (c, it1)" by force
  show ?case
  proof (cases "pending it")
    case Nil
    with readByte_Nil [OF _ rb] readByte_stays [OF _ rb] Suc.prems rb show ?thesis by (auto simp: reads_as_def)
  next
    case (Cons x xs)
    note r = readByte_Cons [OF Suc.prems(1) rb Cons]
    have e: "Error it1 = None" using r consumes_Error Suc.prems by metis
    show ?thesis
    proof (cases "hex_digit x")
      case None
      with r e rb Cons consumes_stays show ?thesis by (auto simp: reads_as_def)
    next
      case (Some d)
      let ?f = "readAndFillU4_loop n (i + 1) (b[i := x]) (ret * 16 + d) it1"
      have "take (i + 1) (b[i := x]) = take i b @ [x]"
        using Suc.prems(3) by (simp add: take_Suc_conv_app_nth)
      then have IH: "reads_as it1 (map_option (\<lambda>(r, rest). (take i b @ x # take n xs, rest))
          (hexn n (ret * 16 + d) xs)) (fst ?f) (snd (snd ?f))"
        using Suc.IH [of it1 "b[i := x]" "i + 1" "ret * 16 + d"] r e consumes_wf [of it "[x]" it1] Suc.prems(3)
        by simp
      have "readAndFillU4_loop (Suc n) i b ret it = ?f" using Some r e rb by simp
      with IH Some r e rb Cons show ?thesis
        by (auto simp: reads_as_def split: option.splits intro: consumes_trans stays_trans consumes_stays)
    qed
  qed
qed

lemma readAndFillU4_reads:
  assumes "wf_iter it" "Error it = None"
  shows "reads_as it (map_option (\<lambda>(r, rest). (take 4 (pending it), rest)) (hex4 (pending it)))
    (fst (readAndFillU4 (replicate 4 0) it)) (snd (snd (readAndFillU4 (replicate 4 0) it)))"
  using readAndFillU4_loop_reads [OF assms, of "replicate 4 0" 0 4 0] by (simp add: readAndFillU4_def)

lemma reads_as_after: "consumes a xs b \<Longrightarrow> reads_as b ref v it' \<Longrightarrow> reads_as a ref v it'"
  unfolding reads_as_def
  by (cases ref) (auto intro: consumes_trans stays_trans consumes_stays)

lemma reads_as_None: "reads_as it None v it' \<longleftrightarrow> Error it' \<noteq> None \<and> stays it it'"
  by (simp add: reads_as_def)

lemma reads_as_Some: "reads_as it (Some (x, rest)) v it' \<longleftrightarrow> v = x \<and> (\<exists>xs. consumes it xs it') \<and> pending it' = rest"
  by (simp add: reads_as_def)

abbreviation appends :: "bytes \<Rightarrow> (bytes \<times> bytes) option \<Rightarrow> (bytes \<times> bytes) option" where
  "appends sb \<equiv> map_option (\<lambda>(out, rest). (sb @ out, rest))"

lemma escape_default_reads:
  assumes "wf_iter it"
  shows "reads_as it (appends sb (decode_simple c (pending it))) (fst (escape_default c sb it)) (snd (escape_default c sb it))"
  using stays_refl [OF assms] consumes_refl [OF assms]
  by (auto simp: reads_as_def escape_default_def decode_simple_def split: option.splits)

lemma readByte_Error_sticky: "readByte it = (c, it') \<Longrightarrow> wf_iter it \<Longrightarrow> Error it \<noteq> None \<Longrightarrow> Error it' \<noteq> None"
  using readByte_Error [of it c it'] by (cases "Error it'") auto

lemma readSurrogate_reads:
  assumes wf: "wf_iter it" and e: "Error it = None"
  shows "reads_as it (appends sb (decode_surrogate r (pending it))) (fst (readSurrogate sb r it)) (snd (readSurrogate sb r it))"
proof -
  obtain c it3 where rb: "readByte it = (c, it3)" by force
  show ?thesis
  proof (cases "pending it")
    case Nil
    then show ?thesis using rb readByte_Nil [OF wf rb] readByte_stays [OF wf rb]
      by (simp add: readSurrogate_def decode_surrogate_def reads_as_None)
  next
    case (Cons x cs1)
    note r3 = readByte_Cons [OF wf rb Cons]
    have e3: "Error it3 = None" using r3 consumes_Error e by metis
    have wf3: "wf_iter it3" using r3 consumes_wf by blast
    show ?thesis
    proof (cases "x = ch_bslash")
      case False
      then have "consumes it [] (unreadByte it3)" "pending (unreadByte it3) = x # pending it3"
        using unreadByte_spec [of it "[]" x it3] r3 e3 by auto
      then show ?thesis using False rb r3 e3 Cons
        by (auto simp: readSurrogate_def decode_surrogate_def reads_as_Some)
    next
      case True
      obtain c4 it4 where rb4: "readByte it3 = (c4, it4)" by force
      show ?thesis
      proof (cases cs1)
        case Nil
        then have "Error it4 \<noteq> None" "stays it3 it4"
          using r3 readByte_Nil [OF wf3 rb4] readByte_stays [OF wf3 rb4] by auto
        moreover have "stays it it3" using r3 consumes_stays by blast
        ultimately show ?thesis using True rb rb4 r3 e3 Cons Nil
          by (auto simp: readSurrogate_def decode_surrogate_def reads_as_None intro: stays_trans)
      next
        case c1: (Cons y cs2)
        then have r4: "c4 = y \<and> consumes it3 [y] it4 \<and> can_unread y it4 \<and> pending it4 = cs2"
          using r3 readByte_Cons [OF wf3 rb4] by simp
        have e4: "Error it4 = None" using r4 consumes_Error e3 by metis
        have wf4: "wf_iter it4" using r4 consumes_wf by blast
        have con: "consumes it ([x] @ [y]) it4" using r3 r4 by (blast intro: consumes_trans)
        show ?thesis
        proof (cases "y = ch_u")
          case False
          then have d: "readSurrogate sb r it = escape_default y (sb @ WriteRune r) it4"
            and ref: "appends sb (decode_surrogate r (pending it)) = appends (sb @ WriteRune r) (decode_simple y (pending it4))"
            using rb rb4 r3 r4 e3 e4 Cons c1 True
            by (auto simp: readSurrogate_def decode_surrogate_def option.map_comp o_def case_prod_beta')
          show ?thesis unfolding d ref by (rule reads_as_after [OF con escape_default_reads [OF wf4]])
        next
          case u: True
          obtain r2 it5 where ru: "readU4 it4 = (r2, it5)" by force
          have h: "reads_as it4 (hex4 cs2) r2 it5" using readU4_reads [OF wf4 e4] ru r4 by simp
          then have h': "reads_as it (hex4 cs2) r2 it5" by (rule reads_as_after [OF con])
          show ?thesis
          proof (cases "hex4 cs2")
            case None
            with h' u ru rb rb4 r3 r4 e3 e4 Cons c1 True show ?thesis
              by (auto simp: readSurrogate_def decode_surrogate_def reads_as_None)
          next
            case (Some p)
            obtain v rest where p: "p = (v, rest)" by force
            have "Error it5 = None" using h Some p e4 by (auto simp: reads_as_Some dest: consumes_Error)
            with h' Some p u ru rb rb4 r3 r4 e3 e4 Cons c1 True show ?thesis
              by (auto simp: readSurrogate_def decode_surrogate_def reads_as_Some Let_def)
          qed
        qed
      qed
    qed
  qed
qed

lemma readEscapedChar_reads:
  assumes wf: "wf_iter it" and e: "Error it = None"
  shows "reads_as it (appends sb (decode_escape (pending it))) (fst (readEscapedChar sb it)) (snd (readEscapedChar sb it))"
proof -
  obtain c it1 where rb: "readByte it = (c, it1)" by force
  show ?thesis
  proof (cases "pending it")
    case Nil
    then show ?thesis using rb readByte_Nil [OF wf rb] readByte_stays [OF wf rb]
      by (simp add: readEscapedChar_def decode_escape_def escape_default_def simple_escape_def reads_as_None)
  next
    case (Cons x cs1)
    note r1 = readByte_Cons [OF wf rb Cons]
    have e1: "Error it1 = None" using r1 consumes_Error e by metis
    have wf1: "wf_iter it1" using r1 consumes_wf by blast
    have con: "consumes it [x] it1" using r1 by blast
    show ?thesis
    proof (cases "x = ch_u")
      case False
      then have "readEscapedChar sb it = escape_default x sb it1"
        "decode_escape (pending it) = decode_simple x (pending it1)"
        using rb r1 Cons by (auto simp: readEscapedChar_def decode_escape_def)
      then show ?thesis using reads_as_after [OF con escape_default_reads [OF wf1]] by simp
    next
      case True
      obtain r it2 where ru: "readU4 it1 = (r, it2)" by force
      have h: "reads_as it1 (hex4 cs1) r it2" using readU4_reads [OF wf1 e1] ru r1 by simp
      show ?thesis
      proof (cases "hex4 cs1")
        case None
        then have e2: "Error it2 \<noteq> None" "stays it1 it2" using h by (auto simp: reads_as_None)
        have "Error (snd (readSurrogate sb r it2)) \<noteq> None \<and> stays it2 (snd (readSurrogate sb r it2))"
          using e2 readByte_Error_sticky [of it2] readByte_stays [of it2]
          by (cases "readByte it2") (auto simp: readSurrogate_def stays_def)
        with e2 True rb ru r1 Cons None show ?thesis
          by (auto simp: readEscapedChar_def decode_escape_def reads_as_None
              intro: stays_trans consumes_stays [OF con])
      next
        case (Some p)
        obtain v rest where p: "p = (v, rest)" by force
        have h2: "r = v" "\<exists>xs. consumes it1 xs it2" "pending it2 = rest"
          using h Some p by (auto simp: reads_as_Some)
        then obtain xs where con2: "consumes it ([x] @ xs) it2" using con consumes_trans by blast
        have e2: "Error it2 = None" using con2 consumes_Error e by metis
        show ?thesis
        proof (cases "IsSurrogate v")
          case False
          with Some p h2 con2 e2 rb ru r1 Cons True show ?thesis
            by (auto simp: readEscapedChar_def decode_escape_def reads_as_Some)
        next
          case s: True
          have "readEscapedChar sb it = readSurrogate sb v it2"
            "decode_escape (pending it) = decode_surrogate v (pending it2)"
            using Some p h2 rb ru r1 Cons True s by (auto simp: readEscapedChar_def decode_escape_def)
          then show ?thesis
            using reads_as_after [OF con2 readSurrogate_reads [OF consumes_wf [OF con2] e2]] by simp
        qed
      qed
    qed
  qed
qed

definition str_stop :: "byte \<Rightarrow> bool" where
  "str_stop c \<longleftrightarrow> c = ch_quote \<or> c = ch_bslash \<or> c < ch_space"

lemma decode_str_plain:
  "\<forall>c \<in> set xs. \<not> str_stop c \<Longrightarrow> decode_str (xs @ ys) = appends xs (decode_str ys)"
  by (induction xs) (auto simp: str_stop_def option.map_comp o_def case_prod_beta' option.map_ident)

lemma appends_appends: "appends a (appends b x) = appends (a @ b) x"
  by (simp add: option.map_comp o_def case_prod_beta')

lemma appends_eq_None [simp]: "appends a x = None \<longleftrightarrow> x = None"
  by simp

text \<open>At the end of the window a byte is read and put back: the input ends, or the window is refilled.\<close>

lemma peek_refill:
  assumes "wf_iter it" "Error it = None" "readByte (it\<lparr>head := tail it\<rparr>) = (c, it1)"
  shows "stays it it1"
    and "c = 0 \<Longrightarrow> pending (it\<lparr>head := tail it\<rparr>) = [] \<or> hd (pending (it\<lparr>head := tail it\<rparr>)) = 0"
    and "c \<noteq> 0 \<Longrightarrow> consumes it (gslice (buf it) (head it) (tail it)) (unreadByte it1)
      \<and> pending (unreadByte it1) = pending (it\<lparr>head := tail it\<rparr>) \<and> Error (unreadByte it1) = None"
proof -
  let ?it0 = "it\<lparr>head := tail it\<rparr>"
  have con: "consumes it (gslice (buf it) (head it) (tail it)) ?it0"
    using consumes_head [of it "tail it"] assms(1) by (simp add: wf_iter_def)
  note w = consumes_wf [OF con]
  show "stays it it1" using readByte_stays [OF w assms(3)] consumes_stays [OF con] by (rule stays_trans [rotated])
  show "pending ?it0 = [] \<or> hd (pending ?it0) = 0" if "c = 0"
    using readByte_Cons [OF w assms(3)] that by (cases "pending ?it0") auto
  assume "c \<noteq> 0"
  then have "pending ?it0 \<noteq> []" using readByte_Nil [OF w assms(3)] by blast
  then obtain x xs where px: "pending ?it0 = x # xs" by (cases "pending ?it0") auto
  note r = readByte_Cons [OF w assms(3) px]
  have e1: "Error it1 = None" using r consumes_Error [of ?it0 "[x]" it1] assms(2) by simp
  with r unreadByte_spec [of ?it0 "[]" x it1] have un: "consumes ?it0 [] (unreadByte it1)"
    "pending (unreadByte it1) = pending ?it0" using px by auto
  with consumes_trans [OF con un(1)] consumes_Error [OF un(1)] assms(2)
  show "consumes it (gslice (buf it) (head it) (tail it)) (unreadByte it1)
      \<and> pending (unreadByte it1) = pending ?it0 \<and> Error (unreadByte it1) = None" by simp
qed

text \<open>What the loop of \<open>readStringInner\<close> has to do, and how it goes on after a part of the string.\<close>

definition inner_reads :: "bytes \<Rightarrow> iterator \<Rightarrow> bool" where
  "inner_reads sb it \<longleftrightarrow> (case decode_str (pending it) of
      None \<Rightarrow> fst (readStringInner_loop sb it) = [] \<and> failed (snd (readStringInner_loop sb it))
        \<and> stays it (snd (readStringInner_loop sb it))
    | Some (s, rest) \<Rightarrow> reads_as it (Some (sb @ s, rest)) (fst (readStringInner_loop sb it)) (snd (readStringInner_loop sb it)))"

lemma inner_reads_step:
  assumes "inner_reads (sb @ a) it2" "readStringInner_loop sb it = readStringInner_loop (sb @ a) it2" "consumes it xs it2"
    "decode_str (pending it) = appends a (decode_str (pending it2))"
  shows "inner_reads sb it"
  using assms(1,4) consumes_stays [OF assms(3)] unfolding inner_reads_def assms(2)
  by (auto split: option.splits prod.splits intro: stays_trans reads_as_after [OF assms(3)])

lemma inner_reads_None:
  "decode_str (pending it) = None \<Longrightarrow> readStringInner_loop sb it = ([], ReportError op msg it2) \<Longrightarrow> stays it it2 \<Longrightarrow> inner_reads sb it"
  by (simp add: inner_reads_def)

lemma inner_reads_escape:
  assumes "wf_iter it" "Error it = None" "find_from (\<lambda>c. c = ch_quote \<or> c = ch_bslash \<or> c < ch_space) (buf it) (head it) (tail it) = Some i"
    "byte_at (buf it) i = ch_bslash" "consumes it (w @ [ch_bslash]) (it\<lparr>head := i + 1\<rparr>)" "w = gslice (buf it) (head it) i"
    "decode_str (pending it) = appends w (decode_str (ch_bslash # pending (it\<lparr>head := i + 1\<rparr>)))"
    "readEscapedChar (sb @ w) (it\<lparr>head := i + 1\<rparr>) = (sb', it2)"
    and IH: "wf_iter it2 \<Longrightarrow> Error it2 = None \<Longrightarrow> inner_reads sb' it2"
  shows "inner_reads sb it"
proof -
  let ?it1 = "it\<lparr>head := i + 1\<rparr>"
  have b: "0 \<le> head it" "head it \<le> tail it" "tail it \<le> int (length (buf it))" using assms(1) by (auto simp: wf_iter_def)
  have u: "readStringInner_loop sb it = readStringInner_loop sb' it2"
    using assms(2,3,4,6,8) b by (simp add: readStringInner_loop.simps [of sb it] Let_def)
  have e1: "Error ?it1 = None" using assms(2) by simp
  have es: "reads_as ?it1 (appends (sb @ w) (decode_escape (pending ?it1))) sb' it2"
    using readEscapedChar_reads [OF consumes_wf [OF assms(5)] e1, of "sb @ w"] assms(8) by simp
  have dec: "decode_str (ch_bslash # pending ?it1) = (case decode_escape (pending ?it1) of None \<Rightarrow> None
      | Some (out, rest) \<Rightarrow> appends out (decode_str rest))" by simp
  show ?thesis
  proof (cases "decode_escape (pending ?it1)")
    case None
    then have "Error it2 \<noteq> None" "stays ?it1 it2" using es by (auto simp: reads_as_None)
    then have "readStringInner_loop sb' it2 = ([], ReportError ''ReadString'' ''unexpected end of input'' it2)"
      "stays it it2" using consumes_stays [OF assms(5)] by (auto simp: readStringInner_loop.simps [of sb' it2] intro: stays_trans)
    with assms(7) dec None u show ?thesis by (intro inner_reads_None) simp_all
  next
    case s: (Some q)
    obtain out rest where q: "q = (out, rest)" by force
    obtain xs where es': "sb' = sb @ w @ out" "consumes ?it1 xs it2" "pending it2 = rest" using es s q by (auto simp: reads_as_Some)
    have con: "consumes it ((w @ [ch_bslash]) @ xs) it2" using consumes_trans [OF assms(5) es'(2)] .
    have "inner_reads (sb @ w @ out) it2" using IH consumes_wf [OF con] consumes_Error [OF con] assms(2) es'(1) by simp
    then show ?thesis
      by (rule inner_reads_step [OF _ _ con]) (use u es' assms(7) dec s q in \<open>simp_all add: appends_appends\<close>)
  qed
qed

lemma inner_reads_always: "wf_iter it \<Longrightarrow> Error it = None \<Longrightarrow> inner_reads sb it"
proof (induction sb it rule: readStringInner_loop.induct)
  case (1 sb it)
  let ?P = "\<lambda>c. c = ch_quote \<or> c = ch_bslash \<or> c < ch_space"
  note wf = "1.prems"(1) and e = "1.prems"(2)
  have b: "0 \<le> head it" "head it \<le> tail it" "tail it \<le> int (length (buf it))" using wf by (auto simp: wf_iter_def)
  show ?case
  proof (cases "find_from ?P (buf it) (head it) (tail it)")
    case (Some i)
    note f = find_from_Some [OF Some b(1,3)]
    let ?w = "gslice (buf it) (head it) i" and ?c = "byte_at (buf it) i" and ?it1 = "it\<lparr>head := i + 1\<rparr>"
    have con: "consumes it (?w @ [?c]) ?it1"
      using consumes_head [of it "i + 1"] wf f gslice_snoc [of "head it" "i + 1" "buf it"] b by simp
    have plain: "\<forall>c \<in> set ?w. \<not> str_stop c" using f by (auto simp: str_stop_def)
    have dec: "decode_str (pending it) = appends ?w (decode_str (?c # pending ?it1))"
      using decode_str_plain [OF plain] consumes_pending [OF con] by simp
    consider (quote) "?c = ch_quote" | (escape) "?c \<noteq> ch_quote" "?c = ch_bslash" | (control) "?c \<noteq> ch_quote" "?c \<noteq> ch_bslash" "?c < ch_space"
      using f by blast
    then show ?thesis
    proof cases
      case quote
      then have "readStringInner_loop sb it = (sb @ ?w, ?it1)"
        using Some e b by (simp add: readStringInner_loop.simps [of sb it] Let_def)
      with quote dec con show ?thesis by (auto simp: inner_reads_def reads_as_Some)
    next
      case control
      have "readStringInner_loop sb it = ([], ReportError ''ReadString'' (''invalid control character found: '' @ FormatInt (uint ?c)) it)"
        using Some e b control by (simp add: readStringInner_loop.simps [of sb it] Let_def)
      with dec control stays_refl [OF wf] show ?thesis by (intro inner_reads_None) simp_all
    next
      case escape
      obtain sb' it2 where r: "readEscapedChar (sb @ ?w) ?it1 = (sb', it2)" by force
      show ?thesis
        by (rule inner_reads_escape [OF wf e Some escape(2) _ refl _ r])
          (use con dec escape(2) "1.IH"(2) [OF _ _ Some refl refl refl escape r [symmetric]] e b in simp_all)
    qed
  next
    case None
    let ?w = "gslice (buf it) (head it) (tail it)" and ?it0 = "it\<lparr>head := tail it\<rparr>"
    have plain: "\<forall>c \<in> set ?w. \<not> str_stop c" using find_from_None [OF None b(1,3)] by (auto simp: str_stop_def)
    have dec: "decode_str (pending it) = appends ?w (decode_str (pending ?it0))"
      using decode_str_plain [OF plain] consumes_pending [OF consumes_head [of it "tail it"]] wf b by simp
    obtain c it1 where rb: "readByte ?it0 = (c, it1)" by force
    note peek = peek_refill [OF wf e rb]
    show ?thesis
    proof (cases "c = 0")
      case True
      have "decode_str (pending ?it0) = None" using peek(2) [OF True] by (cases "pending ?it0") auto
      moreover have "readStringInner_loop sb it = ([], ReportError ''ReadString'' ''unexpected end of input'' it1)"
        using None e b True rb by (simp add: readStringInner_loop.simps [of sb it])
      ultimately show ?thesis using dec peek(1) by (intro inner_reads_None) simp_all
    next
      case False
      note p = peek(3) [OF False]
      have u: "readStringInner_loop sb it = readStringInner_loop (sb @ ?w) (unreadByte it1)"
        using None e b False rb by (simp add: readStringInner_loop.simps [of sb it])
      have "inner_reads (sb @ ?w) (unreadByte it1)"
        using "1.IH"(1) [OF _ _ None rb [symmetric] False] p consumes_wf [OF conjunct1 [OF p]] e b by simp
      then show ?thesis by (rule inner_reads_step [OF _ u]) (use p dec in auto)
    qed
  qed
qed

lemma readStringInner_loop_reads:
  assumes "wf_iter it" "Error it = None"
  shows "case decode_str (pending it) of
      None \<Rightarrow> fst (readStringInner_loop sb it) = [] \<and> failed (snd (readStringInner_loop sb it))
        \<and> stays it (snd (readStringInner_loop sb it))
    | Some (s, rest) \<Rightarrow> reads_as it (Some (sb @ s, rest)) (fst (readStringInner_loop sb it)) (snd (readStringInner_loop sb it))"
  using inner_reads_always [OF assms] unfolding inner_reads_def .

section \<open>Raw strings: scanning and reading\<close>

lemma raw_prefix_raw_prefix [simp]: "raw_prefix a (raw_prefix b x) = raw_prefix (a @ b) x"
  by (simp add: raw_prefix_def option.map_comp o_def case_prod_beta')

lemma raw_prefix_simps [simp]: "raw_prefix p None = None" "raw_prefix p (Some (s, h, r)) = Some (p @ s, h, r)"
  by (simp_all add: raw_prefix_def)

definition scan_ok :: "bytes \<Rightarrow> int \<Rightarrow> int \<Rightarrow> bytes \<Rightarrow> (bytes \<times> bool \<times> bytes) option \<Rightarrow> raw_scan \<Rightarrow> bool" where
  "scan_ok b i hi ys ref s \<longleftrightarrow>
     (case s of
        RawQuote k h \<Rightarrow> i \<le> k \<and> k < hi \<and> ref = Some (gslice b i (k + 1), h, gslice b (k + 1) hi @ ys)
      | RawControl c \<Rightarrow> ref = None
      | RawBadEscape \<Rightarrow> ref = None
      | RawU k \<Rightarrow> i \<le> k \<and> k < hi \<and> ref = (case hex4 (gslice b (k + 1) hi @ ys) of
            None \<Rightarrow> None
          | Some (r, rest) \<Rightarrow>
              raw_prefix (gslice b i (k + 1) @ take 4 (gslice b (k + 1) hi @ ys)) (raw_str False True rest))
      | RawEnd re h \<Rightarrow> (re \<longrightarrow> h) \<and> ref = raw_prefix (gslice b i hi) (raw_str re h ys))"

lemma scan_ok_step:
  assumes "scan_ok b (i + 1) hi ys ref s" "0 \<le> i" "i < hi" "hi \<le> int (length b)"
  shows "scan_ok b i hi ys (raw_prefix [byte_at b i] ref) s"
proof -
  have g: "gslice b i (k + 1) = byte_at b i # gslice b (i + 1) (k + 1)" if "i < k + 1" "k + 1 \<le> hi" for k
    using gslice_Cons [of i "k + 1" b] that assms by simp
  have "gslice b i hi = byte_at b i # gslice b (i + 1) hi" using gslice_Cons assms by auto
  with assms(1) g show ?thesis
    by (cases s) (auto simp: scan_ok_def split: option.splits)
qed

lemma simple_escape_None:
  "simple_escape c = None \<longleftrightarrow> c \<noteq> ch_quote \<and> c \<noteq> ch_bslash \<and> \<not> (c = ch_slash \<or> c = ch_b \<or> c = ch_f \<or> c = ch_n
     \<or> c = ch_r \<or> c = ch_t)"
  by (auto simp: simple_escape_def)

lemma scan_raw_unfold:
  assumes "i < hi"
  shows "scan_raw b i hi re he =
    (if re then
       (if byte_at b i = ch_u then RawU i
        else if simple_escape (byte_at b i) = None then
          (if byte_at b i < ch_space then RawControl (byte_at b i) else RawBadEscape)
        else scan_raw b (i + 1) hi False (if byte_at b i = ch_bslash then True else he))
     else if byte_at b i = ch_quote then RawQuote i he
     else if byte_at b i = ch_bslash then scan_raw b (i + 1) hi True True
     else if byte_at b i < ch_space then RawControl (byte_at b i)
     else scan_raw b (i + 1) hi False he)"
proof -
  have not_ctl: "\<not> byte_at b i < ch_space" if "simple_escape (byte_at b i) \<noteq> None \<or> byte_at b i = ch_u"
    using that by (auto simp: simple_escape_def split: if_splits)
  show ?thesis
    using assms not_ctl unfolding scan_raw.simps [of b i hi re he] Let_def
    by (auto simp: simple_escape_None)
qed

lemma scan_raw_ok:
  "0 \<le> i \<Longrightarrow> i \<le> hi \<Longrightarrow> hi \<le> int (length b) \<Longrightarrow> (re \<longrightarrow> he)
    \<Longrightarrow> scan_ok b i hi ys (raw_str re he (gslice b i hi @ ys)) (scan_raw b i hi re he)"
proof (induction "nat (hi - i)" arbitrary: i re he)
  case 0
  then have "scan_raw b i hi re he = RawEnd re he" by (subst scan_raw.simps) simp
  with 0 show ?case by (simp add: scan_ok_def raw_prefix_def case_prod_beta' option.map_ident)
next
  case (Suc n)
  then have lt: "i < hi" by simp
  let ?c = "byte_at b i"
  have g: "gslice b i hi = ?c # gslice b (i + 1) hi" "gslice b i (i + 1) = [?c]"
    using gslice_Cons [of i hi b] gslice_Cons [of i "i + 1" b] Suc.prems lt by simp_all
  have IH: "scan_ok b (i + 1) hi ys (raw_str re he (gslice b (i + 1) hi @ ys)) (scan_raw b (i + 1) hi re he)"
    if "re \<longrightarrow> he" for re he
    using Suc.hyps(1) [of "i + 1"] Suc.hyps(2) Suc.prems lt that by simp
  note step = scan_ok_step [OF IH Suc.prems(1) lt Suc.prems(3)]
  show ?case
  proof (cases re)
    case True
    with lt g Suc.prems step show ?thesis
      by (auto simp: scan_raw_unfold [OF lt] scan_ok_def [where s = "RawU i"] scan_ok_def [where s = RawBadEscape]
          scan_ok_def [where s = "RawControl _"] split: option.splits)
  next
    case False
    with lt g Suc.prems step show ?thesis
      by (auto simp: scan_raw_unfold [OF lt] scan_ok_def [where s = "RawQuote i he"]
          scan_ok_def [where s = "RawControl _"] )
  qed
qed

text \<open>The readers of raw strings, result taken against the buffer they leave behind.\<close>

definition raw_reads :: "iterator \<Rightarrow> bytes \<Rightarrow> (bytes \<times> bool \<times> bytes) option \<Rightarrow> RawString \<Rightarrow> iterator \<Rightarrow> bool" where
  "raw_reads it copied ref r it' \<longleftrightarrow>
     (case ref of
        None \<Rightarrow> r = nil_RawString \<and> failed it' \<and> stays it it'
      | Some (s, h, rest) \<Rightarrow> rs_buf r \<noteq> None \<and> raw_bytes (buf it') r = copied @ s \<and> hasEscapes r = h
          \<and> (isRaw r \<longleftrightarrow> (\<exists>lo hi. rs_buf r = Some (View lo hi))) \<and> (\<exists>xs. consumes it xs it') \<and> pending it' = rest)"

lemma raw_reads_after:
  "consumes a xs b \<Longrightarrow> raw_reads b (copied @ p) ref r it' \<Longrightarrow> raw_reads a copied (raw_prefix p ref) r it'"
  unfolding raw_reads_def raw_prefix_def
  by (cases ref) (auto intro: consumes_trans stays_trans consumes_stays)

lemma raw_reads_None: "raw_reads it copied None r it' \<longleftrightarrow> r = nil_RawString \<and> failed it' \<and> stays it it'"
  by (simp add: raw_reads_def)

lemma readRaw_Error: "Error it \<noteq> None \<Longrightarrow> readRawStringInner_loop copied re he it
    = (nil_RawString, ReportError ''ReadRawString'' ''unexpected end of input'' it)"
  by (simp add: readRawStringInner_loop.simps [of copied re he it])

lemma readRaw_U:
  assumes wf: "wf_iter it" and e: "Error it = None" and k: "head it \<le> k" "k < tail it"
    and s: "scan_raw (buf it) (head it) (tail it) re he = RawU k"
    and ref: "raw_str re he (pending it) = (case hex4 (pending (it\<lparr>head := k + 1\<rparr>)) of
            None \<Rightarrow> None
          | Some (r, rest) \<Rightarrow> raw_prefix (gslice (buf it) (head it) (k + 1) @ take 4 (pending (it\<lparr>head := k + 1\<rparr>)))
              (raw_str False True rest))"
  shows "(\<exists>it2 xs p. readRawStringInner_loop copied re he it = readRawStringInner_loop (copied @ p) False True it2
      \<and> earlier it it2 \<and> consumes it xs it2 \<and> raw_str re he (pending it) = raw_prefix p (raw_str False True (pending it2)))
    \<or> (raw_str re he (pending it) = None \<and> (\<exists>it2. readRawStringInner_loop copied re he it = (nil_RawString, it2)
        \<and> failed it2 \<and> stays it it2))"
proof -
  let ?it1 = "it\<lparr>head := k + 1\<rparr>" and ?w = "gslice (buf it) (head it) (k + 1)"
  have b: "0 \<le> head it" "head it \<le> tail it" "tail it \<le> int (length (buf it))" using wf by (auto simp: wf_iter_def)
  have con: "consumes it ?w ?it1" using consumes_head [of it "k + 1"] wf k by simp
  have wf1: "wf_iter ?it1" using consumes_wf [OF con] .
  have e1: "Error ?it1 = None" using e by simp
  show ?thesis
  proof (cases "k + 4 \<ge> tail it")
    case True
    obtain bb ret it2 where f: "readAndFillU4 (replicate 4 0) ?it1 = (bb, ret, it2)"
      by (cases "readAndFillU4 (replicate 4 0) ?it1") auto
    have rd: "reads_as ?it1 (map_option (\<lambda>(r, rest). (take 4 (pending ?it1), rest)) (hex4 (pending ?it1))) bb it2"
      using readAndFillU4_reads [OF wf1 e1] f by simp
    have u: "readRawStringInner_loop copied re he it = readRawStringInner_loop (copied @ ?w @ bb) False True it2"
      using s b e True f by (simp add: readRawStringInner_loop.simps [of copied re he it] Let_def)
    show ?thesis
    proof (cases "hex4 (pending ?it1)")
      case None
      then have "Error it2 \<noteq> None" "stays ?it1 it2" using rd by (auto simp: reads_as_None)
      with u ref None consumes_stays [OF con] show ?thesis
        by (intro disjI2) (auto simp: readRaw_Error intro: stays_trans)
    next
      case (Some q)
      obtain v rest where q: "q = (v, rest)" by force
      obtain xs where x: "bb = take 4 (pending ?it1)" "consumes ?it1 xs it2" "pending it2 = rest"
        using rd Some q by (auto simp: reads_as_Some)
      show ?thesis
        using u ref Some q x consumes_trans [OF con x(2)] fill_earlier [OF s f [symmetric]]
        by (intro disjI1 exI [of _ it2] exI [of _ "?w @ xs"] exI [of _ "?w @ bb"]) auto
    qed
  next
    case False
    then have "tail ?it1 - head ?it1 \<ge> 4" by simp
    note p = parseU4_reads [OF wf1 this]
    show ?thesis
    proof (cases "hex4 (pending ?it1)")
      case None
      then have "parseU4 ?it1 = (-1, ?it1)" using p by simp
      then have "readRawStringInner_loop copied re he it
          = (nil_RawString, ReportError ''ReadRawString'' ''invalid unicode escape sequence'' ?it1)"
        using s b e False by (simp add: readRawStringInner_loop.simps [of copied re he it] Let_def)
      with ref None consumes_stays [OF con] show ?thesis by simp
    next
      case (Some q)
      obtain v rest where q: "q = (v, rest)" by force
      let ?it2 = "?it1\<lparr>head := head ?it1 + 4\<rparr>"
      have x: "0 \<le> v" "parseU4 ?it1 = (v, ?it2)" "consumes ?it1 (take 4 (pending ?it1)) ?it2" "pending ?it2 = rest"
        "take 4 (pending ?it1) = gslice (buf it) (k + 1) (k + 5)"
        using p Some q by (auto simp: add.commute)
      have g: "gslice (buf it) (head it) (k + 5) = ?w @ take 4 (pending ?it1)"
        unfolding x(5) using gslice_append [of "head it" "k + 1" "k + 5" "buf it"] b k by simp
      have "readRawStringInner_loop copied re he it
          = readRawStringInner_loop (copied @ ?w @ take 4 (pending ?it1)) False True ?it2"
        using s b e False x(1,2) g g [unfolded add.commute [of k 5]] by (simp add: readRawStringInner_loop.simps [of copied re he it] Let_def)
      with ref Some q x(4) consumes_trans [OF con x(3)] parse_earlier [OF s False x(2) [symmetric]] show ?thesis
        by (intro disjI1 exI [of _ ?it2] exI [of _ "?w @ take 4 (pending ?it1)"]) auto
    qed
  qed
qed

lemma readRawStringInner_loop_reads:
  assumes "wf_iter it" "Error it = None" "re \<longrightarrow> he"
  shows "raw_reads it copied (raw_str re he (pending it)) (fst (readRawStringInner_loop copied re he it))
    (snd (readRawStringInner_loop copied re he it))"
  using assms
proof (induction it arbitrary: copied re he rule: wf_induct_rule [OF earlier_wf])
  case (1 it)
  note wf = "1.prems"(1) and e = "1.prems"(2)
  have b: "0 \<le> head it" "head it \<le> tail it" "tail it \<le> int (length (buf it))" using wf by (auto simp: wf_iter_def)
  let ?s = "scan_raw (buf it) (head it) (tail it) re he"
  have sc: "scan_ok (buf it) (head it) (tail it) (rest_bytes it) (raw_str re he (pending it)) ?s"
    using scan_raw_ok [OF b "1.prems"(3)] by (simp add: pending_def)
  have later: ?case if "readRawStringInner_loop copied re he it = readRawStringInner_loop (copied @ p) re' he' it2"
      "earlier it it2" "consumes it xs it2" "re' \<longrightarrow> he'"
      "raw_str re he (pending it) = raw_prefix p (raw_str re' he' (pending it2))" for p re' he' it2 xs
  proof -
    have "Error it2 = None" using consumes_Error [OF that(3)] e by simp
    then have "raw_reads it2 (copied @ p) (raw_str re' he' (pending it2))
        (fst (readRawStringInner_loop (copied @ p) re' he' it2)) (snd (readRawStringInner_loop (copied @ p) re' he' it2))"
      using "1.IH" [of it2] that(2,4) consumes_wf [OF that(3)] by simp
    from raw_reads_after [OF that(3) this] show ?thesis using that(1,5) by simp
  qed
  show ?case
  proof (cases ?s)
    case (RawQuote k h)
    let ?it1 = "it\<lparr>head := k + 1\<rparr>" and ?w = "gslice (buf it) (head it) (k + 1)"
    have k: "head it \<le> k" "k < tail it"
      "raw_str re he (pending it) = Some (?w, h, gslice (buf it) (k + 1) (tail it) @ rest_bytes it)"
      using sc RawQuote by (auto simp: scan_ok_def)
    have con: "consumes it ?w ?it1" using consumes_head [of it "k + 1"] wf k by simp
    have "pending ?it1 = gslice (buf it) (k + 1) (tail it) @ rest_bytes it"
      by (simp add: pending_def rest_bytes_def)
    with RawQuote e b k con show ?thesis
      by (auto simp: raw_reads_def readRawStringInner_loop.simps [of copied re he it] raw_bytes_def)
  next
    case (RawControl c)
    obtain msg where "readRawStringInner_loop copied re he it = (nil_RawString, ReportError ''ReadRawString'' msg it)"
      using RawControl e b by (simp add: readRawStringInner_loop.simps [of copied re he it])
    with sc RawControl stays_refl [OF wf] show ?thesis by (simp add: raw_reads_None scan_ok_def)
  next
    case RawBadEscape
    then have "readRawStringInner_loop copied re he it = (nil_RawString, ReportError ''ReadRawString'' escape_msg it)"
      using e b by (simp add: readRawStringInner_loop.simps [of copied re he it])
    with sc RawBadEscape stays_refl [OF wf] show ?thesis by (simp add: raw_reads_None scan_ok_def)
  next
    case (RawU k)
    have pk: "pending (it\<lparr>head := k + 1\<rparr>) = gslice (buf it) (k + 1) (tail it) @ rest_bytes it"
      by (simp add: pending_def rest_bytes_def)
    have "head it \<le> k" "k < tail it" and ref: "raw_str re he (pending it) = (case hex4 (pending (it\<lparr>head := k + 1\<rparr>)) of
            None \<Rightarrow> None
          | Some (r, rest) \<Rightarrow> raw_prefix (gslice (buf it) (head it) (k + 1) @ take 4 (pending (it\<lparr>head := k + 1\<rparr>)))
              (raw_str False True rest))"
      unfolding pk using sc RawU by (auto simp: scan_ok_def)
    from readRaw_U [OF wf e this(1,2) RawU ref, of copied] show ?thesis
    proof
      assume "\<exists>it2 xs p. readRawStringInner_loop copied re he it = readRawStringInner_loop (copied @ p) False True it2
        \<and> earlier it it2 \<and> consumes it xs it2 \<and> raw_str re he (pending it) = raw_prefix p (raw_str False True (pending it2))"
      with later show ?thesis by blast
    next
      assume "raw_str re he (pending it) = None \<and> (\<exists>it2. readRawStringInner_loop copied re he it = (nil_RawString, it2)
        \<and> failed it2 \<and> stays it it2)"
      then show ?thesis by (auto simp: raw_reads_None)
    qed
  next
    case (RawEnd re' he')
    let ?w = "gslice (buf it) (head it) (tail it)" and ?it0 = "it\<lparr>head := tail it\<rparr>"
    have "pending ?it0 = rest_bytes it" by (simp add: pending_def rest_bytes_def)
    with sc RawEnd have ref: "re' \<longrightarrow> he'" "raw_str re he (pending it) = raw_prefix ?w (raw_str re' he' (pending ?it0))"
      by (auto simp: scan_ok_def)
    obtain c it1 where rb: "readByte ?it0 = (c, it1)" by force
    show ?thesis
    proof (cases "c = 0")
      case True
      have "raw_str re' he' (pending ?it0) = None"
        using peek_refill(2) [OF wf e rb True] by (cases "pending ?it0"; cases re') (auto simp: simple_escape_None)
      moreover have "stays it it1" by (rule peek_refill(1) [OF wf e rb])
      moreover have "readRawStringInner_loop copied re he it
          = (nil_RawString, ReportError ''ReadRawString'' ''unexpected end of input'' it1)"
        using RawEnd e b True rb by (simp add: readRawStringInner_loop.simps [of copied re he it])
      ultimately show ?thesis using ref by (simp add: raw_reads_None)
    next
      case False
      note p = peek_refill(3) [OF wf e rb False]
      have "readRawStringInner_loop copied re he it = readRawStringInner_loop (copied @ ?w) re' he' (unreadByte it1)"
        using RawEnd e b False rb by (simp add: readRawStringInner_loop.simps [of copied re he it])
      from later [OF this refill_earlier [OF rb False] _ ref(1)] ref(2) p show ?thesis by auto
    qed
  qed
qed

section \<open>Decoding the raw form\<close>

lemma hexn_append: "hexn n ret cs = Some (r, rest) \<Longrightarrow> hexn n ret (take n cs @ ys) = Some (r, ys)"
  by (induction n ret cs rule: hexn.induct) (auto split: option.splits)

lemma hex4_split: "hex4 cs = Some (r, rest) \<Longrightarrow> cs = take 4 cs @ rest"
  using hexn_Some [of 4 0 cs r rest] by auto

lemma raw_simple: "decode_simple e cs = Some (out, rest) \<Longrightarrow>
    raw_str True he (e # cs) = raw_prefix [e] (raw_str False he rest)"
  by (auto simp: decode_simple_def simple_escape_def split: if_splits)

text \<open>An escape that decodes is an escape the raw reader passes over, and its decoding depends on
  its own bytes only (and on the byte after it, when that ends a lone surrogate).\<close>

lemma decode_surrogate_raw:
  assumes "decode_surrogate r cs = Some (out, rest)"
  shows "\<exists>p. cs = p @ rest \<and> raw_str False True cs = raw_prefix p (raw_str False True rest)
    \<and> (\<forall>ys. (rest \<noteq> [] \<longrightarrow> ys \<noteq> [] \<and> hd ys = hd rest) \<longrightarrow> decode_surrogate r (p @ ys) = Some (out, ys))"
proof (cases cs)
  case Nil
  with assms show ?thesis by (simp add: decode_surrogate_def)
next
  case (Cons c cs1)
  show ?thesis
  proof (cases "c = ch_bslash")
    case False
    with assms Cons have "out = WriteRune r" "rest = cs" by (simp_all add: decode_surrogate_def)
    with False Cons show ?thesis
      by (intro exI [of _ "[]"]) (auto simp: decode_surrogate_def raw_prefix_def option.map_ident case_prod_beta'
          split: list.splits)
  next
    case True
    from assms Cons True obtain e cs2 where c1: "cs1 = e # cs2"
      by (auto simp: decode_surrogate_def split: list.splits)
    show ?thesis
    proof (cases "e = ch_u")
      case False
      with assms Cons c1 True obtain o2 where o2: "decode_simple e cs2 = Some (o2, rest)" "out = WriteRune r @ o2"
        by (auto simp: decode_surrogate_def)
      then have "rest = cs2" by (auto simp: decode_simple_def)
      with o2 False Cons c1 True show ?thesis
        using raw_simple [OF o2(1), of True]
        by (intro exI [of _ "[c, e]"]) (auto simp: decode_surrogate_def decode_simple_def)
    next
      case u: True
      with assms Cons c1 True obtain r2 where h: "hex4 cs2 = Some (r2, rest)"
        "out = (if DecodeRune r r2 = RuneError then WriteRune r @ WriteRune r2 else WriteRune (DecodeRune r r2))"
        by (auto simp: decode_surrogate_def split: option.splits)
      with Cons c1 True u hex4_split [OF h(1)] hexn_append [OF h(1)] show ?thesis
        by (intro exI [of _ "c # e # take 4 cs2"]) (auto simp: decode_surrogate_def)
    qed
  qed
qed

lemma decode_escape_raw:
  assumes "decode_escape cs = Some (out, rest)"
  shows "\<exists>p. cs = p @ rest \<and> raw_str True True cs = raw_prefix p (raw_str False True rest)
    \<and> (\<forall>ys. (rest \<noteq> [] \<longrightarrow> ys \<noteq> [] \<and> hd ys = hd rest) \<longrightarrow> decode_escape (p @ ys) = Some (out, ys))"
proof (cases cs)
  case Nil
  with assms show ?thesis by (simp add: decode_escape_def)
next
  case (Cons e cs1)
  show ?thesis
  proof (cases "e = ch_u")
    case False
    with assms Cons have d: "decode_simple e cs1 = Some (out, rest)" by (simp add: decode_escape_def)
    then have "rest = cs1" by (auto simp: decode_simple_def)
    with d False Cons raw_simple [OF d, of True] show ?thesis
      by (intro exI [of _ "[e]"]) (auto simp: decode_escape_def decode_simple_def)
  next
    case True
    with assms Cons obtain r cs2 where h: "hex4 cs1 = Some (r, cs2)"
      by (auto simp: decode_escape_def split: option.splits)
    note hs = hex4_split [OF h] and ha = hexn_append [OF h]
    show ?thesis
    proof (cases "IsSurrogate r")
      case False
      with assms Cons True h have "out = WriteRune r" "rest = cs2" by (simp_all add: decode_escape_def)
      with False Cons True h hs ha show ?thesis
        by (intro exI [of _ "e # take 4 cs1"]) (auto simp: decode_escape_def)
    next
      case s: True
      with assms Cons True h have "decode_surrogate r cs2 = Some (out, rest)" by (simp add: decode_escape_def)
      from decode_surrogate_raw [OF this] obtain p where p: "cs2 = p @ rest"
        "raw_str False True cs2 = raw_prefix p (raw_str False True rest)"
        "\<forall>ys. (rest \<noteq> [] \<longrightarrow> ys \<noteq> [] \<and> hd ys = hd rest) \<longrightarrow> decode_surrogate r (p @ ys) = Some (out, ys)" by blast
      have "cs = (e # take 4 cs1 @ p) @ rest" using Cons hs p(1) by simp
      moreover have "raw_str True True cs = raw_prefix (e # take 4 cs1 @ p) (raw_str False True rest)"
        using Cons True h p(2) by simp
      moreover have "decode_escape ((e # take 4 cs1 @ p) @ ys) = Some (out, ys)"
        if "rest \<noteq> [] \<longrightarrow> ys \<noteq> [] \<and> hd ys = hd rest" for ys
        using p(3) that ha True s by (simp add: decode_escape_def)
      ultimately show ?thesis by blast
    qed
  qed
qed

lemma decode_escape_None: "decode_escape cs = None \<Longrightarrow> raw_str True True cs = None"
proof (cases cs)
  case (Cons e cs1)
  assume n: "decode_escape cs = None"
  show ?thesis
  proof (cases "e = ch_u")
    case True
    show ?thesis
    proof (cases "hex4 cs1")
      case None
      with Cons True show ?thesis by simp
    next
      case (Some q)
      obtain r rest where q: "q = (r, rest)" by force
      with n Cons True Some have "decode_surrogate r rest = None" by (simp add: decode_escape_def split: if_splits)
      then have "raw_str False True rest = None"
        by (auto simp: decode_surrogate_def decode_simple_def split: list.splits if_splits option.splits)
      with Cons True Some q show ?thesis by simp
    qed
  qed (use n Cons in \<open>auto simp: decode_escape_def decode_simple_def\<close>)
qed simp

lemma decode_str_local: "decode_str cs = Some (d, rest) \<Longrightarrow> \<exists>p. cs = p @ rest \<and> p \<noteq> [] \<and> (\<forall>ys. decode_str (p @ ys) = Some (d, ys))"
proof (induction cs arbitrary: d rule: decode_str.induct)
  case (2 c cs)
  consider "c = ch_quote" | "c \<noteq> ch_quote" "c = ch_bslash" | "c \<noteq> ch_quote" "c \<noteq> ch_bslash" by blast
  then show ?case
  proof cases
    case 1
    with 2 show ?thesis by (intro exI [of _ "[c]"]) auto
  next
    case 2
    from "2.prems" 2 obtain out r1 d' where e: "decode_escape cs = Some (out, r1)"
      "decode_str r1 = Some (d', rest)" "d = out @ d'" by (auto split: option.splits)
    from "2.IH"(1) [OF 2 e(1) refl e(2)] obtain p where p: "r1 = p @ rest" "p \<noteq> []"
      "\<forall>ys. decode_str (p @ ys) = Some (d', ys)" by blast
    from decode_escape_raw [OF e(1)] obtain q where q: "cs = q @ r1"
      "\<forall>ys. (r1 \<noteq> [] \<longrightarrow> ys \<noteq> [] \<and> hd ys = hd r1) \<longrightarrow> decode_escape (q @ ys) = Some (out, ys)" by blast
    have "decode_escape (q @ p @ ys) = Some (out, p @ ys)" for ys using q(2) p(1,2) by simp
    with p q 2 e(3) show ?thesis by (intro exI [of _ "c # q @ p"]) auto
  next
    case 3
    from "2.prems" 3 obtain d' where d': "\<not> c < ch_space" "decode_str cs = Some (d', rest)" "d = c # d'"
      by (auto split: if_splits)
    from "2.IH"(2) [OF 3 d'(1,2)] obtain p where "cs = p @ rest" "\<forall>ys. decode_str (p @ ys) = Some (d', ys)" by blast
    with 3 d' show ?thesis by (intro exI [of _ "c # p"]) auto
  qed
qed simp

lemma decode_str_raw:
  "decode_str cs = Some (d, rest) \<Longrightarrow>
    \<exists>s h. raw_str False he cs = Some (s, h, rest) \<and> cs = s @ rest \<and> (he \<longrightarrow> h) \<and> (h \<or> s = d @ [ch_quote])"
proof (induction cs arbitrary: d he rule: decode_str.induct)
  case (2 c cs)
  consider "c = ch_quote" | "c \<noteq> ch_quote" "c = ch_bslash" | "c \<noteq> ch_quote" "c \<noteq> ch_bslash" by blast
  then show ?case
  proof cases
    case 1
    with 2 show ?thesis by auto
  next
    case 2
    from "2.prems" 2 obtain out r1 d' where e: "decode_escape cs = Some (out, r1)"
      "decode_str r1 = Some (d', rest)" by (auto split: option.splits)
    from "2.IH"(1) [OF 2 e(1) refl e(2), of True] obtain s h where
      s: "raw_str False True r1 = Some (s, h, rest)" "r1 = s @ rest" "h" by blast
    from decode_escape_raw [OF e(1)] obtain q where "cs = q @ r1"
      "raw_str True True cs = raw_prefix q (raw_str False True r1)" by blast
    with s 2 show ?thesis by auto
  next
    case 3
    from "2.prems" 3 obtain d' where d': "\<not> c < ch_space" "decode_str cs = Some (d', rest)" "d = c # d'"
      by (auto split: if_splits)
    from "2.IH"(2) [OF 3 d'(1,2), of he] d' 3 show ?thesis by auto
  qed
qed simp

lemma decode_str_raw_None: "decode_str cs = None \<Longrightarrow> raw_str False he cs = None"
proof (induction cs arbitrary: he rule: decode_str.induct)
  case (2 c cs)
  consider "c = ch_quote" | "c \<noteq> ch_quote" "c = ch_bslash" | "c \<noteq> ch_quote" "c \<noteq> ch_bslash" by blast
  then show ?case
  proof cases
    case 2
    show ?thesis
    proof (cases "decode_escape cs")
      case None
      with decode_escape_None 2 show ?thesis by simp
    next
      case (Some q)
      obtain out r1 where q: "q = (out, r1)" by force
      with "2.prems" 2 Some have n: "decode_str r1 = None" by simp
      have "decode_escape cs = Some (out, r1)" using Some q by simp
      from decode_escape_raw [OF this] obtain p where
        "raw_str True True cs = raw_prefix p (raw_str False True r1)" by blast
      with "2.IH"(1) [OF 2 Some q [symmetric] n] 2 show ?thesis by simp
    qed
  qed (use 2 in \<open>auto split: if_splits\<close>)
qed simp

section \<open>Properties of the string readers\<close>

text \<open>C8: \<open>ReadString\<close> on a quoted literal returns the decoded contents that the byte-list
  reference \<open>decode_str\<close> gives, with the reader just behind the closing quote, wherever the
  buffer ends fall (inside escapes and surrogate pairs too); a literal the reference rejects
  gives the empty string and an error.\<close>

theorem ReadString_decodes:
  assumes "wf_iter it" "Error it = None" "dropWhile is_space (pending it) = ch_quote # cs"
  shows "case decode_str cs of
      None \<Rightarrow> fst (ReadString it) = [] \<and> failed (snd (ReadString it))
    | Some (s, rest) \<Rightarrow> fst (ReadString it) = s \<and> Error (snd (ReadString it)) = None
        \<and> pending (snd (ReadString it)) = rest \<and> wf_iter (snd (ReadString it))"
proof -
  from nextToken_spec [OF assms(1,3)] obtain it1 where n: "nextToken it = (ch_quote, it1)"
    "consumes it (takeWhile is_space (pending it) @ [ch_quote]) it1" "pending it1 = cs" by blast
  have e: "Error it1 = None" using consumes_Error [OF n(2)] assms(2) by simp
  have "ReadString it = readStringInner_loop [] it1" using n(1) by (simp add: ReadString_def readStringInner_def)
  with readStringInner_loop_reads [OF consumes_wf [OF n(2)] e, of "[]"] n(3) e show ?thesis
    by (auto simp: reads_as_Some split: option.splits dest: consumes_Error consumes_wf)
qed

lemma ReadRawString_quote:
  assumes "wf_iter it" "Error it = None" "dropWhile is_space (pending it) = ch_quote # cs"
  shows "raw_reads it [] (raw_str False False cs) (fst (ReadRawString it)) (snd (ReadRawString it))"
proof -
  from nextToken_spec [OF assms(1,3)] obtain it1 where n: "nextToken it = (ch_quote, it1)"
    "consumes it (takeWhile is_space (pending it) @ [ch_quote]) it1" "pending it1 = cs" by blast
  have e: "Error it1 = None" using consumes_Error [OF n(2)] assms(2) by simp
  have "raw_reads it1 [] (raw_str False False cs) (fst (ReadRawString it)) (snd (ReadRawString it))"
    using readRawStringInner_loop_reads [OF consumes_wf [OF n(2)] e, of False False "[]"] n(1,3)
    by (simp add: ReadRawString_def readRawStringInner_def)
  with consumes_trans [OF n(2)] consumes_stays [OF n(2)] show ?thesis
    by (auto simp: raw_reads_def split: option.splits intro: stays_trans)
qed

text \<open>\<open>String()\<close> of a literal read raw is its decoded contents.\<close>

lemma raw_String_decodes:
  assumes "decode_str cs = Some (d, rest)" "raw_reads it [] (raw_str False False cs) r it'"
  shows "RawString_String (buf it') r = Some d \<and> rs_buf r \<noteq> None \<and> pending it' = rest \<and> (\<exists>xs. consumes it xs it')"
proof -
  from decode_str_raw [OF assms(1), of False] obtain s h where s: "raw_str False False cs = Some (s, h, rest)"
    "cs = s @ rest" "h \<or> s = d @ [ch_quote]" by blast
  from assms(2) s(1) have r: "rs_buf r \<noteq> None" "raw_bytes (buf it') r = s" "hasEscapes r = h"
    "pending it' = rest" "\<exists>xs. consumes it xs it'" by (auto simp: raw_reads_def)
  have "RawString_String (buf it') r = Some d"
  proof (cases h)
    case False
    from r(1) obtain b where "rs_buf r = Some b" by blast
    with False s r show ?thesis by (simp add: RawString_String_def gslice_def)
  next
    case True
    from decode_str_local [OF assms(1)] obtain p where p: "cs = p @ rest" "\<forall>ys. decode_str (p @ ys) = Some (d, ys)" by blast
    then have "decode_str s = Some (d, [])" using s(2) by (metis append_same_eq append_Nil2)
    let ?it = "ParseBytes ConfigDefault s"
    have "wf_iter ?it" "Error ?it = None" "pending ?it = s"
      by (simp_all add: wf_iter_def ParseBytes_def pending_def rest_bytes_def)
    then have "reads_as ?it (Some (d, [])) (fst (readStringInner ?it)) (snd (readStringInner ?it))"
      using readStringInner_loop_reads [of ?it "[]"] \<open>decode_str s = _\<close> by (simp add: readStringInner_def)
    then have "fst (readStringInner ?it) = d" "Error (snd (readStringInner ?it)) = None"
      using \<open>Error ?it = None\<close> by (auto simp: reads_as_Some dest: consumes_Error)
    with True r show ?thesis by (auto simp: RawString_String_def Let_def split: prod.splits)
  qed
  with r show ?thesis by simp
qed

text \<open>C14: \<open>ReadRawString\<close> accepts exactly the literals \<open>ReadString\<close> accepts and stops at the same
  place; the result's \<open>String()\<close>, taken before the next read, never panics and gives what
  \<open>ReadString\<close> gives.\<close>

theorem ReadRawString_agrees:
  assumes "wf_iter it" "Error it = None" "dropWhile is_space (pending it) = ch_quote # cs"
  shows "case (ReadRawString it, ReadString it) of ((r, it1), (s, it2)) \<Rightarrow>
      (Error it1 = None \<longleftrightarrow> Error it2 = None)
    \<and> (Error it1 = None \<longrightarrow> RawString_String (buf it1) r = Some s \<and> pending it1 = pending it2)
    \<and> (Error it1 \<noteq> None \<longrightarrow> IsNil r)"
proof -
  from nextToken_spec [OF assms(1,3)] obtain it0 where n: "nextToken it = (ch_quote, it0)"
    "consumes it (takeWhile is_space (pending it) @ [ch_quote]) it0" "pending it0 = cs" by blast
  have e: "Error it0 = None" using consumes_Error [OF n(2)] assms(2) by simp
  have rs: "ReadString it = readStringInner_loop [] it0" using n(1) by (simp add: ReadString_def readStringInner_def)
  obtain r it1 where r: "ReadRawString it = (r, it1)" by force
  obtain s it2 where s: "ReadString it = (s, it2)" by force
  note sr = readStringInner_loop_reads [OF consumes_wf [OF n(2)] e, of "[]", unfolded rs [symmetric] n(3)]
  note rr = ReadRawString_quote [OF assms]
  show ?thesis
  proof (cases "decode_str cs")
    case None
    with sr rr decode_str_raw_None [OF None, of False] r s show ?thesis
      by (auto simp: raw_reads_None IsNil_def nil_RawString_def failed_def)
  next
    case (Some q)
    obtain d rest where q: "q = (d, rest)" by force
    have s2: "s = d" "Error it2 = None" "pending it2 = rest"
      using sr Some q s e by (auto simp: reads_as_Some dest: consumes_Error)
    have "RawString_String (buf it1) r = Some d \<and> pending it1 = rest \<and> Error it1 = None"
      using raw_String_decodes [of cs d rest it r it1] rr Some q r assms(2) by (auto dest: consumes_Error)
    with s2 r s show ?thesis by simp
  qed
qed

text \<open>What \<open>ReadRawString\<close> returns is the literal as written, closing quote included: a copy,
  or a view of the iterator's buffer, in which case \<open>isRaw\<close> says so; \<open>Realize\<close> then keeps the
  bytes whatever later reads do to the buffer.\<close>

lemma ReadRawString_is_the_text:
  assumes "wf_iter it" "Error it = None" "dropWhile is_space (pending it) = ch_quote # cs"
    "decode_str cs = Some (d, rest)"
  shows "case ReadRawString it of (r, it1) \<Rightarrow>
      cs = raw_bytes (buf it1) r @ rest
    \<and> (isRaw r \<longleftrightarrow> (\<exists>lo hi. rs_buf r = Some (View lo hi)))
    \<and> (\<not> ContainsEscapes r \<longrightarrow> RawString_Bytes (buf it1) r = (d, isRaw r))
    \<and> \<not> isRaw (Realize (buf it1) r) \<and> raw_bytes later (Realize (buf it1) r) = raw_bytes (buf it1) r"
proof -
  obtain r it1 where r: "ReadRawString it = (r, it1)" by force
  from decode_str_raw [OF assms(4), of False] obtain s h where s: "raw_str False False cs = Some (s, h, rest)"
    "cs = s @ rest" "h \<or> s = d @ [ch_quote]" by blast
  have rr: "rs_buf r \<noteq> None" "raw_bytes (buf it1) r = s" "hasEscapes r = h"
    "isRaw r \<longleftrightarrow> (\<exists>lo hi. rs_buf r = Some (View lo hi))"
    using ReadRawString_quote [OF assms(1-3)] s(1) r by (auto simp: raw_reads_def)
  have "raw_bytes later (Realize (buf it1) r) = raw_bytes (buf it1) r"
  proof (cases "isRaw r")
    case True
    then show ?thesis by (simp add: Realize_def raw_bytes_def)
  next
    case False
    with rr(1,4) obtain bs where "rs_buf r = Some (Owned bs)" by (metis option.exhaust raw_buf.exhaust)
    with False show ?thesis by (simp add: Realize_def raw_bytes_def)
  qed
  with r rr s show ?thesis
    by (auto simp: ContainsEscapes_def RawString_Bytes_def gslice_def Realize_def)
qed

text \<open>C15: \<open>isNextTokenBuffered\<close> makes a view safe to use: when it answers true, reading the next
  token neither refills the buffer nor changes the bytes of any raw string that views it.\<close>

theorem buffered_token_keeps_views:
  assumes "wf_iter it" "isNextTokenBuffered it = (True, it1)" "nextToken it1 = (c, it2)"
  shows "raw_bytes (buf it2) r = raw_bytes (buf it) r \<and> reader it2 = reader it
    \<and> dropWhile is_space (pending it) = c # pending it2"
proof -
  from isNextTokenBuffered_True [OF assms(2,1)] obtain x rest k where x: "dropWhile is_space (pending it) = x # rest"
    "consumes it (takeWhile is_space (pending it)) it1" "pending it1 = x # rest"
    "it1 = it\<lparr>head := k\<rparr>" "nextToken it1 = (x, it\<lparr>head := k + 1\<rparr>)" by blast
  have "\<not> is_space x" using x(1) by (metis hd_dropWhile list.distinct(1) list.sel(1))
  then have "dropWhile is_space (pending it1) = x # rest" using x(3) by simp
  from nextToken_spec [OF consumes_wf [OF x(2)] this] x(5) have "pending (it\<lparr>head := k + 1\<rparr>) = rest" by auto
  with x assms(3) show ?thesis by auto
qed

text \<open>A lone low surrogate takes the escape behind it along even when that escape starts a
  valid pair: \<open>\uDC00\uD800\uDC00\<close> decodes to three U+FFFD, where decoding each pair would give
  U+FFFD and U+10000.\<close>

lemma lone_surrogate_breaks_pair:
  "decode_str (map (of_char :: char \<Rightarrow> byte) (CHR 0x5C # ''uDC00'' @ CHR 0x5C # ''uD800'' @ CHR 0x5C # ''uDC00'') @ [ch_quote])
     = Some (WriteRune RuneError @ WriteRune RuneError @ WriteRune RuneError, [])
   \<and> fst (ReadString (ParseBytes ConfigDefault (ch_quote # map of_char
        (CHR 0x5C # ''uDC00'' @ CHR 0x5C # ''uD800'' @ CHR 0x5C # ''uDC00'') @ [ch_quote])))
     = WriteRune RuneError @ WriteRune RuneError @ WriteRune RuneError
   \<and> decode_str (map of_char (CHR 0x5C # ''uD800'' @ CHR 0x5C # ''uDC00'') @ [ch_quote]) = Some (WriteRune 0x10000, [])"
  by code_simp

section \<open>Witnesses\<close>

text \<open>The input \<open>"a\n"\<close> with an escape, followed by a space.\<close>

definition sample_str :: bytes where
  "sample_str = [0x22, 0x61, 0x5C, 0x6E, 0x22, 0x20]"

theorem ReadString_decodes_witness:
  "case decode_str (tl sample_str) of
      None \<Rightarrow> fst (ReadString (ParseBytes ConfigDefault sample_str)) = []
        \<and> failed (snd (ReadString (ParseBytes ConfigDefault sample_str)))
    | Some (s, rest) \<Rightarrow> fst (ReadString (ParseBytes ConfigDefault sample_str)) = s
        \<and> Error (snd (ReadString (ParseBytes ConfigDefault sample_str))) = None
        \<and> pending (snd (ReadString (ParseBytes ConfigDefault sample_str))) = rest
        \<and> wf_iter (snd (ReadString (ParseBytes ConfigDefault sample_str)))"
  by (rule ReadString_decodes) code_simp+

theorem ReadRawString_agrees_witness:
  "case (ReadRawString (Parse ConfigDefault [([0x22, 0x61, 0x5C], None), ([0x6E, 0x22, 0x20], None)] 4),
      ReadString (Parse ConfigDefault [([0x22, 0x61, 0x5C], None), ([0x6E, 0x22, 0x20], None)] 4)) of ((r, it1), (s, it2)) \<Rightarrow>
      (Error it1 = None \<longleftrightarrow> Error it2 = None)
    \<and> (Error it1 = None \<longrightarrow> RawString_String (buf it1) r = Some s \<and> pending it1 = pending it2)
    \<and> (Error it1 \<noteq> None \<longrightarrow> IsNil r)"
  by (rule ReadRawString_agrees [where cs = "tl sample_str"]) code_simp+

lemma ReadRawString_is_the_text_witness:
  "case ReadRawString (ParseBytes ConfigDefault sample_str) of (r, it1) \<Rightarrow>
      tl sample_str = raw_bytes (buf it1) r @ [0x20]
    \<and> (isRaw r \<longleftrightarrow> (\<exists>lo hi. rs_buf r = Some (View lo hi)))
    \<and> (\<not> ContainsEscapes r \<longrightarrow> RawString_Bytes (buf it1) r = ([0x61, 0x0A], isRaw r))
    \<and> \<not> isRaw (Realize (buf it1) r) \<and> raw_bytes [] (Realize (buf it1) r) = raw_bytes (buf it1) r"
  by (rule ReadRawString_is_the_text) code_simp+

theorem buffered_token_keeps_views_witness:
  "raw_bytes (buf (ParseBytes ConfigDefault sample_str\<lparr>head := 1\<rparr>))
      \<lparr>rs_buf = Some (View 1 2), isRaw = True, hasEscapes = False\<rparr>
    = raw_bytes (buf (ParseBytes ConfigDefault sample_str)) \<lparr>rs_buf = Some (View 1 2), isRaw = True, hasEscapes = False\<rparr>"
  by (rule conjunct1 [OF buffered_token_keeps_views [where ?it1.0 = "ParseBytes ConfigDefault sample_str" and c = ch_quote]])
    code_simp+

end
