(* ===== verification/IterFloat.thy ===== *)
theory IterFloat
  imports Complex_Main "HOL-Library.Log_Nat" IterStr
begin

text \<open>
  \<open>iter_float.go\<close>: reading floats and number literals.

  A Go float that is finite is its sign and its magnitude, a rational number; \<open>nearest\<close> is
  the rounding of IEEE 754 (to nearest, ties to even) to a precision and a least exponent, so
  \<open>float64(v)\<close>, the division of two floats and \<open>float32(x)\<close> are \<open>nearest\<close> of the exact
  result. \<open>strconv.ParseFloat\<close> is modelled on the texts the code hands it, which hold only the
  bytes \<open>+ - . e E\<close> and digits: it accepts the decimal grammar and gives the nearest float, or
  an error when that is out of range. \<open>big.Float\<close> and \<open>big.Int\<close> results keep the text they were
  parsed from.
\<close>

section \<open>Floats\<close>

datatype go_float = Float (negative: bool) (magnitude: rat)

definition float_zero :: go_float where
  "float_zero = Float False 0"

definition float_neg :: "go_float \<Rightarrow> go_float" where
  "float_neg x = Float (\<not> negative x) (magnitude x)"

definition pow2 :: "int \<Rightarrow> rat" where
  "pow2 e = (if 0 \<le> e then 2 ^ nat e else 1 / 2 ^ nat (- e))"

text \<open>The exponent of the leading bit of \<open>n / d\<close>, for positive \<open>n\<close> and \<open>d\<close>.\<close>

definition lead_exp :: "int \<Rightarrow> int \<Rightarrow> int" where
  "lead_exp n d =
     (let e = bitlen n - bitlen d in
      if pow2 e * of_int d \<le> of_int n then e else e - 1)"

text \<open>Round \<open>n / d\<close> to \<open>p\<close> significant bits, the least exponent being \<open>emin\<close>.\<close>

definition nearest :: "int \<Rightarrow> int \<Rightarrow> int \<Rightarrow> int \<Rightarrow> rat" where
  "nearest p emin n d =
     (if n = 0 then 0
      else
        let e = max (lead_exp n d) emin; s = e - p + 1;
            num = (if s < 0 then n * 2 ^ nat (- s) else n);
            den = (if s < 0 then d else d * 2 ^ nat s);
            q = num div den; r = num mod den;
            m = (if 2 * r > den \<or> 2 * r = den \<and> odd q then q + 1 else q)
        in of_int m * pow2 s)"

definition nearest64 :: "int \<Rightarrow> int \<Rightarrow> rat" where
  "nearest64 = nearest 53 (- 1022)"

definition nearest32 :: "int \<Rightarrow> int \<Rightarrow> rat" where
  "nearest32 = nearest 24 (- 126)"

text \<open>Numerator and denominator of a rational.\<close>

definition rat_num :: "rat \<Rightarrow> int" where "rat_num q = fst (quotient_of q)"
definition rat_den :: "rat \<Rightarrow> int" where "rat_den q = snd (quotient_of q)"

text \<open>\<open>float64(v)\<close> for an unsigned integer, division of \<open>float64\<close>s, \<open>float32(x)\<close>.\<close>

definition float64_of :: "int \<Rightarrow> rat" where
  "float64_of v = nearest64 v 1"

definition float64_div :: "rat \<Rightarrow> rat \<Rightarrow> rat" where
  "float64_div x y = nearest64 (rat_num x * rat_den y) (rat_den x * rat_num y)"

definition float32_of :: "rat \<Rightarrow> rat" where
  "float32_of x = nearest32 (rat_num x) (rat_den x)"

section \<open>Library parsers on number texts\<close>

text \<open>\<open>[sign] digits [. digits] [e [sign] digits]\<close> with at least one digit in the mantissa: sign,
  mantissa digits, number of digits after the dot, exponent.\<close>

definition split_sign :: "bytes \<Rightarrow> bool \<times> bytes" where
  "split_sign cs =
     (case cs of [] \<Rightarrow> (False, [])
      | c # cs' \<Rightarrow> if c = ch_minus then (True, cs') else if c = ch_plus then (False, cs') else (False, cs))"

definition parse_exponent :: "bytes \<Rightarrow> int option" where
  "parse_exponent cs =
     (case cs of [] \<Rightarrow> Some 0
      | c # cs' \<Rightarrow>
          if c = ch_e \<or> c = ch_E then
            (case split_sign cs' of (neg, ds) \<Rightarrow>
             if ds = [] \<or> \<not> list_all is_digit ds then None
             else Some (if neg then - int (dec_val ds) else int (dec_val ds)))
          else None)"

definition parse_decimal :: "bytes \<Rightarrow> (bool \<times> bytes \<times> nat \<times> int) option" where
  "parse_decimal s =
     (case split_sign s of (neg, cs) \<Rightarrow>
      let ip = takeWhile is_digit cs; r1 = dropWhile is_digit cs;
          dot = (r1 \<noteq> [] \<and> hd r1 = ch_dot);
          fp = (if dot then takeWhile is_digit (tl r1) else []);
          r2 = (if dot then dropWhile is_digit (tl r1) else r1)
      in if ip @ fp = [] then None
         else map_option (\<lambda>e. (neg, ip @ fp, length fp, e)) (parse_exponent r2))"

text \<open>Numerator and denominator of \<open>m * 10 ^ e\<close>.\<close>

definition dec_ratio :: "nat \<Rightarrow> int \<Rightarrow> int \<times> int" where
  "dec_ratio m e = (if 0 \<le> e then (int m * 10 ^ nat e, 1) else (int m, 10 ^ nat (- e)))"

text \<open>\<open>None\<close> is the error: a syntax error or \<open>ErrRange\<close>.\<close>

definition range_exp :: "nat \<Rightarrow> nat" where
  "range_exp bitSize = (if bitSize = 32 then 128 else 1024)"

definition ParseFloat :: "bytes \<Rightarrow> nat \<Rightarrow> go_float option" where
  "ParseFloat s bitSize =
     (case parse_decimal s of
        None \<Rightarrow> None
      | Some (neg, ds, k, e) \<Rightarrow>
          (case dec_ratio (dec_val ds) (e - int k) of (n, d) \<Rightarrow>
           let x = (if bitSize = 32 then nearest32 n d else nearest64 n d) in
           if 2 ^ range_exp bitSize \<le> x then None else Some (Float neg x)))"

text \<open>\<open>big.ParseFloat(s, 10, prec, big.ToZero)\<close> and \<open>big.Int.SetString(s, 10)\<close>: what they
  accept. An exponent outside \<open>int32\<close> is an error.\<close>

definition big_float_ok :: "bytes \<Rightarrow> bool" where
  "big_float_ok s =
     (case parse_decimal s of None \<Rightarrow> False | Some (neg, ds, k, e) \<Rightarrow> - (2 ^ 31) \<le> e \<and> e < 2 ^ 31)"

definition big_int_ok :: "bytes \<Rightarrow> bool" where
  "big_int_ok s = (case split_sign s of (neg, ds) \<Rightarrow> ds \<noteq> [] \<and> list_all is_digit ds)"

section \<open>Number literals\<close>

definition number_char :: "byte \<Rightarrow> bool" where
  "number_char c \<longleftrightarrow> c = ch_plus \<or> c = ch_minus \<or> c = ch_dot \<or> c = ch_e \<or> c = ch_E \<or> is_digit c"

text \<open>The loop of \<open>readNumberAsBytes\<close>: the bytes gathered so far and the iterator.\<close>

function readNumber_loop :: "bytes \<Rightarrow> iterator \<Rightarrow> bytes \<times> iterator" where
  "readNumber_loop acc it =
     (if head it < 0 \<or> tail it > int (length (buf it)) then (acc, it)
      else
        (case find_from (\<lambda>c. \<not> number_char c) (buf it) (head it) (tail it) of
           Some i \<Rightarrow> (acc @ gslice (buf it) (head it) i, it\<lparr>head := i\<rparr>)
         | None \<Rightarrow>
             (case loadMore it of (ok, it') \<Rightarrow>
              if ok then readNumber_loop (acc @ gslice (buf it) (head it) (tail it)) it'
              else (acc @ gslice (buf it) (head it) (tail it), it'))))"
  by pat_completeness auto
termination
  by (relation "measure (\<lambda>(acc, it). reads_left it)") (auto dest: loadMore_decreases [OF sym])

declare readNumber_loop.simps [simp del]

text \<open>Go's nil slice is \<open>[]\<close> here: no caller tells them apart.\<close>

definition readNumberAsBytes :: "bytes \<Rightarrow> iterator \<Rightarrow> bytes \<times> iterator" where
  "readNumberAsBytes b it =
     (case readNumber_loop b it of (b', it1) \<Rightarrow>
      if Error it1 \<noteq> None \<and> Error it1 \<noteq> Some EOF then ([], it1)
      else if b' = [] then ([], ReportError ''readNumberAsBytes'' ''invalid number'' it1)
      else (b', it1))"

definition readNumberAsString :: "iterator \<Rightarrow> bytes \<times> iterator" where
  "readNumberAsString it = readNumberAsBytes [] it"

definition ReadNumber :: "iterator \<Rightarrow> bytes \<times> iterator" where
  "ReadNumber it = readNumberAsString it"

text \<open>The message, or \<open>[]\<close> when the input is fine.\<close>

definition validatePositiveFloat :: "bytes \<Rightarrow> string" where
  "validatePositiveFloat input =
     (if input = [] then ''empty number''
      else if input ! 0 = ch_minus then ''-- is not valid''
      else
        let dotPos = length (takeWhile (\<lambda>c. c \<noteq> ch_dot) input) in
        if dotPos = length input then []
        else if dotPos = length input - 1 then ''dot can not be last character''
        else if is_digit (input ! (dotPos + 1)) then []
        else ''missing digit after dot'')"

definition ReadNumberAsSlice :: "bytes \<Rightarrow> iterator \<Rightarrow> bytes \<times> iterator" where
  "ReadNumberAsSlice b it =
     (case readNumberAsBytes b it of (b', it1) \<Rightarrow>
      let checked = (if length b' > 0 \<and> b' ! 0 = ch_minus then tl b' else b');
          errMsg = validatePositiveFloat checked in
      if errMsg \<noteq> [] then ([], ReportError ''ReadNumberAsSlice'' errMsg it1) else (b', it1))"

definition readFloat32SlowPath :: "iterator \<Rightarrow> go_float \<times> iterator" where
  "readFloat32SlowPath it =
     (case readNumberAsBytes [] it of (strBuf, it1) \<Rightarrow>
      if Error it1 \<noteq> None \<and> Error it1 \<noteq> Some EOF then (float_zero, it1)
      else
        let errMsg = validatePositiveFloat strBuf in
        if errMsg \<noteq> [] then (float_zero, ReportError ''readFloat32SlowPath'' errMsg it1)
        else (case ParseFloat strBuf 32 of
                None \<Rightarrow> (float_zero, it1\<lparr>Error := Some (LibErr ''ParseFloat'')\<rparr>)
              | Some val \<Rightarrow> (val, it1)))"

definition readFloat64SlowPath :: "iterator \<Rightarrow> go_float \<times> iterator" where
  "readFloat64SlowPath it =
     (case readNumberAsBytes [] it of (strBuf, it1) \<Rightarrow>
      if Error it1 \<noteq> None \<and> Error it1 \<noteq> Some EOF then (float_zero, it1)
      else
        let errMsg = validatePositiveFloat strBuf in
        if errMsg \<noteq> [] then (float_zero, ReportError ''readFloat64SlowPath'' errMsg it1)
        else (case ParseFloat strBuf 64 of
                None \<Rightarrow> (float_zero, it1\<lparr>Error := Some (LibErr ''ParseFloat'')\<rparr>)
              | Some val \<Rightarrow> (val, it1)))"

section \<open>The fast paths\<close>

definition endOfNumber :: int where "endOfNumber = -2"
definition dotInNumber :: int where "dotInNumber = -3"

definition floatDigits :: "byte \<Rightarrow> int" where
  "floatDigits c =
     (if is_digit c then int (digit_val c)
      else if c = ch_comma \<or> c = ch_rbrack \<or> c = ch_rbrace \<or> c = ch_space \<or> c = ch_tab \<or> c = ch_nl
      then endOfNumber
      else if c = ch_dot then dotInNumber
      else invalidCharForNumber)"

definition pow10 :: "int list" where
  "pow10 = [1, 10, 100, 1000, 10000, 100000, 1000000]"

definition maxFloat64 :: u64 where
  "maxFloat64 = 9007199254740991"

text \<open>The loop over the digits before the dot ends with the slow path, at an end byte, or at a dot;
  the loop after the dot with the slow path, or at an end byte after some places.\<close>

datatype float_scan = ScanSlow | ScanInt int u64 | ScanDot int u64
datatype frac_scan = FracSlow | FracEnd int u64 nat

function scan_int_part :: "bytes \<Rightarrow> int \<Rightarrow> int \<Rightarrow> u64 \<Rightarrow> float_scan" where
  "scan_int_part b i hi value =
     (if i < hi then
        let ind = floatDigits (byte_at b i) in
        if ind = invalidCharForNumber then ScanSlow
        else if ind = endOfNumber then ScanInt i value
        else if ind = dotInNumber then ScanDot i value
        else if value > uint64SafeToMultiple10 then ScanSlow
        else scan_int_part b (i + 1) hi (push_bit 3 value + push_bit 1 value + word_of_int ind)
      else ScanSlow)"
  by pat_completeness auto
termination by (relation "measure (\<lambda>(b, i, hi, v). nat (hi - i))") auto

text \<open>\<open>bound\<close> is the test against \<open>maxFloat64\<close> that only the 64-bit reader makes.\<close>

function scan_frac_part :: "u64 option \<Rightarrow> bytes \<Rightarrow> int \<Rightarrow> int \<Rightarrow> u64 \<Rightarrow> nat \<Rightarrow> frac_scan" where
  "scan_frac_part bound b i hi value decimalPlaces =
     (if i < hi then
        let ind = floatDigits (byte_at b i) in
        if ind = endOfNumber then
          (if decimalPlaces > 0 \<and> decimalPlaces < length pow10 then FracEnd i value decimalPlaces else FracSlow)
        else if ind = invalidCharForNumber \<or> ind = dotInNumber then FracSlow
        else if value > uint64SafeToMultiple10 then FracSlow
        else
          let value = push_bit 3 value + push_bit 1 value + word_of_int ind in
          if (case bound of None \<Rightarrow> False | Some m \<Rightarrow> value > m) then FracSlow
          else scan_frac_part bound b (i + 1) hi value (decimalPlaces + 1)
      else FracSlow)"
  by pat_completeness auto
termination by (relation "measure (\<lambda>(l, b, i, hi, v, d). nat (hi - i))") auto

declare scan_int_part.simps [simp del] scan_frac_part.simps [simp del]

text \<open>The two readers are the same code but for the operation's name, the slow path, the limit,
  and the conversion of the result.\<close>

definition readPositiveFloat :: "string \<Rightarrow> (iterator \<Rightarrow> go_float \<times> iterator) \<Rightarrow> u64 option
    \<Rightarrow> (rat \<Rightarrow> rat) \<Rightarrow> (int \<Rightarrow> rat) \<Rightarrow> iterator \<Rightarrow> go_float \<times> iterator" where
  "readPositiveFloat op slow bound conv of_uint it =
     (let i = head it in
      if i = tail it then slow it
      else
        let ind = floatDigits (byte_at (buf it) i) in
        if ind = invalidCharForNumber then slow it
        else if ind = endOfNumber then (float_zero, ReportError op ''empty number'' it)
        else if ind = dotInNumber then (float_zero, ReportError op ''leading dot is invalid'' it)
        else if ind = 0 \<and> i + 1 = tail it then slow it
        else if ind = 0 \<and> is_digit (byte_at (buf it) (i + 1)) then
          (float_zero, ReportError op ''leading zero is invalid'' it)
        else
          (case scan_int_part (buf it) (i + 1) (tail it) (word_of_int ind) of
             ScanSlow \<Rightarrow> slow it
           | ScanInt j v \<Rightarrow> (Float False (of_uint (uint v)), it\<lparr>head := j\<rparr>)
           | ScanDot j v \<Rightarrow>
               if j + 1 = tail it then slow it
               else (case scan_frac_part bound (buf it) (j + 1) (tail it) v 0 of
                       FracSlow \<Rightarrow> slow it
                     | FracEnd k v places \<Rightarrow>
                         (Float False (conv (float64_div (float64_of (uint v)) (float64_of (pow10 ! places)))),
                           it\<lparr>head := k\<rparr>))))"

definition readPositiveFloat32 :: "iterator \<Rightarrow> go_float \<times> iterator" where
  "readPositiveFloat32 it =
     readPositiveFloat ''readFloat32'' readFloat32SlowPath None float32_of (\<lambda>v. nearest32 v 1) it"

definition readPositiveFloat64 :: "iterator \<Rightarrow> go_float \<times> iterator" where
  "readPositiveFloat64 it =
     readPositiveFloat ''readFloat64'' readFloat64SlowPath (Some maxFloat64) (\<lambda>x. x) float64_of it"

definition ReadFloat32 :: "iterator \<Rightarrow> go_float \<times> iterator" where
  "ReadFloat32 it =
     (case nextToken it of (c, it1) \<Rightarrow>
      if c = ch_minus then (case readPositiveFloat32 it1 of (r, it2) \<Rightarrow> (float_neg r, it2))
      else readPositiveFloat32 (unreadByte it1))"

definition ReadFloat64 :: "iterator \<Rightarrow> go_float \<times> iterator" where
  "ReadFloat64 it =
     (case nextToken it of (c, it1) \<Rightarrow>
      if c = ch_minus then (case readPositiveFloat64 it1 of (r, it2) \<Rightarrow> (float_neg r, it2))
      else readPositiveFloat64 (unreadByte it1))"

text \<open>A big number that was read: its text and, for a \<open>big.Float\<close>, its precision.\<close>

definition ReadBigFloat :: "iterator \<Rightarrow> (bytes \<times> nat) option \<times> iterator" where
  "ReadBigFloat it =
     (case readNumberAsString it of (str, it1) \<Rightarrow>
      if Error it1 \<noteq> None \<and> Error it1 \<noteq> Some EOF then (None, it1)
      else
        let prec = (if length str > 64 then length str else 64) in
        if big_float_ok str then (Some (str, prec), it1)
        else (None, it1\<lparr>Error := Some (LibErr ''big.ParseFloat'')\<rparr>))"

definition ReadBigInt :: "iterator \<Rightarrow> bytes option \<times> iterator" where
  "ReadBigInt it =
     (case readNumberAsString it of (str, it1) \<Rightarrow>
      if Error it1 \<noteq> None \<and> Error it1 \<noteq> Some EOF then (None, it1)
      else if big_int_ok str then (Some str, it1)
      else (None, ReportError ''ReadBigInt'' ''invalid big int'' it1))"

section \<open>Rounding\<close>

lemma pow2_pos: "0 < pow2 e"
  by (simp add: pow2_def)

lemma pow2_mult: "0 \<le> a \<Longrightarrow> pow2 (- a) * 2 ^ nat a = 1"
  by (cases "a = 0") (simp_all add: pow2_def)

text \<open>The result is within half a unit in the last place.\<close>

lemma nearest_half_ulp:
  assumes "0 < n" "0 < d"
  shows "\<bar>nearest p emin n d - of_int n / of_int d\<bar> \<le> pow2 (max (lead_exp n d) emin - p + 1) / 2"
proof -
  define s where "s = max (lead_exp n d) emin - p + 1"
  define num where "num = (if s < 0 then n * 2 ^ nat (- s) else n)"
  define den where "den = (if s < 0 then d else d * 2 ^ nat s)"
  define q where "q = num div den"
  define r where "r = num mod den"
  define m where "m = (if 2 * r > den \<or> 2 * r = den \<and> odd q then q + 1 else q)"
  have den: "0 < den" using assms by (simp add: den_def)
  have nd: "of_int n / of_int d = (of_int num / of_int den :: rat) * pow2 s"
    using assms by (auto simp: num_def den_def pow2_def field_simps)
  have near: "nearest p emin n d = of_int m * pow2 s"
    using assms(1) by (simp add: nearest_def Let_def s_def num_def den_def q_def r_def m_def)
  have split: "of_int num = (of_int q * of_int den + of_int r :: rat)"
    using div_mult_mod_eq [of num den] unfolding q_def r_def by (metis of_int_add of_int_mult)
  have r: "r < den" "0 \<le> r" using den by (simp_all add: r_def)
  have rat_le: "(of_int a :: rat) \<le> of_int b \<longleftrightarrow> a \<le> b" for a b by simp
  have "\<bar>of_int m - of_int num / of_int den\<bar> \<le> (1 / 2 :: rat)"
  proof (cases "2 * r > den \<or> 2 * r = den \<and> odd q")
    case True
    then have "den \<le> 2 * r" by auto
    then have "(of_int den :: rat) \<le> 2 * of_int r" using rat_le [of den "2 * r"] by simp
    moreover have "(of_int r :: rat) \<le> of_int den" using r by simp
    moreover have "of_int m - of_int num / of_int den = (of_int den - of_int r) / (of_int den :: rat)"
      using True den by (simp add: m_def split field_simps)
    ultimately show ?thesis using den by (simp add: field_simps)
  next
    case False
    then have "2 * r \<le> den" by auto
    then have "2 * of_int r \<le> (of_int den :: rat)" using rat_le [of "2 * r" den] by simp
    moreover have "of_int m - of_int num / of_int den = - (of_int r / (of_int den :: rat))"
      using False den by (simp add: m_def split field_simps)
    moreover have "of_int r / (of_int den :: rat) \<le> 1 / 2" using calculation(1) den by (simp add: field_simps)
    moreover have "0 \<le> of_int r / (of_int den :: rat)" using r(2) den by simp
    ultimately show ?thesis by linarith
  qed
  then have "\<bar>of_int m - of_int num / of_int den\<bar> * pow2 s \<le> 1 / 2 * pow2 s"
    using pow2_pos [of s] by (intro mult_right_mono) auto
  moreover have "nearest p emin n d - of_int n / of_int d = (of_int m - of_int num / of_int den) * pow2 s"
    by (simp add: near nd algebra_simps)
  ultimately show ?thesis using pow2_pos [of s] by (simp add: s_def abs_mult)
qed

text \<open>Integers of at most 53 bits are exact.\<close>

lemma float64_of_exact:
  assumes "0 \<le> v" "v < 2 ^ 53"
  shows "float64_of v = of_int v"
proof (cases "v = 0")
  case True
  then show ?thesis by (simp add: float64_of_def nearest64_def nearest_def)
next
  case False
  have "bitlen v \<le> 53" using assms by (simp add: bitlen_le_iff_power)
  moreover have "bitlen 1 = 1" using bitlen_pow2 [of 1 0] by (simp add: compute_bitlen)
  ultimately have le: "lead_exp v 1 \<le> 52" by (simp add: lead_exp_def Let_def)
  define s where "s = max (lead_exp v 1) (- 1022) - 52"
  have s: "s \<le> 0" using le by (simp add: s_def)
  have "nearest 53 (- 1022) v 1 = of_int (if s < 0 then v * 2 ^ nat (- s) else v) * pow2 s"
    using False s by (auto simp: nearest_def Let_def s_def)
  also have "\<dots> = of_int v"
    using s pow2_mult [of "- s"] by (cases "s < 0") (auto simp: pow2_def)
  finally show ?thesis by (simp add: float64_of_def nearest64_def)
qed

lemma rat_num_den_of_int [simp]: "rat_num (of_int v) = v" "rat_den (of_int v) = 1"
  by (simp_all add: rat_num_def rat_den_def)

lemma pow10_nth: "k < length pow10 \<Longrightarrow> pow10 ! k = 10 ^ k \<and> 0 \<le> pow10 ! k \<and> pow10 ! k < 2 ^ 53"
  by (auto simp: pow10_def less_Suc_eq nth_Cons split: nat.splits)

text \<open>The division of the fast path rounds the exact quotient once.\<close>

lemma fast_division:
  assumes "0 \<le> v" "v < 2 ^ 53" "k < length pow10"
  shows "float64_div (float64_of v) (float64_of (pow10 ! k)) = nearest64 v (10 ^ k)"
proof -
  have "float64_of (pow10 ! k) = of_int (10 ^ k)"
    using float64_of_exact [of "10 ^ k"] pow10_nth [OF assms(3)] by simp
  then show ?thesis using float64_of_exact [OF assms(1,2)]
    unfolding float64_div_def by (simp only: rat_num_den_of_int mult_1_right mult_1_left)
qed

text \<open>For evaluation: the range test by bit lengths.\<close>

lemma ge_pow2: "2 ^ k \<le> (x :: rat) \<longleftrightarrow> int k < bitlen \<lfloor>x\<rfloor>"
proof -
  have "2 ^ k \<le> x \<longleftrightarrow> (2 ^ k :: int) \<le> \<lfloor>x\<rfloor>" by (simp add: le_floor_iff)
  also have "\<dots> \<longleftrightarrow> int k < bitlen \<lfloor>x\<rfloor>"
    using bitlen_le_iff_power [of "\<lfloor>x\<rfloor>" "int k"] by (auto simp: not_le [symmetric])
  finally show ?thesis .
qed

lemma ParseFloat_code [code]:
  "ParseFloat s bitSize =
     (case parse_decimal s of
        None \<Rightarrow> None
      | Some (neg, ds, k, e) \<Rightarrow>
          (case dec_ratio (dec_val ds) (e - int k) of (n, d) \<Rightarrow>
           let x = (if bitSize = 32 then nearest32 n d else nearest64 n d) in
           if int (range_exp bitSize) < bitlen \<lfloor>x\<rfloor> then None else Some (Float neg x)))"
  by (simp add: ParseFloat_def ge_pow2 Let_def cong: option.case_cong prod.case_cong)

section \<open>Reading the digits of a number\<close>

text \<open>The slow path gathers exactly the run of number bytes.\<close>

lemma readNumber_loop_reads:
  assumes "wf_iter it" "dropWhile number_char (pending it) = t # rest"
  shows "\<exists>it'. readNumber_loop acc it = (acc @ takeWhile number_char (pending it), it')
    \<and> consumes it (takeWhile number_char (pending it)) it' \<and> pending it' = t # rest"
  using assms
proof (induction acc it rule: readNumber_loop.induct)
  case (1 acc it)
  let ?P = "\<lambda>c. \<not> number_char c"
  have b: "0 \<le> head it" "head it \<le> tail it" "tail it \<le> int (length (buf it))" using "1.prems" by (auto simp: wf_iter_def)
  show ?case
  proof (cases "find_from ?P (buf it) (head it) (tail it)")
    case (Some k)
    note f = find_from_Some [OF Some b(1,3)]
    let ?w = "gslice (buf it) (head it) k" and ?it = "it\<lparr>head := k\<rparr>"
    have con: "consumes it ?w ?it" using consumes_head [of it k] "1.prems"(1) f by simp
    have "pending ?it = byte_at (buf it) k # gslice (buf it) (k + 1) (tail it) @ rest_bytes it"
      using f b gslice_Cons [of k "tail it" "buf it"] by (simp add: pending_def rest_bytes_def)
    with f consumes_pending [OF con] have "takeWhile number_char (pending it) = ?w"
      "dropWhile number_char (pending it) = pending ?it"
      using dropWhile_span [of ?w "byte_at (buf it) k" _ "pending it" number_char] by auto
    with Some b con "1.prems"(2) show ?thesis by (auto simp: readNumber_loop.simps [of acc it])
  next
    case None
    note f = find_from_None [OF None b(1,3)]
    obtain ok it1 where l: "loadMore it = (ok, it1)" by force
    have "rest_bytes it \<noteq> []" using "1.prems"(2) f by (auto simp: pending_def dropWhile_append)
    with l "1.prems"(1) loadMore_rest have ok: ok by force
    let ?w = "gslice (buf it) (head it) (tail it)"
    have con: "consumes it ?w it1" using loadMore_True [of it it1] l ok "1.prems"(1) by simp
    have p: "pending it = ?w @ pending it1" using consumes_pending [OF con] .
    have w: "\<forall>c \<in> set ?w. number_char c" using f by simp
    have "dropWhile number_char (pending it1) = t # rest" using "1.prems"(2) p w by (simp add: dropWhile_append)
    moreover have "\<not> (head it < 0 \<or> tail it > int (length (buf it)))" using b by simp
    ultimately obtain it' where it': "readNumber_loop (acc @ ?w) it1 = ((acc @ ?w) @ takeWhile number_char (pending it1), it')"
      "consumes it1 (takeWhile number_char (pending it1)) it'" "pending it' = t # rest"
      using "1.IH" [OF _ None l [symmetric] ok consumes_wf [OF con]] by blast
    have "takeWhile number_char (pending it) = ?w @ takeWhile number_char (pending it1)"
      using p w by (simp add: takeWhile_append)
    with it' consumes_trans [OF con it'(2)] None l ok b show ?thesis
      by (auto simp: readNumber_loop.simps [of acc it])
  qed
qed

definition scan_value :: "bytes \<Rightarrow> int \<Rightarrow> int \<Rightarrow> u64 \<Rightarrow> u64 \<Rightarrow> bool" where
  "scan_value b i j v v' \<longleftrightarrow> i \<le> j \<and> list_all is_digit (gslice b i j)
     \<and> unat v' = dec_val_from (unat v) (gslice b i j)"

lemma floatDigits_digit: "is_digit c \<Longrightarrow> floatDigits c = int (digit_val c)"
  by (simp add: floatDigits_def)

lemma floatDigits_cases:
  "\<not> is_digit c \<Longrightarrow> floatDigits c = (if c = ch_dot then dotInNumber
     else if c = ch_comma \<or> c = ch_rbrack \<or> c = ch_rbrace \<or> c = ch_space \<or> c = ch_tab \<or> c = ch_nl then endOfNumber
     else invalidCharForNumber)"
  by (auto simp: floatDigits_def)

lemma digit_step:
  assumes "is_digit c" "\<not> v > uint64SafeToMultiple10"
  shows "unat (push_bit 3 v + push_bit 1 v + word_of_int (floatDigits c) :: u64) = 10 * unat v + digit_val c"
proof -
  have "unat v \<le> 1844674407370955160" using assms(2)
    by (simp add: not_less word_le_nat_alt uint64SafeToMultiple10_def)
  moreover have "digit_val c < 10" using digit_val_less [OF assms(1)] .
  ultimately have lt: "10 * unat v + digit_val c < 2 ^ 64" by simp
  have "(push_bit 3 v + push_bit 1 v + word_of_int (floatDigits c) :: u64) = of_nat (10 * unat v + digit_val c)"
    unfolding times10 using assms(1) by (simp add: floatDigits_digit)
  from of_nat_inverse [OF this [symmetric]] lt show ?thesis by simp
qed

lemma scan_value_step:
  assumes "scan_value b (i + 1) j v1 v'" "is_digit (byte_at b i)" "0 \<le> i" "j \<le> int (length b)"
    "unat v1 = 10 * unat v + digit_val (byte_at b i)"
  shows "scan_value b i j v v'"
proof -
  have "gslice b i j = byte_at b i # gslice b (i + 1) j"
    using assms by (intro gslice_Cons) (auto simp: scan_value_def)
  with assms show ?thesis by (auto simp: scan_value_def)
qed

lemma invalid_codes: "invalidCharForNumber \<noteq> int n" "endOfNumber \<noteq> int n" "dotInNumber \<noteq> int n"
    "endOfNumber \<noteq> invalidCharForNumber" "dotInNumber \<noteq> invalidCharForNumber" "dotInNumber \<noteq> endOfNumber"
  by (simp_all add: invalidCharForNumber_def endOfNumber_def dotInNumber_def)

lemma floatDigits_dot: "floatDigits c = dotInNumber \<longleftrightarrow> c = ch_dot"
proof (cases "is_digit c")
  case True
  then have "c \<noteq> ch_dot" by (auto simp: is_digit_def)
  with True invalid_codes(3) show ?thesis by (metis floatDigits_digit)
next
  case False
  then show ?thesis using invalid_codes by (simp add: floatDigits_cases eq_commute)
qed

lemma floatDigits_digit_not: "is_digit c \<Longrightarrow> floatDigits c \<noteq> invalidCharForNumber \<and> floatDigits c \<noteq> endOfNumber"
  using invalid_codes(1,2) by (metis floatDigits_digit)

lemma floatDigits_other: "is_digit c \<or> floatDigits c = invalidCharForNumber \<or> floatDigits c = endOfNumber \<or> c = ch_dot"
  by (auto simp: floatDigits_cases)

lemma scan_int_part_spec:
  assumes "0 \<le> i" "hi \<le> int (length b)"
  shows "case scan_int_part b i hi v of
      ScanSlow \<Rightarrow> True
    | ScanInt j v' \<Rightarrow> j < hi \<and> floatDigits (byte_at b j) = endOfNumber \<and> scan_value b i j v v'
    | ScanDot j v' \<Rightarrow> j < hi \<and> byte_at b j = ch_dot \<and> scan_value b i j v v'"
  using assms
proof (induction b i hi v rule: scan_int_part.induct)
  case (1 b i hi v)
  show ?case
  proof (cases "i < hi \<and> is_digit (byte_at b i) \<and> \<not> v > uint64SafeToMultiple10")
    case True
    let ?v1 = "push_bit 3 v + push_bit 1 v + word_of_int (floatDigits (byte_at b i)) :: u64"
    have ind: "floatDigits (byte_at b i) = int (digit_val (byte_at b i))" using True floatDigits_digit by blast
    have n: "floatDigits (byte_at b i) \<noteq> invalidCharForNumber" "floatDigits (byte_at b i) \<noteq> endOfNumber"
      "floatDigits (byte_at b i) \<noteq> dotInNumber"
      using True floatDigits_digit_not [of "byte_at b i"] floatDigits_dot [of "byte_at b i"]
      by (auto simp: is_digit_def)
    have lt: "i < hi" "\<not> v > uint64SafeToMultiple10" using True by simp_all
    have st: "scan_int_part b i hi v = scan_int_part b (i + 1) hi ?v1"
      using lt n by (simp only: scan_int_part.simps [of b i hi v] Let_def if_True if_False)
    have IH: "case scan_int_part b (i + 1) hi ?v1 of
      ScanSlow \<Rightarrow> True
    | ScanInt j v' \<Rightarrow> j < hi \<and> floatDigits (byte_at b j) = endOfNumber \<and> scan_value b (i + 1) j ?v1 v'
    | ScanDot j v' \<Rightarrow> j < hi \<and> byte_at b j = ch_dot \<and> scan_value b (i + 1) j ?v1 v'"
      using "1.IH" [OF lt(1) refl n lt(2)] "1.prems" by linarith
    have "scan_value b i j v v'" if "scan_value b (i + 1) j ?v1 v'" "j < hi" for j v'
      using scan_value_step [OF that(1) _ "1.prems"(1) _ digit_step] that(2) True "1.prems" by simp
    with IH show ?thesis unfolding st by (auto split: float_scan.splits)
  next
    case False
    have "scan_value b i i v v" by (simp add: scan_value_def)
    with False floatDigits_other [of "byte_at b i"] show ?thesis
      by (auto simp: scan_int_part.simps [of b i hi v] Let_def floatDigits_dot dest: floatDigits_digit_not)
  qed
qed

lemma scan_frac_part_spec:
  assumes "0 \<le> i" "hi \<le> int (length b)"
  shows "case scan_frac_part bound b i hi v k of
      FracSlow \<Rightarrow> True
    | FracEnd j v' k' \<Rightarrow> j < hi \<and> floatDigits (byte_at b j) = endOfNumber \<and> scan_value b i j v v'
        \<and> k' = k + length (gslice b i j) \<and> k' < length pow10 \<and> 0 < k'
        \<and> (k < k' \<longrightarrow> (case bound of None \<Rightarrow> True | Some m \<Rightarrow> v' \<le> m))"
  using assms
proof (induction bound b i hi v k rule: scan_frac_part.induct)
  case (1 bound b i hi v k)
  let ?c = "byte_at b i"
  let ?v1 = "push_bit 3 v + push_bit 1 v + word_of_int (floatDigits ?c) :: u64"
  let ?over = "case bound of None \<Rightarrow> False | Some m \<Rightarrow> ?v1 > m"
  show ?case
  proof (cases "i < hi \<and> is_digit ?c \<and> \<not> v > uint64SafeToMultiple10 \<and> \<not> ?over")
    case True
    have n: "floatDigits ?c \<noteq> endOfNumber"
      "\<not> (floatDigits ?c = invalidCharForNumber \<or> floatDigits ?c = dotInNumber)"
      using True floatDigits_digit_not [of ?c] floatDigits_dot [of ?c] by (auto simp: is_digit_def)
    have lt: "i < hi" "\<not> v > uint64SafeToMultiple10" "\<not> ?over" using True by simp_all
    have st: "scan_frac_part bound b i hi v k = scan_frac_part bound b (i + 1) hi ?v1 (k + 1)"
      using lt n by (simp only: scan_frac_part.simps [of bound b i hi v k] Let_def if_True if_False)
    have IH: "case scan_frac_part bound b (i + 1) hi ?v1 (k + 1) of
      FracSlow \<Rightarrow> True
    | FracEnd j v' k' \<Rightarrow> j < hi \<and> floatDigits (byte_at b j) = endOfNumber \<and> scan_value b (i + 1) j ?v1 v'
        \<and> k' = k + 1 + length (gslice b (i + 1) j) \<and> k' < length pow10 \<and> 0 < k'
        \<and> (k + 1 < k' \<longrightarrow> (case bound of None \<Rightarrow> True | Some m \<Rightarrow> v' \<le> m))"
      using "1.IH" [OF lt(1) refl n lt(2) refl lt(3)] "1.prems" by linarith
    have sv: "scan_value b i j v v' \<and> length (gslice b i j) = Suc (length (gslice b (i + 1) j))"
      if "scan_value b (i + 1) j ?v1 v'" "j < hi" for j v'
      using scan_value_step [OF that(1) _ "1.prems"(1) _ digit_step] that True "1.prems"
      by (auto simp: scan_value_def gslice_Cons)
    have one: "v' \<le> m" if "scan_value b (i + 1) j ?v1 v'" "gslice b (i + 1) j = []" "bound = Some m" for j v' m
      using that lt(3) by (simp add: scan_value_def word_le_nat_alt not_less)
    show ?thesis
    proof (cases "scan_frac_part bound b (i + 1) hi ?v1 (k + 1)")
      case FracSlow
      then show ?thesis using st by simp
    next
      case (FracEnd j v' k')
      then have h: "j < hi" "floatDigits (byte_at b j) = endOfNumber" "scan_value b (i + 1) j ?v1 v'"
        "k' = k + 1 + length (gslice b (i + 1) j)" "k' < length pow10" "0 < k'"
        "k + 1 < k' \<longrightarrow> (case bound of None \<Rightarrow> True | Some m \<Rightarrow> v' \<le> m)" using IH by simp_all
      have "case bound of None \<Rightarrow> True | Some m \<Rightarrow> v' \<le> m"
        using h(4,7) one [OF h(3)] by (cases "gslice b (i + 1) j = []") (auto split: option.splits)
      with h(1,2,4-6) sv [OF h(3,1)] FracEnd st show ?thesis by simp
    qed
  next
    case False
    have "scan_value b i i v v" by (simp add: scan_value_def)
    with False floatDigits_other [of ?c] show ?thesis
      by (auto simp: scan_frac_part.simps [of bound b i hi v k] Let_def floatDigits_dot
          dest: floatDigits_digit_not split: option.splits)
  qed
qed

section \<open>Decimal literals\<close>

text \<open>An integer part without a superfluous leading zero, and the digits after the dot, if any.\<close>

definition num_text :: "bytes \<Rightarrow> bytes \<Rightarrow> bytes" where
  "num_text ip fp = ip @ (if fp = [] then [] else ch_dot # fp)"

definition num_ok :: "bytes \<Rightarrow> bytes \<Rightarrow> bool" where
  "num_ok ip fp \<longleftrightarrow> ip \<noteq> [] \<and> list_all is_digit ip \<and> list_all is_digit fp \<and> (hd ip = ch_0 \<longrightarrow> length ip = 1)"

lemma digit_number_char: "is_digit c \<Longrightarrow> number_char c"
  by (simp add: number_char_def)

lemma num_text_chars: "num_ok ip fp \<Longrightarrow> list_all number_char (num_text ip fp)"
  by (auto simp: num_ok_def num_text_def list_all_iff digit_number_char number_char_def)

lemma end_not_number: "floatDigits t = endOfNumber \<Longrightarrow> \<not> number_char t \<and> \<not> is_digit t \<and> t \<noteq> ch_dot"
proof -
  assume e: "floatDigits t = endOfNumber"
  then have "\<not> is_digit t" using floatDigits_digit_not by blast
  with e show ?thesis by (auto simp: floatDigits_def number_char_def endOfNumber_def dotInNumber_def invalidCharForNumber_def split: if_splits)
qed

lemma takeWhile_digits: "list_all is_digit xs \<Longrightarrow> \<not> is_digit y \<Longrightarrow>
    takeWhile is_digit (xs @ y # ys) = xs \<and> dropWhile is_digit (xs @ y # ys) = y # ys"
  by (simp add: list_all_iff takeWhile_append dropWhile_append)

lemma digits_only: "list_all is_digit xs \<Longrightarrow> takeWhile is_digit xs = xs \<and> dropWhile is_digit xs = []"
  by (simp add: list_all_iff)

lemma dot_not_digit: "\<not> is_digit ch_dot"
  by (simp add: is_digit_def)

lemma num_text_spans:
  assumes "num_ok ip fp"
  shows "takeWhile is_digit (num_text ip fp) = ip"
    "dropWhile is_digit (num_text ip fp) = (if fp = [] then [] else ch_dot # fp)"
  using assms takeWhile_digits [of ip ch_dot fp] digits_only [of ip] dot_not_digit
  by (auto simp: num_ok_def num_text_def)

lemma num_text_sign: "num_ok ip fp \<Longrightarrow> split_sign (num_text ip fp) = (False, num_text ip fp)"
  by (cases ip) (auto simp: num_ok_def num_text_def split_sign_def is_digit_def)

lemma parse_decimal_num_text:
  assumes "num_ok ip fp"
  shows "parse_decimal (num_text ip fp) = Some (False, ip @ fp, length fp, 0)"
    "parse_decimal (ch_minus # num_text ip fp) = Some (True, ip @ fp, length fp, 0)"
proof -
  have ip: "ip \<noteq> []" and fp: "takeWhile is_digit fp = fp" "dropWhile is_digit fp = []"
    using assms digits_only [of fp] by (auto simp: num_ok_def)
  have sg: "split_sign (ch_minus # num_text ip fp) = (True, num_text ip fp)" by (simp add: split_sign_def)
  note sp = num_text_spans [OF assms]
  show "parse_decimal (num_text ip fp) = Some (False, ip @ fp, length fp, 0)"
    unfolding parse_decimal_def Let_def num_text_sign [OF assms] prod.case sp
    using ip by (simp add: parse_exponent_def fp)
  show "parse_decimal (ch_minus # num_text ip fp) = Some (True, ip @ fp, length fp, 0)"
    unfolding parse_decimal_def Let_def sg prod.case sp
    using ip by (simp add: parse_exponent_def fp)
qed

lemma ParseFloat_num_text:
  assumes "num_ok ip fp"
  shows "ParseFloat (num_text ip fp) 64 =
    (let x = nearest64 (int (dec_val (ip @ fp))) (10 ^ length fp) in if 2 ^ range_exp 64 \<le> x then None else Some (Float False x))"
proof -
  have r: "dec_ratio m (0 - int k) = (int m, 10 ^ k)" for m k by (auto simp: dec_ratio_def)
  show ?thesis unfolding ParseFloat_def parse_decimal_num_text [OF assms] option.case prod.case r Let_def by simp
qed

lemma takeWhile_no_dot: "list_all is_digit xs \<Longrightarrow> takeWhile (\<lambda>c. c \<noteq> ch_dot) (xs @ ch_dot # ys) = xs
    \<and> takeWhile (\<lambda>c. c \<noteq> ch_dot) xs = xs"
  using dot_not_digit by (induction xs) auto

lemma validate_num_text: "num_ok ip fp \<Longrightarrow> validatePositiveFloat (num_text ip fp) = []"
proof -
  assume ok: "num_ok ip fp"
  then have i: "ip \<noteq> []" "list_all is_digit ip" "list_all is_digit fp" by (auto simp: num_ok_def)
  then have h: "num_text ip fp \<noteq> []" "num_text ip fp ! 0 \<noteq> ch_minus"
    by (cases ip; auto simp: num_text_def is_digit_def)+
  show ?thesis
  proof (cases fp)
    case Nil
    with h show ?thesis
      by (simp add: validatePositiveFloat_def Let_def num_text_def conjunct2 [OF takeWhile_no_dot [OF i(2)]])
  next
    case (Cons d ds)
    with h i show ?thesis
      by (simp add: validatePositiveFloat_def Let_def num_text_def nth_append conjunct1 [OF takeWhile_no_dot [OF i(2)]])
  qed
qed

lemma readNumberAsBytes_num:
  assumes "wf_iter it" "Error it = None" "num_ok ip fp" "pending it = num_text ip fp @ t # rest" "\<not> number_char t"
  shows "\<exists>it'. readNumberAsBytes [] it = (num_text ip fp, it') \<and> consumes it (num_text ip fp) it'
    \<and> pending it' = t # rest \<and> Error it' = None"
proof -
  have tw: "takeWhile number_char (pending it) = num_text ip fp" "dropWhile number_char (pending it) = t # rest"
    using dropWhile_span [of "num_text ip fp" t rest "pending it" number_char] assms(4)
      num_text_chars [OF assms(3)] assms(5) by (auto simp: list_all_iff)
  from readNumber_loop_reads [OF assms(1) tw(2), of "[]"] obtain it' where
    r: "readNumber_loop [] it = (num_text ip fp, it')" "consumes it (num_text ip fp) it'" "pending it' = t # rest"
    unfolding tw by auto
  have "num_text ip fp \<noteq> []" using assms(3) by (auto simp: num_ok_def num_text_def)
  moreover have "Error it' = None" using consumes_Error [OF r(2)] assms(2) by simp
  ultimately have "readNumberAsBytes [] it = (num_text ip fp, it')"
    using r(1) by (simp add: readNumberAsBytes_def)
  with r \<open>Error it' = None\<close> show ?thesis by blast
qed

lemma slow_reads:
  assumes "wf_iter it" "Error it = None" "num_ok ip fp" "pending it = num_text ip fp @ t # rest" "\<not> number_char t"
  shows "ParseFloat (num_text ip fp) 64 = Some x \<Longrightarrow>
      \<exists>it'. readFloat64SlowPath it = (x, it') \<and> consumes it (num_text ip fp) it' \<and> pending it' = t # rest"
    "ParseFloat (num_text ip fp) 32 = Some x \<Longrightarrow>
      \<exists>it'. readFloat32SlowPath it = (x, it') \<and> consumes it (num_text ip fp) it' \<and> pending it' = t # rest"
  using readNumberAsBytes_num [OF assms] validate_num_text [OF assms(3)]
  by (auto simp: readFloat64SlowPath_def readFloat32SlowPath_def)

text \<open>What the scans of the window say about the literal.\<close>

lemma window_split:
  assumes "wf_iter it" "head it \<le> j" "j < tail it"
  shows "pending it = gslice (buf it) (head it) j @ byte_at (buf it) j # pending (it\<lparr>head := j + 1\<rparr>)"
    "consumes it (gslice (buf it) (head it) j) (it\<lparr>head := j\<rparr>)"
    "pending (it\<lparr>head := j\<rparr>) = byte_at (buf it) j # pending (it\<lparr>head := j + 1\<rparr>)"
proof -
  show c: "consumes it (gslice (buf it) (head it) j) (it\<lparr>head := j\<rparr>)"
    using consumes_head [of it j] assms by simp
  show p: "pending (it\<lparr>head := j\<rparr>) = byte_at (buf it) j # pending (it\<lparr>head := j + 1\<rparr>)"
    using assms gslice_Cons [of j "tail it" "buf it"] by (simp add: wf_iter_def pending_def rest_bytes_def)
  show "pending it = gslice (buf it) (head it) j @ byte_at (buf it) j # pending (it\<lparr>head := j + 1\<rparr>)"
    using consumes_pending [OF c] p by simp
qed

lemma scanned_int_part:
  assumes wf: "wf_iter it" and "head it < tail it" "head it + 1 \<le> j" "j < tail it"
    and sv: "scan_value (buf it) (head it + 1) j (of_nat (digit_val (byte_at (buf it) (head it)))) v"
    and d: "is_digit (byte_at (buf it) (head it))" and nd: "\<not> is_digit (byte_at (buf it) j)"
    and p: "pending it = ip @ y # ys" "list_all is_digit ip" "\<not> is_digit y"
  shows "ip = gslice (buf it) (head it) j \<and> y = byte_at (buf it) j \<and> ys = pending (it\<lparr>head := j + 1\<rparr>)
    \<and> unat v = dec_val ip"
proof -
  let ?c = "byte_at (buf it) (head it)"
  have b: "0 \<le> head it" "tail it \<le> int (length (buf it))" using wf by (auto simp: wf_iter_def)
  have g: "gslice (buf it) (head it) j = ?c # gslice (buf it) (head it + 1) j"
    using gslice_Cons [of "head it" j "buf it"] assms(3,4) b by simp
  have dg: "list_all is_digit (gslice (buf it) (head it) j)" using g d sv by (simp add: scan_value_def)
  note w = window_split(1) [OF wf, of j]
  have "head it \<le> j" using assms(3) by simp
  with w assms(4) have eq: "ip @ y # ys = gslice (buf it) (head it) j @ byte_at (buf it) j # pending (it\<lparr>head := j + 1\<rparr>)"
    using p(1) by simp
  have "ip = gslice (buf it) (head it) j" "y # ys = byte_at (buf it) j # pending (it\<lparr>head := j + 1\<rparr>)"
    using takeWhile_digits [OF p(2,3), of ys] takeWhile_digits [OF dg nd, of "pending (it\<lparr>head := j + 1\<rparr>)"]
    unfolding eq by auto
  moreover have "unat (of_nat (digit_val ?c) :: u64) = digit_val ?c"
    using digit_val_less [OF d] by (intro of_nat_inverse [OF refl]) simp
  ultimately show ?thesis using sv g by (simp add: scan_value_def dec_val_def)
qed

text \<open>The scan of the fraction stops at its end: value, places and text.\<close>

lemma scanned_frac_part:
  assumes wf: "wf_iter it" and j: "head it \<le> j" "j < tail it" "byte_at (buf it) j = ch_dot" "gslice (buf it) (head it) j = ip"
    and v: "unat v = dec_val ip" and fp: "list_all is_digit fp" "fp \<noteq> []" and t: "\<not> is_digit t"
    and p: "pending (it\<lparr>head := j + 1\<rparr>) = fp @ t # rest"
    and f: "scan_frac_part bound (buf it) (j + 1) (tail it) v 0 = FracEnd k v2 places"
  shows "places = length fp \<and> places < length pow10 \<and> uint v2 = int (dec_val (ip @ fp))
    \<and> (\<forall>m. bound = Some m \<longrightarrow> dec_val (ip @ fp) \<le> unat m)
    \<and> consumes it (num_text ip fp) (it\<lparr>head := k\<rparr>) \<and> pending (it\<lparr>head := k\<rparr>) = t # rest"
proof -
  have b: "0 \<le> head it" "tail it \<le> int (length (buf it))" using wf by (auto simp: wf_iter_def)
  have "case FracEnd k v2 places of FracSlow \<Rightarrow> True
    | FracEnd k v' k' \<Rightarrow> k < tail it \<and> floatDigits (byte_at (buf it) k) = endOfNumber
      \<and> scan_value (buf it) (j + 1) k v v' \<and> k' = 0 + length (gslice (buf it) (j + 1) k)
      \<and> k' < length pow10 \<and> 0 < k' \<and> (0 < k' \<longrightarrow> (case bound of None \<Rightarrow> True | Some m \<Rightarrow> v' \<le> m))"
    unfolding f [symmetric] by (rule scan_frac_part_spec) (use b j in simp_all)
  then have k: "k < tail it" "floatDigits (byte_at (buf it) k) = endOfNumber" "scan_value (buf it) (j + 1) k v v2"
    "places = length (gslice (buf it) (j + 1) k)" "places < length pow10" "\<forall>m. bound = Some m \<longrightarrow> v2 \<le> m"
    by (auto split: option.splits)
  let ?it1 = "it\<lparr>head := j + 1\<rparr>"
  have w1: "wf_iter ?it1" using wf j by (auto simp: wf_iter_def)
  have k1: "head ?it1 \<le> k" "k < tail ?it1" "list_all is_digit (gslice (buf it) (j + 1) k)"
    "unat v2 = dec_val_from (unat v) (gslice (buf it) (j + 1) k)" using k by (auto simp: scan_value_def)
  have eq: "fp @ t # rest = gslice (buf it) (j + 1) k @ byte_at (buf it) k # pending (it\<lparr>head := k + 1\<rparr>)"
    using window_split(1) [OF w1 k1(1,2)] unfolding p by simp
  have ks: "\<not> is_digit (byte_at (buf it) k)" using end_not_number [OF k(2)] by blast
  from takeWhile_digits [OF fp(1) t, of rest] takeWhile_digits [OF k1(3) ks, of "pending (it\<lparr>head := k + 1\<rparr>)"]
  have g: "fp = gslice (buf it) (j + 1) k" "t # rest = byte_at (buf it) k # pending (it\<lparr>head := k + 1\<rparr>)"
    unfolding eq by metis+
  have v2: "unat v2 = dec_val (ip @ fp)" using k1(4) g(1) v by (simp add: dec_val_def dec_val_from_append)
  have hk: "head it \<le> k" using k1(1) j(1) by simp
  have "gslice (buf it) (head it) k = gslice (buf it) (head it) j @ gslice (buf it) j k"
    using gslice_append [of "head it" j k "buf it"] j b k1(1) by simp
  also have "gslice (buf it) j k = ch_dot # gslice (buf it) (j + 1) k"
    using gslice_Cons [of j k "buf it"] j b k1 k(1) by simp
  finally have "gslice (buf it) (head it) k = num_text ip fp" using j(4) g fp(2) by (simp add: num_text_def)
  moreover have "pending (it\<lparr>head := k\<rparr>) = t # rest" using window_split(3) [OF wf hk k(1)] g(2) by simp
  moreover have "uint v2 = int (dec_val (ip @ fp))" using v2 by (metis of_nat_unat)
  moreover have "\<forall>m. bound = Some m \<longrightarrow> dec_val (ip @ fp) \<le> unat m" using k(6) v2 by (simp add: word_le_nat_alt)
  ultimately show ?thesis using k(4,5) g(1) window_split(2) [OF wf hk k(1)] by simp
qed

text \<open>On a literal the readers either take the slow path or return the fast value.\<close>

lemma readPositiveFloat_cases:
  fixes op slow bound conv of_uint
  defines "rdr \<equiv> readPositiveFloat op slow bound conv of_uint"
  assumes wf: "wf_iter it" and lit: "num_ok ip fp" "pending it = num_text ip fp @ t # rest" "\<not> number_char t"
  shows "rdr it = slow it \<or> (\<exists>x it'. rdr it = (Float False x, it') \<and> consumes it (num_text ip fp) it'
    \<and> pending it' = t # rest
    \<and> (if fp = [] then x = of_uint (int (dec_val ip))
       else x = conv (float64_div (float64_of (int (dec_val (ip @ fp)))) (float64_of (pow10 ! length fp)))
         \<and> length fp < length pow10 \<and> (\<forall>m. bound = Some m \<longrightarrow> dec_val (ip @ fp) \<le> unat m)))"
    (is "_ \<or> ?fast")
proof -
  let ?c = "byte_at (buf it) (head it)"
  have b: "0 \<le> head it" "head it \<le> tail it" "tail it \<le> int (length (buf it))" using wf by (auto simp: wf_iter_def)
  have ok: "ip \<noteq> []" "list_all is_digit ip" "list_all is_digit fp" "hd ip = ch_0 \<longrightarrow> length ip = 1"
    using lit(1) by (auto simp: num_ok_def)
  have t: "\<not> is_digit t" "t \<noteq> ch_dot" using lit(3) by (auto simp: number_char_def)
  show ?thesis
  proof (cases "head it = tail it")
    case True
    then show ?thesis by (simp add: rdr_def readPositiveFloat_def)
  next
    case False
    then have lt: "head it < tail it" using b by simp
    have c: "?c = hd ip" using window_split(1) [OF wf _ lt] lit(2) ok(1)
      by (cases ip) (auto simp: num_text_def)
    then have d: "is_digit ?c" using ok(1,2) by (cases ip) auto
    note ind = floatDigits_digit [OF d]
    have n: "floatDigits ?c \<noteq> invalidCharForNumber" "floatDigits ?c \<noteq> endOfNumber" "floatDigits ?c \<noteq> dotInNumber"
      using floatDigits_digit_not [OF d] d by (auto simp: floatDigits_dot is_digit_def)
    obtain y ys where y: "pending it = ip @ y # ys" "\<not> is_digit y" "y = (if fp = [] then t else ch_dot)"
      "ys = (if fp = [] then rest else fp @ t # rest)"
      using lit(2) t dot_not_digit by (cases "fp = []") (auto simp: num_text_def)
    have lead: "\<not> (floatDigits ?c = 0 \<and> is_digit (byte_at (buf it) (head it + 1)))" if nt: "head it + 1 \<noteq> tail it"
    proof
      assume z: "floatDigits ?c = 0 \<and> is_digit (byte_at (buf it) (head it + 1))"
      then have "digit_val ?c = 0" using ind by simp
      then have "?c - ch_0 = 0" unfolding digit_val_def by (simp only: unat_eq_zero)
      then have "?c = ch_0" by simp
      then have ip: "ip = [?c]" using ok(1,4) c by (cases ip) auto
      have "byte_at (buf it) (head it + 1) = y"
        using window_split(1) [OF wf, of "head it"] window_split(3) [OF wf, of "head it + 1"] lt nt y(1) ip
        by auto
      with z y(2) show False by simp
    qed
    have body: "rdr it =
       (if floatDigits ?c = 0 \<and> head it + 1 = tail it then slow it
        else case scan_int_part (buf it) (head it + 1) (tail it) (of_nat (digit_val ?c)) of
             ScanSlow \<Rightarrow> slow it
           | ScanInt j v \<Rightarrow> (Float False (of_uint (uint v)), it\<lparr>head := j\<rparr>)
           | ScanDot j v \<Rightarrow>
               if j + 1 = tail it then slow it
               else (case scan_frac_part bound (buf it) (j + 1) (tail it) v 0 of
                       FracSlow \<Rightarrow> slow it
                     | FracEnd k v places \<Rightarrow>
                         (Float False (conv (float64_div (float64_of (uint v)) (float64_of (pow10 ! places)))), it\<lparr>head := k\<rparr>)))"
      using False n lead unfolding rdr_def readPositiveFloat_def Let_def
      by (auto simp: ind split: float_scan.splits)
    note si = scan_int_part_spec [of "head it + 1" "tail it" "buf it" "of_nat (digit_val ?c)"]
    show ?thesis
    proof (cases "floatDigits ?c = 0 \<and> head it + 1 = tail it")
      case True
      with body show ?thesis by simp
    next
      case nz: False
      show ?thesis
      proof (cases "scan_int_part (buf it) (head it + 1) (tail it) (of_nat (digit_val ?c))")
        case ScanSlow
        with nz body show ?thesis by simp
      next
        case (ScanInt j v)
        then have j: "j < tail it" "floatDigits (byte_at (buf it) j) = endOfNumber" "head it + 1 \<le> j"
          "scan_value (buf it) (head it + 1) j (of_nat (digit_val ?c)) v"
          using si b by (auto simp: scan_value_def)
        have j2: "\<not> is_digit (byte_at (buf it) j)" "byte_at (buf it) j \<noteq> ch_dot" using end_not_number [OF j(2)] by auto
        note s = scanned_int_part [OF wf lt j(3,1,4) d j2(1) y(1) ok(2) y(2)]
        then have fp: "fp = []" using y(3) j2(2) by (auto split: if_splits)
        have "uint v = int (dec_val ip)" using s by (metis of_nat_unat)
        with body nz ScanInt s fp y window_split [OF wf, of j] j show ?thesis
          by (auto simp: num_text_def)
      next
        case (ScanDot j v)
        then have j: "j < tail it" "byte_at (buf it) j = ch_dot" "head it + 1 \<le> j"
          "scan_value (buf it) (head it + 1) j (of_nat (digit_val ?c)) v"
          using si b by (auto simp: scan_value_def)
        have j2: "\<not> is_digit (byte_at (buf it) j)" using j(2) dot_not_digit by simp
        note s = scanned_int_part [OF wf lt j(3,1,4) d j2 y(1) ok(2) y(2)]
        then have fp: "fp \<noteq> []" and rest: "pending (it\<lparr>head := j + 1\<rparr>) = fp @ t # rest"
          using y(3,4) j(2) t(2) by (auto split: if_splits)
        show ?thesis
        proof (cases "j + 1 = tail it \<or> scan_frac_part bound (buf it) (j + 1) (tail it) v 0 = FracSlow")
          case True
          with body nz ScanDot show ?thesis by auto
        next
          case fast: False
          then obtain k v2 places where f: "scan_frac_part bound (buf it) (j + 1) (tail it) v 0 = FracEnd k v2 places"
            by (cases "scan_frac_part bound (buf it) (j + 1) (tail it) v 0") auto
          note scanned_frac_part [OF wf _ j(1,2) _ _ ok(3) fp t(1) rest f, of ip]
          with s j(3) have "places = length fp" "places < length pow10" "uint v2 = int (dec_val (ip @ fp))"
            "\<forall>m. bound = Some m \<longrightarrow> dec_val (ip @ fp) \<le> unat m"
            "consumes it (num_text ip fp) (it\<lparr>head := k\<rparr>)" "pending (it\<lparr>head := k\<rparr>) = t # rest" by auto
          then show ?thesis using body nz ScanDot fast f fp by auto
        qed
      qed
    qed
  qed
qed

lemma fast_or_slow:
  assumes "wf_iter it" "Error it = None" "num_ok ip fp" "pending it = num_text ip fp @ t # rest"
    "\<not> number_char t" "ParseFloat (num_text ip fp) 64 = Some x"
  shows "\<exists>it'. readPositiveFloat64 it = (x, it') \<and> consumes it (num_text ip fp) it' \<and> pending it' = t # rest"
proof -
  have x: "x = Float False (nearest64 (int (dec_val (ip @ fp))) (10 ^ length fp))"
    using assms(6) ParseFloat_num_text [OF assms(3)] by (simp add: Let_def split: if_splits)
  have fd: "float64_div (float64_of (int (dec_val (ip @ fp)))) (float64_of (pow10 ! length fp))
      = nearest64 (int (dec_val (ip @ fp))) (10 ^ length fp)"
    if "dec_val (ip @ fp) \<le> unat maxFloat64" "length fp < length pow10"
    using that by (intro fast_division) (simp_all add: maxFloat64_def)
  from readPositiveFloat_cases [OF assms(1,3,4,5), of "''readFloat64''" readFloat64SlowPath "Some maxFloat64" "\<lambda>x. x" float64_of]
  show ?thesis
  proof
    assume "readPositiveFloat ''readFloat64'' readFloat64SlowPath (Some maxFloat64) (\<lambda>x. x) float64_of it = readFloat64SlowPath it"
    with slow_reads(1) [OF assms] show ?thesis by (simp add: readPositiveFloat64_def)
  next
    assume "\<exists>y it'. readPositiveFloat ''readFloat64'' readFloat64SlowPath (Some maxFloat64) (\<lambda>x. x) float64_of it
        = (Float False y, it') \<and> consumes it (num_text ip fp) it' \<and> pending it' = t # rest
      \<and> (if fp = [] then y = float64_of (int (dec_val ip))
         else y = float64_div (float64_of (int (dec_val (ip @ fp)))) (float64_of (pow10 ! length fp))
           \<and> length fp < length pow10 \<and> (\<forall>m. Some maxFloat64 = Some m \<longrightarrow> dec_val (ip @ fp) \<le> unat m))"
    then obtain y it' where y: "readPositiveFloat64 it = (Float False y, it')" "consumes it (num_text ip fp) it'"
      "pending it' = t # rest" "if fp = [] then y = float64_of (int (dec_val ip))
         else y = float64_div (float64_of (int (dec_val (ip @ fp)))) (float64_of (pow10 ! length fp))
           \<and> length fp < length pow10 \<and> (\<forall>m. Some maxFloat64 = Some m \<longrightarrow> dec_val (ip @ fp) \<le> unat m)"
      unfolding readPositiveFloat64_def by blast
    from y(4) have "x = Float False y"
      using x fd by (cases "fp = []") (simp_all add: float64_of_def)
    with y show ?thesis by blast
  qed
qed

lemma readPositiveFloat32_consumes:
  assumes "wf_iter it" "Error it = None" "num_ok ip fp" "pending it = num_text ip fp @ t # rest"
    "\<not> number_char t" "ParseFloat (num_text ip fp) 32 \<noteq> None"
  shows "\<exists>x it'. readPositiveFloat32 it = (x, it') \<and> consumes it (num_text ip fp) it' \<and> pending it' = t # rest"
  using readPositiveFloat_cases [OF assms(1,3,4,5), of "''readFloat32''" readFloat32SlowPath None float32_of "\<lambda>v. nearest32 v 1"]
    slow_reads(2) [OF assms(1-5)] assms(6)
  unfolding readPositiveFloat32_def by fastforce

lemma ReadFloat64_literal:
  assumes "wf_iter it" "Error it = None" "list_all is_space ws" "num_ok ip fp"
    "pending it = ws @ (if neg then [ch_minus] else []) @ num_text ip fp @ t # rest"
    "\<not> number_char t"
    "ParseFloat ((if neg then [ch_minus] else []) @ num_text ip fp) 64 = Some x"
  shows "\<exists>it'. ReadFloat64 it = (x, it') \<and> Error it' = None \<and> pending it' = t # rest
    \<and> consumes it (ws @ (if neg then [ch_minus] else []) @ num_text ip fp) it'"
proof -
  obtain c cs where c: "num_text ip fp = c # cs" "is_digit c"
    using assms(4) by (cases ip) (auto simp: num_ok_def num_text_def)
  then have cm: "c \<noteq> ch_minus" "\<not> is_space c" using digit_not_space by auto
  show ?thesis
  proof (cases neg)
    case True
    obtain it1 where 1: "nextToken it = (ch_minus, it1)" "consumes it (ws @ [ch_minus]) it1"
      "pending it1 = num_text ip fp @ t # rest"
      using nextToken_at [OF assms(1,3), of ch_minus "num_text ip fp @ t # rest"] assms(5) True
      by (auto simp: is_space_def)
    have e: "Error it1 = None" using consumes_Error [OF 1(2)] assms(2) by simp
    obtain y where y: "ParseFloat (num_text ip fp) 64 = Some y" "x = float_neg y"
      using assms(7) True ParseFloat_num_text [OF assms(4)]
      unfolding ParseFloat_def parse_decimal_num_text [OF assms(4)]
      by (auto simp: float_neg_def Let_def parse_decimal_num_text [OF assms(4)] split: if_splits prod.splits)
    from fast_or_slow [OF consumes_wf [OF 1(2)] e assms(4) 1(3) assms(6) y(1)] obtain it' where
      2: "readPositiveFloat64 it1 = (y, it')" "consumes it1 (num_text ip fp) it'" "pending it' = t # rest" by blast
    have con: "consumes it (ws @ [ch_minus] @ num_text ip fp) it'" using consumes_trans [OF 1(2) 2(2)] by simp
    moreover have "ReadFloat64 it = (x, it')" using 1(1) 2(1) y(2) by (simp add: ReadFloat64_def)
    ultimately show ?thesis using True 2(3) consumes_Error [OF con] assms(2) by auto
  next
    case False
    obtain it1 where 1: "nextToken it = (c, it1)" "consumes it (ws @ [c]) it1" "can_unread c it1"
      "pending it1 = cs @ t # rest"
      using nextToken_at [OF assms(1,3) _ cm(2), of "cs @ t # rest"] assms(5) False c by auto
    have "Error it1 = None" using consumes_Error [OF 1(2)] assms(2) by simp
    from unreadByte_spec [OF 1(2,3) this] have u: "consumes it ws (unreadByte it1)"
      "pending (unreadByte it1) = num_text ip fp @ t # rest" using 1(4) c by auto
    have e: "Error (unreadByte it1) = None" using consumes_Error [OF u(1)] assms(2) by simp
    from fast_or_slow [OF consumes_wf [OF u(1)] e assms(4) u(2) assms(6)] assms(7) False obtain it' where
      2: "readPositiveFloat64 (unreadByte it1) = (x, it')" "consumes (unreadByte it1) (num_text ip fp) it'"
        "pending it' = t # rest" by auto
    have con: "consumes it (ws @ num_text ip fp) it'" using consumes_trans [OF u(1) 2(2)] .
    moreover have "ReadFloat64 it = (x, it')" using 1(1) 2(1) cm(1) by (simp add: ReadFloat64_def)
    ultimately show ?thesis using False 2(3) consumes_Error [OF con] assms(2) by auto
  qed
qed

lemma ReadFloat32_consumes:
  assumes "wf_iter it" "Error it = None" "list_all is_space ws" "num_ok ip fp"
    "pending it = ws @ num_text ip fp @ t # rest" "\<not> number_char t" "ParseFloat (num_text ip fp) 32 \<noteq> None"
  shows "\<exists>it'. snd (ReadFloat32 it) = it' \<and> pending it' = t # rest \<and> consumes it (ws @ num_text ip fp) it'"
proof -
  obtain c cs where c: "num_text ip fp = c # cs" "is_digit c"
    using assms(4) by (cases ip) (auto simp: num_ok_def num_text_def)
  then have cm: "c \<noteq> ch_minus" "\<not> is_space c" using digit_not_space by auto
  obtain it1 where 1: "nextToken it = (c, it1)" "consumes it (ws @ [c]) it1" "can_unread c it1"
    "pending it1 = cs @ t # rest"
    using nextToken_at [OF assms(1,3) _ cm(2), of "cs @ t # rest"] assms(5) c by auto
  have "Error it1 = None" using consumes_Error [OF 1(2)] assms(2) by simp
  from unreadByte_spec [OF 1(2,3) this] have u: "consumes it ws (unreadByte it1)"
    "pending (unreadByte it1) = num_text ip fp @ t # rest" using 1(4) c by auto
  have e: "Error (unreadByte it1) = None" using consumes_Error [OF u(1)] assms(2) by simp
  from readPositiveFloat32_consumes [OF consumes_wf [OF u(1)] e assms(4) u(2) assms(6,7)] obtain x it' where
    2: "readPositiveFloat32 (unreadByte it1) = (x, it')" "consumes (unreadByte it1) (num_text ip fp) it'"
      "pending it' = t # rest" by blast
  with consumes_trans [OF u(1) 2(2)] 1(1) cm(1) show ?thesis by (simp add: ReadFloat32_def)
qed

section \<open>Properties of the float readers\<close>

text \<open>C9: on a decimal literal (white space, sign, integer part without superfluous zeros, digits
  after the dot) followed by a byte that is none of a number's, \<open>ReadFloat64\<close> returns the correctly rounded float that
  \<open>strconv.ParseFloat\<close> gives for that text and consumes exactly the literal, whichever of the
  fast and the slow path is taken and wherever the buffer ends.\<close>

theorem ReadFloat64_correct:
  assumes "wf_iter it" "Error it = None" "list_all is_space ws" "num_ok ip fp"
    "pending it = ws @ (if neg then [ch_minus] else []) @ num_text ip fp @ t # rest"
    "\<not> number_char t"
    "ParseFloat ((if neg then [ch_minus] else []) @ num_text ip fp) 64 = Some x"
  shows "\<exists>it'. ReadFloat64 it = (x, it') \<and> Error it' = None \<and> pending it' = t # rest
    \<and> consumes it (ws @ (if neg then [ch_minus] else []) @ num_text ip fp) it'"
  by (rule ReadFloat64_literal [OF assms])

text \<open>The fast path of \<open>ReadFloat32\<close> rounds three times (the digits, the quotient, the
  conversion) and so can miss the nearest \<open>float32\<close>: \<open>17179870208.000001\<close> reads as 17179869184,
  where the slow path and \<open>strconv.ParseFloat\<close> give 17179871232.\<close>

lemma ReadFloat32_rounds_twice:
  "fst (ReadFloat32 (ParseBytes ConfigDefault (map of_char ''17179870208.000001 ''))) = Float False 17179869184
   \<and> ParseFloat (map of_char ''17179870208.000001'') 32 = Some (Float False 17179871232)"
proof
  show "fst (ReadFloat32 (ParseBytes ConfigDefault (map of_char ''17179870208.000001 ''))) = Float False 17179869184"
    by code_simp
  have p: "parse_decimal (map of_char ''17179870208.000001'')
      = Some (False, map of_char ''17179870208000001'', 6, 0)" by code_simp
  have d: "dec_ratio (dec_val (map of_char ''17179870208000001'')) (0 - int 6) = (17179870208000001, 1000000)"
    by (simp add: dec_val_def digit_val_def dec_ratio_def)
  have n: "nearest32 17179870208000001 1000000 = 17179871232" by code_simp
  show "ParseFloat (map of_char ''17179870208.000001'') 32 = Some (Float False 17179871232)"
    unfolding ParseFloat_def p option.case prod.case d by (simp add: n range_exp_def)
qed

text \<open>\<open>ReadFloat64\<close> accepts number texts that are not JSON: a plus sign, and a leading
  zero when the buffer ends after it; \<open>ReadNumber\<close> accepts any run of number bytes.\<close>

lemma lax_numbers_accepted:
  "(case ReadFloat64 (ParseBytes ConfigDefault (map of_char ''+5 '')) of (x, it) \<Rightarrow> Error it = None)
   \<and> (case ReadFloat64 (Parse ConfigDefault [(map of_char ''0'', None), (map of_char ''5 '', None)] 8) of (x, it) \<Rightarrow> Error it = None)
   \<and> failed (snd (ReadFloat64 (ParseBytes ConfigDefault (map of_char ''05 ''))))
   \<and> (case ReadNumber (ParseBytes ConfigDefault (map of_char ''1-2e+ '')) of (s, it) \<Rightarrow>
        s = map of_char ''1-2e+'' \<and> Error it = None)"
  by code_simp

section \<open>Witnesses\<close>

theorem ReadFloat64_correct_witness:
  "\<exists>it'. ReadFloat64 (ParseBytes ConfigDefault [0x20, 0x2D, 0x31, 0x2E, 0x35, 0x2C]) = (Float True (3 / 2), it')
    \<and> Error it' = None \<and> pending it' = [0x2C]
    \<and> consumes (ParseBytes ConfigDefault [0x20, 0x2D, 0x31, 0x2E, 0x35, 0x2C])
        ([0x20] @ (if True then [ch_minus] else []) @ num_text [0x31] [0x35]) it'"
  by (rule ReadFloat64_correct) (code_simp, code_simp, code_simp, code_simp, code_simp, code_simp, code_simp)

end
