(* ===== verification/IterObject.thy ===== *)
theory IterObject
  imports IterFloat
begin

text \<open>
  \<open>iter_array.go\<close> and \<open>iter_object.go\<close>: reading arrays and objects, either one element per
  call (\<open>ReadArray\<close>, \<open>ReadObject\<close>) or with a callback, and the hash of a field name.

  A callback is a function from the iterator (and the field's name) and the values of the variables the
  Go closure captures to its verdict, their new values and the
  iterator it leaves, \<open>None\<close> when it does not return. The \<open>for c == ','\<close> loops run as long as
  the callback leaves the iterator at a comma, so they take fuel: \<open>None\<close> when it runs out.
\<close>

section \<open>Arrays\<close>

definition ReadArray :: "iterator \<Rightarrow> bool \<times> iterator" where
  "ReadArray it =
     (case nextToken it of (c, it1) \<Rightarrow>
      if c = ch_n then (False, skipThreeBytes ch_u ch_l ch_l it1)
      else if c = ch_lbrack then
        (case nextToken it1 of (c, it2) \<Rightarrow>
         if c \<noteq> ch_rbrack then (True, unreadByte it2) else (False, it2))
      else if c = ch_rbrack then (False, it1)
      else if c = ch_comma then (True, it1)
      else (False, ReportError ''ReadArray'' (''expect [ or , or ] or n, but found '' @ byte_str c)
              (unreadByte it1)))"

type_synonym 's array_cb = "iterator \<Rightarrow> 's \<Rightarrow> (bool \<times> 's \<times> iterator) option"

text \<open>From the token \<open>c\<close> that follows an element.\<close>

fun ReadArrayCB_loop :: "nat \<Rightarrow> 's array_cb \<Rightarrow> byte \<Rightarrow> iterator \<Rightarrow> 's \<Rightarrow> (bool \<times> 's \<times> iterator) option" where
  "ReadArrayCB_loop 0 cb c it s = None"
| "ReadArrayCB_loop (Suc n) cb c it s =
     (if c = ch_comma then
        (case cb it s of
           None \<Rightarrow> None
         | Some (ok, s1, it1) \<Rightarrow>
             if \<not> ok then Some (False, s1, snd (decrementDepth it1))
             else (case nextToken it1 of (c', it2) \<Rightarrow> ReadArrayCB_loop n cb c' it2 s1))
      else if c \<noteq> ch_rbrack then
        Some (False, s, snd (decrementDepth (ReportError ''ReadArrayCB''
          (''expect ] in the end, but found '' @ byte_str c) (unreadByte it))))
      else (case decrementDepth it of (ok, it1) \<Rightarrow> Some (ok, s, it1)))"

definition ReadArrayCB :: "nat \<Rightarrow> 's array_cb \<Rightarrow> iterator \<Rightarrow> 's \<Rightarrow> (bool \<times> 's \<times> iterator) option" where
  "ReadArrayCB fuel cb it s =
     (case nextToken it of (c, it1) \<Rightarrow>
      if c = ch_lbrack then
        (case incrementDepth it1 of (ok, it2) \<Rightarrow>
         if \<not> ok then Some (False, s, it2)
         else
           (case nextToken it2 of (c, it3) \<Rightarrow>
            if c \<noteq> ch_rbrack then
              (case cb (unreadByte it3) s of
                 None \<Rightarrow> None
               | Some (ok, s1, it4) \<Rightarrow>
                   if \<not> ok then Some (False, s1, snd (decrementDepth it4))
                   else (case nextToken it4 of (c, it5) \<Rightarrow> ReadArrayCB_loop fuel cb c it5 s1))
            else (case decrementDepth it3 of (ok, it4) \<Rightarrow> Some (ok, s, it4))))
      else if c = ch_n then Some (True, s, skipThreeBytes ch_u ch_l ch_l it1)
      else Some (False, s, ReportError ''ReadArrayCB'' (''expect [ or n, but found '' @ byte_str c)
                   (unreadByte it1)))"

section \<open>Objects\<close>

text \<open>\<open>if !iter.isNextTokenBuffered() { rs.Realize() }\<close>: a view of the buffer is copied when
  reading the next token may refill the buffer.\<close>

definition realize_unless_buffered :: "RawString \<times> iterator \<Rightarrow> RawString \<times> iterator" where
  "realize_unless_buffered = (\<lambda>(rs, it).
     case isNextTokenBuffered it of (b, it1) \<Rightarrow>
       (if b then rs else Realize (buf it1) rs, it1))"

definition expect_colon_msg :: "byte \<Rightarrow> string" where
  "expect_colon_msg c = ''expect : after object field, but found '' @ byte_str c"

text \<open>The colon after a field's name, in \<open>ReadObjectRaw\<close>: the name is returned even after an
  error.\<close>

definition read_colon :: "RawString \<times> iterator \<Rightarrow> RawString \<times> iterator" where
  "read_colon = (\<lambda>(rs, it).
     case nextToken it of (c, it1) \<Rightarrow>
       (rs, if c \<noteq> ch_colon then ReportError ''ReadObject'' (expect_colon_msg c) (unreadByte it1) else it1))"

definition ReadObjectRaw :: "iterator \<Rightarrow> RawString \<times> iterator" where
  "ReadObjectRaw it =
     (case nextToken it of (c, it1) \<Rightarrow>
      if c = ch_n then (nil_RawString, skipThreeBytes ch_u ch_l ch_l it1)
      else if c = ch_lbrace then
        (case nextToken it1 of (c, it2) \<Rightarrow>
         if c = ch_quote then read_colon (realize_unless_buffered (readRawStringInner it2))
         else if c = ch_rbrace then (nil_RawString, it2)
         else (nil_RawString, ReportError ''ReadObject''
                (''expect '' @ [CHR 0x22] @ '' after {, but found '' @ byte_str c) it2))
      else if c = ch_comma then read_colon (realize_unless_buffered (ReadRawString it1))
      else if c = ch_rbrace then (nil_RawString, it1)
      else (nil_RawString, ReportError ''ReadObject''
              (''expect { or , or } or n, but found '' @ byte_str c) (unreadByte it1)))"

text \<open>\<open>None\<close> is the panic of \<open>String()\<close>.\<close>

definition ReadObject :: "iterator \<Rightarrow> ((bytes \<times> bool) \<times> iterator) option" where
  "ReadObject it =
     (case ReadObjectRaw it of (rs, it1) \<Rightarrow>
      if IsNil rs then Some (([], False), it1)
      else map_option (\<lambda>s. ((s, True), it1)) (RawString_String (buf it1) rs))"

type_synonym 's object_cb = "iterator \<Rightarrow> RawString \<Rightarrow> 's \<Rightarrow> (bool \<times> 's \<times> iterator) option"

fun ReadObjectRawCB_loop :: "nat \<Rightarrow> 's object_cb \<Rightarrow> byte \<Rightarrow> iterator \<Rightarrow> 's \<Rightarrow> (bool \<times> 's \<times> iterator) option" where
  "ReadObjectRawCB_loop 0 cb c it s = None"
| "ReadObjectRawCB_loop (Suc n) cb c it s =
     (if c = ch_comma then
        (case realize_unless_buffered (ReadRawString it) of (rs, it1) \<Rightarrow>
         case nextToken it1 of (c, it2) \<Rightarrow>
         if c \<noteq> ch_colon then
           Some (False, s, ReportError ''ReadObject'' (expect_colon_msg c) (unreadByte it2))
         else
           (case cb it2 rs s of
              None \<Rightarrow> None
            | Some (ok, s1, it3) \<Rightarrow>
                if \<not> ok then Some (False, s1, snd (decrementDepth it3))
                else (case nextToken it3 of (c', it4) \<Rightarrow> ReadObjectRawCB_loop n cb c' it4 s1)))
      else if c \<noteq> ch_rbrace then
        Some (False, s, ReportError ''ReadObjectCB'' ''object not ended with }'' (unreadByte it))
      else (case decrementDepth it of (ok, it1) \<Rightarrow> Some (ok, s, it1)))"

definition ReadObjectRawCB :: "nat \<Rightarrow> 's object_cb \<Rightarrow> iterator \<Rightarrow> 's \<Rightarrow> (bool \<times> 's \<times> iterator) option" where
  "ReadObjectRawCB fuel cb it s =
     (case nextToken it of (c, it1) \<Rightarrow>
      if c = ch_lbrace then
        (case incrementDepth it1 of (ok, it2) \<Rightarrow>
         if \<not> ok then Some (False, s, it2)
         else
           (case nextToken it2 of (c, it3) \<Rightarrow>
            if c = ch_quote then
              (case realize_unless_buffered (readRawStringInner it3) of (rs, it4) \<Rightarrow>
               case nextToken it4 of (c, it5) \<Rightarrow>
               if c \<noteq> ch_colon then
                 Some (False, s, ReportError ''ReadObject'' (expect_colon_msg c) (unreadByte it5))
               else
                 (case cb it5 rs s of
                    None \<Rightarrow> None
                  | Some (ok, s1, it6) \<Rightarrow>
                      if \<not> ok then Some (False, s1, snd (decrementDepth it6))
                      else (case nextToken it6 of (c', it7) \<Rightarrow> ReadObjectRawCB_loop fuel cb c' it7 s1)))
            else if c = ch_rbrace then (case decrementDepth it3 of (ok, it4) \<Rightarrow> Some (ok, s, it4))
            else Some (False, s, snd (decrementDepth (ReportError ''ReadObjectCB''
                   (''expect '' @ [CHR 0x22] @ '' after {, but found '' @ byte_str c) (unreadByte it3))))))
      else if c = ch_n then Some (True, s, skipThreeBytes ch_u ch_l ch_l it1)
      else Some (False, s, ReportError ''ReadObjectCB'' (''expect { or n, but found '' @ byte_str c)
                   (unreadByte it1)))"

type_synonym 's name_cb = "iterator \<Rightarrow> bytes \<Rightarrow> 's \<Rightarrow> (bool \<times> 's \<times> iterator) option"

definition ReadObjectCB :: "nat \<Rightarrow> 's name_cb \<Rightarrow> iterator \<Rightarrow> 's \<Rightarrow> (bool \<times> 's \<times> iterator) option" where
  "ReadObjectCB fuel cb it s =
     ReadObjectRawCB fuel
       (\<lambda>i rs s. case RawString_String (buf i) rs of None \<Rightarrow> None | Some name \<Rightarrow> cb i name s) it s"

definition ReadMapCB :: "nat \<Rightarrow> 's name_cb \<Rightarrow> iterator \<Rightarrow> 's \<Rightarrow> (bool \<times> 's \<times> iterator) option" where
  "ReadMapCB fuel cb it s = ReadObjectCB fuel cb it s"

definition readObjectStart :: "iterator \<Rightarrow> bool \<times> iterator" where
  "readObjectStart it =
     (case nextToken it of (c, it1) \<Rightarrow>
      if c = ch_lbrace then
        (case nextToken it1 of (c, it2) \<Rightarrow>
         if c = ch_rbrace then (False, it2) else (True, unreadByte it2))
      else if c = ch_n then (False, skipThreeBytes ch_u ch_l ch_l it1)
      else (False, ReportError ''readObjectStart'' (''expect { or n, but found '' @ byte_str c) it1))"

definition isObjectEnd :: "iterator \<Rightarrow> bool \<times> iterator" where
  "isObjectEnd it =
     (case nextToken it of (c, it1) \<Rightarrow>
      if c = ch_comma then (False, it1)
      else if c = ch_rbrace then (True, it1)
      else (True, ReportError ''isObjectEnd''
              (''object ended prematurely, unexpected char '' @ byte_str c) (unreadByte it1)))"

section \<open>Field hashes\<close>

definition hash_init :: u64 where "hash_init = 0x811c9dc5"

definition hash_step :: "u64 \<Rightarrow> u64 \<Rightarrow> u64" where
  "hash_step h b = (h XOR b) * 0x1000193"

text \<open>Lower-casing of one value between \<open>'A'\<close> and \<open>'Z'\<close>.\<close>

definition lower_ascii :: "int \<Rightarrow> int" where
  "lower_ascii b = (if 0x41 \<le> b \<and> b \<le> 0x5A then b + 0x20 else b)"

definition hash_values :: "bool \<Rightarrow> int list \<Rightarrow> u64 \<Rightarrow> u64" where
  "hash_values caseSens vs h =
     foldl (\<lambda>h b. hash_step h (word_of_int (if caseSens then b else lower_ascii b))) h vs"

text \<open>\<open>for _, b := range s\<close> over a string: its runes, U+FFFD for a byte that starts none.\<close>

definition is_cont :: "byte \<Rightarrow> bool" where
  "is_cont c \<longleftrightarrow> 0x80 \<le> c \<and> c \<le> 0xBF"

fun utf8_next :: "bytes \<Rightarrow> int \<times> nat" where
  "utf8_next [] = (RuneError, 0)"
| "utf8_next (a # cs) =
     (if a < 0x80 then (uint a, 1)
      else if 0xC2 \<le> a \<and> a \<le> 0xDF then
        (case cs of b # _ \<Rightarrow> if is_cont b then ((uint a - 0xC0) * 64 + (uint b - 0x80), 2) else (RuneError, 1)
         | _ \<Rightarrow> (RuneError, 1))
      else if 0xE0 \<le> a \<and> a \<le> 0xEF then
        (case cs of b # c # _ \<Rightarrow>
            if is_cont b \<and> is_cont c \<and> (a = 0xE0 \<longrightarrow> 0xA0 \<le> b) \<and> (a = 0xED \<longrightarrow> b \<le> 0x9F)
            then ((uint a - 0xE0) * 4096 + (uint b - 0x80) * 64 + (uint c - 0x80), 3) else (RuneError, 1)
         | _ \<Rightarrow> (RuneError, 1))
      else if 0xF0 \<le> a \<and> a \<le> 0xF4 then
        (case cs of b # c # d # _ \<Rightarrow>
            if is_cont b \<and> is_cont c \<and> is_cont d \<and> (a = 0xF0 \<longrightarrow> 0x90 \<le> b) \<and> (a = 0xF4 \<longrightarrow> b \<le> 0x8F)
            then ((uint a - 0xF0) * 262144 + (uint b - 0x80) * 4096 + (uint c - 0x80) * 64 + (uint d - 0x80), 4)
            else (RuneError, 1)
         | _ \<Rightarrow> (RuneError, 1))
      else (RuneError, 1))"

lemma utf8_next_pos: "1 \<le> snd (utf8_next (a # cs))"
  by (auto split: list.splits)

declare utf8_next.simps [simp del]

function runes :: "bytes \<Rightarrow> int list" where
  "runes [] = []"
| "runes (a # cs) = (case utf8_next (a # cs) of (r, n) \<Rightarrow> r # runes (drop (n - 1) cs))"
  by pat_completeness auto
termination by (relation "measure length") auto

text \<open>The end of \<open>readFieldHash\<close>: the colon.\<close>

definition hash_colon :: "u64 \<Rightarrow> iterator \<Rightarrow> u64 \<times> iterator" where
  "hash_colon h it =
     (case nextToken it of (c, it1) \<Rightarrow>
      if c \<noteq> ch_colon then
        (0, ReportError ''readFieldHash'' (''expect :, but found '' @ byte_str c) (unreadByte it1))
      else (h, it1))"

function readFieldHash_loop :: "u64 \<Rightarrow> iterator \<Rightarrow> u64 \<times> iterator" where
  "readFieldHash_loop h it =
     (let cs = caseSensitive (cfg it) in
      case find_from (\<lambda>b. b = ch_bslash \<or> b = ch_quote) (buf it) (head it) (tail it) of
        Some i \<Rightarrow>
          let h1 = hash_values cs (map uint (gslice (buf it) (head it) i)) h in
          if byte_at (buf it) i = ch_bslash then
            (case readStringInner (it\<lparr>head := i\<rparr>) of (s, it1) \<Rightarrow>
             hash_colon (hash_values cs (runes s) h1) it1)
          else hash_colon h1 (it\<lparr>head := i + 1\<rparr>)
      | None \<Rightarrow>
          let h1 = hash_values cs (map uint (gslice (buf it) (head it) (tail it))) h in
          (case loadMore it of (ok, it1) \<Rightarrow>
           if ok then readFieldHash_loop h1 it1
           else (0, ReportError ''readFieldHash'' ''incomplete field name'' it1)))"
  by pat_completeness auto
termination
  by (relation "measure (\<lambda>(h, it). reads_left it)") (auto dest: loadMore_decreases [OF sym])

declare readFieldHash_loop.simps [simp del]

definition readFieldHash :: "iterator \<Rightarrow> u64 \<times> iterator" where
  "readFieldHash it =
     (case nextToken it of (c, it1) \<Rightarrow>
      if c \<noteq> ch_quote then
        (0, ReportError ''readFieldHash'' (''expect '' @ [CHR 0x22] @ '', but found '' @ byte_str c)
              (unreadByte it1))
      else readFieldHash_loop hash_init it1)"

text \<open>\<open>toLower\<close> is \<open>strings.ToLower\<close>, whose Unicode tables are not modelled.\<close>

definition calcHash :: "(bytes \<Rightarrow> bytes) \<Rightarrow> bytes \<Rightarrow> bool \<Rightarrow> u64" where
  "calcHash toLower str caseSens =
     (let str = (if \<not> caseSens then toLower str else str)
      in foldl (\<lambda>h b. hash_step h (ucast b)) hash_init str)"

section \<open>The token after white space\<close>

lemma token:
  assumes "wf_iter it" "list_all is_space ws" "pending it = ws @ c # rest" "\<not> is_space c"
  obtains it1 where "nextToken it = (c, it1)" "consumes it (ws @ [c]) it1" "can_unread c it1" "pending it1 = rest"
  using nextToken_at [OF assms] by blast

lemma token_unread:
  assumes "wf_iter it" "Error it = None" "list_all is_space ws" "pending it = ws @ c # rest" "\<not> is_space c"
  obtains it1 where "nextToken it = (c, it1)" "consumes it ws (unreadByte it1)" "pending (unreadByte it1) = c # rest"
proof -
  from token [OF assms(1,3-5)] obtain it1 where
    t: "nextToken it = (c, it1)" "consumes it (ws @ [c]) it1" "can_unread c it1" "pending it1 = rest" .
  have "Error it1 = None" using consumes_Error [OF t(2)] assms(2) by simp
  from unreadByte_spec [OF t(2,3) this] t(1,4) that show ?thesis by simp
qed

text \<open>A loop body that has consumed \<open>xs\<close> leaves an iterator with the same error, depth and
  well-formedness.\<close>

lemma consumes_same: "consumes it xs it' \<Longrightarrow> wf_iter it' \<and> Error it' = Error it \<and> depth it' = depth it
    \<and> cfg it' = cfg it \<and> (captured it' = None \<longleftrightarrow> captured it = None)"
  by (simp add: consumes_def same_frame_def)

section \<open>Reading elements with a callback\<close>

text \<open>What a callback must do for the elements it is given: on the text \<open>e\<close> of an element, preceded by
  white space and followed by a byte that cannot continue a number, it returns true, changes the
  variables it captures by \<open>step e\<close> and leaves the iterator behind the element. \<open>room\<close> is the number of
  nesting levels it needs, \<open>ready\<close> what else it wants of the iterator; that it stays so is the second
  locale.\<close>

locale value_reader =
  fixes cb :: "'s array_cb" and ready :: "iterator \<Rightarrow> bool" and elem :: "bytes \<Rightarrow> bool"
    and step :: "bytes \<Rightarrow> 's \<Rightarrow> 's" and room :: int
  assumes reads: "\<lbrakk>ready it; wf_iter it; Error it = None; 0 \<le> depth it; depth it + room \<le> maxDepth;
      list_all is_space ws; elem e; pending it = ws @ e @ t # rest; \<not> number_char t\<rbrakk>
    \<Longrightarrow> \<exists>it'. cb it s = Some (True, step e s, it') \<and> consumes it (ws @ e) it' \<and> pending it' = t # rest"
    and elem_head: "elem e \<Longrightarrow> e \<noteq> [] \<and> hd e \<noteq> ch_rbrack \<and> \<not> is_space (hd e)"

locale element_reader = value_reader +
  assumes ready_depth: "ready (it\<lparr>depth := d\<rparr>) = ready it"
    and stays_ready: "ready it \<Longrightarrow> consumes it xs it' \<Longrightarrow> ready it'"

text \<open>The elements of an array with the white space around them, separated by commas.\<close>

fun elems_text :: "(bytes \<times> bytes \<times> bytes) list \<Rightarrow> bytes" where
  "elems_text [] = []"
| "elems_text [(w, e, w')] = w @ e @ w'"
| "elems_text ((w, e, w') # x # xs) = w @ e @ w' @ ch_comma # elems_text (x # xs)"

definition elem_ok :: "(bytes \<Rightarrow> bool) \<Rightarrow> bytes \<times> bytes \<times> bytes \<Rightarrow> bool" where
  "elem_ok elem = (\<lambda>(w, e, w'). list_all is_space w \<and> elem e \<and> list_all is_space w')"

text \<open>What follows an element: white space, then a comma and the other elements, or the end.\<close>

definition after_elem :: "(bytes \<times> bytes \<times> bytes) list \<Rightarrow> bytes \<Rightarrow> byte \<times> bytes" where
  "after_elem es rest = (if es = [] then (ch_rbrack, rest) else (ch_comma, elems_text es @ ch_rbrack # rest))"

lemma elems_text_Cons:
  "elems_text ((w, e, w') # es) @ ch_rbrack # rest
    = w @ e @ w' @ fst (after_elem es rest) # snd (after_elem es rest)"
  by (cases es) (auto simp: after_elem_def)

lemma after_elem_token:
  "\<not> is_space (fst (after_elem es rest)) \<and> \<not> number_char (fst (after_elem es rest))"
  by (simp add: after_elem_def is_space_def number_char_def is_digit_def)

lemma space_not_number: "is_space c \<Longrightarrow> \<not> number_char c"
  by (auto simp: is_space_def number_char_def is_digit_def)

lemma split_after:
  assumes "list_all is_space w'" "\<not> number_char c"
  shows "\<exists>t ts. w' @ c # rest = t # ts \<and> \<not> number_char t"
  using assms space_not_number by (cases w') auto

context value_reader
begin

text \<open>One element and the token behind it.\<close>

lemma one_element:
  assumes "ready it" "wf_iter it" "Error it = None" "0 \<le> depth it" "depth it + room \<le> maxDepth"
    "elem_ok elem (w, e, w')" "pending it = w @ e @ w' @ c # rest" "\<not> is_space c" "\<not> number_char c"
  shows "\<exists>it1 it2. cb it s = Some (True, step e s, it1) \<and> nextToken it1 = (c, it2) \<and> consumes it (w @ e @ w' @ [c]) it2
    \<and> pending it2 = rest"
proof -
  from assms(6) have ok: "list_all is_space w" "elem e" "list_all is_space w'" by (auto simp: elem_ok_def)
  from split_after [OF ok(3) assms(9)] obtain t ts where t: "w' @ c # rest = t # ts" "\<not> number_char t" by blast
  with reads [OF assms(1-5) ok(1,2), of t ts s] assms(7) obtain it1 where
    1: "cb it s = Some (True, step e s, it1)" "consumes it (w @ e) it1" "pending it1 = w' @ c # rest" by auto
  from token [OF consumes_wf [OF 1(2)] ok(3) 1(3) assms(8)] obtain it2 where
    2: "nextToken it1 = (c, it2)" "consumes it1 (w' @ [c]) it2" "pending it2 = rest" .
  from consumes_trans [OF 1(2) 2(2)] 1(1) 2 show ?thesis by auto
qed

end

text \<open>The captured variables after all elements, or all fields.\<close>

abbreviation steps :: "(bytes \<Rightarrow> 's \<Rightarrow> 's) \<Rightarrow> (bytes \<times> bytes \<times> bytes) list \<Rightarrow> 's \<Rightarrow> 's" where
  "steps step es s \<equiv> fold (\<lambda>(w, e, w'). step e) es s"

context element_reader
begin

lemma loop_consumes:
  assumes "ready it" "wf_iter it" "Error it = None" "1 \<le> depth it" "depth it + room \<le> maxDepth"
    "list_all (elem_ok elem) es" "pending it = snd (after_elem es rest)" "length es < n"
  shows "\<exists>it'. ReadArrayCB_loop n cb (fst (after_elem es rest)) it s = Some (True, steps step es s, it'\<lparr>depth := depth it - 1\<rparr>)
    \<and> consumes it (if es = [] then [] else elems_text es @ [ch_rbrack]) it' \<and> pending it' = rest"
  using assms
proof (induction es arbitrary: it s n)
  case Nil
  then obtain m where "n = Suc m" by (cases n) auto
  with Nil consumes_refl [OF Nil(2)] show ?case
    by (auto simp: after_elem_def decrementDepth_ok)
next
  case (Cons x xs)
  then obtain m where n: "n = Suc m" "length xs < m" by (cases n) auto
  obtain w e w' where x: "x = (w, e, w')" by (cases x) auto
  let ?c = "fst (after_elem xs rest)" and ?r = "snd (after_elem xs rest)"
  have p: "pending it = w @ e @ w' @ ?c # ?r"
    using Cons.prems(7) elems_text_Cons [of w e w' xs rest] by (simp add: x after_elem_def)
  have "elem_ok elem (w, e, w')" using Cons.prems(6) x by simp
  from one_element [OF Cons.prems(1-3) _ Cons.prems(5) this p, of s] after_elem_token [of xs rest] Cons.prems(4) obtain it1 it2 where
    1: "cb it s = Some (True, step e s, it1)" "nextToken it1 = (?c, it2)" "consumes it (w @ e @ w' @ [?c]) it2" "pending it2 = ?r" by auto
  note s = consumes_same [OF 1(3)] stays_ready [OF Cons.prems(1) 1(3)]
  from Cons.IH [of it2 m "step e s"] s Cons.prems(3-6) n(2) 1(4) obtain it' where
    2: "ReadArrayCB_loop m cb ?c it2 (step e s) = Some (True, steps step xs (step e s), it'\<lparr>depth := depth it2 - 1\<rparr>)"
      "consumes it2 (if xs = [] then [] else elems_text xs @ [ch_rbrack]) it'" "pending it' = rest" by auto
  have "(w @ e @ w' @ [?c]) @ (if xs = [] then [] else elems_text xs @ [ch_rbrack]) = elems_text (x # xs) @ [ch_rbrack]"
    by (cases xs) (auto simp: x after_elem_def)
  then have "consumes it (elems_text (x # xs) @ [ch_rbrack]) it'" using consumes_trans [OF 1(3) 2(2)] by simp
  with 1 2 n s show ?case by (auto simp: after_elem_def x)
qed

text \<open>The whole array: everything up to and including its closing bracket is consumed, the depth is
  what it was.\<close>

lemma array_consumed:
  assumes "ready it" "wf_iter it" "Error it = None" "0 \<le> depth it" "depth it + 1 + room \<le> maxDepth" "0 \<le> room"
    "list_all is_space ws" "list_all (elem_ok elem) es" "es \<noteq> []"
    "pending it = ws @ ch_lbrack # elems_text es @ ch_rbrack # rest" "length es \<le> fuel"
  shows "\<exists>it'. ReadArrayCB fuel cb it s = Some (True, steps step es s, it')
    \<and> consumes it (ws @ ch_lbrack # elems_text es @ [ch_rbrack]) it' \<and> pending it' = rest"
proof -
  from token [OF assms(2,7,10)] obtain it1 where
    1: "nextToken it = (ch_lbrack, it1)" "consumes it (ws @ [ch_lbrack]) it1"
      "pending it1 = elems_text es @ ch_rbrack # rest" by (auto simp: is_space_def)
  note s1 = consumes_same [OF 1(2)] stays_ready [OF assms(1) 1(2)]
  obtain w e w' xs where es: "es = (w, e, w') # xs" using assms(9) by (cases es) auto
  have ok: "list_all is_space w" "elem e" "list_all is_space w'" and oks: "list_all (elem_ok elem) xs"
    using assms(8) es by (auto simp: elem_ok_def)
  obtain h e' where h: "e = h # e'" "h \<noteq> ch_rbrack" "\<not> is_space h"
    using elem_head [OF ok(2)] by (cases e) auto
  let ?c = "fst (after_elem xs rest)" and ?r = "snd (after_elem xs rest)"
  have inc: "incrementDepth it1 = (True, it1\<lparr>depth := depth it1 + 1\<rparr>)"
    using incrementDepth_ok s1 assms(5,6) by simp
  let ?it2 = "it1\<lparr>depth := depth it1 + 1\<rparr>"
  have s2: "wf_iter ?it2" "ready ?it2" "Error ?it2 = None" "pending ?it2 = w @ h # e' @ w' @ ?c # ?r"
    using s1 ready_depth assms(3) 1(3) elems_text_Cons [of w e w' xs rest] es h(1) by auto
  from token_unread [OF s2(1,3) ok(1) s2(4) h(3)] obtain it3 where
    3: "nextToken ?it2 = (h, it3)" "consumes ?it2 w (unreadByte it3)"
      "pending (unreadByte it3) = h # e' @ w' @ ?c # ?r" .
  note s3 = consumes_same [OF 3(2)] stays_ready [OF s2(2) 3(2)]
  have "elem_ok elem ([], e, w')" using ok by (simp add: elem_ok_def)
  from one_element [of "unreadByte it3" "[]" e w' ?c ?r s] this s3 s2 3(3) h(1) after_elem_token [of xs rest] s1 assms(4,5)
  obtain it4 it5 where 4: "cb (unreadByte it3) s = Some (True, step e s, it4)" "nextToken it4 = (?c, it5)"
    "consumes (unreadByte it3) (e @ w' @ [?c]) it5" "pending it5 = ?r" by auto
  note s5 = consumes_same [OF 4(3)] stays_ready [OF _ 4(3)]
  have "length xs < fuel" using assms(11) es by simp
  from loop_consumes [OF _ _ _ _ _ oks 4(4) this, of "step e s"] s5 s3 s1 assms(3-5) obtain it' where
    5: "ReadArrayCB_loop fuel cb ?c it5 (step e s) = Some (True, steps step xs (step e s), it'\<lparr>depth := depth it5 - 1\<rparr>)"
      "consumes it5 (if xs = [] then [] else elems_text xs @ [ch_rbrack]) it'" "pending it' = rest" by auto
  have tx: "(w @ (e @ w' @ [?c])) @ (if xs = [] then [] else elems_text xs @ [ch_rbrack]) = elems_text es @ [ch_rbrack]"
    unfolding es by (cases xs) (auto simp: after_elem_def)
  have "consumes ?it2 (elems_text es @ [ch_rbrack]) it'"
    using consumes_trans [OF consumes_trans [OF 3(2) 4(3)] 5(2)] tx by simp
  from consumes_depth_update [OF this, of "depth it"] have
    "consumes (it1\<lparr>depth := depth it\<rparr>) (elems_text es @ [ch_rbrack]) (it'\<lparr>depth := depth it\<rparr>)" by simp
  moreover have "it1\<lparr>depth := depth it\<rparr> = it1" using s1 by simp
  ultimately have con: "consumes it (ws @ ch_lbrack # elems_text es @ [ch_rbrack]) (it'\<lparr>depth := depth it\<rparr>)"
    using consumes_trans [OF 1(2)] by fastforce
  have "depth it5 - 1 = depth it" using s5 s3 s1 by simp
  with 1 inc 3 4 5 h(2) have "ReadArrayCB fuel cb it s = Some (True, steps step es s, it'\<lparr>depth := depth it\<rparr>)"
    by (simp add: ReadArrayCB_def es)
  with con 5(3) show ?thesis by auto
qed

end

section \<open>Field names\<close>

lemma Realize_String:
  assumes "isRaw r \<longleftrightarrow> (\<exists>lo hi. rs_buf r = Some (View lo hi))"
  shows "RawString_String arr' (Realize arr r) = RawString_String arr r"
proof (cases "isRaw r")
  case True
  with assms show ?thesis by (auto simp: Realize_def RawString_String_def raw_bytes_def)
next
  case False
  with assms have "rs_buf r = None \<or> (\<exists>bs. rs_buf r = Some (Owned bs))" by (metis option.exhaust raw_buf.exhaust)
  with False show ?thesis by (auto simp: Realize_def RawString_String_def raw_bytes_def)
qed

text \<open>A name, from behind its opening quote to behind the colon: \<open>k\<close> is the rest of the literal.
  The name handed on is still readable there, because the view was copied unless the colon was
  buffered.\<close>

definition name_read :: "iterator \<Rightarrow> bytes \<Rightarrow> bytes \<Rightarrow> bytes \<Rightarrow> RawString \<times> iterator \<Rightarrow> bool" where
  "name_read it used d rest r \<longleftrightarrow>
     (\<exists>it2. nextToken (snd r) = (ch_colon, it2) \<and> consumes it (used @ [ch_colon]) it2 \<and> pending it2 = rest
        \<and> \<not> IsNil (fst r) \<and> RawString_String (buf it2) (fst r) = Some d)"

lemma name_colon:
  assumes "wf_iter it" "Error it = None" "decode_str k = Some (d, [])" "list_all is_space w"
    "pending it = k @ w @ ch_colon # rest"
  shows "name_read it (k @ w) d rest (realize_unless_buffered (readRawStringInner it))"
proof -
  obtain r it0 where r: "readRawStringInner it = (r, it0)" by force
  have dec: "decode_str (k @ w @ ch_colon # rest) = Some (d, w @ ch_colon # rest)"
  proof -
    from decode_str_local [OF assms(3)] obtain p where "k = p" "\<forall>ys. decode_str (p @ ys) = Some (d, ys)" by auto
    then show ?thesis by simp
  qed
  have rr: "raw_reads it [] (raw_str False False (pending it)) r it0"
    using readRawStringInner_loop_reads [OF assms(1,2), of False False "[]"] r by (simp add: readRawStringInner_def)
  from raw_String_decodes [OF dec] rr assms(5) have s: "RawString_String (buf it0) r = Some d"
    "rs_buf r \<noteq> None" "pending it0 = w @ ch_colon # rest" and "\<exists>xs. consumes it xs it0" by auto
  then obtain xs where xs: "consumes it xs it0" by blast
  then have c0: "consumes it k it0" using consumes_pending [OF xs] s(3) assms(5) by simp
  have raw: "isRaw r \<longleftrightarrow> (\<exists>lo hi. rs_buf r = Some (View lo hi))"
    using rr dec decode_str_raw [OF dec, of False] assms(5) by (auto simp: raw_reads_def)
  note s0 = consumes_same [OF c0]
  have col: "\<not> is_space ch_colon" by (simp add: is_space_def)
  obtain b it1 where b: "isNextTokenBuffered it0 = (b, it1)" by force
  show ?thesis
  proof (cases b)
    case True
    have dw: "dropWhile is_space (pending it0) = ch_colon # rest" "takeWhile is_space (pending it0) = w"
      using dropWhile_span [of w ch_colon rest "pending it0" is_space] assms(4) s(3) col by (auto simp: list_all_iff)
    obtain c' rest' kk where n: "dropWhile is_space (pending it0) = c' # rest'" "consumes it0 w it1" "it1 = it0\<lparr>head := kk\<rparr>"
      "nextToken it1 = (c', it0\<lparr>head := kk + 1\<rparr>)" "pending it1 = c' # rest'"
      using isNextTokenBuffered_True [of it0 it1] b True s0 dw(2) by auto
    then have c': "c' = ch_colon" "rest' = rest" using dw(1) by auto
    have "dropWhile is_space (pending it1) = ch_colon # rest" "takeWhile is_space (pending it1) = []"
      using n(5) c' col by auto
    from nextToken_spec [OF consumes_wf [OF n(2)] this(1)] this(2) n(4) c' have
      "consumes it1 [ch_colon] (it0\<lparr>head := kk + 1\<rparr>)" "pending (it0\<lparr>head := kk + 1\<rparr>) = rest" by auto
    then show ?thesis using r b True n c' s consumes_trans [OF c0 consumes_trans [OF n(2)]]
      by (auto simp: name_read_def realize_unless_buffered_def IsNil_def)
  next
    case False
    then have "it1 = it0" using isNextTokenBuffered_False [of it0 it1] b by simp
    from token [OF _ assms(4) s(3) col] s0 obtain it2 where
      n: "nextToken it0 = (ch_colon, it2)" "consumes it0 (w @ [ch_colon]) it2" "pending it2 = rest" by auto
    have "RawString_String (buf it2) (Realize (buf it0) r) = Some d"
      using Realize_String [OF raw] s(1) by simp
    moreover have "\<not> IsNil (Realize (buf it0) r)" using s(2) by (auto simp: IsNil_def Realize_def)
    ultimately show ?thesis using r b False \<open>it1 = it0\<close> n consumes_trans [OF c0 n(2)]
      by (auto simp: name_read_def realize_unless_buffered_def)
  qed
qed

text \<open>The same with \<open>ReadRawString\<close>, which also reads the opening quote.\<close>

lemma name_colon_quoted:
  assumes "wf_iter it" "Error it = None" "decode_str k = Some (d, [])" "list_all is_space w1" "list_all is_space w2"
    "pending it = w1 @ ch_quote # k @ w2 @ ch_colon # rest"
  shows "name_read it (w1 @ ch_quote # k @ w2) d rest (realize_unless_buffered (ReadRawString it))"
proof -
  from token [OF assms(1,4,6)] obtain it1 where
    1: "nextToken it = (ch_quote, it1)" "consumes it (w1 @ [ch_quote]) it1" "pending it1 = k @ w2 @ ch_colon # rest"
    by (auto simp: is_space_def)
  note s = consumes_same [OF 1(2)]
  have "name_read it1 (k @ w2) d rest (realize_unless_buffered (readRawStringInner it1))"
    using name_colon [OF _ _ assms(3,5) 1(3)] s assms(2) by simp
  moreover have "ReadRawString it = readRawStringInner it1" using 1(1) by (simp add: ReadRawString_def)
  ultimately show ?thesis using consumes_trans [OF 1(2)] by (auto simp: name_read_def)
qed

section \<open>Reading fields with a callback\<close>

text \<open>A field: white space, name (the literal behind its opening quote), white space, then the
  white space, value and white space behind the colon.\<close>

type_synonym field = "bytes \<times> bytes \<times> bytes \<times> bytes \<times> bytes \<times> bytes"

fun field_text :: "field \<Rightarrow> bytes" where
  "field_text (w1, k, w2, w3, v, w4) = w1 @ ch_quote # k @ w2 @ ch_colon # w3 @ v @ w4"

fun fields_text :: "field list \<Rightarrow> bytes" where
  "fields_text [] = []"
| "fields_text [f] = field_text f"
| "fields_text (f # g # fs) = field_text f @ ch_comma # fields_text (g # fs)"

fun field_ok :: "(bytes \<Rightarrow> bool) \<Rightarrow> field \<Rightarrow> bool" where
  "field_ok elem (w1, k, w2, w3, v, w4) \<longleftrightarrow> list_all is_space w1 \<and> (\<exists>d. decode_str k = Some (d, []))
     \<and> list_all is_space w2 \<and> elem_ok elem (w3, v, w4)"

definition after_field :: "field list \<Rightarrow> bytes \<Rightarrow> byte \<times> bytes" where
  "after_field fs rest = (if fs = [] then (ch_rbrace, rest) else (ch_comma, fields_text fs @ ch_rbrace # rest))"

lemma fields_text_Cons:
  "fields_text ((w1, k, w2, w3, v, w4) # fs) @ ch_rbrace # rest
    = w1 @ ch_quote # k @ w2 @ ch_colon # w3 @ v @ w4 @ fst (after_field fs rest) # snd (after_field fs rest)"
  by (cases fs) (auto simp: after_field_def)

lemma after_field_token:
  "\<not> is_space (fst (after_field fs rest)) \<and> \<not> number_char (fst (after_field fs rest))"
  by (simp add: after_field_def is_space_def number_char_def is_digit_def)

text \<open>The contract of an object callback: for every name it is handed, it reads the value.\<close>

definition name_of :: "bytes \<Rightarrow> bytes" where
  "name_of k = fst (the (decode_str k))"

abbreviation fsteps :: "(bytes \<Rightarrow> bytes \<Rightarrow> 's \<Rightarrow> 's) \<Rightarrow> field list \<Rightarrow> 's \<Rightarrow> 's" where
  "fsteps step fs s \<equiv> fold (\<lambda>(w1, k, w2, w3, v, w4). step (name_of k) v) fs s"

locale field_reader =
  fixes fcb :: "'s object_cb" and ready :: "iterator \<Rightarrow> bool" and elem :: "bytes \<Rightarrow> bool"
    and step :: "bytes \<Rightarrow> bytes \<Rightarrow> 's \<Rightarrow> 's" and room :: int
  assumes member: "value_reader (\<lambda>it. fcb it rs) (\<lambda>it. ready it \<and> RawString_String (buf it) rs = Some d) elem (step d) room"
    and ready_depth: "ready (it\<lparr>depth := i\<rparr>) = ready it"
    and stays_ready: "ready it \<Longrightarrow> consumes it xs it' \<Longrightarrow> ready it'"
begin

text \<open>One field after the token that announces it, and the token behind it.\<close>

lemma one_field:
  assumes nm: "name_read it used d (w3 @ v @ w4 @ c # rest) (rs, it1)"
    and same: "ready it" "Error it = None" "0 \<le> depth it" "depth it + room \<le> maxDepth"
    and ok: "elem_ok elem (w3, v, w4)" "\<not> is_space c" "\<not> number_char c"
  shows "\<exists>it2 it3 it4. nextToken it1 = (ch_colon, it2) \<and> fcb it2 rs s = Some (True, step d v s, it3) \<and> nextToken it3 = (c, it4)
    \<and> consumes it (used @ ch_colon # w3 @ v @ w4 @ [c]) it4 \<and> pending it4 = rest"
proof -
  from nm obtain it2 where 2: "nextToken it1 = (ch_colon, it2)" "consumes it (used @ [ch_colon]) it2"
    "pending it2 = w3 @ v @ w4 @ c # rest" "RawString_String (buf it2) rs = Some d" by (auto simp: name_read_def)
  note s = consumes_same [OF 2(2)] stays_ready [OF same(1) 2(2)]
  from value_reader.one_element [OF member _ _ _ _ _ ok(1) 2(3) ok(2,3), of rs d s] s same 2(4) obtain it3 it4 where
    3: "fcb it2 rs s = Some (True, step d v s, it3)" "nextToken it3 = (c, it4)" "consumes it2 (w3 @ v @ w4 @ [c]) it4"
      "pending it4 = rest" by auto
  from consumes_trans [OF 2(2) 3(3)] 2 3 show ?thesis by auto
qed

lemma loop_consumes:
  assumes "ready it" "wf_iter it" "Error it = None" "1 \<le> depth it" "depth it + room \<le> maxDepth"
    "list_all (field_ok elem) fs" "pending it = snd (after_field fs rest)" "length fs < n"
  shows "\<exists>it'. ReadObjectRawCB_loop n fcb (fst (after_field fs rest)) it s = Some (True, fsteps step fs s, it'\<lparr>depth := depth it - 1\<rparr>)
    \<and> consumes it (if fs = [] then [] else fields_text fs @ [ch_rbrace]) it' \<and> pending it' = rest"
  using assms
proof (induction fs arbitrary: it s n)
  case Nil
  then obtain m where "n = Suc m" by (cases n) auto
  with Nil consumes_refl [OF Nil(2)] show ?case
    by (auto simp: after_field_def decrementDepth_ok)
next
  case (Cons f fs)
  then obtain m where n: "n = Suc m" "length fs < m" by (cases n) auto
  obtain w1 k w2 w3 v w4 where f: "f = (w1, k, w2, w3, v, w4)" by (cases f) auto
  then obtain d where ok: "list_all is_space w1" "decode_str k = Some (d, [])" "list_all is_space w2"
    "elem_ok elem (w3, v, w4)" and oks: "list_all (field_ok elem) fs" using Cons.prems(6) by auto
  have nk: "name_of k = d" using ok(2) by (simp add: name_of_def)
  let ?c = "fst (after_field fs rest)" and ?r = "snd (after_field fs rest)"
  have p: "pending it = w1 @ ch_quote # k @ w2 @ ch_colon # w3 @ v @ w4 @ ?c # ?r"
    using Cons.prems(7) fields_text_Cons [of w1 k w2 w3 v w4 fs rest] by (simp add: f after_field_def)
  obtain rs it1 where nm: "realize_unless_buffered (ReadRawString it) = (rs, it1)" by force
  from name_colon_quoted [OF Cons.prems(2,3) ok(2,1,3) p] nm
  have "name_read it (w1 @ ch_quote # k @ w2) d (w3 @ v @ w4 @ ?c # ?r) (rs, it1)" by simp
  from one_field [OF this Cons.prems(1,3) _ Cons.prems(5) ok(4), of s] after_field_token [of fs rest] Cons.prems(4)
  obtain it2 it3 it4 where 1: "nextToken it1 = (ch_colon, it2)" "fcb it2 rs s = Some (True, step d v s, it3)"
    "nextToken it3 = (?c, it4)" "consumes it ((w1 @ ch_quote # k @ w2) @ ch_colon # w3 @ v @ w4 @ [?c]) it4"
    "pending it4 = ?r" by auto
  note s = consumes_same [OF 1(4)] stays_ready [OF Cons.prems(1) 1(4)]
  from Cons.IH [of it4 m "step d v s"] s Cons.prems(3-5) oks n(2) 1(5) obtain it' where
    2: "ReadObjectRawCB_loop m fcb ?c it4 (step d v s) = Some (True, fsteps step fs (step d v s), it'\<lparr>depth := depth it4 - 1\<rparr>)"
      "consumes it4 (if fs = [] then [] else fields_text fs @ [ch_rbrace]) it'" "pending it' = rest" by auto
  have tx: "((w1 @ ch_quote # k @ w2) @ ch_colon # w3 @ v @ w4 @ [?c])
      @ (if fs = [] then [] else fields_text fs @ [ch_rbrace]) = fields_text (f # fs) @ [ch_rbrace]"
    by (cases fs) (auto simp: f after_field_def)
  have "consumes it (fields_text (f # fs) @ [ch_rbrace]) it'" using consumes_trans [OF 1(4) 2(2)] unfolding tx .
  with 1 2 n s nm nk show ?case by (auto simp: after_field_def f)
qed

lemma object_consumed:
  assumes "ready it" "wf_iter it" "Error it = None" "0 \<le> depth it" "depth it + 1 + room \<le> maxDepth" "0 \<le> room"
    "list_all is_space ws" "list_all (field_ok elem) fs" "fs \<noteq> []"
    "pending it = ws @ ch_lbrace # fields_text fs @ ch_rbrace # rest" "length fs \<le> fuel"
  shows "\<exists>it'. ReadObjectRawCB fuel fcb it s = Some (True, fsteps step fs s, it')
    \<and> consumes it (ws @ ch_lbrace # fields_text fs @ [ch_rbrace]) it' \<and> pending it' = rest"
proof -
  from token [OF assms(2,7,10)] obtain it1 where
    1: "nextToken it = (ch_lbrace, it1)" "consumes it (ws @ [ch_lbrace]) it1"
      "pending it1 = fields_text fs @ ch_rbrace # rest" by (auto simp: is_space_def)
  note s1 = consumes_same [OF 1(2)] stays_ready [OF assms(1) 1(2)]
  obtain f fs' where fs: "fs = f # fs'" using assms(9) by (cases fs) auto
  obtain w1 k w2 w3 v w4 where f: "f = (w1, k, w2, w3, v, w4)" by (cases f) auto
  with fs assms(8) obtain d where ok: "list_all is_space w1" "decode_str k = Some (d, [])" "list_all is_space w2"
    "elem_ok elem (w3, v, w4)" and oks: "list_all (field_ok elem) fs'" by auto
  have nk: "name_of k = d" using ok(2) by (simp add: name_of_def)
  let ?c = "fst (after_field fs' rest)" and ?r = "snd (after_field fs' rest)"
  have inc: "incrementDepth it1 = (True, it1\<lparr>depth := depth it1 + 1\<rparr>)"
    using incrementDepth_ok s1 assms(5,6) by simp
  let ?it2 = "it1\<lparr>depth := depth it1 + 1\<rparr>"
  have p2: "wf_iter ?it2" "ready ?it2" "pending ?it2 = w1 @ ch_quote # k @ w2 @ ch_colon # w3 @ v @ w4 @ ?c # ?r"
    using s1 ready_depth 1(3) fields_text_Cons [of w1 k w2 w3 v w4 fs' rest] fs f by auto
  from token [OF p2(1) ok(1) p2(3)] obtain it3 where
    3: "nextToken ?it2 = (ch_quote, it3)" "consumes ?it2 (w1 @ [ch_quote]) it3"
      "pending it3 = k @ w2 @ ch_colon # w3 @ v @ w4 @ ?c # ?r" by (auto simp: is_space_def)
  note s3 = consumes_same [OF 3(2)] stays_ready [OF p2(2) 3(2)]
  obtain rs it4 where nm: "realize_unless_buffered (readRawStringInner it3) = (rs, it4)" by force
  have e3: "wf_iter it3" "Error it3 = None" "ready it3" using s3 s1 assms(3) by auto
  have dep: "0 \<le> depth it3" "depth it3 + room \<le> maxDepth" "depth it3 = depth it + 1" using s3 s1 assms(4,5) by auto
  from name_colon [OF e3(1,2) ok(2,3) 3(3)] nm
  have "name_read it3 (k @ w2) d (w3 @ v @ w4 @ ?c # ?r) (rs, it4)" by simp
  from one_field [OF this e3(3,2) dep(1,2) ok(4), of s] after_field_token [of fs' rest]
  obtain it5 it6 it7 where 4: "nextToken it4 = (ch_colon, it5)" "fcb it5 rs s = Some (True, step d v s, it6)"
    "nextToken it6 = (?c, it7)" "consumes it3 ((k @ w2) @ ch_colon # w3 @ v @ w4 @ [?c]) it7" "pending it7 = ?r" by auto
  note s7 = consumes_same [OF 4(4)] stays_ready [OF e3(3) 4(4)]
  have "length fs' < fuel" using assms(11) fs by simp
  from loop_consumes [OF _ _ _ _ _ oks 4(5) this, of "step d v s"] s7 e3 dep assms(4) obtain it' where
    5: "ReadObjectRawCB_loop fuel fcb ?c it7 (step d v s) = Some (True, fsteps step fs' (step d v s), it'\<lparr>depth := depth it7 - 1\<rparr>)"
      "consumes it7 (if fs' = [] then [] else fields_text fs' @ [ch_rbrace]) it'" "pending it' = rest" by auto
  have tx: "((w1 @ [ch_quote]) @ ((k @ w2) @ ch_colon # w3 @ v @ w4 @ [?c]))
      @ (if fs' = [] then [] else fields_text fs' @ [ch_rbrace]) = fields_text fs @ [ch_rbrace]"
    unfolding fs f by (cases fs') (auto simp: after_field_def)
  have "consumes ?it2 (fields_text fs @ [ch_rbrace]) it'"
    using consumes_trans [OF consumes_trans [OF 3(2) 4(4)] 5(2)] unfolding tx .
  from consumes_depth_update [OF this, of "depth it"] have
    "consumes (it1\<lparr>depth := depth it\<rparr>) (fields_text fs @ [ch_rbrace]) (it'\<lparr>depth := depth it\<rparr>)" by simp
  moreover have "it1\<lparr>depth := depth it\<rparr> = it1" using s1 by simp
  ultimately have con: "consumes it (ws @ ch_lbrace # fields_text fs @ [ch_rbrace]) (it'\<lparr>depth := depth it\<rparr>)"
    using consumes_trans [OF 1(2)] by fastforce
  have "depth it7 - 1 = depth it" using s7 dep by simp
  with 1 inc 3 nm 4 5 have "ReadObjectRawCB fuel fcb it s = Some (True, fsteps step fs s, it'\<lparr>depth := depth it\<rparr>)"
    by (simp add: ReadObjectRawCB_def fs f nk)
  with con 5(3) show ?thesis by auto
qed

end

text \<open>The empty array and the empty object, whatever the callback.\<close>

lemma empty_consumed:
  assumes "wf_iter it" "0 \<le> depth it" "depth it + 1 \<le> maxDepth" "list_all is_space ws" "list_all is_space w"
  shows "pending it = ws @ ch_lbrack # w @ ch_rbrack # rest \<Longrightarrow>
      \<exists>it'. ReadArrayCB fuel cb it s = Some (True, s, it') \<and> consumes it (ws @ ch_lbrack # w @ [ch_rbrack]) it' \<and> pending it' = rest"
    "pending it = ws @ ch_lbrace # w @ ch_rbrace # rest \<Longrightarrow>
      \<exists>it'. ReadObjectRawCB fuel fcb it s = Some (True, s, it') \<and> consumes it (ws @ ch_lbrace # w @ [ch_rbrace]) it' \<and> pending it' = rest"
proof -
  have step: "\<exists>it1 it3. nextToken it = (c1, it1) \<and> incrementDepth it1 = (True, it1\<lparr>depth := depth it1 + 1\<rparr>)
      \<and> nextToken (it1\<lparr>depth := depth it1 + 1\<rparr>) = (c2, it3) \<and> decrementDepth it3 = (True, it3\<lparr>depth := depth it\<rparr>)
      \<and> consumes it (ws @ c1 # w @ [c2]) (it3\<lparr>depth := depth it\<rparr>) \<and> pending it3 = rest"
    if p: "pending it = ws @ c1 # w @ c2 # rest" "\<not> is_space c1" "\<not> is_space c2" for c1 c2
  proof -
    from token [OF assms(1,4) p(1,2)] obtain it1 where 1: "nextToken it = (c1, it1)" "consumes it (ws @ [c1]) it1"
      "pending it1 = w @ c2 # rest" .
    note s1 = consumes_same [OF 1(2)]
    let ?it2 = "it1\<lparr>depth := depth it1 + 1\<rparr>"
    have p2: "wf_iter ?it2" "pending ?it2 = w @ c2 # rest" using s1 1(3) by auto
    from token [OF p2(1) assms(5) p2(2) p(3)] obtain it3 where 3: "nextToken ?it2 = (c2, it3)"
      "consumes ?it2 (w @ [c2]) it3" "pending it3 = rest" .
    have inc: "incrementDepth it1 = (True, ?it2)" using incrementDepth_ok s1 assms(3) by simp
    have dec: "decrementDepth it3 = (True, it3\<lparr>depth := depth it\<rparr>)"
      using decrementDepth_ok [of it3] consumes_same [OF 3(2)] s1 assms(2) by simp
    have "consumes (it1\<lparr>depth := depth it\<rparr>) (w @ [c2]) (it3\<lparr>depth := depth it\<rparr>)"
      using consumes_depth_update [OF 3(2), of "depth it"] by simp
    moreover have "it1\<lparr>depth := depth it\<rparr> = it1" using s1 by simp
    ultimately have "consumes it (ws @ c1 # w @ [c2]) (it3\<lparr>depth := depth it\<rparr>)"
      using consumes_trans [OF 1(2)] by fastforce
    with 1 inc 3 dec show ?thesis by blast
  qed
  show "pending it = ws @ ch_lbrack # w @ ch_rbrack # rest \<Longrightarrow>
      \<exists>it'. ReadArrayCB fuel cb it s = Some (True, s, it') \<and> consumes it (ws @ ch_lbrack # w @ [ch_rbrack]) it' \<and> pending it' = rest"
    using step [of ch_lbrack ch_rbrack] by (auto simp: is_space_def ReadArrayCB_def)
  show "pending it = ws @ ch_lbrace # w @ ch_rbrace # rest \<Longrightarrow>
      \<exists>it'. ReadObjectRawCB fuel fcb it s = Some (True, s, it') \<and> consumes it (ws @ ch_lbrace # w @ [ch_rbrace]) it' \<and> pending it' = rest"
    using step [of ch_lbrace ch_rbrace] by (auto simp: is_space_def ReadObjectRawCB_def)
qed

section \<open>Field hashes of names\<close>

definition is_ascii :: "byte \<Rightarrow> bool" where
  "is_ascii c \<longleftrightarrow> c < 0x80"

definition lower_byte :: "byte \<Rightarrow> byte" where
  "lower_byte b = (if ch_A \<le> b \<and> b \<le> ch_Z then b + 0x20 else b)"

lemma runes_ascii: "list_all is_ascii d \<Longrightarrow> runes d = map uint d"
proof (induction d)
  case (Cons a d)
  then have "utf8_next (a # d) = (uint a, 1)" by (simp add: utf8_next.simps is_ascii_def)
  with Cons show ?case by simp
qed simp

lemma hash_values_append: "hash_values cs (xs @ ys) h = hash_values cs ys (hash_values cs xs h)"
  by (simp add: hash_values_def)

lemma lower_byte_word: "word_of_int (lower_ascii (uint b)) = (ucast (lower_byte b) :: u64)"
proof (cases "ch_A \<le> b \<and> b \<le> ch_Z")
  case True
  then have r: "0x41 \<le> uint b" "uint b \<le> 0x5A" by (simp_all add: word_le_def)
  then have u: "uint (b + 0x20) = uint b + 0x20" by (simp add: uint_word_ariths)
  have "(ucast (b + 0x20) :: u64) = word_of_int (uint (b + 0x20))" by (rule ucast_eq)
  also have "\<dots> = word_of_int (lower_ascii (uint b))" using u r by (simp only: lower_ascii_def if_True simp_thms)
  finally show ?thesis using True by (simp add: lower_byte_def)
next
  case False
  then have "lower_ascii (uint b) = uint b" by (auto simp: lower_ascii_def word_le_def)
  with False show ?thesis by (auto simp: lower_byte_def)
qed

lemma hash_values_bytes:
  "hash_values cs (map uint d) h = foldl (\<lambda>h b. hash_step h (ucast b)) h (if cs then d else map lower_byte d)"
  by (induction d arbitrary: h) (auto simp: hash_values_def lower_byte_word)

lemma decode_plain_prefix:
  "decode_str (xs @ ys) = Some (d, rest) \<Longrightarrow> \<forall>c \<in> set xs. c \<noteq> ch_quote \<and> c \<noteq> ch_bslash
    \<Longrightarrow> (\<forall>c \<in> set xs. \<not> str_stop c) \<and> (\<exists>d'. d = xs @ d' \<and> decode_str ys = Some (d', rest))"
proof (induction xs arbitrary: d)
  case (Cons x xs)
  then have x: "\<not> x < ch_space" by (auto split: if_splits)
  with Cons.prems obtain d1 where "decode_str (xs @ ys) = Some (d1, rest)" "d = x # d1" by auto
  with Cons x show ?case by (auto simp: str_stop_def)
qed simp

lemma readFieldHash_loop_reads:
  assumes "wf_iter it" "Error it = None" "decode_str (pending it) = Some (d, rest)" "list_all is_ascii d"
  shows "\<exists>it' xs. readFieldHash_loop h it = hash_colon (hash_values (caseSensitive (cfg it)) (map uint d) h) it'
    \<and> consumes it xs it' \<and> pending it' = rest"
  using assms
proof (induction h it arbitrary: d rule: readFieldHash_loop.induct)
  case (1 h it)
  let ?P = "\<lambda>b. b = ch_bslash \<or> b = ch_quote" and ?cs = "caseSensitive (cfg it)"
  have b: "0 \<le> head it" "head it \<le> tail it" "tail it \<le> int (length (buf it))" using "1.prems" by (auto simp: wf_iter_def)
  show ?case
  proof (cases "find_from ?P (buf it) (head it) (tail it)")
    case (Some i)
    note f = find_from_Some [OF Some b(1,3)]
    let ?w = "gslice (buf it) (head it) i" and ?c = "byte_at (buf it) i" and ?it1 = "it\<lparr>head := i\<rparr>" and ?it2 = "it\<lparr>head := i + 1\<rparr>"
    have hi: "head it \<le> i" "i < tail it" using f by auto
    note ws = window_split [OF "1.prems"(1) hi]
    have c2: "consumes it (gslice (buf it) (head it) (i + 1)) ?it2" using consumes_head [of it "i + 1"] "1.prems"(1) hi by simp
    have "decode_str (?w @ ?c # pending ?it2) = Some (d, rest)" using "1.prems"(3) ws(1) by simp
    from decode_plain_prefix [OF this] f obtain d' where d': "d = ?w @ d'" "decode_str (?c # pending ?it2) = Some (d', rest)" by blast
    show ?thesis
    proof (cases "?c = ch_bslash")
      case False
      then have "?c = ch_quote" using f by auto
      with d' have "d = ?w" "pending ?it2 = rest" by auto
      with Some False c2 show ?thesis by (auto simp: readFieldHash_loop.simps [of h it] Let_def)
    next
      case True
      have e1: "wf_iter ?it1" "Error ?it1 = None" using consumes_wf [OF ws(2)] "1.prems"(2) by auto
      obtain s it3 where r: "readStringInner ?it1 = (s, it3)" by force
      have "decode_str (pending ?it1) = Some (d', rest)" using d'(2) ws(3) by simp
      then have "reads_as ?it1 (Some (d', rest)) s it3"
        using readStringInner_loop_reads [OF e1, of "[]"] r by (simp add: readStringInner_def)
      then obtain xs where s: "s = d'" "consumes ?it1 xs it3" "pending it3 = rest" by (auto simp: reads_as_Some)
      have "runes s = map uint d'" using runes_ascii "1.prems"(4) d'(1) s(1) by simp
      with Some True r s d'(1) consumes_trans [OF ws(2) s(2)] show ?thesis
        by (auto simp: readFieldHash_loop.simps [of h it] Let_def hash_values_append)
    qed
  next
    case None
    let ?w = "gslice (buf it) (head it) (tail it)"
    have w: "\<forall>c \<in> set ?w. c \<noteq> ch_quote \<and> c \<noteq> ch_bslash" using find_from_None [OF None b(1,3)] by auto
    have "decode_str (?w @ rest_bytes it) = Some (d, rest)" using "1.prems"(3) by (simp add: pending_def)
    from decode_plain_prefix [OF this w] obtain d' where d': "d = ?w @ d'" "decode_str (rest_bytes it) = Some (d', rest)" by blast
    obtain ok it1 where l: "loadMore it = (ok, it1)" by force
    have "rest_bytes it \<noteq> []" using d'(2) by auto
    with l "1.prems"(1) loadMore_rest have ok: ok by force
    have con: "consumes it ?w it1" using loadMore_True [of it it1] l ok "1.prems"(1) by simp
    have "pending it1 = rest_bytes it" using consumes_pending [OF con] by (simp add: pending_def)
    with d' "1.prems"(4) have pr: "decode_str (pending it1) = Some (d', rest)" "list_all is_ascii d'" by auto
    note s = consumes_same [OF con]
    obtain it' xs where "readFieldHash_loop (hash_values ?cs (map uint ?w) h) it1
        = hash_colon (hash_values ?cs (map uint d') (hash_values ?cs (map uint ?w) h)) it'"
      "consumes it1 xs it'" "pending it' = rest"
      using "1.IH" [OF refl None refl l [symmetric] ok _ _ pr] s "1.prems"(2) consumes_cfg [OF con] by auto
    with None l ok d'(1) consumes_trans [OF con] show ?thesis
      by (auto simp: readFieldHash_loop.simps [of h it] Let_def hash_values_append)
  qed
qed

text \<open>The hash of a quoted ASCII name, and the colon behind it.\<close>

lemma readFieldHash_reads:
  assumes "wf_iter it" "Error it = None" "dropWhile is_space (pending it) = ch_quote # cs"
    "decode_str cs = Some (d, w @ ch_colon # rest)" "list_all is_space w" "list_all is_ascii d"
    "toLower d = map lower_byte d"
  shows "\<exists>it' xs. readFieldHash it = (calcHash toLower d (caseSensitive (cfg it)), it')
    \<and> consumes it xs it' \<and> pending it' = rest"
proof -
  from nextToken_spec [OF assms(1,3)] obtain it1 where 1: "nextToken it = (ch_quote, it1)"
    "consumes it (takeWhile is_space (pending it) @ [ch_quote]) it1" "pending it1 = cs" by blast
  note s1 = consumes_same [OF 1(2)]
  have e1: "wf_iter it1" "Error it1 = None" "decode_str (pending it1) = Some (d, w @ ch_colon # rest)"
    using s1 assms(2,4) 1(3) by auto
  from readFieldHash_loop_reads [OF e1 assms(6), of hash_init] obtain it2 xs where
    2: "readFieldHash_loop hash_init it1 = hash_colon (hash_values (caseSensitive (cfg it1)) (map uint d) hash_init) it2"
      "consumes it1 xs it2" "pending it2 = w @ ch_colon # rest" by blast
  from token [OF consumes_wf [OF 2(2)] assms(5) 2(3)] obtain it3 where
    3: "nextToken it2 = (ch_colon, it3)" "consumes it2 (w @ [ch_colon]) it3" "pending it3 = rest"
    by (auto simp: is_space_def)
  have "hash_values (caseSensitive (cfg it1)) (map uint d) hash_init = calcHash toLower d (caseSensitive (cfg it))"
    using consumes_cfg [OF 1(2)] assms(7) by (simp add: hash_values_bytes calcHash_def)
  with 1 2 3 consumes_trans [OF 1(2) consumes_trans [OF 2(2) 3(2)]] show ?thesis
    by (auto simp: readFieldHash_def hash_colon_def)
qed

section \<open>Properties of arrays, objects and field names\<close>

text \<open>C18: the hash that a struct decoder reads from a quoted ASCII name, escapes and buffer ends
  included, is the hash \<open>calcHash\<close> computed for the decoded name when the decoder was built, and
  the colon is consumed. \<open>toLower\<close> stands for \<open>strings.ToLower\<close> and has to lower-case this
  ASCII name byte by byte.\<close>

theorem readFieldHash_is_calcHash:
  assumes "wf_iter it" "Error it = None" "dropWhile is_space (pending it) = ch_quote # cs"
    "decode_str cs = Some (d, w @ ch_colon # rest)" "list_all is_space w" "list_all is_ascii d"
    "toLower d = map lower_byte d"
  shows "fst (readFieldHash it) = calcHash toLower d (caseSensitive (cfg it))
    \<and> Error (snd (readFieldHash it)) = None \<and> pending (snd (readFieldHash it)) = rest"
  using readFieldHash_reads [OF assms(1-6), of toLower] assms(2,7) by (auto dest: consumes_Error)

text \<open>Behind an escape \<open>readFieldHash\<close> hashes runes, \<open>calcHash\<close> hashes bytes: the name
  LF followed by U+00E9, read from \<open>"\n\u00e9"\<close>, gets a hash other than the one computed for the
  field, even when names are compared exactly; the same character before an escape does not.\<close>

lemma hash_of_non_ascii_name_differs:
  "let cfg1 = ConfigDefault\<lparr>caseSensitive := True\<rparr>;
       read = (\<lambda>s. fst (readFieldHash (ParseBytes cfg1 s)))
   in read ([ch_quote, 0x5C, 0x6E, 0x5C, 0x75, 0x30, 0x30, 0x65, 0x39, ch_quote, ch_colon, 0x31])
        \<noteq> calcHash id [0x0A, 0xC3, 0xA9] True
    \<and> decode_str [0x5C, 0x6E, 0x5C, 0x75, 0x30, 0x30, 0x65, 0x39, ch_quote] = Some ([0x0A, 0xC3, 0xA9], [])
    \<and> read ([ch_quote, 0xC3, 0xA9, 0x5C, 0x6E, ch_quote, ch_colon, 0x31]) = calcHash id [0xC3, 0xA9, 0x0A] True"
  by code_simp

text \<open>After a comma \<open>ReadObjectRawCB\<close> reads the name with \<open>ReadRawString\<close>, which also accepts
  \<open>null\<close>: the invalid \<open>{"a":1,null:2}\<close> is read without an error, the second name being nil.\<close>

lemma null_accepted_as_name:
  "case ReadObjectRawCB 3 (\<lambda>it rs s. Some (True, s, snd (ReadInt64 it)))
      (ParseBytes ConfigDefault (map of_char (''{'' @ [CHR 0x22] @ ''a'' @ [CHR 0x22] @ '':1,null:2}''))) ()
    of None \<Rightarrow> False | Some (ok, s, it) \<Rightarrow> ok \<and> Error it = None \<and> pending it = []"
  by code_simp

text \<open>Three error paths of \<open>ReadObjectRawCB\<close> return without \<open>decrementDepth\<close>: after \<open>{"a" 1}\<close>
  (no colon) and \<open>{"a":1 2}\<close> (no closing brace) the depth is 1 instead of 0, while the array reader
  restores it on its error paths.\<close>

lemma object_errors_leak_depth:
  "(case ReadObjectRawCB 3 (\<lambda>it rs s. Some (True, s, snd (ReadInt64 it)))
      (ParseBytes ConfigDefault (map of_char (''{'' @ [CHR 0x22] @ ''a'' @ [CHR 0x22] @ '' 1}''))) ()
    of None \<Rightarrow> False | Some (ok, s, it) \<Rightarrow> \<not> ok \<and> failed it \<and> depth it = 1)
   \<and> (case ReadObjectRawCB 3 (\<lambda>it rs s. Some (True, s, snd (ReadInt64 it)))
      (ParseBytes ConfigDefault (map of_char (''{'' @ [CHR 0x22] @ ''a'' @ [CHR 0x22] @ '':1 2}''))) ()
    of None \<Rightarrow> False | Some (ok, s, it) \<Rightarrow> \<not> ok \<and> failed it \<and> depth it = 1)
   \<and> (case ReadArrayCB 3 (\<lambda>it s. Some (True, s, snd (ReadInt64 it)))
      (ParseBytes ConfigDefault (map of_char ''[1 2]'')) ()
    of None \<Rightarrow> False | Some (ok, s, it) \<Rightarrow> \<not> ok \<and> failed it \<and> depth it = 0)"
  by code_simp

section \<open>Witnesses\<close>

theorem readFieldHash_is_calcHash_witness:
  "fst (readFieldHash (ParseBytes ConfigDefault [ch_quote, 0x41, 0x5C, 0x6E, ch_quote, 0x20, ch_colon, 0x31]))
      = calcHash (map lower_byte) [0x41, 0x0A] (caseSensitive (cfg (ParseBytes ConfigDefault [ch_quote, 0x41, 0x5C, 0x6E, ch_quote, 0x20, ch_colon, 0x31])))
    \<and> Error (snd (readFieldHash (ParseBytes ConfigDefault [ch_quote, 0x41, 0x5C, 0x6E, ch_quote, 0x20, ch_colon, 0x31]))) = None
    \<and> pending (snd (readFieldHash (ParseBytes ConfigDefault [ch_quote, 0x41, 0x5C, 0x6E, ch_quote, 0x20, ch_colon, 0x31]))) = [0x31]"
  by (rule readFieldHash_is_calcHash [where cs = "[0x41, 0x5C, 0x6E, ch_quote, 0x20, ch_colon, 0x31]" and w = "[0x20]"])
    code_simp+

end
