(* ===== verification/IterSkip.thy ===== *)
theory IterSkip
  imports IterObject
begin

text \<open>
  \<open>iter_skip.go\<close> and \<open>iter_skip_strict.go\<close> (the variant built without the tag
  \<open>jsoniter_sloppy\<close>): skipping a whole value, and returning its text.

  \<open>Skip\<close> calls itself through the callbacks it gives to the array and object readers; its fuel
  bounds both the nesting and the number of elements, and \<open>None\<close> means that it ran out.
  \<open>Skip_value\<close> shows that on a JSON value fuel above the length of its text is enough.

  \<open>json d v\<close> is the reference grammar: \<open>v\<close> is a JSON value with at most \<open>d\<close> levels of arrays and
  objects. Its numbers have no exponent and are in the range of the float types the code falls
  back to.
\<close>

section \<open>Numbers and strings\<close>

text \<open>How the loop of \<open>trySkipNumber\<close> ends: not decided, an error, or a valid number before \<open>i\<close>.\<close>

datatype number_skip = SkipUnsure | SkipError string | SkipTo int

function trySkip_loop :: "int \<Rightarrow> bytes \<Rightarrow> int \<Rightarrow> int \<Rightarrow> bool \<Rightarrow> number_skip" where
  "trySkip_loop start b i hi dotFound =
     (if i < hi then
        let c = byte_at b i in
        if is_digit c then trySkip_loop start b (i + 1) hi dotFound
        else if c = ch_dot then
          (if dotFound then SkipError ''more than one dot found in number''
           else if i + 1 = hi then SkipUnsure
           else if \<not> is_digit (byte_at b (i + 1)) then SkipError ''missing digit after dot''
           else trySkip_loop start b (i + 1) hi True)
        else if c = ch_comma \<or> c = ch_rbrack \<or> c = ch_rbrace \<or> c = ch_space \<or> c = ch_tab \<or> c = ch_nl \<or> c = ch_cr
        then (if start = i then SkipUnsure else SkipTo i)
        else SkipUnsure
      else SkipUnsure)"
  by pat_completeness auto
termination by (relation "measure (\<lambda>(s, b, i, hi, d). nat (hi - i))") auto

declare trySkip_loop.simps [simp del]

definition trySkipNumber :: "iterator \<Rightarrow> bool \<times> iterator" where
  "trySkipNumber it =
     (if head it < 0 \<or> head it \<ge> tail it \<or> tail it > int (length (buf it)) then (False, it)
      else
        (case trySkip_loop (head it) (buf it) (head it) (tail it) False of
           SkipUnsure \<Rightarrow> (False, it)
         | SkipError msg \<Rightarrow> (True, ReportError ''validateNumber'' msg it)
         | SkipTo i \<Rightarrow> (True, it\<lparr>head := i\<rparr>)))"

definition skipNumber :: "iterator \<Rightarrow> iterator" where
  "skipNumber it =
     (case trySkipNumber it of (ok, it1) \<Rightarrow>
      if ok then it1
      else
        let it2 = unreadByte it1 in
        if Error it2 \<noteq> None \<and> Error it2 \<noteq> Some EOF then it2
        else
          let it3 = snd (ReadFloat64 it2) in
          if Error it3 \<noteq> None \<and> Error it3 \<noteq> Some EOF then snd (ReadBigFloat (it3\<lparr>Error := None\<rparr>))
          else it3)"

definition skipString :: "iterator \<Rightarrow> iterator" where
  "skipString it =
     (if head it \<ge> 0 \<and> head it < tail it \<and> tail it \<le> int (length (buf it)) then
        (case find_from (\<lambda>c. c = ch_quote \<or> c = ch_bslash \<or> c < ch_space) (buf it) (head it) (tail it) of
           Some i \<Rightarrow>
             if byte_at (buf it) i = ch_quote then it\<lparr>head := i + 1\<rparr>
             else snd (readRawStringInner (it\<lparr>head := i\<rparr>))
         | None \<Rightarrow> snd (readRawStringInner it))
      else snd (readRawStringInner it))"

section \<open>Values\<close>

text \<open>The callbacks skip the value and capture nothing.\<close>

definition skip_value :: "(iterator \<Rightarrow> iterator option) \<Rightarrow> unit array_cb" where
  "skip_value skip it s = map_option (\<lambda>it'. (True, s, it')) (skip it)"

definition skipArray :: "nat \<Rightarrow> (iterator \<Rightarrow> iterator option) \<Rightarrow> iterator \<Rightarrow> iterator option" where
  "skipArray fuel skip it =
     map_option (snd \<circ> snd) (ReadArrayCB fuel (skip_value skip) (unreadByte it) ())"

definition skipObject :: "nat \<Rightarrow> (iterator \<Rightarrow> iterator option) \<Rightarrow> iterator \<Rightarrow> iterator option" where
  "skipObject fuel skip it =
     map_option (snd \<circ> snd) (ReadObjectRawCB fuel (\<lambda>i rs. skip_value skip i) (unreadByte it) ())"

fun Skip :: "nat \<Rightarrow> iterator \<Rightarrow> iterator option" where
  "Skip 0 it = None"
| "Skip (Suc n) it =
     (case nextToken it of (c, it1) \<Rightarrow>
      if c = ch_quote then Some (skipString it1)
      else if c = ch_n then Some (skipThreeBytes ch_u ch_l ch_l it1)
      else if c = ch_t then Some (skipThreeBytes ch_r ch_u ch_e it1)
      else if c = ch_f then Some (skipFourBytes ch_a ch_l ch_s ch_e it1)
      else if c = ch_0 then Some (snd (ReadFloat32 (unreadByte it1)))
      else if c = ch_minus \<or> is_digit c then Some (skipNumber it1)
      else if c = ch_lbrack then skipArray n (Skip n) it1
      else if c = ch_lbrace then skipObject n (Skip n) it1
      else Some (ReportError ''Skip'' (''do not know how to skip: '' @ FormatInt (uint c)) (unreadByte it1)))"

text \<open>\<open>None\<close> also when the code panics because a capture is running already, or has been stopped.\<close>

definition SkipAndReturnBytes :: "nat \<Rightarrow> iterator \<Rightarrow> (bytes \<times> iterator) option" where
  "SkipAndReturnBytes fuel it =
     Option.bind (startCapture (head it) it) (\<lambda>it1. Option.bind (Skip fuel it1) stopCapture)"

definition SkipAndAppendBytes :: "nat \<Rightarrow> bytes \<Rightarrow> iterator \<Rightarrow> (bytes \<times> iterator) option" where
  "SkipAndAppendBytes fuel b it =
     Option.bind (startCaptureTo b (head it) it) (\<lambda>it1. Option.bind (Skip fuel it1) stopCapture)"

section \<open>The reference grammar\<close>

definition number_token :: "bytes \<Rightarrow> bool" where
  "number_token v \<longleftrightarrow> (\<exists>neg ip fp. v = (if neg then [ch_minus] else []) @ num_text ip fp \<and> num_ok ip fp
     \<and> ParseFloat v 64 \<noteq> None \<and> (\<not> neg \<and> hd ip = ch_0 \<longrightarrow> ParseFloat v 32 \<noteq> None))"

lemma elem_ok_mono [mono]: "P \<le> Q \<Longrightarrow> elem_ok P x \<longrightarrow> elem_ok Q x"
  by (cases x) (auto simp: elem_ok_def)

lemma field_ok_mono [mono]: "P \<le> Q \<Longrightarrow> field_ok P f \<longrightarrow> field_ok Q f"
  by (cases f) (auto simp: elem_ok_def)

inductive json :: "nat \<Rightarrow> bytes \<Rightarrow> bool" where
  json_null: "json d [ch_n, ch_u, ch_l, ch_l]"
| json_true: "json d [ch_t, ch_r, ch_u, ch_e]"
| json_false: "json d [ch_f, ch_a, ch_l, ch_s, ch_e]"
| json_number: "number_token v \<Longrightarrow> json d v"
| json_string: "decode_str s = Some (x, []) \<Longrightarrow> json d (ch_quote # s)"
| json_array0: "list_all is_space w \<Longrightarrow> json (Suc d) (ch_lbrack # w @ [ch_rbrack])"
| json_array: "\<forall>x \<in> set es. elem_ok (json d) x \<Longrightarrow> es \<noteq> [] \<Longrightarrow> json (Suc d) (ch_lbrack # elems_text es @ [ch_rbrack])"
| json_object0: "list_all is_space w \<Longrightarrow> json (Suc d) (ch_lbrace # w @ [ch_rbrace])"
| json_object: "\<forall>f \<in> set fs. field_ok (json d) f \<Longrightarrow> fs \<noteq> [] \<Longrightarrow> json (Suc d) (ch_lbrace # fields_text fs @ [ch_rbrace])"

section \<open>Skipping numbers and strings\<close>

lemma trySkip_loop_spec:
  assumes "0 \<le> i" "i \<le> hi" "hi \<le> int (length b)" "gslice b i hi @ ys = r @ t # zs" "\<not> number_char t"
    "r = ip @ (if dot \<or> fp = [] then [] else ch_dot # fp)" "list_all is_digit ip" "list_all is_digit fp"
  shows "trySkip_loop start b i hi dot = SkipUnsure
    \<or> (\<exists>j. trySkip_loop start b i hi dot = SkipTo j \<and> i \<le> j \<and> j < hi \<and> gslice b i j = r)"
  using assms
proof (induction "nat (hi - i)" arbitrary: i r ip dot fp)
  case 0
  then have "trySkip_loop start b i hi dot = SkipUnsure" by (subst trySkip_loop.simps) simp
  then show ?case ..
next
  case (Suc n)
  then have lt: "i < hi" by simp
  let ?c = "byte_at b i"
  have g: "gslice b i hi = ?c # gslice b (i + 1) hi" using gslice_Cons [of i hi b] Suc.prems lt by simp
  have later: "trySkip_loop start b i hi dot = SkipUnsure
      \<or> (\<exists>j. trySkip_loop start b i hi dot = SkipTo j \<and> i \<le> j \<and> j < hi \<and> gslice b i j = r)"
    if st: "trySkip_loop start b i hi dot = trySkip_loop start b (i + 1) hi dot'" and r: "r = ?c # r'"
      and r': "r' = ip' @ (if dot' \<or> fp' = [] then [] else ch_dot # fp')" "list_all is_digit ip'" "list_all is_digit fp'"
    for dot' r' ip' fp'
  proof -
    have "gslice b (i + 1) hi @ ys = r' @ t # zs" using Suc.prems(4) g r by simp
    from Suc.hyps(1) [of "i + 1", OF _ _ _ Suc.prems(3) this Suc.prems(5) r'] Suc.hyps(2) Suc.prems(1) lt
    have "trySkip_loop start b (i + 1) hi dot' = SkipUnsure
      \<or> (\<exists>j. trySkip_loop start b (i + 1) hi dot' = SkipTo j \<and> i + 1 \<le> j \<and> j < hi \<and> gslice b (i + 1) j = r')" by simp
    moreover have "gslice b i j = r" if "i + 1 \<le> j" "j < hi" "gslice b (i + 1) j = r'" for j
      using that gslice_Cons [of i j b] Suc.prems(1,3) r by simp
    ultimately show ?thesis unfolding st by fastforce
  qed
  show ?case
  proof (cases r)
    case Nil
    then have "?c = t" using Suc.prems(4) g by simp
    then have "\<not> is_digit ?c" "?c \<noteq> ch_dot" using Suc.prems(5) by (auto simp: number_char_def)
    then show ?thesis using lt Nil by (subst trySkip_loop.simps, subst trySkip_loop.simps) (auto simp: Let_def)
  next
    case (Cons x r')
    then have x: "x = ?c" using Suc.prems(4) g by simp
    show ?thesis
    proof (cases ip)
      case (Cons a ip')
      then have "a = ?c" "is_digit ?c" "r = ?c # ip' @ (if dot \<or> fp = [] then [] else ch_dot # fp)"
        using Suc.prems(6,7) \<open>r = x # r'\<close> x by auto
      moreover from this(2) have "trySkip_loop start b i hi dot = trySkip_loop start b (i + 1) hi dot"
        using lt by (subst trySkip_loop.simps) simp
      moreover have "list_all is_digit ip'" using Cons Suc.prems(7) by simp
      ultimately show ?thesis using later [OF _ _ refl _ Suc.prems(8)] by blast
    next
      case Nil
      then have d: "\<not> dot" "fp \<noteq> []" "?c = ch_dot" "r' = fp" using Suc.prems(6) \<open>r = x # r'\<close> x by (auto split: if_splits)
      then obtain f fp' where f: "fp = f # fp'" by (cases fp) auto
      show ?thesis
      proof (cases "i + 1 = hi")
        case True
        then have "trySkip_loop start b i hi dot = SkipUnsure"
          using lt d dot_not_digit by (subst trySkip_loop.simps) simp
        then show ?thesis ..
      next
        case False
        have "gslice b (i + 1) hi @ ys = fp @ t # zs" using Suc.prems(4) g \<open>r = x # r'\<close> d by simp
        then have "byte_at b (i + 1) = f" using gslice_Cons [of "i + 1" hi b] f lt False Suc.prems(1,3) by simp
        then have "is_digit (byte_at b (i + 1))" using f Suc.prems(8) by simp
        then have "trySkip_loop start b i hi dot = trySkip_loop start b (i + 1) hi True"
          using lt d dot_not_digit False by (subst trySkip_loop.simps) simp
        from later [OF this, of fp fp "[]"] d x \<open>r = x # r'\<close> Suc.prems(8) show ?thesis by simp
      qed
    qed
  qed
qed

text \<open>After the first byte of a number that is no lone zero: the fast check or the fallback.\<close>

lemma skipNumber_consumes:
  assumes 1: "consumes it (ws @ [c]) it1" "can_unread c it1" "Error it = None" "pending it1 = r @ t # rest"
    and v: "c # r = (if neg then [ch_minus] else []) @ num_text ip fp" "num_ok ip fp" "ParseFloat (c # r) 64 \<noteq> None"
    and t: "\<not> number_char t"
  shows "consumes it (ws @ c # r) (skipNumber it1) \<and> pending (skipNumber it1) = t # rest"
proof -
  note s1 = consumes_same [OF 1(1)]
  have e1: "Error it1 = None" using s1 1(3) by simp
  from unreadByte_spec [OF 1(1,2) e1] have u: "consumes it ws (unreadByte it1)"
    "pending (unreadByte it1) = (c # r) @ t # rest" using 1(4) by auto
  note su = consumes_same [OF u(1)]
  from v(3) obtain x where x: "ParseFloat ((if neg then [ch_minus] else []) @ num_text ip fp) 64 = Some x"
    unfolding v(1) by auto
  have "\<exists>it3. ReadFloat64 (unreadByte it1) = (x, it3) \<and> Error it3 = None \<and> pending it3 = t # rest
      \<and> consumes (unreadByte it1) (c # r) it3"
    using ReadFloat64_literal [OF _ _ _ v(2) _ t x, of "unreadByte it1" "[]" rest] su 1(3) u(2) v(1) by simp
  then obtain it3 where 3: "ReadFloat64 (unreadByte it1) = (x, it3)" "Error it3 = None" "pending it3 = t # rest"
    "consumes (unreadByte it1) (c # r) it3" by blast
  have slow: ?thesis if "trySkipNumber it1 = (False, it1)"
    using that 3 su 1(3) consumes_trans [OF u(1) 3(4)] by (simp add: skipNumber_def Let_def)
  show ?thesis
  proof (cases "head it1 < tail it1")
    case False
    then have "trySkipNumber it1 = (False, it1)" by (simp add: trySkipNumber_def)
    with slow show ?thesis .
  next
    case lt: True
    have b: "0 \<le> head it1" "tail it1 \<le> int (length (buf it1))" using s1 by (auto simp: wf_iter_def)
    have w: "gslice (buf it1) (head it1) (tail it1) @ rest_bytes it1 = r @ t # rest" using 1(4) by (simp add: pending_def)
    define ip' where "ip' = (if neg then ip else tl ip)"
    have r: "r = ip' @ (if False \<or> fp = [] then [] else ch_dot # fp)" and ip': "list_all is_digit ip'"
      and fp: "list_all is_digit fp"
      using v(1,2) by (cases ip; auto simp: ip'_def num_text_def num_ok_def split: if_splits)+
    from trySkip_loop_spec [OF b(1) _ b(2) w t r ip' fp, of "head it1"] lt
    have "trySkip_loop (head it1) (buf it1) (head it1) (tail it1) False = SkipUnsure
      \<or> (\<exists>j. trySkip_loop (head it1) (buf it1) (head it1) (tail it1) False = SkipTo j \<and> head it1 \<le> j \<and> j < tail it1
          \<and> gslice (buf it1) (head it1) j = r)" by simp
    then show ?thesis
    proof
      assume "trySkip_loop (head it1) (buf it1) (head it1) (tail it1) False = SkipUnsure"
      then have "trySkipNumber it1 = (False, it1)" by (simp add: trySkipNumber_def)
      with slow show ?thesis .
    next
      assume "\<exists>j. trySkip_loop (head it1) (buf it1) (head it1) (tail it1) False = SkipTo j \<and> head it1 \<le> j \<and> j < tail it1
          \<and> gslice (buf it1) (head it1) j = r"
      then obtain j where j: "trySkip_loop (head it1) (buf it1) (head it1) (tail it1) False = SkipTo j"
        "head it1 \<le> j" "j < tail it1" "gslice (buf it1) (head it1) j = r" by blast
      have con: "consumes it1 r (it1\<lparr>head := j\<rparr>)" using consumes_head [of it1 j] s1 j by simp
      have "skipNumber it1 = it1\<lparr>head := j\<rparr>" using j(1) lt b by (simp add: skipNumber_def trySkipNumber_def)
      moreover have "consumes it (ws @ c # r) (it1\<lparr>head := j\<rparr>)" using consumes_trans [OF 1(1) con] by simp
      moreover have "pending (it1\<lparr>head := j\<rparr>) = t # rest" using consumes_pending [OF con] 1(4) by simp
      ultimately show ?thesis by simp
    qed
  qed
qed

lemma skipString_consumes:
  assumes "wf_iter it" "Error it = None" "decode_str (pending it) = Some (x, rest)"
  shows "\<exists>xs. consumes it xs (skipString it) \<and> pending (skipString it) = rest"
proof -
  have raw: "\<exists>xs. consumes i xs (snd (readRawStringInner i)) \<and> pending (snd (readRawStringInner i)) = rest"
    if "wf_iter i" "Error i = None" "decode_str (pending i) = Some (y, rest)" for i y
  proof -
    have "raw_reads i [] (raw_str False False (pending i)) (fst (readRawStringInner i)) (snd (readRawStringInner i))"
      using readRawStringInner_loop_reads [OF that(1,2), of False False "[]"] by (simp add: readRawStringInner_def)
    from raw_String_decodes [OF that(3) this] show ?thesis by blast
  qed
  have b: "0 \<le> head it" "tail it \<le> int (length (buf it))" using assms(1) by (auto simp: wf_iter_def)
  let ?P = "\<lambda>c. c = ch_quote \<or> c = ch_bslash \<or> c < ch_space"
  show ?thesis
  proof (cases "head it < tail it")
    case False
    with raw [OF assms] show ?thesis by (simp add: skipString_def)
  next
    case lt: True
    show ?thesis
    proof (cases "find_from ?P (buf it) (head it) (tail it)")
      case None
      with lt b raw [OF assms] show ?thesis by (simp add: skipString_def)
    next
      case (Some i)
      note f = find_from_Some [OF Some b]
      let ?w = "gslice (buf it) (head it) i" and ?c = "byte_at (buf it) i"
      have hi: "head it \<le> i" "i < tail it" using f by auto
      note ws = window_split [OF assms(1) hi]
      have plain: "\<forall>c \<in> set ?w. \<not> str_stop c" using f by (auto simp: str_stop_def)
      have "appends ?w (decode_str (?c # pending (it\<lparr>head := i + 1\<rparr>))) = Some (x, rest)"
        using decode_str_plain [OF plain] ws(1) assms(3) by simp
      then obtain y where y: "decode_str (?c # pending (it\<lparr>head := i + 1\<rparr>)) = Some (y, rest)" by auto
      show ?thesis
      proof (cases "?c = ch_quote")
        case True
        then have "pending (it\<lparr>head := i + 1\<rparr>) = rest" using y by simp
        moreover have "consumes it (gslice (buf it) (head it) (i + 1)) (it\<lparr>head := i + 1\<rparr>)"
          using consumes_head [of it "i + 1"] assms(1) hi by simp
        ultimately show ?thesis using Some True lt b by (auto simp: skipString_def)
      next
        case False
        have e: "wf_iter (it\<lparr>head := i\<rparr>)" "Error (it\<lparr>head := i\<rparr>) = None" using consumes_wf [OF ws(2)] assms(2) by auto
        have "decode_str (pending (it\<lparr>head := i\<rparr>)) = Some (y, rest)" using ws(3) y by simp
        from raw [OF e this] obtain xs where "consumes (it\<lparr>head := i\<rparr>) xs (snd (readRawStringInner (it\<lparr>head := i\<rparr>)))"
          "pending (snd (readRawStringInner (it\<lparr>head := i\<rparr>))) = rest" by blast
        with consumes_trans [OF ws(2)] Some False lt b show ?thesis by (auto simp: skipString_def)
      qed
    qed
  qed
qed

section \<open>Skipping values\<close>

text \<open>What it means that \<open>Skip\<close> skips the text \<open>v\<close>, which has at most \<open>d\<close> levels.\<close>

definition skips :: "nat \<Rightarrow> bytes \<Rightarrow> bool" where
  "skips d v \<longleftrightarrow> (\<forall>n it ws t rest. length v < n \<longrightarrow> wf_iter it \<longrightarrow> Error it = None \<longrightarrow> 0 \<le> depth it
     \<longrightarrow> depth it + int d \<le> maxDepth \<longrightarrow> list_all is_space ws \<longrightarrow> pending it = ws @ v @ t # rest \<longrightarrow> \<not> number_char t
     \<longrightarrow> (\<exists>it'. Skip n it = Some it' \<and> consumes it (ws @ v) it' \<and> pending it' = t # rest))"

lemma number_token_head: "number_token v \<Longrightarrow> \<exists>c r. v = c # r \<and> (c = ch_minus \<or> is_digit c)"
proof -
  assume "number_token v"
  then obtain neg ip fp where v: "v = (if neg then [ch_minus] else []) @ num_text ip fp" "num_ok ip fp"
    by (auto simp: number_token_def)
  then show ?thesis by (cases neg; cases ip) (auto simp: num_ok_def num_text_def)
qed

lemma json_head: "json d v \<Longrightarrow> v \<noteq> [] \<and> hd v \<noteq> ch_rbrack \<and> \<not> is_space (hd v)"
  by (erule json.cases) (auto simp: is_space_def is_digit_def dest!: number_token_head)

lemma skips_number:
  assumes "number_token v"
  shows "skips d v"
  unfolding skips_def
proof (intro allI impI)
  fix n it ws t rest
  assume a: "length v < n" "wf_iter it" "Error it = None" "list_all is_space ws" "pending it = ws @ v @ t # rest"
    "\<not> number_char t"
  obtain m where n: "n = Suc m" using a(1) by (cases n) auto
  obtain neg ip fp where v: "v = (if neg then [ch_minus] else []) @ num_text ip fp" "num_ok ip fp"
    "ParseFloat v 64 \<noteq> None" "\<not> neg \<and> hd ip = ch_0 \<longrightarrow> ParseFloat v 32 \<noteq> None"
    using assms unfolding number_token_def by blast
  obtain c r where c: "v = c # r" "c = ch_minus \<or> is_digit c" using number_token_head [OF assms] by blast
  have kinds: "\<not> is_space c" "c \<noteq> ch_quote" "c \<noteq> ch_n" "c \<noteq> ch_t" "c \<noteq> ch_f"
    using c(2) by (auto simp: is_space_def is_digit_def)
  obtain it1 where 1: "nextToken it = (c, it1)" "consumes it (ws @ [c]) it1" "can_unread c it1" "pending it1 = r @ t # rest"
    using nextToken_at [OF a(2,4), of c "r @ t # rest"] a(5) c(1) kinds(1) by auto
  show "\<exists>it'. Skip n it = Some it' \<and> consumes it (ws @ v) it' \<and> pending it' = t # rest"
  proof (cases "c = ch_0")
    case True
    then have z: "\<not> neg" "hd ip = ch_0" using v(1,2) c(1) by (cases ip; auto simp: num_ok_def num_text_def split: if_splits)+
    have e: "Error it1 = None" using consumes_Error [OF 1(2)] a(3) by simp
    from unreadByte_spec [OF 1(2,3) e] have u: "consumes it ws (unreadByte it1)"
      "pending (unreadByte it1) = v @ t # rest" using 1(4) c(1) by auto
    note su = consumes_same [OF u(1)]
    have vt: "v = num_text ip fp" using v(1) z(1) by simp
    obtain it2 where 2: "snd (ReadFloat32 (unreadByte it1)) = it2" "pending it2 = t # rest"
      "consumes (unreadByte it1) v it2"
      using ReadFloat32_consumes [of "unreadByte it1" "[]" ip fp t rest] su a(3,6) u(2) v(2,4) z vt by auto
    with n 1(1) True consumes_trans [OF u(1) 2(3)] show ?thesis by simp
  next
    case False
    from skipNumber_consumes [OF 1(2,3) a(3) 1(4) v(1) [unfolded c(1)] v(2) v(3) [unfolded c(1)] a(6)]
    have "consumes it (ws @ v) (skipNumber it1)" "pending (skipNumber it1) = t # rest" using c(1) by auto
    with n 1(1) False kinds c(2) show ?thesis by simp
  qed
qed

lemma skips_literals:
  "skips d [ch_n, ch_u, ch_l, ch_l]" "skips d [ch_t, ch_r, ch_u, ch_e]" "skips d [ch_f, ch_a, ch_l, ch_s, ch_e]"
proof -
  have tok: "\<exists>it1. nextToken it = (c, it1) \<and> consumes it (ws @ [c]) it1 \<and> pending it1 = r @ t # rest"
    if "wf_iter it" "list_all is_space ws" "pending it = ws @ (c # r) @ t # rest" "\<not> is_space c" for it ws c r t rest
    using nextToken_at [OF that(1,2), of c "r @ t # rest"] that by auto
  have three: "\<exists>it'. Skip n it = Some it' \<and> consumes it (ws @ [c, b1, b2, b3]) it' \<and> pending it' = t # rest"
    if "wf_iter it" "list_all is_space ws" "pending it = ws @ [c, b1, b2, b3] @ t # rest" "\<not> is_space c"
      "\<And>it1. nextToken it = (c, it1) \<Longrightarrow> Skip n it = Some (skipThreeBytes b1 b2 b3 it1)" for it ws c b1 b2 b3 t rest n
  proof -
    have "pending it = ws @ (c # [b1, b2, b3]) @ t # rest" using that(3) by simp
    from tok [OF that(1,2) this that(4)] obtain it1 where
      1: "nextToken it = (c, it1)" "consumes it (ws @ [c]) it1" "pending it1 = b1 # b2 # b3 # t # rest" by auto
    from skipThreeBytes_ok [OF consumes_wf [OF 1(2)] 1(3)] that(5) [OF 1(1)] consumes_trans [OF 1(2)]
    show ?thesis by fastforce
  qed
  have four: "\<exists>it'. Skip n it = Some it' \<and> consumes it (ws @ [c, b1, b2, b3, b4]) it' \<and> pending it' = t # rest"
    if "wf_iter it" "list_all is_space ws" "pending it = ws @ [c, b1, b2, b3, b4] @ t # rest" "\<not> is_space c"
      "\<And>it1. nextToken it = (c, it1) \<Longrightarrow> Skip n it = Some (skipFourBytes b1 b2 b3 b4 it1)" for it ws c b1 b2 b3 b4 t rest n
  proof -
    have "pending it = ws @ (c # [b1, b2, b3, b4]) @ t # rest" using that(3) by simp
    from tok [OF that(1,2) this that(4)] obtain it1 where
      1: "nextToken it = (c, it1)" "consumes it (ws @ [c]) it1" "pending it1 = b1 # b2 # b3 # b4 # t # rest" by auto
    from skipFourBytes_ok [OF consumes_wf [OF 1(2)] 1(3)] that(5) [OF 1(1)] consumes_trans [OF 1(2)]
    show ?thesis by fastforce
  qed
  have sk: "Skip n it = (case nextToken it of (c, it1) \<Rightarrow> if c = ch_n then Some (skipThreeBytes ch_u ch_l ch_l it1)
      else if c = ch_t then Some (skipThreeBytes ch_r ch_u ch_e it1)
      else if c = ch_f then Some (skipFourBytes ch_a ch_l ch_s ch_e it1) else Skip n it)" if "0 < n" for n it
    using that by (cases n) (auto split: prod.splits)
  show "skips d [ch_n, ch_u, ch_l, ch_l]" "skips d [ch_t, ch_r, ch_u, ch_e]" "skips d [ch_f, ch_a, ch_l, ch_s, ch_e]"
    unfolding skips_def
    by (intro allI impI, rule three four, assumption+, simp add: is_space_def, subst sk, simp, simp)+
qed

lemma skips_string:
  assumes "decode_str s = Some (x, [])"
  shows "skips d (ch_quote # s)"
  unfolding skips_def
proof (intro allI impI)
  fix n it ws t rest
  assume a: "length (ch_quote # s) < n" "wf_iter it" "Error it = None" "list_all is_space ws"
    "pending it = ws @ (ch_quote # s) @ t # rest"
  obtain m where n: "n = Suc m" using a(1) by (cases n) auto
  obtain it1 where 1: "nextToken it = (ch_quote, it1)" "consumes it (ws @ [ch_quote]) it1" "pending it1 = s @ t # rest"
    using nextToken_at [OF a(2,4), of ch_quote "s @ t # rest"] a(5) by (auto simp: is_space_def)
  from decode_str_local [OF assms] obtain p where "s = p" "\<forall>ys. decode_str (p @ ys) = Some (x, ys)" by auto
  then have "decode_str (pending it1) = Some (x, t # rest)" using 1(3) by simp
  from skipString_consumes [OF consumes_wf [OF 1(2)] _ this] consumes_Error [OF 1(2)] a(3) obtain xs where
    2: "consumes it1 xs (skipString it1)" "pending (skipString it1) = t # rest" by auto
  have "xs = s" using consumes_pending [OF 2(1)] 1(3) 2(2) by simp
  with consumes_trans [OF 1(2) 2(1)] n 1(1) 2(2)
  show "\<exists>it'. Skip n it = Some it' \<and> consumes it (ws @ ch_quote # s) it' \<and> pending it' = t # rest" by simp
qed

text \<open>Inside an array or object: \<open>Skip\<close> as a callback.\<close>

lemma skip_reader:
  "element_reader (skip_value (Skip n)) (\<lambda>it. True) (\<lambda>e. json d e \<and> skips d e \<and> length e < n) (\<lambda>e s. s) (int d)"
proof
  fix s
  fix it ws e t rest
  assume "wf_iter it" "Error it = None" "0 \<le> depth it" "depth it + int d \<le> maxDepth" "list_all is_space ws"
    "json d e \<and> skips d e \<and> length e < n" "pending it = ws @ e @ t # rest" "\<not> number_char t"
  then obtain it' where "Skip n it = Some it'" "consumes it (ws @ e) it'" "pending it' = t # rest"
    unfolding skips_def by blast
  then show "\<exists>it'. skip_value (Skip n) it s = Some (True, s, it') \<and> consumes it (ws @ e) it' \<and> pending it' = t # rest"
    by (simp add: skip_value_def)
qed (use json_head in auto)

lemma skip_member_reader:
  "field_reader (\<lambda>it rs. skip_value (Skip n) it) (\<lambda>it. True) (\<lambda>e. json d e \<and> skips d e \<and> length e < n) (\<lambda>k e s. s) (int d)"
proof
  fix it ws e t rest s
  assume "wf_iter it" "Error it = None" "0 \<le> depth it" "depth it + int d \<le> maxDepth" "list_all is_space ws"
    "json d e \<and> skips d e \<and> length e < n" "pending it = ws @ e @ t # rest" "\<not> number_char t"
  then show "\<exists>it'. skip_value (Skip n) it s = Some (True, s, it') \<and> consumes it (ws @ e) it' \<and> pending it' = t # rest"
    using value_reader.reads [OF element_reader.axioms(1) [OF skip_reader]] by blast
qed (use json_head in auto)

lemma length_elems: "(w, e, w') \<in> set es \<Longrightarrow> length e \<le> length (elems_text es)"
  by (induction es rule: elems_text.induct) auto

lemma length_elems_text: "\<forall>x \<in> set es. fst (snd x) \<noteq> [] \<Longrightarrow> length es \<le> length (elems_text es)"
proof (induction es rule: elems_text.induct)
  case (2 w e w')
  then show ?case by (cases e) auto
next
  case (3 w e w' x xs)
  then show ?case by (cases e) auto
qed simp

lemma length_fields: "(w1, k, w2, w3, v, w4) \<in> set fs \<Longrightarrow> length v \<le> length (fields_text fs)"
  by (induction fs rule: fields_text.induct) auto

lemma length_fields_text: "length fs \<le> length (fields_text fs)"
proof (induction fs rule: fields_text.induct)
  case (2 f)
  then show ?case by (cases f) auto
next
  case (3 f g fs)
  then show ?case by (cases f) auto
qed simp

text \<open>A container, given that its reader consumes it from the opening bracket on.\<close>

lemma skips_container:
  assumes c: "c = ch_lbrack \<or> c = ch_lbrace"
    and rdr: "\<And>n it t rest. \<lbrakk>length (c # body) \<le> n; wf_iter it; Error it = None; 0 \<le> depth it;
        depth it + int d \<le> maxDepth; pending it = c # body @ t # rest\<rbrakk>
      \<Longrightarrow> \<exists>it'. (if c = ch_lbrack then ReadArrayCB n (skip_value (Skip n)) it ()
          else ReadObjectRawCB n (\<lambda>i rs. skip_value (Skip n) i) it ()) = Some (True, (), it')
        \<and> consumes it (c # body) it' \<and> pending it' = t # rest"
  shows "skips d (c # body)"
  unfolding skips_def
proof (intro allI impI)
  fix n it ws t rest
  assume a: "length (c # body) < n" "wf_iter it" "Error it = None" "0 \<le> depth it" "depth it + int d \<le> maxDepth"
    "list_all is_space ws" "pending it = ws @ (c # body) @ t # rest"
  obtain m where n: "n = Suc m" "length (c # body) \<le> m" using a(1) by (cases n) auto
  have nsp: "\<not> is_space c" using c by (auto simp: is_space_def)
  obtain it1 where 1: "nextToken it = (c, it1)" "consumes it (ws @ [c]) it1" "can_unread c it1" "pending it1 = body @ t # rest"
    using nextToken_at [OF a(2,6) _ nsp, of "body @ t # rest"] a(7) by auto
  have e1: "Error it1 = None" using consumes_Error [OF 1(2)] a(3) by simp
  from unreadByte_spec [OF 1(2,3) e1] have u: "consumes it ws (unreadByte it1)"
    "pending (unreadByte it1) = c # body @ t # rest" using 1(4) by auto
  note su = consumes_same [OF u(1)]
  from rdr [OF n(2) _ _ _ _ u(2)] su a(3-5) obtain it' where
    2: "(if c = ch_lbrack then ReadArrayCB m (skip_value (Skip m)) (unreadByte it1) ()
          else ReadObjectRawCB m (\<lambda>i rs. skip_value (Skip m) i) (unreadByte it1) ()) = Some (True, (), it')"
      "consumes (unreadByte it1) (c # body) it'" "pending it' = t # rest" by auto
  have "Skip n it = Some it'" using n(1) 1(1) 2(1) c by (auto simp: skipArray_def skipObject_def is_digit_def)
  with consumes_trans [OF u(1) 2(2)] 2(3)
  show "\<exists>it'. Skip n it = Some it' \<and> consumes it (ws @ c # body) it' \<and> pending it' = t # rest" by auto
qed

lemma json_skips: "json d v \<Longrightarrow> skips d v"
proof (induction rule: json.induct)
  case (json_number v d)
  then show ?case by (rule skips_number)
next
  case (json_string s x d)
  then show ?case by (rule skips_string)
next
  case (json_array0 w d)
  show ?case
  proof (rule skips_container, simp)
    fix n it t rest
    assume a: "wf_iter it" "Error it = None" "0 \<le> depth it" "depth it + int (Suc d) \<le> maxDepth"
      "pending it = ch_lbrack # (w @ [ch_rbrack]) @ t # rest"
    have "depth it + 1 \<le> maxDepth" using a(4) by simp
    from empty_consumed(1) [OF a(1,3) this _ json_array0, of "[]" "t # rest" n] a(5)
    show "\<exists>it'. (if ch_lbrack = ch_lbrack then ReadArrayCB n (skip_value (Skip n)) it ()
          else ReadObjectRawCB n (\<lambda>i rs. skip_value (Skip n) i) it ()) = Some (True, (), it')
        \<and> consumes it (ch_lbrack # w @ [ch_rbrack]) it' \<and> pending it' = t # rest" by simp
  qed
next
  case (json_object0 w d)
  show ?case
  proof (rule skips_container, simp)
    fix n it t rest
    assume a: "wf_iter it" "Error it = None" "0 \<le> depth it" "depth it + int (Suc d) \<le> maxDepth"
      "pending it = ch_lbrace # (w @ [ch_rbrace]) @ t # rest"
    have "depth it + 1 \<le> maxDepth" using a(4) by simp
    from empty_consumed(2) [OF a(1,3) this _ json_object0, of "[]" "t # rest" n] a(5)
    show "\<exists>it'. (if ch_lbrace = ch_lbrack then ReadArrayCB n (skip_value (Skip n)) it ()
          else ReadObjectRawCB n (\<lambda>i rs. skip_value (Skip n) i) it ()) = Some (True, (), it')
        \<and> consumes it (ch_lbrace # w @ [ch_rbrace]) it' \<and> pending it' = t # rest" by simp
  qed
next
  case (json_array es d)
  show ?case
  proof (rule skips_container, simp)
    fix n it t rest
    assume a: "length (ch_lbrack # elems_text es @ [ch_rbrack]) \<le> n" "wf_iter it" "Error it = None" "0 \<le> depth it"
      "depth it + int (Suc d) \<le> maxDepth" "pending it = ch_lbrack # (elems_text es @ [ch_rbrack]) @ t # rest"
    have ok: "list_all (elem_ok (\<lambda>e. json d e \<and> skips d e \<and> length e < n)) es"
      using json_array.IH length_elems a(1) by (force simp: list_all_iff elem_ok_def)
    have "\<forall>x \<in> set es. fst (snd x) \<noteq> []" using json_array.IH json_head by (force simp: elem_ok_def)
    from length_elems_text [OF this] a(1) have "length es \<le> n" by simp
    from element_reader.array_consumed [OF skip_reader TrueI a(2-4) _ _ _ ok json_array(2) _ this, of "[]" "t # rest"] a(5,6)
    show "\<exists>it'. (if ch_lbrack = ch_lbrack then ReadArrayCB n (skip_value (Skip n)) it ()
          else ReadObjectRawCB n (\<lambda>i rs. skip_value (Skip n) i) it ()) = Some (True, (), it')
        \<and> consumes it (ch_lbrack # elems_text es @ [ch_rbrack]) it' \<and> pending it' = t # rest" by simp
  qed
next
  case (json_object fs d)
  show ?case
  proof (rule skips_container, simp)
    fix n it t rest
    assume a: "length (ch_lbrace # fields_text fs @ [ch_rbrace]) \<le> n" "wf_iter it" "Error it = None" "0 \<le> depth it"
      "depth it + int (Suc d) \<le> maxDepth" "pending it = ch_lbrace # (fields_text fs @ [ch_rbrace]) @ t # rest"
    have ok: "list_all (field_ok (\<lambda>e. json d e \<and> skips d e \<and> length e < n)) fs"
      using json_object.IH length_fields a(1) by (force simp: list_all_iff elem_ok_def)
    have "length fs \<le> n" using length_fields_text [of fs] a(1) by simp
    from field_reader.object_consumed [OF skip_member_reader TrueI a(2-4) _ _ _ ok json_object(2) _ this, of "[]" "t # rest"] a(5,6)
    show "\<exists>it'. (if ch_lbrace = ch_lbrack then ReadArrayCB n (skip_value (Skip n)) it ()
          else ReadObjectRawCB n (\<lambda>i rs. skip_value (Skip n) i) it ()) = Some (True, (), it')
        \<and> consumes it (ch_lbrace # fields_text fs @ [ch_rbrace]) it' \<and> pending it' = t # rest" by simp
  qed
qed (simp_all add: skips_literals)


text \<open>\<open>Skip\<close> as the callback of arrays and objects meets the contract of both readers.\<close>

interpretation skip_elements: element_reader "skip_value (Skip n)" "\<lambda>it. True"
    "\<lambda>e. json d e \<and> skips d e \<and> length e < n" "\<lambda>e s. s" "int d" for n d
  by (rule skip_reader)

interpretation skip_fields: field_reader "\<lambda>it rs. skip_value (Skip n) it" "\<lambda>it. True"
    "\<lambda>e. json d e \<and> skips d e \<and> length e < n" "\<lambda>k e s. s" "int d" for n d
  by (rule skip_member_reader)

section \<open>Properties\<close>

text \<open>C6: \<open>Skip\<close> on a JSON value of at most \<open>d\<close> levels, behind white space and followed by a byte
  that cannot continue a number, returns without error right behind the value: it consumes exactly
  the white space and the value, whatever the buffering, and restores the nesting depth.\<close>

theorem Skip_value:
  assumes "json d v" "length v < n"
    and "wf_iter it" "Error it = None" "0 \<le> depth it" "depth it + int d \<le> maxDepth"
    and "list_all is_space ws" "pending it = ws @ v @ t # rest" "\<not> number_char t"
  shows "\<exists>it'. Skip n it = Some it' \<and> consumes it (ws @ v) it' \<and> pending it' = t # rest"
  using json_skips [OF assms(1)] assms(2-) unfolding skips_def by blast

text \<open>C17: \<open>SkipAndAppendBytes\<close> appends to the caller's slice exactly the text of the value it
  skips (with the white space before it), even when the value spans several refills of the buffer;
  the capture is over afterwards.\<close>

theorem SkipAndAppendBytes_text:
  assumes "json d v" "length v < n"
    and "wf_iter it" "Error it = None" "0 \<le> depth it" "depth it + int d \<le> maxDepth" "captured it = None"
    and "list_all is_space ws" "pending it = ws @ v @ t # rest" "\<not> number_char t"
  shows "\<exists>it'. SkipAndAppendBytes n b it = Some (b @ ws @ v, it') \<and> captured it' = None
    \<and> Error it' = None \<and> pending it' = t # rest"
proof -
  obtain it1 where 1: "startCaptureTo b (head it) it = Some it1"
    using assms(7) by (simp add: startCaptureTo_def)
  note c = startCapture_log [OF 1 assms(3)]
  from json_skips [OF assms(1)] assms(2,4-6,8-10) c obtain it2 where
    2: "Skip n it1 = Some it2" "consumes it1 (ws @ v) it2" "pending it2 = t # rest"
    unfolding skips_def by metis
  have "cap_log it2 = Some (b @ ws @ v)" using 2(2) c by (simp add: consumes_def)
  from stopCapture_log [OF this] 1 2 c consumes_Error [OF 2(2)] assms(4) show ?thesis
    by (auto simp: SkipAndAppendBytes_def)
qed

text \<open>Where \<open>Skip\<close> and JSON part: a number with a leading zero goes through the 32-bit reader,
  so \<open>0.1e40\<close>, which is in the range of a float64, is refused; a leading zero behind a minus sign is
  accepted; and at the end of a stream the text returned for a value repeats the buffer's first
  bytes.\<close>

lemma Skip_deviations:
  "map_option failed (Skip 5 (ParseBytes ConfigDefault (map of_char ''0.1e40,''))) = Some True
   \<and> map_option failed (Skip 5 (ParseBytes ConfigDefault (map of_char ''-01,''))) = Some False
   \<and> map_option fst (SkipAndReturnBytes 5 (snd (ReadInt64 (Parse ConfigDefault [(map of_char ''1 123'', None)] 8))))
       = Some (map of_char '' 1231 '')"
  by (intro conjI; code_simp)

section \<open>Witnesses\<close>

lemma sample_json: "json 1 (map of_char ''[1, null]'')"
proof -
  have "number_token [0x31]" unfolding number_token_def
    by (rule exI [of _ False], rule exI [of _ "[0x31]"], rule exI [of _ "[]"]) code_simp
  then have "json (Suc 0) (ch_lbrack # elems_text [([], [0x31], []), ([0x20], [ch_n, ch_u, ch_l, ch_l], [])] @ [ch_rbrack])"
    by (intro json_array) (auto simp: elem_ok_def is_space_def intro: json_number json_null)
  then show ?thesis by (simp add: of_char_def)
qed

theorem Skip_value_witness:
  "\<exists>it'. Skip 20 (ParseBytes ConfigDefault (map of_char '' [1, null] '')) = Some it'
    \<and> consumes (ParseBytes ConfigDefault (map of_char '' [1, null] '')) ([0x20] @ map of_char ''[1, null]'') it'
    \<and> pending it' = 0x20 # []"
  by (rule Skip_value [OF sample_json]) code_simp+

theorem SkipAndAppendBytes_text_witness:
  "\<exists>it'. SkipAndAppendBytes 20 [0x41] (Parse ConfigDefault [(map of_char '' [1, nu'', None), (map of_char ''ll] '', None)] 8)
      = Some ([0x41] @ [0x20] @ map of_char ''[1, null]'', it')
    \<and> captured it' = None \<and> Error it' = None \<and> pending it' = 0x20 # []"
  by (rule SkipAndAppendBytes_text [OF sample_json]) code_simp+

end
