(* ===== verification/SkipSloppy.thy ===== *)
theory SkipSloppy
  imports IterSkip
begin

text \<open>
  \<open>iter_skip_sloppy.go\<close>, the variant of \<open>iter_skip_strict.go\<close> under the build tag \<open>jsoniter_sloppy\<close>: it looks for the
  end of a value and does not check what lies between. \<open>sloppy_Skip\<close> is \<open>Skip\<close> with these functions.

  \<open>str_rest\<close> and \<open>close_rest\<close> are the reference: what is left of an input behind the end of a string and behind
  the bracket that closes a container. The loops compute them wherever the buffer ends, and on JSON they agree
  with the grammar.
\<close>

section \<open>Numbers and strings\<close>

definition number_end :: "byte \<Rightarrow> bool" where
  "number_end c \<longleftrightarrow> c \<in> {ch_space, ch_nl, ch_cr, ch_tab, ch_comma, ch_rbrace, ch_rbrack}"

function sloppy_skipNumber :: "iterator \<Rightarrow> iterator" where
  "sloppy_skipNumber it =
     (case find_from number_end (buf it) (head it) (tail it) of
        Some i \<Rightarrow> it\<lparr>head := i\<rparr>
      | None \<Rightarrow> (case loadMore it of (ok, it1) \<Rightarrow> if ok then sloppy_skipNumber it1 else it1))"
  by pat_completeness auto
termination
  by (relation "measure reads_left") (auto dest: loadMore_decreases [OF sym])

declare sloppy_skipNumber.simps [simp del]

text \<open>The loops that go back over backslashes: \<open>True\<close> for an odd number of them between \<open>lo\<close> and \<open>j\<close>.\<close>

function backslashes_odd :: "bytes \<Rightarrow> int \<Rightarrow> int \<Rightarrow> bool" where
  "backslashes_odd b lo j =
     (if j < lo \<or> byte_at b j \<noteq> ch_bslash then False
      else if j - 1 < lo \<or> byte_at b (j - 1) \<noteq> ch_bslash then True
      else backslashes_odd b lo (j - 2))"
  by pat_completeness auto
termination by (relation "measure (\<lambda>(b, lo, j). nat (j - lo + 1))") auto

declare backslashes_odd.simps [simp del]

function findStringEnd_loop :: "bytes \<Rightarrow> int \<Rightarrow> int \<Rightarrow> int \<Rightarrow> bool \<Rightarrow> int \<times> bool" where
  "findStringEnd_loop b lo i hi escaped =
     (if i < hi then
        let c = byte_at b i in
        if c = ch_quote then
          (if \<not> escaped then (i + 1, False)
           else if \<not> backslashes_odd b lo (i - 1) then (i + 1, True)
           else findStringEnd_loop b lo (i + 1) hi escaped)
        else findStringEnd_loop b lo (i + 1) hi (escaped \<or> c = ch_bslash)
      else (- 1, backslashes_odd b lo (hi - 1)))"
  by pat_completeness auto
termination by (relation "measure (\<lambda>(b, lo, i, hi, e). nat (hi - i))") auto

declare findStringEnd_loop.simps [simp del]

definition findStringEnd :: "iterator \<Rightarrow> int \<times> bool" where
  "findStringEnd it = findStringEnd_loop (buf it) (head it) (head it) (tail it) False"

function sloppy_skipString :: "iterator \<Rightarrow> iterator" where
  "sloppy_skipString it =
     (case findStringEnd it of (e, escaped) \<Rightarrow>
      if e = - 1 then
        (case loadMore it of (ok, it1) \<Rightarrow>
         if \<not> ok then ReportError ''skipString'' ''incomplete string'' it1
         else sloppy_skipString (if escaped then it1\<lparr>head := 1\<rparr> else it1))
      else it\<lparr>head := e\<rparr>)"
  by pat_completeness auto
termination
  by (relation "measure reads_left") (auto simp: reads_left_def dest!: loadMore_decreases [OF sym])

declare sloppy_skipString.simps [simp del]

section \<open>Arrays and objects\<close>

lemma findStringEnd_after: "findStringEnd_loop b lo i hi escaped = (e, f) \<Longrightarrow> e = - 1 \<or> i < e \<and> e \<le> hi"
proof (induction b lo i hi escaped rule: findStringEnd_loop.induct)
  case (1 b lo i hi escaped)
  note IH = 1(1,2) [OF _ refl]
  from 1(3) IH show ?case
    by (simp add: findStringEnd_loop.simps [of b lo i hi escaped] Let_def split: if_splits) fastforce+
qed

lemma sloppy_skipString_no_later: "no_later it (sloppy_skipString it)"
proof (induction it rule: sloppy_skipString.induct)
  case (1 it)
  obtain e f where e: "findStringEnd it = (e, f)" by fastforce
  obtain ok it1 where l: "loadMore it = (ok, it1)" by fastforce
  note nl = loadMore_no_later [OF l]
  consider "e \<noteq> - 1" | "e = - 1" "ok" | "e = - 1" "\<not> ok" by blast
  then show ?case
  proof cases
    case 1
    with e findStringEnd_after [of "buf it" "head it" "head it" "tail it" False] show ?thesis
      by (subst sloppy_skipString.simps) (auto simp: findStringEnd_def no_later_def reads_left_def)
  next
    case 2
    have "no_later (if f then it1\<lparr>head := 1\<rparr> else it1) (sloppy_skipString (if f then it1\<lparr>head := 1\<rparr> else it1))"
      using "1.IH" [OF e [symmetric] 2(1) l [symmetric]] 2(2) by simp
    moreover have "reads_left (if f then it1\<lparr>head := 1\<rparr> else it1) < reads_left it" using nl 2(2) by (simp add: reads_left_def)
    ultimately show ?thesis using e l 2 by (subst sloppy_skipString.simps) (auto simp: no_later_def)
  next
    case 3
    with e l nl show ?thesis by (subst sloppy_skipString.simps) simp
  qed
qed

text \<open>The loops of \<open>skipArray\<close> and \<open>skipObject\<close>, which differ in the brackets and in a message.\<close>

function level_loop :: "byte \<Rightarrow> byte \<Rightarrow> string \<Rightarrow> int \<Rightarrow> int \<Rightarrow> iterator \<Rightarrow> iterator" where
  "level_loop op cl msg i level it =
     (if i < tail it then
        let c = byte_at (buf it) i in
        if c = ch_quote then
          let it1 = sloppy_skipString (it\<lparr>head := i + 1\<rparr>) in level_loop op cl msg (head it1) level it1
        else if c = op then
          (case incrementDepth it of (ok, it1) \<Rightarrow>
           if \<not> ok then it1 else level_loop op cl msg (i + 1) (level + 1) it1)
        else if c = cl then
          (case decrementDepth it of (ok, it1) \<Rightarrow>
           if \<not> ok then it1
           else if level - 1 = 0 then it1\<lparr>head := i + 1\<rparr>
           else level_loop op cl msg (i + 1) (level - 1) it1)
        else level_loop op cl msg (i + 1) level it
      else
        (case loadMore it of (ok, it1) \<Rightarrow>
         if \<not> ok then ReportError ''skipObject'' msg it1
         else level_loop op cl msg (head it1) level it1))"
  by pat_completeness auto
termination
proof (relation "inv_image (less_than <*lex*> less_than) (\<lambda>(a, b, c, i, l, it). (reads_left it, nat (tail it - i)))", goal_cases)
  case (2 op cl msg i level it c it1)
  then have "no_later (it\<lparr>head := i + 1\<rparr>) it1" using sloppy_skipString_no_later by blast
  with 2 show ?case by (auto simp: no_later_def reads_left_def)
qed (auto simp: incrementDepth_def decrementDepth_def reads_left_def ReportError_def Let_def split: if_splits
    dest!: loadMore_decreases [unfolded reads_left_def, OF sym])

declare level_loop.simps [simp del]

definition sloppy_skipArray :: "iterator \<Rightarrow> iterator" where
  "sloppy_skipArray it =
     (case incrementDepth it of (ok, it1) \<Rightarrow>
      if \<not> ok then it1 else level_loop ch_lbrack ch_rbrack ''incomplete array'' (head it1) 1 it1)"

definition sloppy_skipObject :: "iterator \<Rightarrow> iterator" where
  "sloppy_skipObject it =
     (case incrementDepth it of (ok, it1) \<Rightarrow>
      if \<not> ok then it1 else level_loop ch_lbrace ch_rbrace ''incomplete object'' (head it1) 1 it1)"

definition sloppy_Skip :: "iterator \<Rightarrow> iterator" where
  "sloppy_Skip it =
     (case nextToken it of (c, it1) \<Rightarrow>
      if c = ch_quote then sloppy_skipString it1
      else if c = ch_n then skipThreeBytes ch_u ch_l ch_l it1
      else if c = ch_t then skipThreeBytes ch_r ch_u ch_e it1
      else if c = ch_f then skipFourBytes ch_a ch_l ch_s ch_e it1
      else if c = ch_0 then snd (ReadFloat32 (unreadByte it1))
      else if c = ch_minus \<or> is_digit c then sloppy_skipNumber it1
      else if c = ch_lbrack then sloppy_skipArray it1
      else if c = ch_lbrace then sloppy_skipObject it1
      else ReportError ''Skip'' (''do not know how to skip: '' @ FormatInt (uint c)) (unreadByte it1))"

section \<open>The reference\<close>

text \<open>The flag says that the byte before was a backslash that escapes.\<close>

fun str_rest :: "bool \<Rightarrow> bytes \<Rightarrow> bytes option" where
  "str_rest e [] = None"
| "str_rest e (c # cs) =
     (if e then str_rest False cs else if c = ch_quote then Some cs else str_rest (c = ch_bslash) cs)"

lemma str_rest_shorter: "str_rest e cs = Some rest \<Longrightarrow> length rest < length cs"
  by (induction e cs rule: str_rest.induct) (auto split: if_splits)

lemma str_rest_append: "str_rest e cs = Some rest \<Longrightarrow> str_rest e (cs @ ys) = Some (rest @ ys)"
  by (induction e cs rule: str_rest.induct) (auto split: if_splits)

text \<open>\<open>close_rest op cl room level\<close>: outside of strings, with \<open>level\<close> containers open, and at most \<open>room\<close> ever.\<close>

function close_rest :: "byte \<Rightarrow> byte \<Rightarrow> int \<Rightarrow> int \<Rightarrow> bytes \<Rightarrow> bytes option" where
  "close_rest op cl room level [] = None"
| "close_rest op cl room level (c # cs) =
     (if c = ch_quote then (case str_rest False cs of None \<Rightarrow> None | Some r \<Rightarrow> close_rest op cl room level r)
      else if c = op then (if level + 1 \<le> room then close_rest op cl room (level + 1) cs else None)
      else if c = cl then (if level = 1 then Some cs else close_rest op cl room (level - 1) cs)
      else close_rest op cl room level cs)"
  by pat_completeness auto
termination
  by (relation "measure (\<lambda>(op, cl, room, level, cs). length cs)") (auto dest: str_rest_shorter)

section \<open>The loops compute the reference\<close>

lemma sloppy_skipNumber_reads:
  assumes "wf_iter it" "pending it = r @ t # rest" "\<forall>c \<in> set r. \<not> number_end c" "number_end t"
  shows "consumes it r (sloppy_skipNumber it) \<and> pending (sloppy_skipNumber it) = t # rest"
  using assms
proof (induction it arbitrary: r rule: sloppy_skipNumber.induct)
  case (1 it)
  have b: "0 \<le> head it" "tail it \<le> int (length (buf it))" using "1.prems"(1) by (auto simp: wf_iter_def)
  show ?case
  proof (cases "find_from number_end (buf it) (head it) (tail it)")
    case (Some k)
    note f = find_from_Some [OF Some b]
    note w = window_split [OF "1.prems"(1), of k]
    have "gslice (buf it) (head it) k @ byte_at (buf it) k # pending (it\<lparr>head := k + 1\<rparr>) = r @ t # rest"
      using w(1) f "1.prems"(2) by simp
    from dropWhile_span [OF this, of "\<lambda>c. \<not> number_end c"] f
      dropWhile_span [OF refl, of r "\<lambda>c. \<not> number_end c" t rest] "1.prems"(3,4)
    have "gslice (buf it) (head it) k = r" "byte_at (buf it) k # pending (it\<lparr>head := k + 1\<rparr>) = t # rest" by auto
    with w f Some show ?thesis by (subst (1 2) sloppy_skipNumber.simps) simp
  next
    case None
    note f = find_from_None [OF None b]
    obtain ok it1 where l: "loadMore it = (ok, it1)" by fastforce
    let ?w = "gslice (buf it) (head it) (tail it)"
    have eq: "?w @ rest_bytes it = r @ t # rest" using "1.prems"(2) by (simp add: pending_def)
    have "takeWhile (\<lambda>c. \<not> number_end c) (?w @ rest_bytes it) = r" using eq "1.prems"(3,4) by (simp add: takeWhile_append)
    moreover have "takeWhile (\<lambda>c. \<not> number_end c) (?w @ rest_bytes it) = ?w @ takeWhile (\<lambda>c. \<not> number_end c) (rest_bytes it)"
      using f by (simp add: takeWhile_append)
    ultimately have "r = ?w @ takeWhile (\<lambda>c. \<not> number_end c) (rest_bytes it)" by simp
    with eq obtain r2 where r2: "r = ?w @ r2" "rest_bytes it = r2 @ t # rest" by (metis append.assoc same_append_eq)
    then have ok: ok using loadMore_rest [OF "1.prems"(1)] l by simp
    from loadMore_True [of it it1] l ok "1.prems"(1) have con: "consumes it ?w it1" by simp
    have "pending it1 = r2 @ t # rest" using consumes_pending [OF con] "1.prems"(2) r2 by simp
    from "1.IH" [OF None l [symmetric] ok consumes_wf [OF con] this] r2(1) "1.prems"(3,4)
    have "consumes it1 r2 (sloppy_skipNumber it1)" "pending (sloppy_skipNumber it1) = t # rest" by auto
    with consumes_trans [OF con] r2(1) None l ok show ?thesis by (subst (1 2) sloppy_skipNumber.simps) simp
  qed
qed

text \<open>Whether the byte behind a text without a closing quote is escaped.\<close>

definition escapes :: "bytes \<Rightarrow> bool" where
  "escapes w \<longleftrightarrow> odd (length (takeWhile (\<lambda>c. c = ch_bslash) (rev w)))"

lemma escapes_simps [simp]: "escapes [] = False" "escapes [c] = (c = ch_bslash)" "escapes (w @ [c]) = (c = ch_bslash \<and> \<not> escapes w)"
  "escapes (w @ [x, c]) = (c = ch_bslash \<and> \<not> escapes (w @ [x]))"
  by (simp_all add: escapes_def)

lemma backslashes_odd_escapes:
  "0 \<le> lo \<Longrightarrow> j < int (length b) \<Longrightarrow> backslashes_odd b lo j = escapes (gslice b lo (j + 1))"
proof (induction b lo j rule: backslashes_odd.induct)
  case (1 b lo j)
  have g: "lo \<le> k \<Longrightarrow> k \<le> j \<Longrightarrow> gslice b lo (k + 1) = gslice b lo k @ [byte_at b k]" for k
    using gslice_snoc [of lo "k + 1" b] 1(2,3) by simp
  consider "j < lo" | "lo \<le> j" "byte_at b j \<noteq> ch_bslash" | "lo \<le> j" "byte_at b j = ch_bslash" "j - 1 < lo"
    | "byte_at b j = ch_bslash" "lo \<le> j - 1" "byte_at b (j - 1) \<noteq> ch_bslash"
    | "byte_at b j = ch_bslash" "lo \<le> j - 1" "byte_at b (j - 1) = ch_bslash" by linarith
  then show ?case
  proof cases
    case 4
    with g [of j] g [of "j - 1"] show ?thesis by (subst backslashes_odd.simps) simp
  next
    case 5
    with 1 have "backslashes_odd b lo (j - 2) = escapes (gslice b lo (j - 1))" by simp
    with 5 g [of j] g [of "j - 1"] show ?thesis by (subst backslashes_odd.simps) simp
  qed (use g [of j] in \<open>subst backslashes_odd.simps, simp\<close>)+
qed

lemma findStringEnd_reads:
  assumes "findStringEnd_loop b lo i hi f = (e, f')" "0 \<le> lo" "lo \<le> i" "i \<le> hi" "hi \<le> int (length b)"
    "f \<or> ch_bslash \<notin> set (gslice b lo i)"
  shows "(e = - 1 \<and> str_rest (escapes (gslice b lo i)) (gslice b i hi @ ys) = str_rest f' ys)
    \<or> (i < e \<and> e \<le> hi \<and> str_rest (escapes (gslice b lo i)) (gslice b i hi @ ys) = Some (gslice b e hi @ ys))"
  using assms
proof (induction b lo i hi f rule: findStringEnd_loop.induct)
  case (1 b lo i hi f)
  show ?case
  proof (cases "i < hi")
    case False
    with "1.prems" backslashes_odd_escapes [of lo "hi - 1" b] show ?thesis
      by (simp add: findStringEnd_loop.simps [of b lo i hi f])
  next
    case lt: True
    let ?c = "byte_at b i"
    have g: "gslice b i hi = ?c # gslice b (i + 1) hi" "gslice b lo (i + 1) = gslice b lo i @ [?c]"
      using gslice_Cons [of i hi b] gslice_snoc [of lo "i + 1" b] "1.prems" lt by auto
    have esc: "escapes (gslice b lo i) \<Longrightarrow> f"
    proof (rule ccontr)
      assume "escapes (gslice b lo i)" "\<not> f"
      with "1.prems"(6) have "takeWhile (\<lambda>c. c = ch_bslash) (rev (gslice b lo i)) = []"
        by (cases "gslice b lo i" rule: rev_cases) auto
      with \<open>escapes _\<close> show False by (simp add: escapes_def)
    qed
    have o: "backslashes_odd b lo (i - 1) = escapes (gslice b lo i)"
      using backslashes_odd_escapes [of lo "i - 1" b] "1.prems" lt by simp
    consider "?c = ch_quote" "\<not> escapes (gslice b lo i)" | "?c = ch_quote" "escapes (gslice b lo i)" | "?c \<noteq> ch_quote" by blast
    then show ?thesis
    proof cases
      case 1
      with "1.prems"(1) lt o have "e = i + 1" by (auto simp: findStringEnd_loop.simps [of b lo i hi f] split: if_splits)
      with 1 lt g show ?thesis by simp
    next
      case 2
      have "findStringEnd_loop b lo (i + 1) hi f = (e, f')"
        using "1.prems"(1) 2 esc [OF 2(2)] o lt unfolding findStringEnd_loop.simps [of b lo i hi f] by simp
      with "1.IH"(1) [OF lt refl 2(1)] 2 esc [OF 2(2)] o "1.prems" lt g show ?thesis by auto
    next
      case 3
      with lt "1.prems"(1) have "findStringEnd_loop b lo (i + 1) hi (f \<or> ?c = ch_bslash) = (e, f')"
        by (simp add: findStringEnd_loop.simps [of b lo i hi f])
      with "1.IH"(2) [OF lt refl 3] 3 "1.prems" lt g show ?thesis by (auto split: if_splits)
    qed
  qed
qed

lemma sloppy_skipString_reads:
  assumes "wf_iter it" "str_rest False (pending it) = Some rest"
  shows "\<exists>xs. consumes it xs (sloppy_skipString it) \<and> pending (sloppy_skipString it) = rest"
  using assms
proof (induction it rule: sloppy_skipString.induct)
  case (1 it)
  have b: "0 \<le> head it" "head it \<le> tail it" "tail it \<le> int (length (buf it))" using "1.prems"(1) by (auto simp: wf_iter_def)
  obtain e f where e: "findStringEnd it = (e, f)" by fastforce
  from findStringEnd_reads [OF e [unfolded findStringEnd_def] b(1) order.refl b(2,3), of "rest_bytes it"] "1.prems"(2)
  consider (more) "e = - 1" "str_rest f (rest_bytes it) = Some rest"
    | (closed) "head it < e" "e \<le> tail it" "gslice (buf it) e (tail it) @ rest_bytes it = rest" by (auto simp: pending_def)
  then show ?case
  proof cases
    case closed
    then have "sloppy_skipString it = it\<lparr>head := e\<rparr>" using e b by (subst sloppy_skipString.simps) simp
    with consumes_head [OF "1.prems"(1), of e] closed show ?thesis by (auto simp: pending_def rest_bytes_def)
  next
    case more
    obtain ok it1 where l: "loadMore it = (ok, it1)" by fastforce
    have "rest_bytes it \<noteq> []" using more(2) by auto
    then have ok: ok using loadMore_rest [OF "1.prems"(1)] l by simp
    from loadMore_True [of it it1] l ok "1.prems"(1) have con: "consumes it (gslice (buf it) (head it) (tail it)) it1"
      and h: "head it1 = 0" "0 < tail it1" by auto
    have p: "pending it1 = rest_bytes it" using consumes_pending [OF con] by (simp add: pending_def)
    note w = consumes_wf [OF con]
    let ?it2 = "if f then it1\<lparr>head := 1\<rparr> else it1"
    have "\<exists>ys. consumes it1 ys ?it2 \<and> str_rest False (pending ?it2) = Some rest"
    proof (cases f)
      case True
      from consumes_head [OF w, of 1] h have c1: "consumes it1 (gslice (buf it1) 0 1) (it1\<lparr>head := 1\<rparr>)" by simp
      have "gslice (buf it1) 0 1 = [byte_at (buf it1) 0]" using gslice_Cons [of 0 1 "buf it1"] w h by (simp add: wf_iter_def)
      with consumes_pending [OF c1] p more(2) True c1 show ?thesis by auto
    next
      case False
      with more(2) p consumes_refl [OF w] show ?thesis by auto
    qed
    then obtain ys where 2: "consumes it1 ys ?it2" "str_rest False (pending ?it2) = Some rest" by blast
    from "1.IH" [OF e [symmetric] more(1) l [symmetric]] ok consumes_wf [OF 2(1)] 2(2)
    obtain zs where "consumes ?it2 zs (sloppy_skipString ?it2)" "pending (sloppy_skipString ?it2) = rest" by auto
    moreover have "sloppy_skipString it = sloppy_skipString ?it2" using e more(1) l ok by (subst sloppy_skipString.simps) simp
    ultimately show ?thesis using consumes_trans [OF con] consumes_trans [OF 2(1)] by metis
  qed
qed

lemma load_loop_head: "load_loop r it = (True, it1) \<Longrightarrow> load_loop r (it\<lparr>head := k\<rparr>) = (True, it1)"
  by (induction r it rule: load_loop.induct) (auto split: if_splits option.splits)

text \<open>The loops do not keep \<open>head\<close> up to date, but a refill does not look at it.\<close>

lemma loadMore_head: "loadMore it = (True, it1) \<Longrightarrow> loadMore (it\<lparr>head := k\<rparr>) = (True, it1)"
proof -
  assume "loadMore it = (True, it1)"
  then obtain r where r: "reader it = Some r" "load_loop r (case captured it of None \<Rightarrow> it
      | Some cap \<Rightarrow> it\<lparr>captured := Some (cap @ gslice (buf it) (captureStartedAt it) (tail it)), captureStartedAt := 0\<rparr>) = (True, it1)"
    by (auto simp: loadMore_def split: option.splits)
  have "it\<lparr>captured := x, captureStartedAt := 0, head := k\<rparr> = it\<lparr>head := k, captured := x, captureStartedAt := 0\<rparr>" for x
    by simp
  with load_loop_head [OF r(2), of k] r(1) show ?thesis by (cases "captured it") (auto simp: loadMore_def)
qed

definition closed :: "byte \<Rightarrow> byte \<Rightarrow> string \<Rightarrow> int \<Rightarrow> bytes \<Rightarrow> int \<Rightarrow> int \<Rightarrow> iterator \<Rightarrow> bool" where
  "closed op cl msg base rest i level it \<longleftrightarrow>
     (\<exists>xs. consumes (it\<lparr>head := i, depth := base\<rparr>) xs (level_loop op cl msg i level it))
     \<and> pending (level_loop op cl msg i level it) = rest"

lemma closed_step:
  assumes "closed op cl msg base rest k level' it2" "level_loop op cl msg i level it = level_loop op cl msg k level' it2"
    "consumes (it\<lparr>head := i\<rparr>) xs it1" "it1\<lparr>depth := base\<rparr> = it2\<lparr>head := k, depth := base\<rparr>"
  shows "closed op cl msg base rest i level it"
  using assms(1) consumes_trans [OF consumes_depth_update [OF assms(3), of base]] unfolding closed_def assms(2,4) by fastforce

lemma next_byte:
  assumes "wf_iter it" "head it \<le> i" "i < tail it"
  shows "consumes (it\<lparr>head := i\<rparr>) [byte_at (buf it) i] (it\<lparr>head := i + 1\<rparr>)"
    "pending (it\<lparr>head := i\<rparr>) = byte_at (buf it) i # pending (it\<lparr>head := i + 1\<rparr>)"
proof -
  note w = window_split [OF assms]
  have "gslice (buf it) i (i + 1) = [byte_at (buf it) i]" using gslice_Cons [of i "i + 1" "buf it"] assms by (simp add: wf_iter_def)
  with consumes_head [OF consumes_wf [OF w(2)], of "i + 1"] assms(3)
  show "consumes (it\<lparr>head := i\<rparr>) [byte_at (buf it) i] (it\<lparr>head := i + 1\<rparr>)" by simp
qed (rule window_split(3) [OF assms])

lemma closed_refill:
  assumes "wf_iter it" "\<not> i < tail it" "i \<le> tail it" "close_rest op cl room level (pending (it\<lparr>head := i\<rparr>)) = Some rest"
    "\<And>it1. \<lbrakk>loadMore it = (True, it1); wf_iter it1; depth it1 = depth it; pending it1 = pending (it\<lparr>head := i\<rparr>)\<rbrakk>
      \<Longrightarrow> closed op cl msg base rest (head it1) level it1"
  shows "closed op cl msg base rest i level it"
proof -
  have i: "i = tail it" using assms(2,3) by simp
  let ?t = "it\<lparr>head := tail it\<rparr>"
  have t: "wf_iter ?t" "pending ?t = rest_bytes it" using assms(1) by (auto simp: wf_iter_def pending_def rest_bytes_def)
  then have "rest_bytes it \<noteq> []" using assms(4) i by auto
  then obtain it1 where l: "loadMore it = (True, it1)" using loadMore_rest [OF assms(1)] by (cases "loadMore it") auto
  from loadMore_True [OF loadMore_head [OF l, of "tail it"] t(1)] have con: "consumes ?t [] it1" by auto
  note s = consumes_same [OF con]
  have "pending it1 = pending ?t" using consumes_pending [OF con] by simp
  with assms(5) [OF l] s i have "closed op cl msg base rest (head it1) level it1" by simp
  moreover have "level_loop op cl msg i level it = level_loop op cl msg (head it1) level it1"
    using assms(2) l by (subst level_loop.simps) simp
  ultimately show ?thesis by (rule closed_step) (use con i in auto)
qed

lemma level_loop_reads:
  assumes "wf_iter it" "head it \<le> i" "i \<le> tail it" "0 < level" "depth it = base + level" "0 \<le> base" "base + room \<le> maxDepth"
    "op \<noteq> cl" "close_rest op cl room level (pending (it\<lparr>head := i\<rparr>)) = Some rest"
  shows "closed op cl msg base rest i level it"
  using assms
proof (induction op cl msg i level it rule: level_loop.induct)
  case (1 op cl msg i level it)
  let ?c = "byte_at (buf it) i" and ?n = "it\<lparr>head := i + 1\<rparr>"
  have pn: "pending (it\<lparr>depth := d, head := k\<rparr>) = pending (it\<lparr>head := k\<rparr>)" for d k by (simp add: pending_def rest_bytes_def)
  consider (refill) "\<not> i < tail it" | (quote) "i < tail it" "?c = ch_quote" | (op) "i < tail it" "?c \<noteq> ch_quote" "?c = op"
    | (cl) "i < tail it" "?c \<noteq> ch_quote" "?c \<noteq> op" "?c = cl" | (other) "i < tail it" "?c \<noteq> ch_quote" "?c \<noteq> op" "?c \<noteq> cl" by blast
  then show ?case
  proof cases
    case refill
    show ?thesis
    proof (rule closed_refill [OF "1.prems"(1) refill "1.prems"(3,9)])
      fix it1
      assume a: "loadMore it = (True, it1)" "wf_iter it1" "depth it1 = depth it" "pending it1 = pending (it\<lparr>head := i\<rparr>)"
      have "head it1 \<le> tail it1" "it1\<lparr>head := head it1\<rparr> = it1" using a(2) by (auto simp: wf_iter_def)
      with "1.IH"(5) [OF refill a(1) [symmetric]] a "1.prems"(4-9) show "closed op cl msg base rest (head it1) level it1" by simp
    qed
  next
    case quote
    note c = next_byte [OF "1.prems"(1,2) quote(1)]
    with "1.prems"(9) quote(2) obtain r where r: "str_rest False (pending ?n) = Some r" "close_rest op cl room level r = Some rest"
      by (auto split: option.splits)
    let ?s = "sloppy_skipString ?n"
    from sloppy_skipString_reads [OF consumes_wf [OF c(1)] r(1)] obtain xs where x: "consumes ?n xs ?s" "pending ?s = r" by blast
    note s = consumes_same [OF x(1)]
    have "head ?s \<le> tail ?s" using s by (simp add: wf_iter_def)
    with "1.IH"(1) [OF quote(1) refl quote(2) refl] s x(2) r(2) "1.prems"(4-8)
    have "closed op cl msg base rest (head ?s) level ?s" by simp
    moreover have "level_loop op cl msg i level it = level_loop op cl msg (head ?s) level ?s"
      using quote by (subst level_loop.simps) (simp add: Let_def)
    ultimately show ?thesis using consumes_trans [OF c(1) x(1)] by (rule closed_step) simp
  next
    case op
    note c = next_byte [OF "1.prems"(1,2) op(1)]
    then have r: "level + 1 \<le> room" "close_rest op cl room (level + 1) (pending ?n) = Some rest"
      using "1.prems"(9) op(2,3) by (auto split: if_splits)
    let ?s = "it\<lparr>depth := depth it + 1\<rparr>"
    have inc: "incrementDepth it = (True, ?s)" using r(1) "1.prems"(5,7) by (simp add: incrementDepth_def)
    with "1.IH"(2) [OF op(1) refl op(2,3) inc [symmetric]] r(2) "1.prems" op(1)
    have "closed op cl msg base rest (i + 1) (level + 1) ?s" by (simp add: pn)
    moreover have "level_loop op cl msg i level it = level_loop op cl msg (i + 1) (level + 1) ?s"
      using op inc by (subst level_loop.simps) (simp add: Let_def)
    ultimately show ?thesis using c(1) by (rule closed_step) simp
  next
    case cl
    note c = next_byte [OF "1.prems"(1,2) cl(1)]
    let ?s = "it\<lparr>depth := depth it - 1\<rparr>"
    have dec: "decrementDepth it = (True, ?s)" using "1.prems"(4-6) by (simp add: decrementDepth_def)
    show ?thesis
    proof (cases "level = 1")
      case True
      then have l: "level_loop op cl msg i level it = ?n\<lparr>depth := base\<rparr>"
        using cl dec "1.prems"(5) by (subst level_loop.simps) (simp add: Let_def)
      have "pending ?n = rest" using "1.prems"(9) c(2) True cl by simp
      with consumes_depth_update [OF c(1), of base] show ?thesis unfolding closed_def l by auto
    next
      case False
      then have r: "close_rest op cl room (level - 1) (pending ?n) = Some rest" using "1.prems"(9) c(2) cl by simp
      with "1.IH"(3) [OF cl(1) refl cl(2-4) dec [symmetric]] "1.prems" cl(1) False
      have "closed op cl msg base rest (i + 1) (level - 1) ?s" by (simp add: pn)
      moreover have "level_loop op cl msg i level it = level_loop op cl msg (i + 1) (level - 1) ?s"
        using cl dec False by (subst level_loop.simps) (simp add: Let_def)
      ultimately show ?thesis using c(1) by (rule closed_step) simp
    qed
  next
    case other
    note c = next_byte [OF "1.prems"(1,2) other(1)]
    then have "close_rest op cl room level (pending ?n) = Some rest" using "1.prems"(9) other(2-4) by simp
    with "1.IH"(4) [OF other(1) refl other(2-4)] "1.prems" other(1)
    have "closed op cl msg base rest (i + 1) level it" by simp
    moreover have "level_loop op cl msg i level it = level_loop op cl msg (i + 1) level it"
      using other by (subst level_loop.simps) (simp add: Let_def)
    ultimately show ?thesis using c(1) by (rule closed_step) simp
  qed
qed

section \<open>JSON\<close>

lemma hexn_str_rest: "hexn n ret cs = Some (r, rest) \<Longrightarrow> str_rest False cs = str_rest False rest"
proof (induction n ret cs rule: hexn.induct)
  case (3 n ret c cs)
  have "hex_digit ch_quote = None" "hex_digit ch_bslash = None" by code_simp+
  then have "hex_digit c \<noteq> None \<Longrightarrow> c \<noteq> ch_quote \<and> c \<noteq> ch_bslash" by auto
  with 3 show ?case by (auto split: option.splits)
qed auto

lemma raw_str_rest: "raw_str re he cs = Some (s, h, rest) \<Longrightarrow> str_rest re cs = Some rest"
proof (induction re he cs arbitrary: s h rule: raw_str.induct)
  case (3 he c cs)
  then show ?case by (auto simp: raw_prefix_def hexn_str_rest split: if_splits option.splits)
qed (auto simp: raw_prefix_def split: if_splits)

lemma string_rest: "decode_str s = Some (x, []) \<Longrightarrow> str_rest False (s @ ys) = Some ys"
proof -
  assume "decode_str s = Some (x, [])"
  from decode_str_local [OF this] have "decode_str (s @ ys) = Some (x, ys)" by auto
  from decode_str_raw [OF this, of False] show ?thesis using raw_str_rest by blast
qed

definition brackets :: "byte \<Rightarrow> byte \<Rightarrow> bool" where
  "brackets op cl \<longleftrightarrow> op = ch_lbrack \<and> cl = ch_rbrack \<or> op = ch_lbrace \<and> cl = ch_rbrace"

text \<open>A text of \<open>d\<close> levels that leaves the brackets as it found them.\<close>

definition neutral :: "byte \<Rightarrow> byte \<Rightarrow> nat \<Rightarrow> bytes \<Rightarrow> bool" where
  "neutral op cl d v \<longleftrightarrow> (\<forall>room level xs. 0 < level \<longrightarrow> level + int d \<le> room
     \<longrightarrow> close_rest op cl room level (v @ xs) = close_rest op cl room level xs)"

lemma neutral_append: "neutral op cl d u \<Longrightarrow> neutral op cl d v \<Longrightarrow> neutral op cl d (u @ v)"
  by (simp add: neutral_def)

lemma neutral_chars: "\<forall>c \<in> set v. c \<noteq> ch_quote \<and> c \<noteq> op \<and> c \<noteq> cl \<Longrightarrow> neutral op cl d v"
  by (induction v) (auto simp: neutral_def)

lemma neutral_Cons: "c \<noteq> ch_quote \<and> c \<noteq> op \<and> c \<noteq> cl \<Longrightarrow> neutral op cl d v \<Longrightarrow> neutral op cl d (c # v)"
  by (simp add: neutral_def)

lemma neutral_space: "brackets op cl \<Longrightarrow> list_all is_space w \<Longrightarrow> neutral op cl d w"
  by (rule neutral_chars) (auto simp: brackets_def list_all_iff is_space_def)

lemma neutral_string: "brackets op cl \<Longrightarrow> decode_str s = Some (x, []) \<Longrightarrow> neutral op cl d (ch_quote # s)"
  by (auto simp: neutral_def string_rest)

lemma neutral_container:
  assumes "brackets op cl" "brackets b c" "neutral op cl d body"
  shows "neutral op cl (Suc d) (b # body @ [c])"
  unfolding neutral_def
proof (intro allI impI)
  fix room level :: int and xs
  assume "0 < level" "level + int (Suc d) \<le> room"
  then have n: "close_rest op cl room level (body @ c # xs) = close_rest op cl room level (c # xs)"
    "close_rest op cl room (level + 1) (body @ c # xs) = close_rest op cl room (level + 1) (c # xs)"
    and l: "level + 1 \<le> room" "level + 1 \<noteq> 1" "level + 1 - 1 = level"
    using assms(3) [unfolded neutral_def, rule_format, of level room "c # xs"]
      assms(3) [unfolded neutral_def, rule_format, of "level + 1" room "c # xs"] by linarith+
  have q: "b \<noteq> ch_quote" "c \<noteq> ch_quote" "b = op \<longrightarrow> c = cl" "b \<noteq> op \<longrightarrow> b \<noteq> cl \<and> c \<noteq> op \<and> c \<noteq> cl" "op \<noteq> cl" "cl \<noteq> ch_quote"
    using assms(1,2) by (auto simp: brackets_def)
  show "close_rest op cl room level ((b # body @ [c]) @ xs) = close_rest op cl room level xs"
    using q n l by (cases "b = op") (simp_all del: add_diff_cancel_right')
qed

lemma closes: "brackets op cl \<Longrightarrow> neutral op cl d body \<Longrightarrow> 1 + int d \<le> room
    \<Longrightarrow> close_rest op cl room 1 (body @ cl # xs) = Some xs"
  by (auto simp: neutral_def brackets_def)

lemma neutral_elems:
  "brackets op cl \<Longrightarrow> \<forall>x \<in> set es. elem_ok (neutral op cl d) x \<Longrightarrow> neutral op cl d (elems_text es)"
proof (induction es rule: elems_text.induct)
  case (3 w e w' x xs)
  have "ch_comma \<noteq> ch_quote \<and> ch_comma \<noteq> op \<and> ch_comma \<noteq> cl" using 3(2) by (auto simp: brackets_def)
  with 3 neutral_space [OF 3(2)] show ?case by (auto simp: elem_ok_def intro!: neutral_append neutral_Cons)
qed (auto simp: elem_ok_def neutral_chars intro!: neutral_append dest: neutral_space)

lemma neutral_field: "brackets op cl \<Longrightarrow> field_ok (neutral op cl d) f \<Longrightarrow> neutral op cl d (field_text f)"
proof (cases f)
  case (fields w1 k w2 w3 v w4)
  assume a: "brackets op cl" "field_ok (neutral op cl d) f"
  then obtain x where "decode_str k = Some (x, [])" using fields by auto
  then have "neutral op cl d (ch_quote # k)" by (rule neutral_string [OF a(1)])
  moreover have "neutral op cl d w1" "neutral op cl d w2" "neutral op cl d w3" "neutral op cl d w4" "neutral op cl d v"
    using a(2) neutral_space [OF a(1)] unfolding fields by (simp_all add: elem_ok_def)
  moreover have "neutral op cl d [ch_colon]" using a(1) by (auto simp: brackets_def intro!: neutral_chars)
  ultimately have "neutral op cl d (w1 @ (ch_quote # k) @ w2 @ [ch_colon] @ w3 @ v @ w4)" by (intro neutral_append)
  with fields show ?thesis by simp
qed

lemma neutral_fields:
  "brackets op cl \<Longrightarrow> \<forall>f \<in> set fs. field_ok (neutral op cl d) f \<Longrightarrow> neutral op cl d (fields_text fs)"
proof (induction fs rule: fields_text.induct)
  case (3 f g fs)
  have "ch_comma \<noteq> ch_quote \<and> ch_comma \<noteq> op \<and> ch_comma \<noteq> cl" using 3(2) by (auto simp: brackets_def)
  with 3 neutral_field [OF 3(2)] show ?case by (simp add: neutral_append neutral_Cons)
qed (auto simp: neutral_chars intro: neutral_field)

lemma number_neutral:
  assumes "number_token v"
  shows "\<forall>c \<in> set v. number_char c"
proof -
  from assms obtain neg ip fp where v: "v = (if neg then [ch_minus] else []) @ num_text ip fp" "num_ok ip fp"
    by (auto simp: number_token_def)
  have "\<forall>c \<in> set ip \<union> set fp. number_char c" using v(2) digit_number_char unfolding num_ok_def list_all_iff by blast
  moreover have "number_char ch_minus" "number_char ch_dot" by (simp_all add: number_char_def)
  ultimately show ?thesis by (simp add: v(1) num_text_def ball_Un)
qed

lemma number_char_other: "number_char c \<Longrightarrow> \<not> number_end c \<and> c \<noteq> ch_quote \<and> c \<noteq> ch_lbrack \<and> c \<noteq> ch_rbrack \<and> c \<noteq> ch_lbrace \<and> c \<noteq> ch_rbrace"
  by (auto simp: number_char_def number_end_def is_digit_def)

lemma json_neutral: "json d v \<Longrightarrow> brackets op cl \<Longrightarrow> neutral op cl d v"
proof (induction rule: json.induct)
  case (json_number v d)
  with number_neutral [OF json_number(1)] number_char_other show ?case
    by (intro neutral_chars) (fastforce simp: brackets_def)
next
  case (json_array es d)
  then have "\<forall>x \<in> set es. elem_ok (neutral op cl d) x" by (auto simp: elem_ok_def)
  from neutral_container [OF json_array(3) _ neutral_elems [OF json_array(3) this], of ch_lbrack ch_rbrack]
  show ?case by (simp add: brackets_def)
next
  case (json_object fs d)
  then have "\<forall>f \<in> set fs. field_ok (neutral op cl d) f" by (auto simp: elem_ok_def)
  from neutral_container [OF json_object(3) _ neutral_fields [OF json_object(3) this], of ch_lbrace ch_rbrace]
  show ?case by (simp add: brackets_def)
next
  case (json_string s x d)
  then show ?case by (simp add: neutral_string)
next
  case (json_array0 w d)
  then show ?case by (intro neutral_container neutral_space) (simp_all add: brackets_def)
next
  case (json_object0 w d)
  then show ?case by (intro neutral_container neutral_space) (simp_all add: brackets_def)
qed (auto simp: brackets_def intro!: neutral_chars)

section \<open>Skipping values\<close>

text \<open>Both variants of \<open>Skip\<close> treat these first bytes alike.\<close>

lemma same_Skip: "nextToken it = (c, it1) \<Longrightarrow> c \<in> {ch_n, ch_t, ch_f, ch_0} \<Longrightarrow> Skip (Suc n) it = Some (sloppy_Skip it)"
  by (auto simp: sloppy_Skip_def)

lemma sloppy_container:
  assumes "brackets op cl" "neutral op cl d body" "wf_iter it" "depth it + int (Suc d) \<le> maxDepth" "0 \<le> depth it"
    "list_all is_space ws" "pending it = ws @ (op # body @ [cl]) @ t # rest"
  shows "consumes it (ws @ op # body @ [cl]) (sloppy_Skip it) \<and> pending (sloppy_Skip it) = t # rest"
proof -
  have nsp: "\<not> is_space op" using assms(1) by (auto simp: brackets_def is_space_def)
  obtain it1 where 1: "nextToken it = (op, it1)" "consumes it (ws @ [op]) it1" "pending it1 = body @ cl # t # rest"
    using nextToken_at [OF assms(3,6) _ nsp, of "body @ cl # t # rest"] assms(7) by auto
  note s1 = consumes_same [OF 1(2)]
  let ?s = "it1\<lparr>depth := depth it1 + 1\<rparr>"
  have inc: "incrementDepth it1 = (True, ?s)" using s1 assms(4) by (simp add: incrementDepth_def)
  define msg where "msg = (if op = ch_lbrack then ''incomplete array'' else ''incomplete object'')"
  have sk: "sloppy_Skip it = level_loop op cl msg (head it1) 1 ?s"
    using assms(1) 1(1) inc unfolding brackets_def
    by (elim disjE conjE) (simp_all add: msg_def sloppy_Skip_def sloppy_skipArray_def sloppy_skipObject_def is_digit_def)
  have "pending (?s\<lparr>head := head it1\<rparr>) = body @ cl # t # rest" using 1(3) by (simp add: pending_def rest_bytes_def)
  with closes [OF assms(1,2), of "int (Suc d)" "t # rest"]
  have cl: "close_rest op cl (int (Suc d)) 1 (pending (?s\<lparr>head := head it1\<rparr>)) = Some (t # rest)" by simp
  have "head it1 \<le> tail it1" "wf_iter ?s" "op \<noteq> cl" "0 \<le> depth it1" "depth it1 + int (Suc d) \<le> maxDepth"
    using s1 assms(1,4,5) by (auto simp: wf_iter_def brackets_def)
  with level_loop_reads [OF _ _ _ _ _ _ _ _ cl, of "depth it1" msg] obtain xs where
    x: "consumes it1 xs (sloppy_Skip it)" "pending (sloppy_Skip it) = t # rest" unfolding sk closed_def by auto
  from consumes_pending [OF x(1)] 1(3) x(2) have "xs = body @ [cl]" by simp
  with consumes_trans [OF 1(2) x(1)] x(2) show ?thesis by simp
qed

lemma sloppy_Skip_json:
  assumes "json d v" "wf_iter it" "Error it = None" "0 \<le> depth it" "depth it + int d \<le> maxDepth"
    "list_all is_space ws" "pending it = ws @ v @ t # rest" "number_end t"
  shows "consumes it (ws @ v) (sloppy_Skip it) \<and> pending (sloppy_Skip it) = t # rest"
proof -
  obtain h r where v: "v = h # r" "\<not> is_space h" using json_head [OF assms(1)] by (cases v) auto
  obtain it1 where 1: "nextToken it = (h, it1)" "consumes it (ws @ [h]) it1" "pending it1 = r @ t # rest"
    using nextToken_at [OF assms(2,6) _ v(2), of "r @ t # rest"] assms(7) v(1) by auto
  have t: "\<not> number_char t" using assms(8) number_char_other by blast
  have plain: ?thesis if "h \<in> {ch_n, ch_t, ch_f, ch_0}"
    using json_skips [OF assms(1), unfolded skips_def, rule_format, of "Suc (length v)" it ws t rest] assms(2-7) t same_Skip [OF 1(1) that] by auto
  show ?thesis using assms(1)
  proof (cases rule: json.cases)
    case json_number
    show ?thesis
    proof (cases "h = ch_0")
      case False
      from number_neutral [OF json_number] v(1) number_char_other have "\<forall>c \<in> set r. \<not> number_end c" by auto
      from sloppy_skipNumber_reads [OF consumes_wf [OF 1(2)] 1(3) this assms(8)]
      have n: "consumes it1 r (sloppy_skipNumber it1)" "pending (sloppy_skipNumber it1) = t # rest" by auto
      have "h = ch_minus \<or> is_digit h" using number_token_head [OF json_number] v(1) by auto
      with False have "sloppy_Skip it = sloppy_skipNumber it1" using 1(1) by (auto simp: sloppy_Skip_def is_digit_def)
      with n consumes_trans [OF 1(2) n(1)] v(1) show ?thesis by simp
    qed (use plain in simp)
  next
    case (json_string s x)
    then have h: "h = ch_quote" "r = s" using v(1) by auto
    from sloppy_skipString_reads [OF consumes_wf [OF 1(2)], of "t # rest"] string_rest [OF json_string(2), of "t # rest"] 1(3) h
    obtain xs where x: "consumes it1 xs (sloppy_skipString it1)" "pending (sloppy_skipString it1) = t # rest" by auto
    from consumes_pending [OF x(1)] 1(3) x(2) have "xs = r" by simp
    with consumes_trans [OF 1(2) x(1)] x(2) 1(1) h v(1) show ?thesis by (simp add: sloppy_Skip_def)
  next
    case (json_array0 w m)
    with sloppy_container [of ch_lbrack ch_rbrack m w it ws t rest] neutral_space assms show ?thesis by (simp add: brackets_def)
  next
    case (json_object0 w m)
    with sloppy_container [of ch_lbrace ch_rbrace m w it ws t rest] neutral_space assms show ?thesis by (simp add: brackets_def)
  next
    case (json_array es m)
    then have "neutral ch_lbrack ch_rbrack m (elems_text es)"
      by (intro neutral_elems) (auto simp: brackets_def elem_ok_def json_neutral)
    from sloppy_container [OF _ this, of it ws t rest] json_array assms show ?thesis by (simp add: brackets_def)
  next
    case (json_object fs m)
    then have "neutral ch_lbrace ch_rbrace m (fields_text fs)"
      by (intro neutral_fields) (auto simp: brackets_def elem_ok_def json_neutral)
    from sloppy_container [OF _ this, of it ws t rest] json_object assms show ?thesis by (simp add: brackets_def)
  qed (use plain v in simp_all)
qed

section \<open>Properties\<close>

text \<open>C7: on a JSON value, followed by white space, a comma or a closing bracket, the two variants of \<open>Skip\<close> agree:
  both return without error right behind the value, whatever the buffering.\<close>

theorem sloppy_Skip_agrees:
  assumes "json d v" "length v < n" "wf_iter it" "Error it = None" "0 \<le> depth it" "depth it + int d \<le> maxDepth"
    and "list_all is_space ws" "pending it = ws @ v @ t # rest" "number_end t"
  shows "\<exists>it1. Skip n it = Some it1 \<and> consumes it (ws @ v) it1 \<and> pending it1 = t # rest
    \<and> consumes it (ws @ v) (sloppy_Skip it) \<and> pending (sloppy_Skip it) = t # rest"
proof -
  have "\<not> number_char t" using assms(9) number_char_other by blast
  from Skip_value [OF assms(1-8) this] sloppy_Skip_json [OF assms(1,3-9)] show ?thesis by blast
qed

text \<open>What the sloppy variant accepts beyond: anything with matching brackets of the outer kind.\<close>

lemma sloppy_Skip_accepts:
  "Error (sloppy_Skip (ParseBytes ConfigDefault (map of_char ''[1 2}x],''))) = None
    \<and> map_option failed (Skip 9 (ParseBytes ConfigDefault (map of_char ''[1 2}x],''))) = Some True"
  by (intro conjI; code_simp)

section \<open>Witnesses\<close>

theorem sloppy_Skip_agrees_witness:
  "\<exists>it1. Skip 20 (ParseBytes ConfigDefault (map of_char '' [1, null] '')) = Some it1
    \<and> consumes (ParseBytes ConfigDefault (map of_char '' [1, null] '')) ([0x20] @ map of_char ''[1, null]'') it1
    \<and> pending it1 = 0x20 # []
    \<and> consumes (ParseBytes ConfigDefault (map of_char '' [1, null] '')) ([0x20] @ map of_char ''[1, null]'')
        (sloppy_Skip (ParseBytes ConfigDefault (map of_char '' [1, null] '')))
    \<and> pending (sloppy_Skip (ParseBytes ConfigDefault (map of_char '' [1, null] ''))) = 0x20 # []"
  by (rule sloppy_Skip_agrees [OF sample_json]) code_simp+

end
