(* ===== verification/StreamCore.thy ===== *)
theory StreamCore
  imports Iter
begin

text \<open>
  \<open>stream.go\<close> and \<open>pool.go\<close>: the output stream, which appends to a buffer and hands the
  buffer to an \<open>io.Writer\<close>, and the pools that recycle streams and iterators.

  A writer is a script of its next results (after which it accepts everything): \<open>Inl\<close> the
  number of bytes a short write takes and its error, \<open>Inr\<close> the error, if any, of a call that
  takes all bytes; \<open>sink\<close> holds what it has accepted. This is the contract of \<open>io.Writer\<close>: a
  short write has an error. The capacity of the buffer, which only \<open>Available\<close> shows, is not
  a field.
\<close>

section \<open>The stream\<close>

record writer =
  sink :: bytes
  script :: "(nat \<times> go_error + go_error option) list"

record stream =
  s_cfg :: frozenConfig
  s_out :: "writer option"
  s_buf :: bytes
  s_Error :: "go_error option"
  indention :: int

text \<open>One call of the writer: the number of bytes taken, the error, the writer afterwards.\<close>

definition writer_Write :: "bytes \<Rightarrow> writer \<Rightarrow> nat \<times> go_error option \<times> writer" where
  "writer_Write p w =
     (case script w of
        [] \<Rightarrow> (length p, None, w\<lparr>sink := sink w @ p\<rparr>)
      | Inr e # r \<Rightarrow> (length p, e, w\<lparr>sink := sink w @ p, script := r\<rparr>)
      | Inl (n, e) # r \<Rightarrow>
          (min n (length p), Some e, w\<lparr>sink := sink w @ take n p, script := r\<rparr>))"

definition NewStream :: "frozenConfig \<Rightarrow> writer option \<Rightarrow> stream" where
  "NewStream c out = \<lparr>s_cfg = c, s_out = out, s_buf = [], s_Error = None, indention = 0\<rparr>"

definition Stream_Reset :: "writer option \<Rightarrow> stream \<Rightarrow> stream" where
  "Stream_Reset out s = s\<lparr>s_out := out, s_buf := []\<rparr>"

definition Stream_Buffered :: "stream \<Rightarrow> int" where
  "Stream_Buffered s = int (length (s_buf s))"

definition Stream_Buffer :: "stream \<Rightarrow> bytes" where
  "Stream_Buffer s = s_buf s"

definition SetBuffer :: "bytes \<Rightarrow> stream \<Rightarrow> stream" where
  "SetBuffer b s = s\<lparr>s_buf := b\<rparr>"

definition Stream_Write :: "bytes \<Rightarrow> stream \<Rightarrow> (int \<times> go_error option) \<times> stream" where
  "Stream_Write p s =
     (let b = s_buf s @ p in
      case s_out s of
        None \<Rightarrow> ((int (length p), None), s\<lparr>s_buf := b\<rparr>)
      | Some w \<Rightarrow>
          (case writer_Write b w of (nn, err, w') \<Rightarrow>
             ((int nn, err), s\<lparr>s_buf := drop nn b, s_out := Some w'\<rparr>)))"

definition writeByte :: "byte \<Rightarrow> stream \<Rightarrow> stream" where
  "writeByte c s = s\<lparr>s_buf := s_buf s @ [c]\<rparr>"

definition writeTwoBytes :: "byte \<Rightarrow> byte \<Rightarrow> stream \<Rightarrow> stream" where
  "writeTwoBytes c1 c2 s = s\<lparr>s_buf := s_buf s @ [c1, c2]\<rparr>"

definition writeThreeBytes :: "byte \<Rightarrow> byte \<Rightarrow> byte \<Rightarrow> stream \<Rightarrow> stream" where
  "writeThreeBytes c1 c2 c3 s = s\<lparr>s_buf := s_buf s @ [c1, c2, c3]\<rparr>"

definition writeFourBytes :: "byte \<Rightarrow> byte \<Rightarrow> byte \<Rightarrow> byte \<Rightarrow> stream \<Rightarrow> stream" where
  "writeFourBytes c1 c2 c3 c4 s = s\<lparr>s_buf := s_buf s @ [c1, c2, c3, c4]\<rparr>"

definition writeFiveBytes :: "byte \<Rightarrow> byte \<Rightarrow> byte \<Rightarrow> byte \<Rightarrow> byte \<Rightarrow> stream \<Rightarrow> stream" where
  "writeFiveBytes c1 c2 c3 c4 c5 s = s\<lparr>s_buf := s_buf s @ [c1, c2, c3, c4, c5]\<rparr>"

text \<open>The error of \<open>Flush\<close> and the stream afterwards; after a failed write the buffer is kept.\<close>

definition Flush :: "stream \<Rightarrow> go_error option \<times> stream" where
  "Flush s =
     (case s_out s of
        None \<Rightarrow> (None, s)
      | Some w \<Rightarrow>
          if s_Error s \<noteq> None then (s_Error s, s)
          else
            (case writer_Write (s_buf s) w of (nn, err, w') \<Rightarrow>
               if err \<noteq> None then (err, s\<lparr>s_out := Some w', s_Error := err\<rparr>)
               else (None, s\<lparr>s_out := Some w', s_buf := []\<rparr>)))"

definition WriteRaw :: "bytes \<Rightarrow> stream \<Rightarrow> stream" where
  "WriteRaw b s = s\<lparr>s_buf := s_buf s @ b\<rparr>"

definition WriteNil :: "stream \<Rightarrow> stream" where
  "WriteNil = writeFourBytes ch_n ch_u ch_l ch_l"

definition WriteTrue :: "stream \<Rightarrow> stream" where
  "WriteTrue = writeFourBytes ch_t ch_r ch_u ch_e"

definition WriteFalse :: "stream \<Rightarrow> stream" where
  "WriteFalse = writeFiveBytes ch_f ch_a ch_l ch_s ch_e"

definition WriteBool :: "bool \<Rightarrow> stream \<Rightarrow> stream" where
  "WriteBool val s = (if val then WriteTrue s else WriteFalse s)"

section \<open>Arrays, objects and indention\<close>

definition writeIndention :: "int \<Rightarrow> stream \<Rightarrow> stream" where
  "writeIndention delta s =
     (if indention s = 0 then s
      else (let s1 = writeByte ch_nl s; toWrite = indention s1 - delta in
            s1\<lparr>s_buf := s_buf s1 @ replicate (nat toWrite) ch_space\<rparr>))"

definition WriteObjectStart :: "stream \<Rightarrow> stream" where
  "WriteObjectStart s =
     writeIndention 0 (writeByte ch_lbrace (s\<lparr>indention := indention s + indentionStep (s_cfg s)\<rparr>))"

text \<open>The second half of \<open>WriteObjectField\<close>, behind the field's name.\<close>

definition object_colon :: "stream \<Rightarrow> stream" where
  "object_colon s = (if indention s > 0 then writeTwoBytes ch_colon ch_space s else writeByte ch_colon s)"

definition WriteObjectEnd :: "stream \<Rightarrow> stream" where
  "WriteObjectEnd s =
     (let s1 = writeIndention (indentionStep (s_cfg s)) s in
      writeByte ch_rbrace (s1\<lparr>indention := indention s1 - indentionStep (s_cfg s1)\<rparr>))"

definition WriteEmptyObject :: "stream \<Rightarrow> stream" where
  "WriteEmptyObject s = writeByte ch_rbrace (writeByte ch_lbrace s)"

definition WriteMore :: "stream \<Rightarrow> stream" where
  "WriteMore s = writeIndention 0 (writeByte ch_comma s)"

definition WriteArrayStart :: "stream \<Rightarrow> stream" where
  "WriteArrayStart s =
     writeIndention 0 (writeByte ch_lbrack (s\<lparr>indention := indention s + indentionStep (s_cfg s)\<rparr>))"

definition WriteEmptyArray :: "stream \<Rightarrow> stream" where
  "WriteEmptyArray = writeTwoBytes ch_lbrack ch_rbrack"

definition WriteArrayEnd :: "stream \<Rightarrow> stream" where
  "WriteArrayEnd s =
     (let s1 = writeIndention (indentionStep (s_cfg s)) s in
      writeByte ch_rbrack (s1\<lparr>indention := indention s1 - indentionStep (s_cfg s1)\<rparr>))"

section \<open>The pools\<close>

text \<open>\<open>sync.Pool\<close> hands out any object put back earlier, or a new one: the first argument of the
  borrowing functions is the one it hands out.\<close>

definition BorrowStream :: "stream \<Rightarrow> writer option \<Rightarrow> stream" where
  "BorrowStream pooled w = Stream_Reset w pooled"

definition ReturnStream :: "stream \<Rightarrow> stream" where
  "ReturnStream s = s\<lparr>s_out := None, s_Error := None\<rparr>"

definition BorrowIterator :: "iterator \<Rightarrow> bytes \<Rightarrow> iterator" where
  "BorrowIterator pooled data = ResetBytes data pooled"

definition ReturnIterator :: "iterator \<Rightarrow> iterator" where
  "ReturnIterator it = it\<lparr>Error := None\<rparr>"

section \<open>What the operations append\<close>

text \<open>\<open>adds b s\<close> is \<open>s\<close> with \<open>b\<close> behind its buffer.\<close>

definition adds :: "bytes \<Rightarrow> stream \<Rightarrow> stream" where
  "adds b s = s\<lparr>s_buf := s_buf s @ b\<rparr>"

lemma adds_simps [simp]:
  "s_buf (adds b s) = s_buf s @ b" "s_cfg (adds b s) = s_cfg s" "s_out (adds b s) = s_out s"
  "s_Error (adds b s) = s_Error s" "indention (adds b s) = indention s"
  "adds c (adds b s) = adds (b @ c) s" "adds [] s = s"
  by (simp_all add: adds_def)

named_theorems stream_adds \<open>the writing operations as \<open>adds\<close>\<close>

lemma write_adds [stream_adds]:
  "writeByte c1 = adds [c1]" "writeTwoBytes c1 c2 = adds [c1, c2]" "writeThreeBytes c1 c2 c3 = adds [c1, c2, c3]"
  "writeFourBytes c1 c2 c3 c4 = adds [c1, c2, c3, c4]" "writeFiveBytes c1 c2 c3 c4 c5 = adds [c1, c2, c3, c4, c5]"
  "WriteRaw b = adds b"
  by (simp_all add: writeByte_def writeTwoBytes_def writeThreeBytes_def writeFourBytes_def writeFiveBytes_def
      WriteRaw_def adds_def fun_eq_iff)

lemma write_literals [stream_adds]:
  "WriteNil = adds [ch_n, ch_u, ch_l, ch_l]"
  "WriteBool v = adds (if v then [ch_t, ch_r, ch_u, ch_e] else [ch_f, ch_a, ch_l, ch_s, ch_e])"
  "WriteEmptyArray = adds [ch_lbrack, ch_rbrack]" "WriteEmptyObject = adds [ch_lbrace, ch_rbrace]"
  by (simp_all add: WriteNil_def WriteBool_def WriteTrue_def WriteFalse_def WriteEmptyArray_def
      WriteEmptyObject_def stream_adds fun_eq_iff)

text \<open>The line break and the blanks in front of an element at indention \<open>n\<close>.\<close>

definition blanks :: "int \<Rightarrow> int \<Rightarrow> bytes" where
  "blanks n delta = (if n = 0 then [] else ch_nl # replicate (nat (n - delta)) ch_space)"

lemma blanks_space [simp]: "list_all is_space (blanks n d)"
  by (auto simp: blanks_def is_space_def list_all_iff)

lemma writeIndention_adds [stream_adds]: "writeIndention d s = adds (blanks (indention s) d) s"
  by (simp add: writeIndention_def blanks_def stream_adds Let_def adds_def)

lemma adds_indention: "adds b (s\<lparr>indention := i\<rparr>) = (adds b s)\<lparr>indention := i\<rparr>"
  by (simp add: adds_def)

lemma container_adds [stream_adds]:
  "WriteArrayStart s = adds (ch_lbrack # blanks (indention s + indentionStep (s_cfg s)) 0)
     (s\<lparr>indention := indention s + indentionStep (s_cfg s)\<rparr>)"
  "WriteArrayEnd s = adds (blanks (indention s) (indentionStep (s_cfg s)) @ [ch_rbrack])
     (s\<lparr>indention := indention s - indentionStep (s_cfg s)\<rparr>)"
  "WriteObjectStart s = adds (ch_lbrace # blanks (indention s + indentionStep (s_cfg s)) 0)
     (s\<lparr>indention := indention s + indentionStep (s_cfg s)\<rparr>)"
  "WriteObjectEnd s = adds (blanks (indention s) (indentionStep (s_cfg s)) @ [ch_rbrace])
     (s\<lparr>indention := indention s - indentionStep (s_cfg s)\<rparr>)"
  "WriteMore s = adds (ch_comma # blanks (indention s) 0) s"
  "object_colon s = adds (if indention s > 0 then [ch_colon, ch_space] else [ch_colon]) s"
  by (simp_all add: WriteArrayStart_def WriteArrayEnd_def WriteObjectStart_def WriteObjectEnd_def WriteMore_def
      object_colon_def stream_adds Let_def adds_def)

section \<open>Properties\<close>

text \<open>All bytes given to the stream so far: what the writer has accepted, then the buffer.\<close>

definition delivered :: "stream \<Rightarrow> bytes" where
  "delivered s = (case s_out s of None \<Rightarrow> [] | Some w \<Rightarrow> sink w) @ s_buf s"

lemma writer_Write_takes:
  "writer_Write b w = (nn, err, w') \<Longrightarrow> nn \<le> length b \<and> sink w' = sink w @ take nn b \<and> (err = None \<longrightarrow> nn = length b)"
  by (auto simp: writer_Write_def min_def split: list.splits sum.splits prod.splits)


text \<open>The count that \<open>Write\<close> returns is that of the whole buffer, not of its argument, and
  the error of the writer is not kept in the stream.\<close>

lemma Write_counts_the_buffer:
  "(let s = writeByte 1 (NewStream ConfigDefault (Some \<lparr>sink = [], script = []\<rparr>)) in
     fst (Stream_Write [2] s) = (2, None))
   \<and> (let s = NewStream ConfigDefault (Some \<lparr>sink = [], script = [Inl (0, LibErr ''closed'')]\<rparr>) in
     fst (Stream_Write [2] s) = (0, Some (LibErr ''closed'')) \<and> s_Error (snd (Stream_Write [2] s)) = None)"
  by code_simp


end
