(* ===== verification/StreamInt.thy ===== *)
theory StreamInt
  imports StreamCore IterInt
begin

text \<open>
  \<open>stream_int.go\<close>: integers are written three digits at a time, from a table of packed digits.
  The lemmas show that every writer appends the decimal numeral of its argument.
\<close>

section \<open>The table of digits\<close>

definition digits_entry :: "u32 \<Rightarrow> u32" where
  "digits_entry i =
     (let d = push_bit 16 (i div 100 + 0x30) + push_bit 8 ((i div 10) mod 10 + 0x30) + i mod 10 + 0x30 in
      if i < 10 then d + push_bit 24 2 else if i < 100 then d + push_bit 24 1 else d)"

definition digits :: "u32 list" where
  "digits = map (\<lambda>i. digits_entry (of_nat i)) [0..<1000]"

definition writeFirstBuf :: "bytes \<Rightarrow> u32 \<Rightarrow> bytes" where
  "writeFirstBuf space v =
     (let start = drop_bit 24 v;
          space = (if start = 0 then space @ [ucast (drop_bit 16 v), ucast (drop_bit 8 v)]
                   else if start = 1 then space @ [ucast (drop_bit 8 v)] else space)
      in space @ [ucast v])"

definition writeBuf :: "bytes \<Rightarrow> u32 \<Rightarrow> bytes" where
  "writeBuf b v = b @ [ucast (drop_bit 16 v), ucast (drop_bit 8 v), ucast v]"

text \<open>\<open>digits[val]\<close>, for an index of any width, written by the two functions.\<close>

definition put_first :: "'a::len word \<Rightarrow> stream \<Rightarrow> stream" where
  "put_first v s = s\<lparr>s_buf := writeFirstBuf (s_buf s) (byte_at digits (uint v))\<rparr>"

definition put_three :: "'a::len word \<Rightarrow> stream \<Rightarrow> stream" where
  "put_three v s = s\<lparr>s_buf := writeBuf (s_buf s) (byte_at digits (uint v))\<rparr>"

section \<open>Writers\<close>

definition WriteUint8 :: "8 word \<Rightarrow> stream \<Rightarrow> stream" where
  "WriteUint8 val s = put_first val s"

definition WriteUint16 :: "u16 \<Rightarrow> stream \<Rightarrow> stream" where
  "WriteUint16 val s =
     (let q1 = val div 1000 in
      if q1 = 0 then put_first val s
      else let r1 = val - q1 * 1000 in put_three r1 (put_first q1 s))"

definition WriteUint32 :: "u32 \<Rightarrow> stream \<Rightarrow> stream" where
  "WriteUint32 val s =
     (let q1 = val div 1000 in
      if q1 = 0 then put_first val s else
      let r1 = val - q1 * 1000; q2 = q1 div 1000 in
      if q2 = 0 then put_three r1 (put_first q1 s) else
      let r2 = q1 - q2 * 1000; q3 = q2 div 1000;
          s1 = (if q3 = 0 then put_first q2 s
                else let r3 = q2 - q3 * 1000 in
                     put_three r3 (s\<lparr>s_buf := s_buf s @ [ucast (q3 + 0x30)]\<rparr>))
      in put_three r1 (put_three r2 s1))"

definition WriteUint64 :: "u64 \<Rightarrow> stream \<Rightarrow> stream" where
  "WriteUint64 val s =
     (let q1 = val div 1000 in
      if q1 = 0 then put_first val s else
      let r1 = val - q1 * 1000; q2 = q1 div 1000 in
      if q2 = 0 then put_three r1 (put_first q1 s) else
      let r2 = q1 - q2 * 1000; q3 = q2 div 1000 in
      if q3 = 0 then put_three r1 (put_three r2 (put_first q2 s)) else
      let r3 = q2 - q3 * 1000; q4 = q3 div 1000 in
      if q4 = 0 then put_three r1 (put_three r2 (put_three r3 (put_first q3 s))) else
      let r4 = q3 - q4 * 1000; q5 = q4 div 1000 in
      if q5 = 0 then put_three r1 (put_three r2 (put_three r3 (put_three r4 (put_first q4 s)))) else
      let r5 = q4 - q5 * 1000; q6 = q5 div 1000;
          s1 = (if q6 = 0 then put_first q5 s
                else let r6 = q5 - q6 * 1000 in put_three r6 (put_first q6 s))
      in put_three r1 (put_three r2 (put_three r3 (put_three r4 (put_three r5 s1)))))"

text \<open>The signed writers: a minus sign and the magnitude, where the smallest number is its own
  negation.\<close>

definition WriteInt8 :: "8 word \<Rightarrow> stream \<Rightarrow> stream" where
  "WriteInt8 nval s =
     (if sint nval < 0 then put_first (- nval) (s\<lparr>s_buf := s_buf s @ [ch_minus]\<rparr>) else put_first nval s)"

definition WriteInt16 :: "u16 \<Rightarrow> stream \<Rightarrow> stream" where
  "WriteInt16 nval s =
     (if sint nval < 0 then WriteUint16 (- nval) (s\<lparr>s_buf := s_buf s @ [ch_minus]\<rparr>) else WriteUint16 nval s)"

definition WriteInt32 :: "u32 \<Rightarrow> stream \<Rightarrow> stream" where
  "WriteInt32 nval s =
     (if sint nval < 0 then WriteUint32 (- nval) (s\<lparr>s_buf := s_buf s @ [ch_minus]\<rparr>) else WriteUint32 nval s)"

definition WriteInt64 :: "u64 \<Rightarrow> stream \<Rightarrow> stream" where
  "WriteInt64 nval s =
     (if sint nval < 0 then WriteUint64 (- nval) (s\<lparr>s_buf := s_buf s @ [ch_minus]\<rparr>) else WriteUint64 nval s)"

text \<open>\<open>int\<close> and \<open>uint\<close> have 64 bits.\<close>

definition WriteInt :: "u64 \<Rightarrow> stream \<Rightarrow> stream" where
  "WriteInt = WriteInt64"

definition WriteUint :: "u64 \<Rightarrow> stream \<Rightarrow> stream" where
  "WriteUint = WriteUint64"

section \<open>The digits written\<close>

definition three_digits :: "nat \<Rightarrow> bytes" where
  "three_digits n = [ch_0 + of_nat (n div 100), ch_0 + of_nat (n div 10 mod 10), ch_0 + of_nat (n mod 10)]"

lemma dec_bytes_small: "n < 10 \<Longrightarrow> dec_bytes n = [ch_0 + of_nat n]"
  by (subst dec_bytes.simps) simp

lemma dec_bytes_three:
  assumes "n < 1000"
  shows "dec_bytes n = (if n < 10 then drop 2 (three_digits n)
     else if n < 100 then drop 1 (three_digits n) else three_digits n)"
proof -
  have d: "n div 100 < 10" "n < 100 \<longleftrightarrow> n div 10 < 10" "n div 10 div 10 = n div 100"
    using assms by (auto simp: div_mult2_eq [symmetric])
  have e: "dec_bytes (n div 100) = [ch_0 + of_nat (n div 100)]" using d(1) by (simp add: dec_bytes.simps)
  have "dec_bytes (n div 10) = (if n < 100 then [] else [ch_0 + of_nat (n div 100)]) @ [ch_0 + of_nat (n div 10 mod 10)]"
    using d e by (subst dec_bytes.simps) simp
  then show ?thesis by (subst dec_bytes.simps) (auto simp: three_digits_def)
qed

lemma dec_bytes_step: "1000 \<le> n \<Longrightarrow> dec_bytes n = dec_bytes (n div 1000) @ three_digits (n mod 1000)"
proof -
  assume n: "1000 \<le> n"
  have d: "dec_bytes n = dec_bytes (n div 10) @ [ch_0 + of_nat (n mod 10)]"
    "dec_bytes (n div 10) = dec_bytes (n div 100) @ [ch_0 + of_nat (n div 10 mod 10)]"
    "dec_bytes (n div 100) = dec_bytes (n div 1000) @ [ch_0 + of_nat (n div 100 mod 10)]"
    using n dec_bytes.simps [of n] dec_bytes.simps [of "n div 10"] dec_bytes.simps [of "n div 100"]
    by (auto simp: div_mult2_eq [symmetric])
  have "n mod 1000 = 100 * (n div 100 mod 10) + n mod 100" "n mod 1000 = 10 * (n div 10 mod 100) + n mod 10"
    using mod_mult2_eq [of n 100 10] mod_mult2_eq [of n 10 100] by simp_all
  then have m: "n mod 1000 div 100 = n div 100 mod 10" "n mod 1000 div 10 = n div 10 mod 100" by linarith+
  have r: "n div 10 mod 100 mod 10 = n div 10 mod 10" "n mod 1000 mod 10 = n mod 10"
    by (simp_all add: mod_mod_cancel)
  show ?thesis unfolding three_digits_def m r by (subst d(1), subst d(2), subst d(3)) (simp only: append_assoc append.simps)
qed

definition packed :: "nat \<Rightarrow> nat" where
  "packed n = (n div 100 + 48) * 65536 + (n div 10 mod 10 + 48) * 256 + (n mod 10 + 48)
     + (if n < 10 then 2 else if n < 100 then 1 else 0) * 16777216"

lemma word_small: "n < 1000 \<Longrightarrow> (of_nat n :: u32) div 100 = of_nat (n div 100)"
  "n < 1000 \<Longrightarrow> (of_nat n :: u32) div 10 mod 10 = of_nat (n div 10 mod 10)"
  "n < 1000 \<Longrightarrow> (of_nat n :: u32) mod 10 = of_nat (n mod 10)"
  "n < 1000 \<Longrightarrow> k < 1000 \<Longrightarrow> (of_nat n :: u32) < of_nat k \<longleftrightarrow> n < k"
  by (simp_all add: word_unat_eq_iff unat_div unat_mod unat_of_nat word_less_nat_alt)

lemma digits_packed: "n < 1000 \<Longrightarrow> digits_entry (of_nat n) = of_nat (packed n)"
  using word_small(4) [of n 10] word_small(4) [of n 100]
  by (simp add: digits_entry_def packed_def word_small push_bit_eq_mult Let_def algebra_simps)

lemma packed_bytes:
  assumes "n < 1000"
  defines "v \<equiv> (of_nat (packed n) :: u32)"
  shows "(ucast (drop_bit 16 v) :: byte) = ch_0 + of_nat (n div 100)"
    "(ucast (drop_bit 8 v) :: byte) = ch_0 + of_nat (n div 10 mod 10)"
    "(ucast v :: byte) = ch_0 + of_nat (n mod 10)"
    "drop_bit 24 v = (if n < 10 then 2 else if n < 100 then 1 else 0)"
proof -
  define s :: nat where "s = (if n < 10 then 2 else if n < 100 then 1 else 0)"
  define h m l where "h = n div 100 + 48" and "m = n div 10 mod 10 + 48" and "l = n mod 10 + 48"
  have b: "h < 256" "m < 256" "l < 256" "s \<le> 2" using assms(1) by (auto simp: h_def m_def l_def s_def)
  have p: "packed n = l + 256 * (m + 256 * (h + 256 * s))"
    by (simp add: packed_def h_def m_def l_def s_def)
  have d: "packed n div 2 ^ 8 = m + 256 * (h + 256 * s)" "packed n div 2 ^ 16 = h + 256 * s" "packed n div 2 ^ 24 = s"
    using b p by auto
  have lt: "packed n < 2 ^ 32" using b p by simp
  have u: "unat v = packed n" using lt by (simp add: v_def unat_of_nat)
  have z: "(of_nat 256 :: byte) = 0" by (rule word_uint_eqI) simp
  have m256: "(of_nat (k + 256 * q) :: byte) = of_nat k" for k q
    by (simp only: of_nat_add of_nat_mult z mult_zero_left add_0_right)
  have h: "(of_nat h :: byte) = ch_0 + of_nat (n div 100)" and m: "(of_nat m :: byte) = ch_0 + of_nat (n div 10 mod 10)"
    and l: "(of_nat l :: byte) = ch_0 + of_nat (n mod 10)" by (simp_all add: h_def m_def l_def)
  have g: "(ucast w :: byte) = of_nat (unat w)" for w :: u32 by (rule of_nat_unat [symmetric])
  show "(ucast (drop_bit 16 v) :: byte) = ch_0 + of_nat (n div 100)"
    "(ucast (drop_bit 8 v) :: byte) = ch_0 + of_nat (n div 10 mod 10)"
    "(ucast v :: byte) = ch_0 + of_nat (n mod 10)"
    unfolding g unat_drop_bit_eq u unfolding drop_bit_eq_div h [symmetric] m [symmetric] l [symmetric] d(1,2)
    by (rule m256, rule m256) (subst p, rule m256)
  show "drop_bit 24 v = (if n < 10 then 2 else if n < 100 then 1 else 0)"
    unfolding word_unat_eq_iff unat_drop_bit_eq u unfolding drop_bit_eq_div d(3) by (simp add: s_def)
qed

text \<open>So both functions append decimal digits: the numeral, or exactly three digits.\<close>

lemma digits_at: "unat v < 1000 \<Longrightarrow> byte_at digits (uint v) = of_nat (packed (unat v))" for v :: "'a::len word"
  by (simp add: byte_at_def digits_def flip: digits_packed)

lemma put_first_adds: "unat v < 1000 \<Longrightarrow> put_first v s = adds (dec_bytes (unat v)) s"
  using packed_bytes [of "unat v"]
  by (simp add: put_first_def digits_at adds_def writeFirstBuf_def dec_bytes_three three_digits_def Let_def)

lemma put_three_adds: "unat v < 1000 \<Longrightarrow> put_three v s = adds (three_digits (unat v)) s"
  using packed_bytes [of "unat v"]
  by (simp add: put_three_def digits_at adds_def writeBuf_def three_digits_def)

lemma quot_rem: "unat (v div 1000) = unat v div 1000" "unat (v - v div 1000 * 1000) = unat v mod 1000"
  if "10 \<le> LENGTH('a)" for v :: "'a::len word"
proof -
  have k: "unat (1000 :: 'a word) = 1000"
  proof -
    have "(2::nat) ^ 10 \<le> 2 ^ LENGTH('a)" using that by (rule power_increasing) simp
    then have "(1000::nat) < 2 ^ LENGTH('a)" by simp
    then show ?thesis by (simp add: unat_numeral take_bit_nat_eq_self)
  qed
  show "unat (v div 1000) = unat v div 1000" by (simp only: unat_div k)
  have "v - v div 1000 * 1000 = v mod 1000" by (simp add: minus_div_mult_eq_mod)
  then show "unat (v - v div 1000 * 1000) = unat v mod 1000" by (simp only: unat_mod k)
qed

lemma quot_0: "v div 1000 = 0 \<longleftrightarrow> unat v < 1000" if "10 \<le> LENGTH('a)" for v :: "'a::len word"
  using quot_rem(1) [OF that, of v] by (auto simp: word_unat_eq_iff div_eq_0_iff)

text \<open>A numeral of \<open>v div 1000\<close>, then three more digits: the numeral of \<open>v\<close>.\<close>

lemma put_three_step: "put_three (v - v div 1000 * 1000) (adds (dec_bytes (unat (v div 1000))) s) = adds (dec_bytes (unat v)) s"
  if "10 \<le> LENGTH('a)" "\<not> unat v < 1000" for v :: "'a::len word"
  using quot_rem [OF that(1), of v] dec_bytes_step [of "unat v"] that(2) by (simp add: put_three_adds)

lemma quot_less: "unat v < 1000 * n \<Longrightarrow> unat (v div 1000) < n" if "10 \<le> LENGTH('a)" for v :: "'a::len word"
  using quot_rem(1) [OF that, of v] by (simp add: less_mult_imp_div_less mult.commute)

lemma unat_bound: "unat v < 2 ^ LENGTH('a)" for v :: "'a::len word"
  by (rule unsigned_less)

lemma WriteUint8_adds [stream_adds]: "WriteUint8 v s = adds (dec_bytes (unat v)) s"
  using unat_bound [of v] by (simp add: WriteUint8_def put_first_adds)

lemma WriteUint16_adds [stream_adds]: "WriteUint16 v s = adds (dec_bytes (unat v)) s"
proof -
  have "unat (v div 1000) < 66" using unat_bound [of v] by (intro quot_less) simp_all
  then show ?thesis
    using put_three_step [of v s] by (simp add: WriteUint16_def Let_def quot_0 put_first_adds)
qed

lemma put_digit: "unat x < 5 \<Longrightarrow> s\<lparr>s_buf := s_buf s @ [ucast (x + 0x30)]\<rparr> = adds (dec_bytes (unat x)) s" for x :: u32
proof -
  assume "unat x < 5"
  then have "unat x = 0 \<or> unat x = 1 \<or> unat x = 2 \<or> unat x = 3 \<or> unat x = 4" by linarith
  then have "x = 0 \<or> x = 1 \<or> x = 2 \<or> x = 3 \<or> x = 4" by (simp add: word_unat_eq_iff)
  then show ?thesis by (auto simp: adds_def dec_bytes_small)
qed

lemma WriteUint32_adds [stream_adds]: "WriteUint32 v s = adds (dec_bytes (unat v)) s"
proof -
  let ?q = "v div 1000 div 1000"
  have "unat (?q div 1000) < 5" using unat_bound [of v] by (intro quot_less) simp_all
  note d = put_digit [OF this, of s]
  show ?thesis
    using put_three_step [of v s] put_three_step [of "v div 1000" s] put_three_step [of ?q s]
    by (simp add: WriteUint32_def Let_def quot_0 put_first_adds d)
qed

lemma WriteUint64_adds [stream_adds]: "WriteUint64 v s = adds (dec_bytes (unat v)) s"
proof -
  let ?q = "v div 1000 div 1000"
  let ?q4 = "?q div 1000 div 1000"
  have "unat (?q4 div 1000 div 1000) < 19" using unat_bound [of v] by (intro quot_less) simp_all
  then show ?thesis
    using put_three_step [of v s] put_three_step [of "v div 1000" s] put_three_step [of ?q s]
      put_three_step [of "?q div 1000" s] put_three_step [of ?q4 s] put_three_step [of "?q4 div 1000" s]
    by (simp add: WriteUint64_def Let_def quot_0 put_first_adds)
qed

text \<open>The magnitude of a signed number, the smallest one included.\<close>

lemma unat_of_int_small: "0 \<le> k \<Longrightarrow> k < 2 ^ LENGTH('a) \<Longrightarrow> unat (of_int k :: 'a::len word) = nat k"
  by (simp add: unat_eq_nat_uint uint_word_of_int take_bit_int_eq_self)

lemma magnitude:
  fixes v :: "'a::len word"
  shows "unat (if sint v < 0 then - v else v) = nat \<bar>sint v\<bar>"
proof -
  have b: "- (2 ^ (LENGTH('a) - 1)) \<le> sint v" "sint v < 2 ^ (LENGTH('a) - 1)" by (rule sint_ge, rule sint_lt)
  have p: "(2::int) ^ (LENGTH('a) - 1) < 2 ^ LENGTH('a)" by (rule power_strict_increasing) auto
  have lt: "sint v < 2 ^ LENGTH('a)" "- sint v < 2 ^ LENGTH('a)" using b p by linarith+
  have v: "v = of_int (sint v)" by simp
  then have "- v = of_int (- sint v)" by (metis of_int_minus)
  with v lt unat_of_int_small [of "sint v", where ?'a = 'a] unat_of_int_small [of "- sint v", where ?'a = 'a]
  show ?thesis by (metis abs_of_neg abs_of_nonneg neg_0_le_iff_le linorder_not_le order_less_imp_le)
qed

lemma signed_text:
  "adds (dec_bytes (unat (if sint v < 0 then - v else v))) (if sint v < 0 then adds [ch_minus] s else s)
    = adds (int_text (sint v)) s"
  unfolding magnitude by (simp add: int_text_def)

lemma minus_adds: "s\<lparr>s_buf := s_buf s @ [ch_minus]\<rparr> = adds [ch_minus] s"
  by (simp add: adds_def)

lemma WriteInts_adds [stream_adds]:
  "WriteInt8 v8 s = adds (int_text (sint v8)) s" "WriteInt16 v16 s = adds (int_text (sint v16)) s"
  "WriteInt32 v32 s = adds (int_text (sint v32)) s" "WriteInt64 v64 s = adds (int_text (sint v64)) s"
  "WriteInt v64 s = adds (int_text (sint v64)) s" "WriteUint v64 s = adds (dec_bytes (unat v64)) s"
  using signed_text [of v8 s] signed_text [of v16 s] signed_text [of v32 s] signed_text [of v64 s]
    put_first_adds [of "if sint v8 < 0 then - v8 else v8" "if sint v8 < 0 then adds [ch_minus] s else s"]
    unat_bound [of "if sint v8 < 0 then - v8 else v8"]
  by (auto simp: WriteInt8_def WriteInt16_def WriteInt32_def WriteInt64_def WriteInt_def WriteUint_def
      stream_adds minus_adds split: if_splits)

section \<open>Property\<close>

text \<open>C27: the table-driven writers of all widths append to the buffer exactly the decimal numeral
  of the number, its sign included, for every value of the type (the smallest signed number too),
  and change nothing else.\<close>

theorem integer_writers_decimal:
  "WriteInt8 v8 s = s\<lparr>s_buf := s_buf s @ int_text (sint v8)\<rparr>
   \<and> WriteInt16 v16 s = s\<lparr>s_buf := s_buf s @ int_text (sint v16)\<rparr>
   \<and> WriteInt32 v32 s = s\<lparr>s_buf := s_buf s @ int_text (sint v32)\<rparr>
   \<and> WriteInt64 v64 s = s\<lparr>s_buf := s_buf s @ int_text (sint v64)\<rparr>
   \<and> WriteUint8 v8 s = s\<lparr>s_buf := s_buf s @ int_text (uint v8)\<rparr>
   \<and> WriteUint16 v16 s = s\<lparr>s_buf := s_buf s @ int_text (uint v16)\<rparr>
   \<and> WriteUint32 v32 s = s\<lparr>s_buf := s_buf s @ int_text (uint v32)\<rparr>
   \<and> WriteUint64 v64 s = s\<lparr>s_buf := s_buf s @ int_text (uint v64)\<rparr>"
  by (simp add: stream_adds adds_def int_text_def)

end
