(* ===== verification/StreamStr.thy ===== *)
theory StreamStr
  imports StreamInt IterObject
begin

text \<open>
  \<open>stream_str.go\<close>: string literals, plain (\<open>WriteString\<close>) and for use inside HTML
  (\<open>WriteStringWithHTMLEscaped\<close>). Both have a fast path up to the first byte that needs care and
  a slow path that copies runs of safe bytes.

  \<open>esc_bytes\<close> and \<open>html_esc\<close> are the escaped contents as functions of the string alone; the
  lemmas show that the writers append them in quotes and that reading gives the string back.
\<close>

section \<open>Tables\<close>

text \<open>The tables hold the bytes below \<open>utf8.RuneSelf\<close> (128).\<close>

definition RuneSelf :: byte where "RuneSelf = 0x80"

definition safeSet :: "byte \<Rightarrow> bool" where
  "safeSet c \<longleftrightarrow> ch_space \<le> c \<and> c < RuneSelf \<and> c \<noteq> ch_quote \<and> c \<noteq> ch_bslash"

definition htmlSafeSet :: "byte \<Rightarrow> bool" where
  "htmlSafeSet c \<longleftrightarrow> safeSet c \<and> c \<noteq> ch_lt \<and> c \<noteq> ch_gt \<and> c \<noteq> ch_amp"

definition hexChars :: bytes where
  "hexChars = [0x30, 0x31, 0x32, 0x33, 0x34, 0x35, 0x36, 0x37, 0x38, 0x39, 0x61, 0x62, 0x63, 0x64, 0x65, 0x66]"

section \<open>Plain strings\<close>

text \<open>The escape for a byte below 128 that is not safe.\<close>

definition write_escape :: "byte \<Rightarrow> stream \<Rightarrow> stream" where
  "write_escape b s =
     (if b = ch_bslash \<or> b = ch_quote then writeTwoBytes ch_bslash b s
      else if b = ch_nl then writeTwoBytes ch_bslash ch_n s
      else if b = ch_cr then writeTwoBytes ch_bslash ch_r s
      else if b = ch_tab then writeTwoBytes ch_bslash ch_t s
      else writeTwoBytes (byte_at hexChars (uint (drop_bit 4 b))) (byte_at hexChars (uint (b AND 0xF)))
             (WriteRaw [ch_bslash, ch_u, ch_0, ch_0] s))"

definition write_run :: "bytes \<Rightarrow> int \<Rightarrow> int \<Rightarrow> stream \<Rightarrow> stream" where
  "write_run b start i s = (if start < i then WriteRaw (gslice b start i) s else s)"

text \<open>The loop of the slow path: the start of the last run, and the stream.\<close>

function writeStringSlowPath_loop :: "bytes \<Rightarrow> int \<Rightarrow> int \<Rightarrow> stream \<Rightarrow> int \<times> stream" where
  "writeStringSlowPath_loop b i start s =
     (if i < int (length b) then
        let c = byte_at b i in
        if c < RuneSelf then
          if safeSet c then writeStringSlowPath_loop b (i + 1) start s
          else writeStringSlowPath_loop b (i + 1) (i + 1) (write_escape c (write_run b start i s))
        else writeStringSlowPath_loop b (i + 1) start s
      else (start, s))"
  by pat_completeness auto
termination by (relation "measure (\<lambda>(b, i, start, s). nat (int (length b) - i))") auto

declare writeStringSlowPath_loop.simps [simp del]

definition writeStringSlowPath :: "stream \<Rightarrow> int \<Rightarrow> bytes \<Rightarrow> stream" where
  "writeStringSlowPath s i b =
     (case writeStringSlowPath_loop b i i s of (start, s1) \<Rightarrow>
        writeByte ch_quote (write_run b start (int (length b)) s1))"

definition WriteString :: "bytes \<Rightarrow> stream \<Rightarrow> stream" where
  "WriteString b s =
     (let s1 = writeByte ch_quote s in
      case find_from (\<lambda>c. \<not> (c > 31 \<and> c \<noteq> ch_quote \<and> c \<noteq> ch_bslash)) b 0 (int (length b)) of
        None \<Rightarrow> writeByte ch_quote (WriteRaw b s1)
      | Some i \<Rightarrow> writeStringSlowPath (WriteRaw (gslice b 0 i) s1) i b)"

definition WriteObjectField :: "bytes \<Rightarrow> stream \<Rightarrow> stream" where
  "WriteObjectField field s = object_colon (WriteString field s)"

section \<open>Strings for HTML\<close>

lemma utf8_next_size: "utf8_next cs = (r, n) \<Longrightarrow> cs \<noteq> [] \<longrightarrow> 1 \<le> n"
  using utf8_next_pos [of "hd cs" "tl cs"] by (cases cs) auto

function writeStringSlowPathWithHTMLEscaped_loop :: "bytes \<Rightarrow> int \<Rightarrow> int \<Rightarrow> stream \<Rightarrow> int \<times> stream" where
  "writeStringSlowPathWithHTMLEscaped_loop b i start s =
     (if 0 \<le> i \<and> i < int (length b) then
        let c = byte_at b i in
        if c < RuneSelf then
          if htmlSafeSet c then writeStringSlowPathWithHTMLEscaped_loop b (i + 1) start s
          else writeStringSlowPathWithHTMLEscaped_loop b (i + 1) (i + 1) (write_escape c (write_run b start i s))
        else
          (case utf8_next (drop (nat i) b) of (r, sz) \<Rightarrow>
             if r = RuneError \<and> sz = 1 then
               writeStringSlowPathWithHTMLEscaped_loop b (i + 1) (i + 1)
                 (WriteRaw [ch_bslash, ch_u, ch_f, ch_f, ch_f, 0x64] (write_run b start i s))
             else if r = 0x2028 \<or> r = 0x2029 then
               writeStringSlowPathWithHTMLEscaped_loop b (i + int sz) (i + int sz)
                 (writeByte (byte_at hexChars (r mod 16))
                   (WriteRaw [ch_bslash, ch_u, 0x32, ch_0, 0x32] (write_run b start i s)))
             else writeStringSlowPathWithHTMLEscaped_loop b (i + int sz) start s)
      else (start, s))"
  by pat_completeness auto
termination
  by (relation "measure (\<lambda>(b, i, start, s). nat (int (length b) - i))") (auto dest!: utf8_next_size [OF sym])

declare writeStringSlowPathWithHTMLEscaped_loop.simps [simp del]

definition writeStringSlowPathWithHTMLEscaped :: "stream \<Rightarrow> int \<Rightarrow> bytes \<Rightarrow> stream" where
  "writeStringSlowPathWithHTMLEscaped s i b =
     (case writeStringSlowPathWithHTMLEscaped_loop b i i s of (start, s1) \<Rightarrow>
        writeByte ch_quote (write_run b start (int (length b)) s1))"

definition WriteStringWithHTMLEscaped :: "bytes \<Rightarrow> stream \<Rightarrow> stream" where
  "WriteStringWithHTMLEscaped b s =
     (let s1 = writeByte ch_quote s in
      case find_from (\<lambda>c. \<not> (c < RuneSelf \<and> htmlSafeSet c)) b 0 (int (length b)) of
        None \<Rightarrow> writeByte ch_quote (WriteRaw b s1)
      | Some i \<Rightarrow> writeStringSlowPathWithHTMLEscaped (WriteRaw (gslice b 0 i) s1) i b)"

section \<open>The escaped contents\<close>

definition esc_ascii :: "byte \<Rightarrow> bytes" where
  "esc_ascii b =
     (if b = ch_bslash \<or> b = ch_quote then [ch_bslash, b]
      else if b = ch_nl then [ch_bslash, ch_n]
      else if b = ch_cr then [ch_bslash, ch_r]
      else if b = ch_tab then [ch_bslash, ch_t]
      else [ch_bslash, ch_u, ch_0, ch_0, byte_at hexChars (uint (drop_bit 4 b)), byte_at hexChars (uint (b AND 0xF))])"

definition esc_byte :: "byte \<Rightarrow> bytes" where
  "esc_byte b = (if b < RuneSelf \<and> \<not> safeSet b then esc_ascii b else [b])"

definition esc_bytes :: "bytes \<Rightarrow> bytes" where
  "esc_bytes b = concat (map esc_byte b)"

function html_esc :: "bytes \<Rightarrow> bytes" where
  "html_esc [] = []"
| "html_esc (c # cs) =
     (if c < RuneSelf then (if htmlSafeSet c then [c] else esc_ascii c) @ html_esc cs
      else
        (case utf8_next (c # cs) of (r, sz) \<Rightarrow>
           (if r = RuneError \<and> sz = 1 then [ch_bslash, ch_u, ch_f, ch_f, ch_f, 0x64]
            else if r = 0x2028 \<or> r = 0x2029 then
              [ch_bslash, ch_u, 0x32, ch_0, 0x32, byte_at hexChars (r mod 16)]
            else take sz (c # cs)) @ html_esc (drop (sz - 1) cs)))"
  by pat_completeness auto
termination by (relation "measure length") auto

text \<open>What a string becomes when it is written for HTML: each byte that is not part of a UTF-8
  sequence is replaced by U+FFFD.\<close>

function valid_utf8 :: "bytes \<Rightarrow> bytes" where
  "valid_utf8 [] = []"
| "valid_utf8 (c # cs) =
     (if c < RuneSelf then c # valid_utf8 cs
      else
        (case utf8_next (c # cs) of (r, sz) \<Rightarrow>
           (if r = RuneError \<and> sz = 1 then [0xEF, 0xBF, 0xBD] else take sz (c # cs))
           @ valid_utf8 (drop (sz - 1) cs)))"
  by pat_completeness auto
termination by (relation "measure length") auto

section \<open>The writers append the escaped contents\<close>

lemma write_escape_adds [stream_adds]: "write_escape c s = adds (esc_ascii c) s"
  by (simp add: write_escape_def esc_ascii_def stream_adds)

lemma write_run_adds [stream_adds]: "write_run b start i s = adds (gslice b start i) s"
  by (simp add: write_run_def stream_adds)

lemma esc_bytes_simps [simp]: "esc_bytes [] = []" "esc_bytes (c # cs) = esc_byte c @ esc_bytes cs"
  "esc_bytes (xs @ ys) = esc_bytes xs @ esc_bytes ys"
  by (simp_all add: esc_bytes_def)

text \<open>The run not yet written and the rest of the string, in front of and behind one step.\<close>

lemma run_step:
  assumes "0 \<le> start" "start \<le> i" "i < int (length b)"
  shows "gslice b i (int (length b)) = byte_at b i # gslice b (i + 1) (int (length b))"
    "gslice b start (i + 1) = gslice b start i @ [byte_at b i]"
  using gslice_Cons [of i "int (length b)" b] gslice_snoc [of start "i + 1" b] assms by simp_all

lemma slow_loop_adds:
  assumes "writeStringSlowPath_loop b i start s = (start', s')" "0 \<le> start" "start \<le> i" "i \<le> int (length b)"
  shows "adds (gslice b start' (int (length b))) s' = adds (gslice b start i @ esc_bytes (gslice b i (int (length b)))) s"
  using assms
proof (induction b i start s arbitrary: start' s' rule: writeStringSlowPath_loop.induct)
  case (1 b i start s)
  show ?case
  proof (cases "i < int (length b)")
    case False
    with 1 show ?thesis by (simp add: writeStringSlowPath_loop.simps [of b i start s])
  next
    case True
    note st = run_step [OF 1(5,6) True]
    let ?c = "byte_at b i"
    show ?thesis
    proof (cases "?c < RuneSelf \<and> \<not> safeSet ?c")
      case c: True
      with 1 True have l: "writeStringSlowPath_loop b (i + 1) (i + 1) (write_escape ?c (write_run b start i s)) = (start', s')"
        by (simp add: writeStringSlowPath_loop.simps [of b i start s] Let_def)
      from 1(2) [OF True refl _ _ l] c 1(5,6) True st show ?thesis
        by (simp add: stream_adds esc_byte_def)
    next
      case c: False
      with 1 True have l: "writeStringSlowPath_loop b (i + 1) start s = (start', s')"
        by (auto simp: writeStringSlowPath_loop.simps [of b i start s] Let_def split: if_splits)
      have "adds (gslice b start' (int (length b))) s'
          = adds (gslice b start (i + 1) @ esc_bytes (gslice b (i + 1) (int (length b)))) s"
        using 1(1) [OF True refl _ _ l] 1(3) [OF True refl _ l] c 1(5,6) True by (cases "?c < RuneSelf") auto
      with st c show ?thesis by (auto simp: esc_byte_def)
    qed
  qed
qed

lemma esc_bytes_safe: "\<forall>c \<in> set b. c > 31 \<and> c \<noteq> ch_quote \<and> c \<noteq> ch_bslash \<Longrightarrow> esc_bytes b = b"
proof (induction b)
  case (Cons c b)
  have "c > 31 \<Longrightarrow> ch_space \<le> c" by (simp add: word_less_nat_alt word_le_nat_alt)
  with Cons show ?case by (auto simp: esc_byte_def safeSet_def)
qed simp

lemma adds_quote: "adds x s = adds y t \<Longrightarrow> adds (x @ [ch_quote]) s = adds (y @ [ch_quote]) t"
  by (metis adds_simps(6))

lemma slow_path_adds [stream_adds]:
  assumes "0 \<le> i" "i \<le> int (length b)"
  shows "writeStringSlowPath s i b = adds (esc_bytes (gslice b i (int (length b))) @ [ch_quote]) s"
proof -
  obtain start s1 where l: "writeStringSlowPath_loop b i i s = (start, s1)" by (rule prod.exhaust)
  from adds_quote [OF slow_loop_adds [OF l]] assms l show ?thesis
    by (simp add: writeStringSlowPath_def stream_adds)
qed

text \<open>The safe bytes in front of the place where the fast path stops.\<close>

lemma safe_prefix:
  assumes "find_from P b 0 (int (length b)) = Some i"
  shows "0 \<le> i" "i \<le> int (length b)" "\<forall>c \<in> set (gslice b 0 i). \<not> P c"
    "b = gslice b 0 i @ gslice b i (int (length b))"
  using find_from_Some [OF assms] gslice_append [of 0 i "int (length b)" b] by auto

lemma WriteString_adds [stream_adds]: "WriteString b s = adds (ch_quote # esc_bytes b @ [ch_quote]) s"
proof (cases "find_from (\<lambda>c. \<not> (c > 31 \<and> c \<noteq> ch_quote \<and> c \<noteq> ch_bslash)) b 0 (int (length b))")
  case None
  from find_from_None [OF None] have "esc_bytes b = b" by (intro esc_bytes_safe) auto
  with None show ?thesis by (simp add: WriteString_def stream_adds)
next
  case (Some i)
  note i = safe_prefix [OF Some]
  have "esc_bytes (gslice b 0 i) = gslice b 0 i" using i(3) by (intro esc_bytes_safe) auto
  then have "esc_bytes b = gslice b 0 i @ esc_bytes (gslice b i (int (length b)))"
    using i(4) by (metis esc_bytes_simps(3))
  with Some i(1,2) show ?thesis by (simp add: WriteString_def stream_adds)
qed

text \<open>The same for HTML, where the steps follow the UTF-8 sequences.\<close>

lemma utf8_next_fits: "utf8_next cs = (r, n) \<Longrightarrow> n \<le> length cs"
  by (cases cs rule: utf8_next.cases) (auto simp: utf8_next.simps split: list.splits if_splits)

lemma html_loop_adds:
  assumes "writeStringSlowPathWithHTMLEscaped_loop b i start s = (start', s')" "0 \<le> start" "start \<le> i" "i \<le> int (length b)"
  shows "adds (gslice b start' (int (length b))) s' = adds (gslice b start i @ html_esc (gslice b i (int (length b)))) s"
  using assms
proof (induction b i start s arbitrary: start' s' rule: writeStringSlowPathWithHTMLEscaped_loop.induct)
  case (1 b i start s)
  let ?L = "int (length b)" and ?c = "byte_at b i"
  show ?case
  proof (cases "i < ?L")
    case False
    with 1 show ?thesis by (simp add: writeStringSlowPathWithHTMLEscaped_loop.simps [of b i start s])
  next
    case True
    note st = run_step [OF 1(7,8) True]
    have lt: "0 \<le> i \<and> i < ?L" using 1(7,8) True by simp
    have d: "drop (nat i) b = gslice b i ?L" using lt by (simp add: gslice_def nat_diff_distrib)
    obtain r n where u: "utf8_next (gslice b i ?L) = (r, n)" by force
    have n: "1 \<le> n" "i + int n \<le> ?L" using utf8_next_size [OF u] utf8_next_fits [OF u] lt st(1) by auto
    have sp: "take n (gslice b i ?L) = gslice b i (i + int n)" "drop (n - 1) (gslice b (i + 1) ?L) = gslice b (i + int n) ?L"
      using n lt by (auto simp: gslice_def min_def nat_diff_distrib nat_add_distrib add.commute)
    have ap: "gslice b start (i + int n) = gslice b start i @ gslice b i (i + int n)"
      using gslice_append [of start i "i + int n" b] 1(7,8) n by simp
    have ud: "(r, n) = utf8_next (drop (nat i) b)" using u d by simp
    note loop = 1(6) [unfolded writeStringSlowPathWithHTMLEscaped_loop.simps [of b i start s]]
    note html = html_esc.simps(2) [of ?c "gslice b (i + 1) ?L", folded st(1), unfolded u, simplified]
    consider (safe) "?c < RuneSelf" "htmlSafeSet ?c" | (esc) "?c < RuneSelf" "\<not> htmlSafeSet ?c"
      | (bad) "\<not> ?c < RuneSelf" "r = RuneError \<and> n = 1"
      | (sep) "\<not> ?c < RuneSelf" "\<not> (r = RuneError \<and> n = 1)" "r = 0x2028 \<or> r = 0x2029"
      | (seq) "\<not> ?c < RuneSelf" "\<not> (r = RuneError \<and> n = 1)" "\<not> (r = 0x2028 \<or> r = 0x2029)" by blast
    then show ?thesis
    proof cases
      case safe
      from loop lt safe have l: "writeStringSlowPathWithHTMLEscaped_loop b (i + 1) start s = (start', s')" by (simp add: Let_def)
      from 1(1) [OF lt refl safe l] 1(7,8) lt st safe html show ?thesis by simp
    next
      case esc
      from loop lt esc have l: "writeStringSlowPathWithHTMLEscaped_loop b (i + 1) (i + 1) (write_escape ?c (write_run b start i s)) = (start', s')"
        by (simp add: Let_def)
      from 1(2) [OF lt refl esc l] 1(7,8) lt st esc html show ?thesis by (simp add: stream_adds)
    next
      case bad
      from loop lt bad u d have l: "writeStringSlowPathWithHTMLEscaped_loop b (i + 1) (i + 1)
          (WriteRaw [ch_bslash, ch_u, ch_f, ch_f, ch_f, 0x64] (write_run b start i s)) = (start', s')"
        by (simp add: Let_def)
      from 1(3) [OF lt refl bad(1) ud bad(2) l] u d 1(7,8) lt st bad html show ?thesis by (simp add: stream_adds)
    next
      case sep
      from loop lt sep u d have l: "writeStringSlowPathWithHTMLEscaped_loop b (i + int n) (i + int n)
          (writeByte (byte_at hexChars (r mod 16))
             (WriteRaw [ch_bslash, ch_u, 0x32, ch_0, 0x32] (write_run b start i s))) = (start', s')"
        by (auto simp: Let_def)
      from 1(4) [OF lt refl sep(1) ud sep(2,3) l] u d 1(7,8) lt st sep html n sp show ?thesis by (auto simp: stream_adds)
    next
      case seq
      from loop lt seq u d have l: "writeStringSlowPathWithHTMLEscaped_loop b (i + int n) start s = (start', s')"
        by (auto simp: Let_def)
      from 1(5) [OF lt refl seq(1) ud seq(2,3) l] u d 1(7,8) lt st seq html n sp ap show ?thesis by auto
    qed
  qed
qed

lemma html_slow_path_adds [stream_adds]:
  assumes "0 \<le> i" "i \<le> int (length b)"
  shows "writeStringSlowPathWithHTMLEscaped s i b = adds (html_esc (gslice b i (int (length b))) @ [ch_quote]) s"
proof -
  obtain start s1 where l: "writeStringSlowPathWithHTMLEscaped_loop b i i s = (start, s1)" by (rule prod.exhaust)
  from adds_quote [OF html_loop_adds [OF l]] assms l show ?thesis
    by (simp add: writeStringSlowPathWithHTMLEscaped_def stream_adds)
qed

lemma html_esc_safe: "\<forall>c \<in> set xs. c < RuneSelf \<and> htmlSafeSet c \<Longrightarrow> html_esc (xs @ ys) = xs @ html_esc ys"
  by (induction xs) auto

lemma WriteStringWithHTMLEscaped_adds [stream_adds]:
  "WriteStringWithHTMLEscaped b s = adds (ch_quote # html_esc b @ [ch_quote]) s"
proof (cases "find_from (\<lambda>c. \<not> (c < RuneSelf \<and> htmlSafeSet c)) b 0 (int (length b))")
  case None
  from find_from_None [OF None] html_esc_safe [of b "[]"] have "html_esc b = b" by auto
  with None show ?thesis by (simp add: WriteStringWithHTMLEscaped_def stream_adds)
next
  case (Some i)
  note i = safe_prefix [OF Some]
  have "html_esc b = gslice b 0 i @ html_esc (gslice b i (int (length b)))"
    using i(3,4) html_esc_safe [of "gslice b 0 i" "gslice b i (int (length b))"] by auto
  with Some i(1,2) show ?thesis by (simp add: WriteStringWithHTMLEscaped_def stream_adds)
qed

lemma WriteObjectField_adds [stream_adds]:
  "WriteObjectField f s = adds (ch_quote # esc_bytes f @ [ch_quote] @ (if indention s > 0 then [ch_colon, ch_space] else [ch_colon])) s"
  by (simp add: WriteObjectField_def stream_adds)

section \<open>Reading back\<close>

lemma all_bytes: "(\<forall>n \<in> set [0..<256]. P (of_nat n)) \<Longrightarrow> P c" for c :: byte
proof -
  assume "\<forall>n \<in> set [0..<256]. P (of_nat n :: byte)"
  moreover have "unat c < 256" using unat_bound [of c] by simp
  ultimately show ?thesis by (auto dest: bspec [where x = "unat c"])
qed

lemma hexChars_digits:
  "hex_digit (byte_at hexChars (uint (drop_bit 4 c))) = Some (uint c div 16)
   \<and> hex_digit (byte_at hexChars (uint (c AND 0xF))) = Some (uint c mod 16)"
  for c :: byte
  by (rule all_bytes) code_simp

text \<open>The escapes of the bytes below 128 decode to the byte.\<close>

lemma hex4_digits: "hex_digit a = Some a' \<Longrightarrow> hex_digit b = Some b' \<Longrightarrow> hex_digit c = Some c' \<Longrightarrow> hex_digit d = Some d' \<Longrightarrow>
    hex4 (a # b # c # d # rest) = Some (((a' * 16 + b') * 16 + c') * 16 + d', rest)"
  by (simp add: eval_nat_numeral)

lemma decode_u00: "hex_digit x = Some h \<Longrightarrow> hex_digit y = Some l \<Longrightarrow> 16 * h + l < 128 \<Longrightarrow> 0 \<le> 16 * h + l \<Longrightarrow>
    decode_escape (ch_u # ch_0 # ch_0 # x # y # rest) = Some ([word_of_int (16 * h + l)], rest)"
  using hex4_digits [of ch_0 0 ch_0 0 x h y l rest]
  by (simp add: decode_escape_def hex_digit_def [of ch_0] IsSurrogate_def WriteRune_def utf8_bytes_def algebra_simps)

lemma decode_esc_ascii:
  assumes "c < RuneSelf"
  shows "decode_str (esc_ascii c @ rest) = map_option (\<lambda>(s, r). (c # s, r)) (decode_str rest)"
proof (cases "c \<in> {ch_bslash, ch_quote, ch_nl, ch_cr, ch_tab}")
  case True
  then show ?thesis by (auto simp: esc_ascii_def decode_escape_def decode_simple_def simple_escape_def)
next
  case False
  have "uint c < 128" using assms by (simp add: RuneSelf_def word_less_def)
  then have "decode_escape (ch_u # ch_0 # ch_0 # byte_at hexChars (uint (drop_bit 4 c)) # byte_at hexChars (uint (c AND 0xF)) # rest)
      = Some ([c], rest)"
    using decode_u00 [OF conjunct1 [OF hexChars_digits] conjunct2 [OF hexChars_digits], of c c rest]
    by (simp add: mult_div_mod_eq)
  with False show ?thesis by (simp add: esc_ascii_def)
qed

lemma decode_plain: "ch_space \<le> c \<Longrightarrow> c \<noteq> ch_quote \<Longrightarrow> c \<noteq> ch_bslash \<Longrightarrow>
    decode_str (c # rest) = map_option (\<lambda>(s, r). (c # s, r)) (decode_str rest)"
  by auto

lemma decode_esc_bytes: "decode_str (esc_bytes b @ ch_quote # rest) = Some (b, rest)"
proof (induction b)
  case (Cons c b)
  have hi: "\<not> c < RuneSelf \<Longrightarrow> ch_space \<le> c \<and> c \<noteq> ch_quote \<and> c \<noteq> ch_bslash"
    by (auto simp: RuneSelf_def word_less_nat_alt word_le_nat_alt)
  show ?case
  proof (cases "c < RuneSelf \<and> \<not> safeSet c")
    case True
    then show ?thesis using decode_esc_ascii [of c] Cons by (simp add: esc_byte_def)
  next
    case False
    then show ?thesis using hi decode_plain [of c] Cons by (auto simp: esc_byte_def safeSet_def)
  qed
qed simp

text \<open>A UTF-8 sequence of several bytes has no ASCII byte, and U+2028 and U+2029 have one form.\<close>

lemma utf8_next_high:
  assumes "utf8_next (c # cs) = (r, n)" "\<not> c < RuneSelf"
  shows "\<forall>x \<in> set (take n (c # cs)). RuneSelf \<le> x"
  using assms by (auto simp: utf8_next.simps is_cont_def RuneSelf_def split: if_splits list.splits)

lemma utf8_next_separator:
  assumes "utf8_next (c # cs) = (r, n)" "\<not> c < RuneSelf" "r = 0x2028 \<or> r = 0x2029"
  shows "take n (c # cs) = WriteRune r"
proof -
  have b: "uint x \<le> 0xBF" "0x80 \<le> uint x" if "is_cont x" for x
    using that by (auto simp: is_cont_def word_le_def)
  have lo: "0xC2 \<le> c \<and> c \<le> 0xDF \<Longrightarrow> uint c \<le> 0xDF" "0xF0 \<le> c \<Longrightarrow> 0xF0 \<le> uint c"
    by (auto simp: word_le_def)
  have ne: "r \<noteq> RuneError" using assms(3) by (auto simp: RuneError_def)
  note u = assms(1) [unfolded utf8_next.simps] and c = assms(2) [unfolded RuneSelf_def]
  consider (two) x where "0xC2 \<le> c \<and> c \<le> 0xDF" "is_cont x" "r = (uint c - 0xC0) * 64 + (uint x - 0x80)"
    | (three) x y ys where "cs = x # y # ys" "n = 3" "0xE0 \<le> c" "is_cont x" "is_cont y"
        "r = (uint c - 0xE0) * 4096 + (uint x - 0x80) * 64 + (uint y - 0x80)"
    | (four) x y z where "0xF0 \<le> c" "is_cont x" "is_cont y" "is_cont z" "c = 0xF0 \<longrightarrow> 0x90 \<le> x"
        "r = (uint c - 0xF0) * 262144 + (uint x - 0x80) * 4096 + (uint y - 0x80) * 64 + (uint z - 0x80)"
    using u c ne by (auto split: if_splits list.splits)
  then show ?thesis
  proof cases
    case two
    then show ?thesis using assms(3) lo(1) b [of x] by auto
  next
    case three
    then have "0xE0 \<le> uint c" by (simp add: word_le_def)
    define p q a where "p = uint c - 0xE0" and "q = uint x - 0x80" and "a = uint y - 0x80"
    have r3: "r = p * 4096 + q * 64 + a" "0 \<le> p" "0 \<le> q" "q \<le> 63" "0 \<le> a" "a \<le> 63" "8232 \<le> r" "r \<le> 8233"
      using three(6) \<open>0xE0 \<le> uint c\<close> b [OF three(4)] b [OF three(5)] assms(3) by (auto simp: p_def q_def a_def)
    then have "p < 3" "1 < p" by linarith+
    then have p2: "p = 2" by simp
    with r3 have "q < 1" by linarith
    with r3 have q0: "q = 0" by simp
    have c2: "uint c = 0xE2" and x0: "uint x = 0x80" and y0: "uint y = r - 0x2028 + 0xA8"
      using p2 q0 r3(1) by (simp_all add: p_def q_def a_def)
    have "c = 0xE2" "x = 0x80" "y = word_of_int (r - 0x2028 + 0xA8)"
      using c2 x0 by (simp_all add: word_uint_eq_iff flip: y0)
    then show ?thesis using three(1,2) assms(3)
      by (auto simp: WriteRune_def IsSurrogate_def utf8_bytes_def)
  next
    case four
    have "0xF0 \<le> uint c" using four(1) by (rule lo(2))
    moreover have "uint c = 0xF0 \<Longrightarrow> 0x90 \<le> uint x" using four(5) by (auto simp: word_le_def word_uint_eq_iff)
    ultimately have "uint c = 0xF0 \<and> 0x90 \<le> uint x \<or> 0xF1 \<le> uint c" by linarith
    then have "65536 \<le> (uint c - 0xF0) * 262144 + (uint x - 0x80) * 4096 + (uint y - 0x80) * 64 + (uint z - 0x80)"
      using b(2) [OF four(2)] b(2) [OF four(3)] b(2) [OF four(4)] by auto
    then have "65536 \<le> r" using four(6) by simp
    then show ?thesis using assms(3) by auto
  qed
qed

lemma decode_high: "\<forall>x \<in> set xs. RuneSelf \<le> x \<Longrightarrow>
    decode_str (xs @ rest) = map_option (\<lambda>(s, r). (xs @ s, r)) (decode_str rest)"
proof (induction xs)
  case Nil
  show ?case by (simp add: option.map_ident prod.case_eq_if)
next
  case (Cons x xs)
  then have "ch_space \<le> x \<and> x \<noteq> ch_quote \<and> x \<noteq> ch_bslash" by (auto simp: RuneSelf_def word_le_nat_alt)
  then show ?case using Cons decode_plain [of x] by (simp add: option.map_comp o_def split_def)
qed

text \<open>\<open>\ufffd\<close> and \<open>\u2028\<close>, \<open>\u2029\<close>.\<close>

lemma decode_special:
  "decode_str ([ch_bslash, ch_u, ch_f, ch_f, ch_f, 0x64] @ rest) = map_option (\<lambda>(s, r). ([0xEF, 0xBF, 0xBD] @ s, r)) (decode_str rest)"
  "r = 0x2028 \<or> r = 0x2029 \<Longrightarrow> decode_str ([ch_bslash, ch_u, 0x32, ch_0, 0x32, byte_at hexChars (r mod 16)] @ rest)
     = map_option (\<lambda>(s, r'). (WriteRune r @ s, r')) (decode_str rest)"
proof -
  have "hex_digit ch_f = Some 15" "hex_digit 0x64 = Some 13" "hex_digit 0x32 = Some 2" "hex_digit ch_0 = Some 0"
    "hex_digit 0x38 = Some 8" "hex_digit 0x39 = Some 9" by code_simp+
  moreover have "byte_at hexChars 8 = 0x38" "byte_at hexChars 9 = 0x39" by code_simp+
  moreover have "WriteRune 0xFFFD = [0xEF, 0xBF, 0xBD]" by code_simp
  ultimately show
    "decode_str ([ch_bslash, ch_u, ch_f, ch_f, ch_f, 0x64] @ rest) = map_option (\<lambda>(s, r). ([0xEF, 0xBF, 0xBD] @ s, r)) (decode_str rest)"
    "r = 0x2028 \<or> r = 0x2029 \<Longrightarrow> decode_str ([ch_bslash, ch_u, 0x32, ch_0, 0x32, byte_at hexChars (r mod 16)] @ rest)
     = map_option (\<lambda>(s, r'). (WriteRune r @ s, r')) (decode_str rest)"
    by (auto simp: decode_escape_def hex4_digits IsSurrogate_def)
qed

lemma decode_html_esc: "decode_str (html_esc b @ ch_quote # rest) = Some (valid_utf8 b, rest)"
proof (induction b rule: html_esc.induct)
  case (2 c cs)
  obtain r n where u: "utf8_next (c # cs) = (r, n)" by force
  note IH = 2(2) [OF _ u [symmetric]]
  show ?case
  proof (cases "c < RuneSelf")
    case True
    then show ?thesis using 2(1) [OF True] decode_esc_ascii [OF True] decode_plain [of c]
      by (auto simp: htmlSafeSet_def safeSet_def)
  next
    case False
    then show ?thesis
      using IH u decode_special(1) decode_special(2) [of r] decode_high [OF utf8_next_high [OF u False]]
        utf8_next_separator [OF u False] by auto
  qed
qed simp

text \<open>What appears in the output.\<close>

lemma hexChars_range: "0 \<le> i \<Longrightarrow> i < 16 \<Longrightarrow> byte_at hexChars i \<in> set hexChars"
  by (auto simp: byte_at_def hexChars_def intro!: nth_mem simp del: set_simps)

lemma esc_ascii_set: "set (esc_ascii c) \<subseteq> set ([ch_bslash, ch_quote, ch_n, ch_r, ch_t, ch_u, ch_0] @ hexChars)"
proof -
  have "uint (drop_bit 4 c) < 16 \<and> uint (c AND 0xF) < 16" by (rule all_bytes) code_simp
  then show ?thesis using hexChars_range [of "uint (drop_bit 4 c)"] hexChars_range [of "uint (c AND 0xF)"]
    by (auto simp: esc_ascii_def hexChars_def)
qed

lemma esc_bytes_set: "list_all (\<lambda>c. ch_space \<le> c) (esc_bytes b)"
proof (induction b)
  case (Cons c b)
  have "ch_space \<le> x" if "x \<in> set (esc_byte c)" for x
  proof (cases "c < RuneSelf \<and> \<not> safeSet c")
    case True
    then have "x \<in> set ([ch_bslash, ch_quote, ch_n, ch_r, ch_t, ch_u, ch_0] @ hexChars)"
      using that esc_ascii_set [of c] by (auto simp: esc_byte_def)
    moreover have "list_all (\<lambda>c. ch_space \<le> c) ([ch_bslash, ch_quote, ch_n, ch_r, ch_t, ch_u, ch_0] @ hexChars)" by code_simp
    ultimately show ?thesis unfolding list_all_iff by blast
  next
    case False
    then show ?thesis using that
      by (auto simp: esc_byte_def safeSet_def RuneSelf_def word_less_nat_alt word_le_nat_alt)
  qed
  with Cons show ?case by (auto simp: list_all_iff)
qed simp

definition html_safe :: "byte \<Rightarrow> bool" where
  "html_safe c \<longleftrightarrow> ch_space \<le> c \<and> c \<noteq> ch_lt \<and> c \<noteq> ch_gt \<and> c \<noteq> ch_amp"

lemma html_esc_ascii: "list_all html_safe (esc_ascii c)"
proof -
  have "list_all html_safe ([ch_bslash, ch_quote, ch_n, ch_r, ch_t, ch_u, ch_0] @ hexChars)" by code_simp
  then show ?thesis using esc_ascii_set [of c] unfolding list_all_iff by blast
qed

lemma html_esc_set: "list_all html_safe (html_esc b)"
proof (induction b rule: html_esc.induct)
  case (2 c cs)
  obtain r n where u: "utf8_next (c # cs) = (r, n)" by force
  note IH = 2(2) [OF _ u [symmetric]]
  have hi: "list_all html_safe xs" if "\<forall>x \<in> set xs. RuneSelf \<le> x" for xs
    using that by (auto simp: list_all_iff html_safe_def RuneSelf_def word_le_nat_alt)
  have sp: "list_all html_safe [ch_bslash, ch_u, ch_f, ch_f, ch_f, 0x64, 0x32, ch_0, byte_at hexChars 8, byte_at hexChars 9]"
    by code_simp
  show ?case
  proof (cases "c < RuneSelf")
    case True
    have "htmlSafeSet c \<Longrightarrow> html_safe c" by (auto simp: htmlSafeSet_def safeSet_def html_safe_def)
    then show ?thesis using True 2(1) [OF True] html_esc_ascii [of c] by simp
  next
    case False
    then show ?thesis using IH u hi [OF utf8_next_high [OF u False]] sp by auto
  qed
qed simp

section \<open>Properties\<close>

text \<open>C28: \<open>WriteString\<close> appends one string literal, whatever bytes the string has: no control
  character occurs in it, and it decodes to exactly the string.\<close>

theorem WriteString_literal:
  "\<exists>out. WriteString b s = s\<lparr>s_buf := s_buf s @ ch_quote # out @ [ch_quote]\<rparr>
     \<and> list_all (\<lambda>c. ch_space \<le> c) out \<and> decode_str (out @ ch_quote # rest) = Some (b, rest)"
  by (intro exI [of _ "esc_bytes b"]) (simp add: stream_adds adds_def decode_esc_bytes esc_bytes_set)

text \<open>C29: the literal of \<open>WriteStringWithHTMLEscaped\<close> has no \<open><\<close>, \<open>>\<close>, \<open>&\<close> and no control
  character, so it cannot end a script element, and it decodes to the string with every byte that is
  not UTF-8 replaced by U+FFFD.\<close>

theorem WriteStringWithHTMLEscaped_literal:
  "\<exists>out. WriteStringWithHTMLEscaped b s = s\<lparr>s_buf := s_buf s @ ch_quote # out @ [ch_quote]\<rparr>
     \<and> list_all html_safe out \<and> decode_str (out @ ch_quote # rest) = Some (valid_utf8 b, rest)"
  by (intro exI [of _ "html_esc b"]) (simp add: stream_adds adds_def decode_html_esc html_esc_set)

end
