(* ===== verification/Native.thy ===== *)
theory Native
  imports StreamStr IterSkip
begin

text \<open>
  \<open>reflect_native.go\<close>: the codecs of the predeclared types, without the float and the base64
  codec. A decoder gets the value that the pointer points to and returns the value it leaves there;
  its result is an option because decoders that contain loops have a fuel. Encoders and decoders of
  composite types are built from them in \<open>SliceCodec\<close>, \<open>MapCodec\<close> and \<open>StructCodec\<close>.

  The locale \<open>codec\<close> is the contract they all keep: what the encoder appends, the decoder reads
  back, consuming exactly that text.
\<close>

type_synonym 'v decoder = "'v \<Rightarrow> iterator \<Rightarrow> ('v \<times> iterator) option"
type_synonym 'v encoder = "'v \<Rightarrow> stream \<Rightarrow> stream"

section \<open>Codecs\<close>

definition stringCodec_Decode :: "bytes decoder" where
  "stringCodec_Decode old it = Some (ReadString it)"

definition stringCodec_Encode :: "bytes encoder" where
  "stringCodec_Encode v s = WriteString v s"

definition stringCodec_IsEmpty :: "bytes \<Rightarrow> bool" where
  "stringCodec_IsEmpty v \<longleftrightarrow> v = []"

text \<open>\<open>if !iter.ReadNil() { *ptr = read() }\<close>\<close>

definition unless_nil :: "(iterator \<Rightarrow> 'v \<times> iterator) \<Rightarrow> 'v decoder" where
  "unless_nil read old it =
     (case ReadNil it of (isnil, it1) \<Rightarrow> if isnil then Some (old, it1) else Some (read it1))"

definition int8Codec_Decode :: "(8 word) decoder" where
  "int8Codec_Decode = unless_nil ReadInt8"

definition int8Codec_Encode :: "(8 word) encoder" where
  "int8Codec_Encode v s = WriteInt8 v s"

definition int8Codec_IsEmpty :: "8 word \<Rightarrow> bool" where
  "int8Codec_IsEmpty v \<longleftrightarrow> v = 0"

definition int16Codec_Decode :: "u16 decoder" where
  "int16Codec_Decode = unless_nil ReadInt16"

definition int16Codec_Encode :: "u16 encoder" where
  "int16Codec_Encode v s = WriteInt16 v s"

definition int16Codec_IsEmpty :: "u16 \<Rightarrow> bool" where
  "int16Codec_IsEmpty v \<longleftrightarrow> v = 0"

definition int32Codec_Decode :: "u32 decoder" where
  "int32Codec_Decode = unless_nil ReadInt32"

definition int32Codec_Encode :: "u32 encoder" where
  "int32Codec_Encode v s = WriteInt32 v s"

definition int32Codec_IsEmpty :: "u32 \<Rightarrow> bool" where
  "int32Codec_IsEmpty v \<longleftrightarrow> v = 0"

definition int64Codec_Decode :: "u64 decoder" where
  "int64Codec_Decode = unless_nil ReadInt64"

definition int64Codec_Encode :: "u64 encoder" where
  "int64Codec_Encode v s = WriteInt64 v s"

definition int64Codec_IsEmpty :: "u64 \<Rightarrow> bool" where
  "int64Codec_IsEmpty v \<longleftrightarrow> v = 0"

definition uint8Codec_Decode :: "(8 word) decoder" where
  "uint8Codec_Decode = unless_nil ReadUint8"

definition uint8Codec_Encode :: "(8 word) encoder" where
  "uint8Codec_Encode v s = WriteUint8 v s"

definition uint8Codec_IsEmpty :: "8 word \<Rightarrow> bool" where
  "uint8Codec_IsEmpty v \<longleftrightarrow> v = 0"

definition uint16Codec_Decode :: "u16 decoder" where
  "uint16Codec_Decode = unless_nil ReadUint16"

definition uint16Codec_Encode :: "u16 encoder" where
  "uint16Codec_Encode v s = WriteUint16 v s"

definition uint16Codec_IsEmpty :: "u16 \<Rightarrow> bool" where
  "uint16Codec_IsEmpty v \<longleftrightarrow> v = 0"

definition uint32Codec_Decode :: "u32 decoder" where
  "uint32Codec_Decode = unless_nil ReadUint32"

definition uint32Codec_Encode :: "u32 encoder" where
  "uint32Codec_Encode v s = WriteUint32 v s"

definition uint32Codec_IsEmpty :: "u32 \<Rightarrow> bool" where
  "uint32Codec_IsEmpty v \<longleftrightarrow> v = 0"

definition uint64Codec_Decode :: "u64 decoder" where
  "uint64Codec_Decode = unless_nil ReadUint64"

definition uint64Codec_Encode :: "u64 encoder" where
  "uint64Codec_Encode v s = WriteUint64 v s"

definition uint64Codec_IsEmpty :: "u64 \<Rightarrow> bool" where
  "uint64Codec_IsEmpty v \<longleftrightarrow> v = 0"

definition boolCodec_Decode :: "bool decoder" where
  "boolCodec_Decode = unless_nil ReadBool"

definition boolCodec_Encode :: "bool encoder" where
  "boolCodec_Encode v s = WriteBool v s"

definition boolCodec_IsEmpty :: "bool \<Rightarrow> bool" where
  "boolCodec_IsEmpty v \<longleftrightarrow> \<not> v"

section \<open>The contract of a codec\<close>

text \<open>Decoding the bytes \<open>b\<close> in front of a comma gives \<open>v\<close>, without error, right behind \<open>b\<close>,
  whatever the variable held and whatever the configuration and the rest of the input.\<close>

definition parsed_back :: "'v decoder \<Rightarrow> bytes \<Rightarrow> 'v \<Rightarrow> bool" where
  "parsed_back dec b v \<longleftrightarrow>
     (\<forall>c old rest. \<exists>it'. dec old (ParseBytes c (b @ ch_comma # rest)) = Some (v, it')
        \<and> Error it' = None \<and> pending it' = ch_comma # rest)"

lemma ParseBytes_start:
  "wf_iter (ParseBytes c b) \<and> Error (ParseBytes c b) = None \<and> depth (ParseBytes c b) = 0
    \<and> captured (ParseBytes c b) = None \<and> pending (ParseBytes c b) = b"
  by (simp add: ParseBytes_def wf_iter_def pending_def rest_bytes_def)

text \<open>\<open>val_text c i v\<close> is the text of \<open>v\<close> at indention \<open>i\<close> under the configuration \<open>c\<close>, \<open>ok\<close> the values
  concerned, \<open>room\<close> the number of nesting levels the decoder needs, \<open>cfgs\<close> the configurations it works under; the decoder's fuel exceeds the
  length of the text. A text never begins like white space or a closing bracket.\<close>

locale codec =
  fixes enc :: "'v encoder" and dec :: "nat \<Rightarrow> 'v decoder" and val_text :: "frozenConfig \<Rightarrow> int \<Rightarrow> 'v \<Rightarrow> bytes"
    and ok :: "'v \<Rightarrow> bool" and room :: int and cfgs :: "frozenConfig \<Rightarrow> bool"
  assumes writes: "ok v \<Longrightarrow> s_Error s = None \<Longrightarrow> enc v s = adds (val_text (s_cfg s) (indention s) v) s"
    and reads: "\<lbrakk>ok v; wf_iter it; Error it = None; 0 \<le> depth it; depth it + room \<le> maxDepth; list_all is_space ws;
        pending it = ws @ val_text c i v @ t # rest; \<not> number_char t; length (val_text c i v) < n; cfgs (cfg it); captured it = None\<rbrakk>
      \<Longrightarrow> \<exists>it'. dec n old it = Some (v, it') \<and> consumes it (ws @ val_text c i v) it' \<and> pending it' = t # rest"
    and text_head: "ok v \<Longrightarrow> val_text c i v \<noteq> [] \<and> hd (val_text c i v) \<notin> {ch_rbrack, ch_rbrace} \<and> \<not> is_space (hd (val_text c i v))"
begin

text \<open>What the encoder appends to an empty buffer is parsed back.\<close>

lemma parse_back:
  assumes "ok v" "room \<le> maxDepth" "\<forall>c. cfgs c"
  shows "\<exists>m. \<forall>k. parsed_back (dec (m + k)) (s_buf (enc v (NewStream c out))) v"
proof -
  have "\<not> number_char ch_comma" by (simp add: number_char_def is_digit_def)
  have "enc v (NewStream c out) = adds (val_text c 0 v) (NewStream c out)"
    using writes [OF assms(1), of "NewStream c out"] by (simp add: NewStream_def)
  then have "s_buf (enc v (NewStream c out)) = val_text c 0 v" by (simp add: NewStream_def)
  moreover have "parsed_back (dec (Suc (length (val_text c 0 v)) + k)) (val_text c 0 v) v" for k
    unfolding parsed_back_def
  proof (intro allI)
    fix c' old rest
    show "\<exists>it'. dec (Suc (length (val_text c 0 v)) + k) old (ParseBytes c' (val_text c 0 v @ ch_comma # rest)) = Some (v, it')
        \<and> Error it' = None \<and> pending it' = ch_comma # rest"
      using reads [OF assms(1), of "ParseBytes c' (val_text c 0 v @ ch_comma # rest)" "[]" c 0 ch_comma rest "Suc (length (val_text c 0 v)) + k" old]
        \<open>\<not> number_char ch_comma\<close> assms(2,3) ParseBytes_start [of c' "val_text c 0 v @ ch_comma # rest"]
      by (auto dest: consumes_Error)
  qed
  ultimately show ?thesis by metis
qed

text \<open>For fewer values, more nesting, fewer configurations.\<close>

lemma restricted:
  assumes "\<And>v. ok' v \<Longrightarrow> ok v" "room \<le> room'" "\<And>c. cfgs' c \<Longrightarrow> cfgs c"
  shows "codec enc dec val_text ok' room' cfgs'"
proof (unfold_locales, goal_cases)
  case (2 v it ws c i t rest n old)
  then show ?case using reads [of v it ws c i t rest n old] assms by auto
qed (use writes text_head assms(1) in auto)

end

text \<open>Texts that end themselves, all but those of numbers, may be followed by anything, or by nothing.\<close>

locale closed_codec = codec +
  assumes reads_closed: "\<lbrakk>ok v; wf_iter it; Error it = None; 0 \<le> depth it; depth it + room \<le> maxDepth; list_all is_space ws;
      pending it = ws @ val_text c i v @ rest; length (val_text c i v) < n; cfgs (cfg it); captured it = None\<rbrakk>
    \<Longrightarrow> \<exists>it'. dec n old it = Some (v, it') \<and> consumes it (ws @ val_text c i v) it' \<and> pending it' = rest"

section \<open>The predeclared types keep the contract\<close>

lemma ReadNil_not:
  assumes "wf_iter it" "Error it = None" "list_all is_space ws" "pending it = ws @ c # rest" "\<not> is_space c" "c \<noteq> ch_n"
  shows "\<exists>it1. ReadNil it = (False, it1) \<and> consumes it ws it1 \<and> pending it1 = c # rest"
proof -
  obtain it1 where 1: "nextToken it = (c, it1)" "consumes it (ws @ [c]) it1" "can_unread c it1" "pending it1 = rest"
    using nextToken_at [OF assms(1,3,4,5)] by auto
  have "Error it1 = None" using consumes_Error [OF 1(2)] assms(2) by simp
  from unreadByte_spec [OF 1(2,3) this] 1 assms(6) show ?thesis by (auto simp: ReadNil_def)
qed

lemma ReadNil_null:
  assumes "wf_iter it" "list_all is_space ws" "pending it = ws @ [ch_n, ch_u, ch_l, ch_l] @ rest"
  shows "\<exists>it1. ReadNil it = (True, it1) \<and> consumes it (ws @ [ch_n, ch_u, ch_l, ch_l]) it1 \<and> pending it1 = rest"
proof -
  obtain it1 where 1: "nextToken it = (ch_n, it1)" "consumes it (ws @ [ch_n]) it1" "pending it1 = ch_u # ch_l # ch_l # rest"
    using nextToken_at [OF assms(1,2), of ch_n "ch_u # ch_l # ch_l # rest"] assms(3) by (auto simp: is_space_def)
  from skipThreeBytes_ok [OF consumes_wf [OF 1(2)] 1(3)] 1(1) consumes_trans [OF 1(2)]
  show ?thesis by (fastforce simp: ReadNil_def)
qed

lemma unless_nil_reads:
  assumes "wf_iter it" "Error it = None" "list_all is_space ws" "pending it = ws @ v @ rest" "v \<noteq> []"
    "\<not> is_space (hd v)" "hd v \<noteq> ch_n"
    and rd: "\<And>it1. wf_iter it1 \<Longrightarrow> Error it1 = None \<Longrightarrow> pending it1 = v @ rest \<Longrightarrow>
      \<exists>it'. read it1 = (x, it') \<and> consumes it1 v it' \<and> pending it' = rest"
  shows "\<exists>it'. unless_nil read old it = Some (x, it') \<and> consumes it (ws @ v) it' \<and> pending it' = rest"
proof -
  obtain c cs where v: "v = c # cs" using assms(5) by (cases v) auto
  from ReadNil_not [OF assms(1-3), of c "cs @ rest"] assms(4,6,7) v obtain it1 where
    1: "ReadNil it = (False, it1)" "consumes it ws it1" "pending it1 = v @ rest" by auto
  from rd [OF consumes_wf [OF 1(2)] _ 1(3)] consumes_Error [OF 1(2)] assms(2) obtain it' where
    2: "read it1 = (x, it')" "consumes it1 v it'" "pending it' = rest" by auto
  with 1 consumes_trans [OF 1(2) 2(2)] show ?thesis by (auto simp: unless_nil_def)
qed

lemma int_text_head: "int_text i \<noteq> [] \<and> (hd (int_text i) = ch_minus \<or> is_digit (hd (int_text i)))"
  using dec_bytes_digits [of "nat i"] dec_bytes_nonempty [of "nat i"] hd_in_set [of "dec_bytes (nat i)"]
  by (auto simp: int_text_def)

lemma int_head_chars: "hd (int_text i) \<noteq> ch_n \<and> hd (int_text i) \<notin> {ch_rbrack, ch_rbrace} \<and> \<not> is_space (hd (int_text i))"
  using int_text_head [of i] by (auto simp: is_digit_def is_space_def)

lemma int_codec:
  assumes "reads_int rdr lo hi" "\<And>v. lo \<le> val v \<and> val v \<le> hi \<and> of_int (val v) = v"
    "\<And>v s. wr v s = adds (int_text (val v)) s"
  shows "codec wr (\<lambda>n. unless_nil rdr) (\<lambda>c i v. int_text (val v)) (\<lambda>v. True) 0 (\<lambda>c. True)"
proof (unfold_locales, goal_cases)
  case (2 v it ws c i t rest n old)
  show ?case
  proof (rule unless_nil_reads [OF 2(2,3,6) _ _ _ _])
    fix it1
    assume 1: "wf_iter it1" "pending it1 = int_text (val v) @ t # rest"
    have "ends_int t" using 2(8) by (auto simp: ends_int_def number_char_def)
    with 1 have "at_int it1 [] (val v) (t # rest)" by (simp add: at_int_def)
    with assms(1,2) show "\<exists>it'. rdr it1 = (v, it') \<and> consumes it1 (int_text (val v)) it' \<and> pending it' = t # rest"
      unfolding reads_int_def by (metis append_Nil)
  qed (use 2 int_text_head int_head_chars in auto)
qed (use assms(3) int_text_head int_head_chars in auto)

lemma word_range:
  "- 128 \<le> sint (a :: 8 word) \<and> sint a \<le> 127" "- 32768 \<le> sint (b :: u16) \<and> sint b \<le> 32767"
  "- 2147483648 \<le> sint (c :: u32) \<and> sint c \<le> 2147483647"
  "- 9223372036854775808 \<le> sint (d :: u64) \<and> sint d \<le> 9223372036854775807"
  "uint a \<le> 255" "uint b \<le> 65535" "uint c \<le> 4294967295" "uint d \<le> 18446744073709551615"
  using sint_ge [of a] sint_lt [of a] sint_ge [of b] sint_lt [of b] sint_ge [of c] sint_lt [of c]
    sint_ge [of d] sint_lt [of d] uint_lt2p [of a] uint_lt2p [of b] uint_lt2p [of c] uint_lt2p [of d]
  by simp_all

interpretation int8: codec int8Codec_Encode "\<lambda>n. int8Codec_Decode" "\<lambda>c i v. int_text (sint v)" "\<lambda>v. True" 0 "\<lambda>c. True"
  unfolding int8Codec_Decode_def int8Codec_Encode_def
  by (rule int_codec [OF conjunct1 [OF signed_reader_laws(1)]]) (simp_all add: word_range stream_adds)

interpretation int16: codec int16Codec_Encode "\<lambda>n. int16Codec_Decode" "\<lambda>c i v. int_text (sint v)" "\<lambda>v. True" 0 "\<lambda>c. True"
  unfolding int16Codec_Decode_def int16Codec_Encode_def
  by (rule int_codec [OF conjunct1 [OF signed_reader_laws(2)]]) (simp_all add: word_range stream_adds)

interpretation int32: codec int32Codec_Encode "\<lambda>n. int32Codec_Decode" "\<lambda>c i v. int_text (sint v)" "\<lambda>v. True" 0 "\<lambda>c. True"
  unfolding int32Codec_Decode_def int32Codec_Encode_def
  by (rule int_codec [OF conjunct1 [OF signed_reader_laws(3)]]) (simp_all add: word_range stream_adds)

interpretation int64: codec int64Codec_Encode "\<lambda>n. int64Codec_Decode" "\<lambda>c i v. int_text (sint v)" "\<lambda>v. True" 0 "\<lambda>c. True"
  unfolding int64Codec_Decode_def int64Codec_Encode_def
  by (rule int_codec [OF conjunct1 [OF signed_reader_laws(4)]]) (simp_all add: word_range stream_adds)

interpretation uint8: codec uint8Codec_Encode "\<lambda>n. uint8Codec_Decode" "\<lambda>c i v. int_text (uint v)" "\<lambda>v. True" 0 "\<lambda>c. True"
  unfolding uint8Codec_Decode_def uint8Codec_Encode_def
  by (rule int_codec [OF conjunct1 [OF unsigned_reader_laws(1)]]) (simp_all add: word_range stream_adds int_text_def)

interpretation uint16: codec uint16Codec_Encode "\<lambda>n. uint16Codec_Decode" "\<lambda>c i v. int_text (uint v)" "\<lambda>v. True" 0 "\<lambda>c. True"
  unfolding uint16Codec_Decode_def uint16Codec_Encode_def
  by (rule int_codec [OF conjunct1 [OF unsigned_reader_laws(2)]]) (simp_all add: word_range stream_adds int_text_def)

interpretation uint32: codec uint32Codec_Encode "\<lambda>n. uint32Codec_Decode" "\<lambda>c i v. int_text (uint v)" "\<lambda>v. True" 0 "\<lambda>c. True"
  unfolding uint32Codec_Decode_def uint32Codec_Encode_def
  by (rule int_codec [OF conjunct1 [OF unsigned_reader_laws(3)]]) (simp_all add: word_range stream_adds int_text_def)

interpretation uint64: codec uint64Codec_Encode "\<lambda>n. uint64Codec_Decode" "\<lambda>c i v. int_text (uint v)" "\<lambda>v. True" 0 "\<lambda>c. True"
  unfolding uint64Codec_Decode_def uint64Codec_Encode_def
  by (rule int_codec [OF conjunct1 [OF unsigned_reader_laws(4)]]) (simp_all add: word_range stream_adds int_text_def)

definition bool_text :: "bool \<Rightarrow> bytes" where
  "bool_text b = (if b then [ch_t, ch_r, ch_u, ch_e] else [ch_f, ch_a, ch_l, ch_s, ch_e])"

lemma ReadBool_reads:
  assumes "wf_iter it" "pending it = bool_text b @ rest"
  shows "\<exists>it'. ReadBool it = (b, it') \<and> consumes it (bool_text b) it' \<and> pending it' = rest"
proof (cases b)
  case True
  obtain it1 where 1: "nextToken it = (ch_t, it1)" "consumes it [ch_t] it1" "pending it1 = ch_r # ch_u # ch_e # rest"
    using nextToken_at [of it "[]" ch_t "ch_r # ch_u # ch_e # rest"] assms True by (auto simp: bool_text_def is_space_def)
  from skipThreeBytes_ok [OF consumes_wf [OF 1(2)] 1(3)] 1(1) consumes_trans [OF 1(2)] True
  show ?thesis by (fastforce simp: ReadBool_def bool_text_def)
next
  case False
  obtain it1 where 1: "nextToken it = (ch_f, it1)" "consumes it [ch_f] it1" "pending it1 = ch_a # ch_l # ch_s # ch_e # rest"
    using nextToken_at [of it "[]" ch_f "ch_a # ch_l # ch_s # ch_e # rest"] assms False by (auto simp: bool_text_def is_space_def)
  from skipFourBytes_ok [OF consumes_wf [OF 1(2)] 1(3)] 1(1) consumes_trans [OF 1(2)] False
  show ?thesis by (fastforce simp: ReadBool_def bool_text_def)
qed

interpretation bool: codec boolCodec_Encode "\<lambda>n. boolCodec_Decode" "\<lambda>c i. bool_text" "\<lambda>v. True" 0 "\<lambda>c. True"
proof (unfold_locales, goal_cases)
  case (2 v it ws c i t rest n old)
  then show ?case unfolding boolCodec_Decode_def
    by (intro unless_nil_reads ReadBool_reads) (auto simp: bool_text_def is_space_def)
qed (auto simp: boolCodec_Encode_def stream_adds bool_text_def is_space_def)

text \<open>Strings: \<open>ReadString\<close> consumes exactly the literal.\<close>

lemma ReadString_literal:
  assumes "wf_iter it" "Error it = None" "list_all is_space ws" "pending it = ws @ ch_quote # k @ rest"
    "\<And>ys. decode_str (k @ ys) = Some (d, ys)"
  shows "\<exists>it'. ReadString it = (d, it') \<and> consumes it (ws @ ch_quote # k) it' \<and> pending it' = rest"
proof -
  obtain it1 where 1: "nextToken it = (ch_quote, it1)" "consumes it (ws @ [ch_quote]) it1" "pending it1 = k @ rest"
    using nextToken_at [of it ws ch_quote "k @ rest"] assms(1,3,4) by (auto simp: is_space_def)
  have e: "Error it1 = None" using consumes_Error [OF 1(2)] assms(2) by simp
  obtain s it' where r: "ReadString it = (s, it')" by force
  with 1(1) have "readStringInner_loop [] it1 = (s, it')" by (simp add: ReadString_def readStringInner_def)
  with readStringInner_loop_reads [OF consumes_wf [OF 1(2)] e, of "[]"] assms(5) [of rest] 1(3) obtain xs where
    2: "s = d" "consumes it1 xs it'" "pending it' = rest" by (auto simp: reads_as_Some)
  have "xs = k" using consumes_pending [OF 2(2)] 1(3) 2(3) by simp
  with r 2 consumes_trans [OF 1(2) 2(2)] show ?thesis by simp
qed

definition string_text :: "bytes \<Rightarrow> bytes" where
  "string_text b = ch_quote # esc_bytes b @ [ch_quote]"

lemma ReadString_text:
  assumes "wf_iter it" "Error it = None" "list_all is_space ws" "pending it = ws @ string_text b @ rest"
  shows "\<exists>it'. ReadString it = (b, it') \<and> consumes it (ws @ string_text b) it' \<and> pending it' = rest"
  using ReadString_literal [OF assms(1-3), of "esc_bytes b @ [ch_quote]" rest b] assms(4) decode_esc_bytes
  by (simp add: string_text_def)

interpretation string: closed_codec stringCodec_Encode "\<lambda>n. stringCodec_Decode" "\<lambda>c i. string_text" "\<lambda>v. True" 0 "\<lambda>c. True"
proof (unfold_locales, goal_cases)
  case (2 v it ws c i t rest n old)
  then show ?case using ReadString_text by (auto simp: stringCodec_Decode_def)
next
  case (4 v it ws c i rest n old)
  then show ?case using ReadString_text by (auto simp: stringCodec_Decode_def)
qed (auto simp: stringCodec_Encode_def stream_adds string_text_def is_space_def)

section \<open>Property\<close>

lemma zero_room: "(0::int) \<le> maxDepth"
  by (simp add: maxDepth_def)

lemma all_cfgs: "\<forall>c. (\<lambda>c. True) c" by simp

text \<open>For every predeclared type and every value of it, what its codec writes is decoded to the
  same value: all 8- to 64-bit integers, booleans and strings of arbitrary bytes.\<close>

lemma native_round_trips:
  "parsed_back int8Codec_Decode (s_buf (int8Codec_Encode v0 (NewStream c out))) v0
   \<and> parsed_back int16Codec_Decode (s_buf (int16Codec_Encode v1 (NewStream c out))) v1
   \<and> parsed_back int32Codec_Decode (s_buf (int32Codec_Encode v2 (NewStream c out))) v2
   \<and> parsed_back int64Codec_Decode (s_buf (int64Codec_Encode v3 (NewStream c out))) v3
   \<and> parsed_back uint8Codec_Decode (s_buf (uint8Codec_Encode v4 (NewStream c out))) v4
   \<and> parsed_back uint16Codec_Decode (s_buf (uint16Codec_Encode v5 (NewStream c out))) v5
   \<and> parsed_back uint32Codec_Decode (s_buf (uint32Codec_Encode v6 (NewStream c out))) v6
   \<and> parsed_back uint64Codec_Decode (s_buf (uint64Codec_Encode v7 (NewStream c out))) v7
   \<and> parsed_back boolCodec_Decode (s_buf (boolCodec_Encode v8 (NewStream c out))) v8
   \<and> parsed_back stringCodec_Decode (s_buf (stringCodec_Encode v9 (NewStream c out))) v9"
  using int8.parse_back [where c = c and out = out, OF TrueI zero_room all_cfgs]
    int16.parse_back [where c = c and out = out, OF TrueI zero_room all_cfgs]
    int32.parse_back [where c = c and out = out, OF TrueI zero_room all_cfgs]
    int64.parse_back [where c = c and out = out, OF TrueI zero_room all_cfgs]
    uint8.parse_back [where c = c and out = out, OF TrueI zero_room all_cfgs]
    uint16.parse_back [where c = c and out = out, OF TrueI zero_room all_cfgs]
    uint32.parse_back [where c = c and out = out, OF TrueI zero_room all_cfgs]
    uint64.parse_back [where c = c and out = out, OF TrueI zero_room all_cfgs]
    bool.parse_back [where c = c and out = out, OF TrueI zero_room all_cfgs]
    string.parse_back [where c = c and out = out, OF TrueI zero_room all_cfgs]
  by (simp only: ex_simps simp_thms)

end
