(* ===== verification/SliceCodec.thy ===== *)
theory SliceCodec
  imports Native
begin

text \<open>
  \<open>reflect_slice.go\<close>, \<open>reflect_array.go\<close> and \<open>reflect_optional.go\<close>: codecs of slices, arrays and
  pointers, given the codec of their elements.

  A slice is nil (\<open>None\<close>) or the list of its elements. Its memory is managed by the reflect2 package:
  \<open>grow xs n\<close> stands for \<open>UnsafeGrow\<close>, which makes the length \<open>n\<close> and keeps the elements that fit;
  elements beyond the old length may hold anything. \<open>tname\<close> is the name of the type in error messages.
\<close>

section \<open>Slices\<close>

definition wrap_dec_error :: "string \<Rightarrow> 'v \<times> iterator \<Rightarrow> 'v \<times> iterator" where
  "wrap_dec_error tname = (\<lambda>(v, it).
     (v, case Error it of None \<Rightarrow> it
         | Some e \<Rightarrow> if e = EOF then it else it\<lparr>Error := Some (Wrapped (tname @ '': '') e)\<rparr>))"

definition wrap_enc_error :: "string \<Rightarrow> stream \<Rightarrow> stream" where
  "wrap_enc_error pre s =
     (case s_Error s of None \<Rightarrow> s
      | Some e \<Rightarrow> if e = EOF then s else s\<lparr>s_Error := Some (Wrapped pre e)\<rparr>)"

definition sliceEncoder_Encode :: "string \<Rightarrow> 'v encoder \<Rightarrow> 'v list option encoder" where
  "sliceEncoder_Encode tname elemEncoder v s =
     (case v of
        None \<Rightarrow> WriteNil s
      | Some [] \<Rightarrow> WriteEmptyArray s
      | Some (x # xs) \<Rightarrow>
          wrap_enc_error (tname @ '': '')
            (WriteArrayEnd (foldl (\<lambda>s y. elemEncoder y (WriteMore s)) (elemEncoder x (WriteArrayStart s)) xs)))"

definition sliceEncoder_IsEmpty :: "'v list option \<Rightarrow> bool" where
  "sliceEncoder_IsEmpty v \<longleftrightarrow> v = None \<or> v = Some []"

text \<open>The loop over the elements behind the first: \<open>c\<close> is the token read last; the result is the
  elements, the token that ended the loop and the iterator.\<close>

fun sliceDecoder_loop :: "nat \<Rightarrow> ('v list \<Rightarrow> nat \<Rightarrow> 'v list) \<Rightarrow> 'v decoder \<Rightarrow> byte \<Rightarrow> 'v list \<Rightarrow> iterator
    \<Rightarrow> ('v list \<times> byte \<times> iterator) option" where
  "sliceDecoder_loop 0 grow elemDecoder c xs it = None"
| "sliceDecoder_loop (Suc n) grow elemDecoder c xs it =
     (if c = ch_comma then
        let idx = length xs; xs1 = grow xs (idx + 1) in
        (case elemDecoder (xs1 ! idx) it of
           None \<Rightarrow> None
         | Some (v, it1) \<Rightarrow>
             (case nextToken it1 of (c', it2) \<Rightarrow> sliceDecoder_loop n grow elemDecoder c' (xs1[idx := v]) it2))
      else Some (xs, c, it))"

definition sliceDecoder_doDecode :: "nat \<Rightarrow> ('v list \<Rightarrow> nat \<Rightarrow> 'v list) \<Rightarrow> 'v decoder \<Rightarrow> 'v list option decoder" where
  "sliceDecoder_doDecode fuel grow elemDecoder old it =
     (case nextToken it of (c, it1) \<Rightarrow>
      if c = ch_n then Some (None, skipThreeBytes ch_u ch_l ch_l it1)
      else if c \<noteq> ch_lbrack then
        Some (old, ReportError ''decode slice'' (''expect [ or n, but found '' @ byte_str c) it1)
      else
        (case nextToken it1 of (c, it2) \<Rightarrow>
         if c = ch_rbrack then Some (Some [], it2)
         else
           let xs = grow (case old of None \<Rightarrow> [] | Some xs \<Rightarrow> xs) 1 in
           (case elemDecoder (xs ! 0) (unreadByte it2) of
              None \<Rightarrow> None
            | Some (v, it3) \<Rightarrow>
                (case nextToken it3 of (c, it4) \<Rightarrow>
                 case sliceDecoder_loop fuel grow elemDecoder c (xs[0 := v]) it4 of
                   None \<Rightarrow> None
                 | Some (xs, c, it5) \<Rightarrow>
                     Some (Some xs,
                       if c \<noteq> ch_rbrack
                       then ReportError ''decode slice'' (''expect ], but found '' @ byte_str c) it5 else it5)))))"

definition sliceDecoder_Decode :: "nat \<Rightarrow> string \<Rightarrow> ('v list \<Rightarrow> nat \<Rightarrow> 'v list) \<Rightarrow> 'v decoder \<Rightarrow> 'v list option decoder" where
  "sliceDecoder_Decode fuel tname grow elemDecoder old it =
     map_option (wrap_dec_error tname) (sliceDecoder_doDecode fuel grow elemDecoder old it)"

section \<open>Arrays\<close>

text \<open>An array of length \<open>n\<close> is a list of \<open>n\<close> elements. \<open>None\<close> is also the access to element 0 of an
  array that has none.\<close>

definition emptyArrayEncoder_Encode :: "'v list encoder" where
  "emptyArrayEncoder_Encode v s = WriteEmptyArray s"

definition arrayEncoder_Encode :: "string \<Rightarrow> 'v encoder \<Rightarrow> 'v list encoder" where
  "arrayEncoder_Encode tname elemEncoder v s =
     wrap_enc_error (tname @ '': '')
       (WriteArrayEnd (foldl (\<lambda>s y. elemEncoder y (WriteMore s)) (elemEncoder (v ! 0) (WriteArrayStart s)) (tl v)))"

definition encoderOfArray :: "string \<Rightarrow> 'v encoder \<Rightarrow> nat \<Rightarrow> 'v list encoder" where
  "encoderOfArray tname elemEncoder len =
     (if len = 0 then emptyArrayEncoder_Encode else arrayEncoder_Encode tname elemEncoder)"

fun arrayDecoder_loop :: "nat \<Rightarrow> 'v decoder \<Rightarrow> nat \<Rightarrow> byte \<Rightarrow> 'v list \<Rightarrow> iterator
    \<Rightarrow> ('v list \<times> byte \<times> iterator) option" where
  "arrayDecoder_loop 0 elemDecoder len c xs it = None"
| "arrayDecoder_loop (Suc n) elemDecoder len c xs it =
     (if c = ch_comma then
        (case (if len \<ge> length xs then map_option (Pair xs) (Skip n it)
               else map_option (\<lambda>(v, it1). (xs[len := v], it1)) (elemDecoder (xs ! len) it)) of
           None \<Rightarrow> None
         | Some (xs', it1) \<Rightarrow>
             (case nextToken it1 of (c', it2) \<Rightarrow>
              arrayDecoder_loop n elemDecoder (if len \<ge> length xs then len else len + 1) c' xs' it2))
      else Some (xs, c, it))"

definition arrayDecoder_doDecode :: "nat \<Rightarrow> 'v decoder \<Rightarrow> 'v list decoder" where
  "arrayDecoder_doDecode fuel elemDecoder old it =
     (case nextToken it of (c, it1) \<Rightarrow>
      if c = ch_n then Some (old, skipThreeBytes ch_u ch_l ch_l it1)
      else if c \<noteq> ch_lbrack then
        Some (old, ReportError ''decode array'' (''expect [ or n, but found '' @ byte_str c) it1)
      else
        (case nextToken it1 of (c, it2) \<Rightarrow>
         if c = ch_rbrack then Some (old, it2)
         else if old = [] then None
         else
           (case elemDecoder (old ! 0) (unreadByte it2) of
              None \<Rightarrow> None
            | Some (v, it3) \<Rightarrow>
                (case nextToken it3 of (c, it4) \<Rightarrow>
                 case arrayDecoder_loop fuel elemDecoder 1 c (old[0 := v]) it4 of
                   None \<Rightarrow> None
                 | Some (xs, c, it5) \<Rightarrow>
                     Some (xs,
                       if c \<noteq> ch_rbrack
                       then ReportError ''decode array'' (''expect ], but found '' @ byte_str c) it5 else it5)))))"

definition arrayDecoder_Decode :: "nat \<Rightarrow> string \<Rightarrow> 'v decoder \<Rightarrow> 'v list decoder" where
  "arrayDecoder_Decode fuel tname elemDecoder old it =
     map_option (wrap_dec_error tname) (arrayDecoder_doDecode fuel elemDecoder old it)"

section \<open>Pointers\<close>

text \<open>A pointer is nil or the value it points to; \<open>zero\<close> is the value \<open>UnsafeNew\<close> allocates.\<close>

definition OptionalDecoder_Decode :: "'v \<Rightarrow> 'v decoder \<Rightarrow> 'v option decoder" where
  "OptionalDecoder_Decode zero valueDecoder old it =
     (case ReadNil it of (isnil, it1) \<Rightarrow>
      if isnil then Some (None, it1)
      else
        (case old of
           None \<Rightarrow> map_option (\<lambda>(v, it2). (Some v, it2)) (valueDecoder zero it1)
         | Some p \<Rightarrow> map_option (\<lambda>(v, it2). (Some v, it2)) (valueDecoder p it1)))"

definition OptionalEncoder_Encode :: "'v encoder \<Rightarrow> 'v option encoder" where
  "OptionalEncoder_Encode valueEncoder v s = (case v of None \<Rightarrow> WriteNil s | Some x \<Rightarrow> valueEncoder x s)"

definition OptionalEncoder_IsEmpty :: "'v option \<Rightarrow> bool" where
  "OptionalEncoder_IsEmpty v \<longleftrightarrow> v = None"

definition dereferenceDecoder_Decode :: "'v \<Rightarrow> 'v decoder \<Rightarrow> 'v option decoder" where
  "dereferenceDecoder_Decode zero valueDecoder old it =
     map_option (\<lambda>(v, it1). (Some v, it1)) (valueDecoder (case old of None \<Rightarrow> zero | Some p \<Rightarrow> p) it)"

definition dereferenceEncoder_Encode :: "'v encoder \<Rightarrow> 'v option encoder" where
  "dereferenceEncoder_Encode valueEncoder v s = (case v of None \<Rightarrow> WriteNil s | Some x \<Rightarrow> valueEncoder x s)"

definition dereferenceEncoder_IsEmpty :: "('v \<Rightarrow> bool) \<Rightarrow> 'v option \<Rightarrow> bool" where
  "dereferenceEncoder_IsEmpty valueIsEmpty v \<longleftrightarrow> (case v of None \<Rightarrow> True | Some x \<Rightarrow> valueIsEmpty x)"

section \<open>The text of a sequence\<close>

text \<open>The elements behind the first, and the whole between the brackets \<open>o\<close> and \<open>c\<close>: \<open>w\<close> is the white
  space in front of an element, \<open>w'\<close> the one in front of the closing bracket.\<close>

definition more_text :: "bytes \<Rightarrow> bytes list \<Rightarrow> bytes" where
  "more_text w es = concat (map (\<lambda>e. ch_comma # w @ e) es)"

lemma more_text_simps [simp]: "more_text w [] = []" "more_text w (e # es) = ch_comma # w @ e @ more_text w es"
  by (simp_all add: more_text_def)

definition seq_text :: "byte \<Rightarrow> byte \<Rightarrow> bytes \<Rightarrow> bytes \<Rightarrow> bytes list \<Rightarrow> bytes" where
  "seq_text op cl w w' es = op # w @ hd es @ more_text w (tl es) @ w' @ [cl]"

text \<open>The indention of the elements of a container at indention \<open>i\<close>.\<close>

abbreviation inner :: "frozenConfig \<Rightarrow> int \<Rightarrow> int" where
  "inner c i \<equiv> i + indentionStep c"

lemma wrap_no_error [simp]: "s_Error s = None \<Longrightarrow> wrap_enc_error p s = s" "Error it = None \<Longrightarrow> wrap_dec_error n (v, it) = (v, it)"
  by (simp_all add: wrap_enc_error_def wrap_dec_error_def)

text \<open>What follows an element: a comma or the white space and the bracket behind the last.\<close>

lemma after_element:
  assumes "list_all is_space w'" "\<not> number_char cl"
  shows "\<exists>t' r. more_text w es @ w' @ cl # rest = t' # r \<and> \<not> number_char t'"
proof -
  have sp: "is_space c \<Longrightarrow> \<not> number_char c" for c by (auto simp: is_space_def number_char_def is_digit_def)
  show ?thesis
  proof (cases es)
    case (Cons e es')
    then show ?thesis by (simp add: number_char_def is_digit_def)
  next
    case Nil
    with assms sp show ?thesis by (cases w') auto
  qed
qed

definition slice_text :: "(frozenConfig \<Rightarrow> int \<Rightarrow> 'v \<Rightarrow> bytes) \<Rightarrow> frozenConfig \<Rightarrow> int \<Rightarrow> 'v list option \<Rightarrow> bytes" where
  "slice_text elem_text c i v =
     (case v of
        None \<Rightarrow> [ch_n, ch_u, ch_l, ch_l]
      | Some [] \<Rightarrow> [ch_lbrack, ch_rbrack]
      | Some xs \<Rightarrow> seq_text ch_lbrack ch_rbrack (blanks (inner c i) 0) (blanks (inner c i) (indentionStep c))
                     (map (elem_text c (inner c i)) xs))"

section \<open>Slices keep the contract\<close>

text \<open>The contract of \<open>UnsafeGrow\<close>.\<close>

locale slice_codec = codec enc dec val_text ok room cfgs
  for enc :: "'v encoder" and dec :: "nat \<Rightarrow> 'v decoder" and val_text :: "frozenConfig \<Rightarrow> int \<Rightarrow> 'v \<Rightarrow> bytes"
    and ok :: "'v \<Rightarrow> bool" and room :: int and cfgs +
  fixes grow :: "'v list \<Rightarrow> nat \<Rightarrow> 'v list" and tname :: string
  assumes grow_length: "length (grow xs n) = n"
    and grow_keeps: "take (length xs) (grow xs (Suc (length xs))) = xs"
begin

lemma elements_written:
  assumes "list_all ok xs" "s_Error s = None"
  shows "foldl (\<lambda>s y. enc y (WriteMore s)) s xs
    = adds (more_text (blanks (indention s) 0) (map (val_text (s_cfg s) (indention s)) xs)) s"
  using assms
proof (induction xs arbitrary: s)
  case (Cons x xs)
  then show ?case using writes [of x "WriteMore s"] by (simp add: stream_adds)
qed simp

lemma nonempty_written:
  assumes "list_all ok (x # xs)" "s_Error s = None"
  shows "WriteArrayEnd (foldl (\<lambda>s y. enc y (WriteMore s)) (enc x (WriteArrayStart s)) xs)
    = adds (slice_text val_text (s_cfg s) (indention s) (Some (x # xs))) s"
proof -
  let ?s = "WriteArrayStart s"
  have e: "s_Error ?s = None" "s_cfg ?s = s_cfg s" "indention ?s = inner (s_cfg s) (indention s)"
    using assms(2) by (simp_all add: stream_adds)
  have "enc x ?s = adds (val_text (s_cfg s) (inner (s_cfg s) (indention s)) x) ?s"
    using writes [of x ?s] e assms(1) by simp
  then show ?thesis using elements_written [of xs "enc x ?s"] e assms
    by (simp add: slice_text_def seq_text_def container_adds adds_def)
qed

text \<open>The loop of the decoder.\<close>

lemma loop_reads:
  assumes "wf_iter it" "Error it = None" "0 \<le> depth it" "depth it + room \<le> maxDepth" "list_all ok ys"
    "list_all is_space w" "list_all is_space w'" "\<forall>y \<in> set ys. length (val_text c i y) < n" "length ys < k"
    "pending it = more_text w (map (val_text c i) ys) @ w' @ ch_rbrack # rest" "cfgs (cfg it)" "captured it = None"
  shows "\<exists>c1 it1 it'. nextToken it = (c1, it1) \<and> sliceDecoder_loop k grow (dec n) c1 acc it1 = Some (acc @ ys, ch_rbrack, it')
    \<and> consumes it (more_text w (map (val_text c i) ys) @ w' @ [ch_rbrack]) it' \<and> pending it' = rest"
  using assms
proof (induction ys arbitrary: it acc k)
  case Nil
  then obtain k' where "k = Suc k'" by (cases k) auto
  moreover obtain it1 where "nextToken it = (ch_rbrack, it1)" "consumes it (w' @ [ch_rbrack]) it1" "pending it1 = rest"
    using nextToken_at [OF Nil(1,7), of ch_rbrack rest] Nil(10) by (auto simp: is_space_def)
  ultimately show ?case by simp
next
  case (Cons y ys)
  then obtain k' where k: "k = Suc k'" "length ys < k'" by (cases k) auto
  let ?T = "more_text w (map (val_text c i) ys) @ w' @ ch_rbrack # rest"
  obtain it1 where 1: "nextToken it = (ch_comma, it1)" "consumes it [ch_comma] it1" "pending it1 = w @ val_text c i y @ ?T"
    using nextToken_at [OF Cons.prems(1), of "[]" ch_comma "w @ val_text c i y @ ?T"] Cons.prems(10) by (auto simp: is_space_def)
  note s1 = consumes_same [OF 1(2)]
  obtain t' r where t: "?T = t' # r" "\<not> number_char t'"
    using after_element [of w' ch_rbrack w "map (val_text c i) ys" rest] Cons.prems(7) by (auto simp: number_char_def is_digit_def)
  obtain it2 where 2: "dec n (grow acc (length acc + 1) ! length acc) it1 = Some (y, it2)"
      "consumes it1 (w @ val_text c i y) it2" "pending it2 = ?T"
    using reads [of y it1 w c i t' r n] 1(3) t s1 Cons.prems by auto
  note s2 = consumes_same [OF 2(2)]
  have g: "(grow acc (length acc + 1))[length acc := y] = acc @ [y]"
    using grow_length [of acc "Suc (length acc)"] grow_keeps [of acc]
    by (metis Suc_eq_plus1 lessI list_update_append1 take_Suc_conv_app_nth take_all_iff upd_conv_take_nth_drop
        drop_all append_Nil2 order_refl)
  obtain c1 it3 it' where "nextToken it2 = (c1, it3)"
      "sliceDecoder_loop k' grow (dec n) c1 (acc @ [y]) it3 = Some ((acc @ [y]) @ ys, ch_rbrack, it')"
      "consumes it2 (more_text w (map (val_text c i) ys) @ w' @ [ch_rbrack]) it'" "pending it' = rest"
    using Cons.IH [of it2 k' "acc @ [y]"] 2(3) s2 s1 Cons.prems k(2) by auto
  with 1 2 k g consumes_trans [OF 1(2) consumes_trans [OF 2(2)]] show ?case
    by (intro exI [of _ ch_comma] exI [of _ it1] exI [of _ it']) (simp add: Let_def)
qed

lemma slice_length:
  assumes "x \<in> set xs"
  shows "length (val_text c (inner c i) x) < length (slice_text val_text c i (Some xs))"
    "length xs \<le> length (slice_text val_text c i (Some xs))"
proof -
  have m: "y \<in> set ys \<Longrightarrow> length (f y) \<le> length (more_text w (map f ys))" for y ys w and f :: "'v \<Rightarrow> bytes"
    by (induction ys) auto
  have l: "length ys \<le> length (more_text w (map f ys))" for ys w and f :: "'v \<Rightarrow> bytes"
    by (induction ys) auto
  obtain y ys where xs: "xs = y # ys" using assms by (cases xs) auto
  show "length (val_text c (inner c i) x) < length (slice_text val_text c i (Some xs))"
    using assms m [of x ys "val_text c (inner c i)" "blanks (inner c i) 0"]
    by (auto simp: xs slice_text_def seq_text_def)
  show "length xs \<le> length (slice_text val_text c i (Some xs))"
    using l [of ys "blanks (inner c i) 0" "val_text c (inner c i)"] by (simp add: xs slice_text_def seq_text_def)
qed

lemma nonempty_reads:
  assumes "wf_iter it" "Error it = None" "0 \<le> depth it" "depth it + room \<le> maxDepth" "list_all ok (x # xs)"
    "list_all is_space ws" "pending it = ws @ slice_text val_text c i (Some (x # xs)) @ rest"
    "length (slice_text val_text c i (Some (x # xs))) < n" "cfgs (cfg it)" "captured it = None"
  shows "\<exists>it'. sliceDecoder_doDecode n grow (dec n) old it = Some (Some (x # xs), it')
    \<and> consumes it (ws @ slice_text val_text c i (Some (x # xs))) it' \<and> pending it' = rest"
proof -
  let ?v = "val_text c (inner c i)" and ?w = "blanks (inner c i) 0" and ?w' = "blanks (inner c i) (indentionStep c)"
  let ?T = "more_text ?w (map ?v xs) @ ?w' @ ch_rbrack # rest"
  have tx: "slice_text val_text c i (Some (x # xs)) = ch_lbrack # ?w @ ?v x @ more_text ?w (map ?v xs) @ ?w' @ [ch_rbrack]"
    by (simp add: slice_text_def seq_text_def)
  obtain it1 where 1: "nextToken it = (ch_lbrack, it1)" "consumes it (ws @ [ch_lbrack]) it1" "pending it1 = ?w @ ?v x @ ?T"
    using nextToken_at [OF assms(1,6), of ch_lbrack "?w @ ?v x @ ?T"] assms(7) by (auto simp: tx is_space_def)
  note s1 = consumes_same [OF 1(2)]
  obtain e es where ex: "?v x = e # es" "e \<noteq> ch_rbrack" "\<not> is_space e"
    using text_head [of x c "inner c i"] assms(5) by (cases "?v x") auto
  obtain it2 where 2: "nextToken it1 = (e, it2)" "consumes it1 (?w @ [e]) it2" "can_unread e it2" "pending it2 = es @ ?T"
    using nextToken_at [of it1 ?w e "es @ ?T"] 1(3) s1 assms(1) ex by auto
  have "Error it2 = None" using consumes_Error [OF 2(2)] s1 assms(2) by simp
  from unreadByte_spec [OF 2(2,3) this] have u: "consumes it1 ?w (unreadByte it2)" "pending (unreadByte it2) = ?v x @ ?T"
    using 2(4) ex(1) by auto
  note su = consumes_same [OF u(1)]
  obtain t' r where t: "?T = t' # r" "\<not> number_char t'"
    using after_element [of ?w' ch_rbrack ?w "map ?v xs" rest] by (auto simp: number_char_def is_digit_def)
  let ?old = "grow (case old of None \<Rightarrow> [] | Some ys \<Rightarrow> ys) 1"
  have len: "length (?v y) < n" if "y \<in> set (x # xs)" for y using slice_length(1) [OF that, of c i] assms(8) by simp
  obtain it3 where 3: "dec n (?old ! 0) (unreadByte it2) = Some (x, it3)" "consumes (unreadByte it2) (?v x) it3" "pending it3 = ?T"
    using reads [of x "unreadByte it2" "[]" c "inner c i" t' r n "?old ! 0"] u(2) t su s1 assms(1-5,9,10) len by auto
  note s3 = consumes_same [OF 3(2)]
  have "length (?old[0 := x]) = 1" using grow_length [of _ 1] by simp
  then have g: "?old[0 := x] = [x]" using grow_length [of _ 1] by (cases "?old") auto
  have k: "length xs < n" using slice_length(2) [of x "x # xs" c i] assms(8) by simp
  obtain c1 it4 it' where 4: "nextToken it3 = (c1, it4)" "sliceDecoder_loop n grow (dec n) c1 [x] it4 = Some ([x] @ xs, ch_rbrack, it')"
      "consumes it3 (more_text ?w (map ?v xs) @ ?w' @ [ch_rbrack]) it'" "pending it' = rest"
    using loop_reads [of it3 xs ?w ?w' c "inner c i" n n rest "[x]"] 3(3) s3 su s1 assms(1-5,9,10) len k by auto
  have con: "consumes it (ws @ slice_text val_text c i (Some (x # xs))) it'"
    using consumes_trans [OF 1(2) consumes_trans [OF u(1) consumes_trans [OF 3(2) 4(3)]]] by (simp add: tx)
  have "sliceDecoder_doDecode n grow (dec n) old it = Some (Some (x # xs), it')"
    using 1(1) 2(1) ex(2) 3(1) 4(1,2) g by (simp add: sliceDecoder_doDecode_def Let_def)
  with con 4(4) show ?thesis by blast
qed

lemma empty_reads:
  assumes "wf_iter it" "list_all is_space ws" "pending it = ws @ slice_text val_text c i v @ rest" "v = None \<or> v = Some []"
  shows "\<exists>it'. sliceDecoder_doDecode n grow (dec n) old it = Some (v, it')
    \<and> consumes it (ws @ slice_text val_text c i v) it' \<and> pending it' = rest"
proof (cases v)
  case None
  obtain it1 where 1: "nextToken it = (ch_n, it1)" "consumes it (ws @ [ch_n]) it1" "pending it1 = ch_u # ch_l # ch_l # rest"
    using nextToken_at [OF assms(1,2), of ch_n "ch_u # ch_l # ch_l # rest"] assms(3) None by (auto simp: is_space_def slice_text_def)
  from skipThreeBytes_ok [OF consumes_wf [OF 1(2)] 1(3)] 1(1) consumes_trans [OF 1(2)] None
  show ?thesis by (fastforce simp: sliceDecoder_doDecode_def slice_text_def)
next
  case (Some xs)
  with assms(4) have v: "v = Some []" by simp
  obtain it1 where 1: "nextToken it = (ch_lbrack, it1)" "consumes it (ws @ [ch_lbrack]) it1" "pending it1 = ch_rbrack # rest"
    using nextToken_at [OF assms(1,2), of ch_lbrack "ch_rbrack # rest"] assms(3) v by (auto simp: is_space_def slice_text_def)
  obtain it2 where 2: "nextToken it1 = (ch_rbrack, it2)" "consumes it1 [ch_rbrack] it2" "pending it2 = rest"
    using nextToken_at [of it1 "[]" ch_rbrack rest] 1(3) consumes_wf [OF 1(2)] by (auto simp: is_space_def)
  from 1 2 consumes_trans [OF 1(2) 2(2)] v show ?thesis by (simp add: sliceDecoder_doDecode_def slice_text_def)
qed

lemma slice_reads:
  assumes "case v of None \<Rightarrow> True | Some xs \<Rightarrow> list_all ok xs" "wf_iter it" "Error it = None" "0 \<le> depth it"
    "depth it + room \<le> maxDepth" "list_all is_space ws" "pending it = ws @ slice_text val_text c i v @ rest"
    "length (slice_text val_text c i v) < n" "cfgs (cfg it)" "captured it = None"
  shows "\<exists>it'. sliceDecoder_Decode n tname grow (dec n) old it = Some (v, it')
    \<and> consumes it (ws @ slice_text val_text c i v) it' \<and> pending it' = rest"
proof -
  consider x xs where "v = Some (x # xs)" | "v = None \<or> v = Some []" by (metis list.exhaust option.exhaust)
  then obtain it' where "sliceDecoder_doDecode n grow (dec n) old it = Some (v, it')"
    "consumes it (ws @ slice_text val_text c i v) it'" "pending it' = rest"
    using nonempty_reads [of it _ _ ws c i rest n old] empty_reads [of it ws c i v rest n old] assms
    by cases fastforce+
  moreover from this(2) assms(3) have "Error it' = None" by (simp add: consumes_Error)
  ultimately show ?thesis by (simp add: sliceDecoder_Decode_def)
qed

end

text \<open>So the codec of slices is a codec again, and slices of slices are covered.\<close>

sublocale slice_codec \<subseteq> slice: closed_codec "sliceEncoder_Encode tname enc" "\<lambda>n. sliceDecoder_Decode n tname grow (dec n)"
  "slice_text val_text" "\<lambda>v. case v of None \<Rightarrow> True | Some xs \<Rightarrow> list_all ok xs" room cfgs
proof (unfold_locales, goal_cases)
  case (1 v s)
  show ?case
  proof (cases v)
    case None
    then show ?thesis by (simp add: sliceEncoder_Encode_def slice_text_def stream_adds)
  next
    case (Some ys)
    then show ?thesis
    proof (cases ys)
      case Nil
      with Some show ?thesis by (simp add: sliceEncoder_Encode_def slice_text_def stream_adds)
    next
      case (Cons x xs)
      with Some 1 nonempty_written [of x xs s] show ?thesis by (simp add: sliceEncoder_Encode_def)
    qed
  qed
next
  case (2 v it ws c i t rest n old)
  then show ?case using slice_reads [of v it ws c i "t # rest" n old] by simp
next
  case (3 v c i)
  then show ?case by (auto simp: slice_text_def seq_text_def is_space_def split: option.splits list.splits)
next
  case (4 v it ws c i rest n old)
  then show ?case by (rule slice_reads)
qed

context slice_codec
begin

lemma slice_parse_back:
  assumes "case v of None \<Rightarrow> True | Some xs \<Rightarrow> list_all ok xs" "room \<le> maxDepth" "\<forall>c. cfgs c"
  shows "\<exists>m. \<forall>k. parsed_back (sliceDecoder_Decode (m + k) tname grow (dec (m + k)))
    (s_buf (sliceEncoder_Encode tname enc v (NewStream c out))) v"
  by (rule slice.parse_back [OF assms])

end

text \<open>A concrete memory: new elements are zero.\<close>

definition grow_zero :: "'v \<Rightarrow> 'v list \<Rightarrow> nat \<Rightarrow> 'v list" where
  "grow_zero z xs n = take n xs @ replicate (n - length xs) z"

lemma grow_zero_laws: "length (grow_zero z xs n) = n" "take (length xs) (grow_zero z xs (Suc (length xs))) = xs"
  by (simp_all add: grow_zero_def)

interpretation int64_slice: slice_codec int64Codec_Encode "\<lambda>n. int64Codec_Decode" "\<lambda>c i v. int_text (sint v)" "\<lambda>v. True" 0 "\<lambda>c. True"
    "grow_zero 0" "''[]int64''"
  by unfold_locales (simp_all add: grow_zero_laws)

interpretation string_slice: slice_codec stringCodec_Encode "\<lambda>n. stringCodec_Decode" "\<lambda>c i. string_text" "\<lambda>v. True" 0 "\<lambda>c. True"
    "grow_zero []" "''[]string''"
  by unfold_locales (simp_all add: grow_zero_laws)

interpretation string_matrix: slice_codec "sliceEncoder_Encode ''[]string'' stringCodec_Encode"
    "\<lambda>n. sliceDecoder_Decode n ''[]string'' (grow_zero []) stringCodec_Decode" "slice_text (\<lambda>c i. string_text)"
    "\<lambda>v. case v of None \<Rightarrow> True | Some xs \<Rightarrow> list_all (\<lambda>v. True) xs" 0 "\<lambda>c. True" "grow_zero None" "''[][]string''"
  by unfold_locales (simp_all add: grow_zero_laws)

section \<open>Pointers keep the contract\<close>

text \<open>The elements must not be written as null, which is the nil pointer.\<close>

locale pointer_codec = codec enc dec val_text ok room cfgs
  for enc :: "'v encoder" and dec :: "nat \<Rightarrow> 'v decoder" and val_text :: "frozenConfig \<Rightarrow> int \<Rightarrow> 'v \<Rightarrow> bytes"
    and ok :: "'v \<Rightarrow> bool" and room :: int and cfgs +
  fixes zero :: 'v
  assumes not_null: "ok v \<Longrightarrow> hd (val_text c i v) \<noteq> ch_n"

definition pointer_text :: "(frozenConfig \<Rightarrow> int \<Rightarrow> 'v \<Rightarrow> bytes) \<Rightarrow> frozenConfig \<Rightarrow> int \<Rightarrow> 'v option \<Rightarrow> bytes" where
  "pointer_text elem_text c i v = (case v of None \<Rightarrow> [ch_n, ch_u, ch_l, ch_l] | Some x \<Rightarrow> elem_text c i x)"

sublocale pointer_codec \<subseteq> pointer: codec "OptionalEncoder_Encode enc" "\<lambda>n. OptionalDecoder_Decode zero (dec n)"
  "pointer_text val_text" "\<lambda>v. case v of None \<Rightarrow> True | Some x \<Rightarrow> ok x" room cfgs
proof (unfold_locales, goal_cases)
  case (1 v s)
  then show ?case using writes by (simp add: OptionalEncoder_Encode_def pointer_text_def stream_adds split: option.splits)
next
  case (2 v it ws c i t rest n old)
  show ?case
  proof (cases v)
    case None
    with ReadNil_null [OF 2(2,6), of "t # rest"] 2(7) show ?thesis
      by (auto simp: OptionalDecoder_Decode_def pointer_text_def)
  next
    case (Some x)
    obtain e es where ex: "val_text c i x = e # es" "\<not> is_space e" "e \<noteq> ch_n"
      using text_head [of x c i] not_null [of x c i] 2(1) Some by (cases "val_text c i x") auto
    obtain it1 where 1: "ReadNil it = (False, it1)" "consumes it ws it1" "pending it1 = val_text c i x @ t # rest"
      using ReadNil_not [OF 2(2,3,6), of e "es @ t # rest"] 2(7) ex Some by (auto simp: pointer_text_def)
    note s1 = consumes_same [OF 1(2)]
    obtain it2 where 2: "dec n (case old of None \<Rightarrow> zero | Some p \<Rightarrow> p) it1 = Some (x, it2)"
        "consumes it1 (val_text c i x) it2" "pending it2 = t # rest"
      using reads [of x it1 "[]" c i t rest n] 1(3) s1 2 Some by (auto simp: pointer_text_def)
    from 1(1) 2 consumes_trans [OF 1(2) 2(2)] Some show ?thesis
      by (auto simp: OptionalDecoder_Decode_def pointer_text_def split: option.splits)
  qed
next
  case (3 v c i)
  then show ?case using text_head by (auto simp: pointer_text_def is_space_def split: option.splits)
qed

interpretation string_pointer: pointer_codec stringCodec_Encode "\<lambda>n. stringCodec_Decode" "\<lambda>c i. string_text" "\<lambda>v. True" 0 "\<lambda>c. True" "[]"
  by unfold_locales (simp add: string_text_def)

section \<open>Properties\<close>

text \<open>A slice of slices of strings, nil, empty or not, at any indention of the configuration, is
  decoded to the same value from what the encoders wrote, whatever the variable held before.\<close>

lemma nested_slices_round_trip:
  "\<exists>m. \<forall>k. parsed_back
     (sliceDecoder_Decode (m + k) ''[][]string'' (grow_zero None) (sliceDecoder_Decode (m + k) ''[]string'' (grow_zero []) stringCodec_Decode))
     (s_buf (sliceEncoder_Encode ''[][]string'' (sliceEncoder_Encode ''[]string'' stringCodec_Encode) v (NewStream c out))) v"
proof (rule string_matrix.slice.parse_back)
  show "case v of None \<Rightarrow> True | Some xs \<Rightarrow> list_all (\<lambda>v. case v of None \<Rightarrow> True | Some xs \<Rightarrow> list_all (\<lambda>v. True) xs) xs"
    by (auto simp: list_all_iff split: option.splits)
qed (rule zero_room, rule all_cfgs)


text \<open>Decoding an array. Elements of the input beyond its length are skipped, elements the input
  does not have keep their old value (where \<open>encoding/json\<close> makes them zero), and an array without
  elements is written to out of its bounds: \<open>None\<close> is the write to element 0.\<close>

lemma array_decoding_edges:
  "map_option fst (arrayDecoder_Decode 9 ''[2]int64'' int64Codec_Decode [7, 8] (ParseBytes ConfigDefault (map of_char ''[1,2,3,4],''))) = Some [1, 2]
   \<and> map_option fst (arrayDecoder_Decode 9 ''[2]int64'' int64Codec_Decode [7, 8] (ParseBytes ConfigDefault (map of_char ''[1],''))) = Some [1, 8]
   \<and> arrayDecoder_Decode 9 ''[0]int64'' int64Codec_Decode [] (ParseBytes ConfigDefault (map of_char ''[1],'')) = None"
  by (intro conjI; code_simp)

section \<open>Witness\<close>


end
