(* ===== verification/MapCodec.thy ===== *)
theory MapCodec
  imports SliceCodec "HOL-Library.List_Lexorder"
begin

text \<open>
  \<open>reflect_map.go\<close>: codecs of maps, given those of their keys and elements.

  An encoder gets a map as the list of its entries in the order in which Go iterates over it; nil
  is \<open>None\<close>. A decoder gets and returns a finite map. \<open>zk\<close> and \<open>ze\<close> are the zero values that
  \<open>UnsafeNew\<close> allocates for a key and an element.
\<close>

section \<open>Encoders\<close>

definition numericMapKeyEncoder_Encode :: "'k encoder \<Rightarrow> 'k encoder" where
  "numericMapKeyEncoder_Encode enc v s = writeByte ch_quote (enc v (writeByte ch_quote s))"

definition map_entry :: "'k encoder \<Rightarrow> 'v encoder \<Rightarrow> 'k \<times> 'v \<Rightarrow> stream \<Rightarrow> stream" where
  "map_entry keyEncoder elemEncoder = (\<lambda>(k, v) s.
     let s1 = keyEncoder k s;
         s2 = (if indention s1 > 0 then writeTwoBytes ch_colon ch_space s1 else writeByte ch_colon s1)
     in elemEncoder v s2)"

definition mapEncoder_Encode :: "'k encoder \<Rightarrow> 'v encoder \<Rightarrow> ('k \<times> 'v) list option encoder" where
  "mapEncoder_Encode keyEncoder elemEncoder m s =
     (case m of
        None \<Rightarrow> WriteNil s
      | Some [] \<Rightarrow> WriteObjectEnd (WriteObjectStart s)
      | Some (kv # kvs) \<Rightarrow>
          WriteObjectEnd (foldl (\<lambda>s kv. map_entry keyEncoder elemEncoder kv (WriteMore s))
            (map_entry keyEncoder elemEncoder kv (WriteObjectStart s)) kvs))"

definition mapEncoder_IsEmpty :: "('k \<times> 'v) list option \<Rightarrow> bool" where
  "mapEncoder_IsEmpty m \<longleftrightarrow> m = None \<or> m = Some []"

text \<open>One entry of \<open>sortKeysMapEncoder\<close>, written to the borrowed stream \<open>sub\<close>: its key is read back
  with the borrowed iterator \<open>it\<close>, and key and bytes are collected. Of the output stream \<open>s\<close> only the
  error changes.\<close>

definition encodedKV :: "'k encoder \<Rightarrow> 'v encoder \<Rightarrow> 'k \<times> 'v \<Rightarrow> stream \<times> stream \<times> iterator \<times> (bytes \<times> bytes) list
    \<Rightarrow> stream \<times> stream \<times> iterator \<times> (bytes \<times> bytes) list" where
  "encodedKV keyEncoder elemEncoder = (\<lambda>(k, v) (s, sub, it, kvs).
     let start = Stream_Buffered sub;
         sub1 = keyEncoder k sub;
         s1 = (if s_Error sub1 \<noteq> None \<and> s_Error sub1 \<noteq> Some EOF \<and> s_Error s = None
               then s\<lparr>s_Error := s_Error sub1\<rparr> else s);
         encodedKey = drop (nat start) (Stream_Buffer sub1)
     in case ReadString (ResetBytes encodedKey it) of (decodedKey, it1) \<Rightarrow>
          let sub2 = (if indention s1 > 0 then writeTwoBytes ch_colon ch_space sub1 else writeByte ch_colon sub1);
              sub3 = elemEncoder v sub2
          in (s1, sub3, it1, kvs @ [(decodedKey, drop (nat start) (Stream_Buffer sub3))]))"

text \<open>The collected entries, sorted by the caller (entries with the same key keep their order here, which
  \<open>sort.Sort\<close> does not promise); the result of \<open>Write\<close> is ignored.\<close>

definition write_entries :: "(bytes \<times> bytes) list \<Rightarrow> stream \<Rightarrow> stream" where
  "write_entries kvs s =
     (case kvs of
        [] \<Rightarrow> s
      | kv # rest \<Rightarrow>
          foldl (\<lambda>s kv. snd (Stream_Write (snd kv) (WriteMore s))) (snd (Stream_Write (snd kv) s)) rest)"

definition sortKeysMapEncoder_Encode :: "stream \<Rightarrow> iterator \<Rightarrow> 'k encoder \<Rightarrow> 'v encoder \<Rightarrow> ('k \<times> 'v) list option encoder" where
  "sortKeysMapEncoder_Encode pooledStream pooledIterator keyEncoder elemEncoder m s =
     (case m of
        None \<Rightarrow> WriteNil s
      | Some entries \<Rightarrow>
          (case foldl (\<lambda>st kv. encodedKV keyEncoder elemEncoder kv st)
                  (WriteObjectStart s, BorrowStream pooledStream None, BorrowIterator pooledIterator [], []) entries of
             (s1, sub, it, keyValues) \<Rightarrow>
               let s2 = write_entries (sort_key fst keyValues) s1;
                   s3 = (if s_Error sub \<noteq> None \<and> s_Error s2 = None then s2\<lparr>s_Error := s_Error sub\<rparr> else s2)
               in WriteObjectEnd s3))"

section \<open>Decoders\<close>

definition numericMapKeyDecoder_Decode :: "'k decoder \<Rightarrow> 'k decoder" where
  "numericMapKeyDecoder_Decode dec old it =
     (case nextToken it of (c, it1) \<Rightarrow>
      if c \<noteq> ch_quote then Some (old, ReportError ''ReadMapCB'' (''expect '' @ [CHR 0x22] @ '', but found '' @ byte_str c) it1)
      else
        (case dec old it1 of
           None \<Rightarrow> None
         | Some (k, it2) \<Rightarrow>
             (case nextToken it2 of (c, it3) \<Rightarrow>
                Some (k, if c \<noteq> ch_quote
                      then ReportError ''ReadMapCB'' (''expect '' @ [CHR 0x22] @ '', but found '' @ byte_str c) it3
                      else it3))))"

text \<open>One entry: key, colon, element. \<open>Inl\<close> is the return after a missing colon.\<close>

definition mapDecoder_entry :: "'k decoder \<Rightarrow> 'v decoder \<Rightarrow> 'k \<Rightarrow> 'v \<Rightarrow> ('k \<rightharpoonup> 'v) \<Rightarrow> iterator
    \<Rightarrow> (iterator + ('k \<rightharpoonup> 'v) \<times> iterator) option" where
  "mapDecoder_entry keyDecoder elemDecoder zk ze m it =
     (case keyDecoder zk it of
        None \<Rightarrow> None
      | Some (k, it1) \<Rightarrow>
          (case nextToken it1 of (c, it2) \<Rightarrow>
           if c \<noteq> ch_colon then
             Some (Inl (ReportError ''ReadMapCB'' (''expect : after object field, but found '' @ byte_str c) it2))
           else map_option (\<lambda>(v, it3). Inr (m(k \<mapsto> v), it3)) (elemDecoder ze it2)))"

fun mapDecoder_loop :: "nat \<Rightarrow> 'k decoder \<Rightarrow> 'v decoder \<Rightarrow> 'k \<Rightarrow> 'v \<Rightarrow> ('k \<rightharpoonup> 'v) \<Rightarrow> byte \<Rightarrow> iterator
    \<Rightarrow> (('k \<rightharpoonup> 'v) \<times> iterator) option" where
  "mapDecoder_loop 0 keyDecoder elemDecoder zk ze m c it = None"
| "mapDecoder_loop (Suc n) keyDecoder elemDecoder zk ze m c it =
     (if c = ch_comma then
        (case mapDecoder_entry keyDecoder elemDecoder zk ze m it of
           None \<Rightarrow> None
         | Some (Inl it1) \<Rightarrow> Some (m, it1)
         | Some (Inr (m', it1)) \<Rightarrow>
             (case nextToken it1 of (c', it2) \<Rightarrow> mapDecoder_loop n keyDecoder elemDecoder zk ze m' c' it2))
      else if c \<noteq> ch_rbrace then
        Some (m, ReportError ''ReadMapCB'' (''expect }, but found '' @ byte_str c) it)
      else Some (m, it))"

definition mapDecoder_Decode :: "nat \<Rightarrow> 'k decoder \<Rightarrow> 'v decoder \<Rightarrow> 'k \<Rightarrow> 'v \<Rightarrow> ('k \<rightharpoonup> 'v) option decoder" where
  "mapDecoder_Decode fuel keyDecoder elemDecoder zk ze old it =
     (case nextToken it of (c, it1) \<Rightarrow>
      if c = ch_n then Some (None, skipThreeBytes ch_u ch_l ch_l it1)
      else
        let m = (case old of None \<Rightarrow> Map.empty | Some m \<Rightarrow> m) in
        if c \<noteq> ch_lbrace then
          Some (Some m, ReportError ''ReadMapCB'' (''expect { or n, but found '' @ byte_str c) it1)
        else
          (case nextToken it1 of (c, it2) \<Rightarrow>
           if c = ch_rbrace then Some (Some m, it2)
           else
             (case mapDecoder_entry keyDecoder elemDecoder zk ze m (unreadByte it2) of
                None \<Rightarrow> None
              | Some (Inl it3) \<Rightarrow> Some (Some m, it3)
              | Some (Inr (m', it3)) \<Rightarrow>
                  (case nextToken it3 of (c, it4) \<Rightarrow>
                     map_option (\<lambda>(m'', it5). (Some m'', it5))
                       (mapDecoder_loop fuel keyDecoder elemDecoder zk ze m' c it4)))))"

section \<open>The text of a map\<close>

definition colon_text :: "int \<Rightarrow> bytes" where
  "colon_text i = (if i > 0 then [ch_colon, ch_space] else [ch_colon])"

definition entry_text :: "(frozenConfig \<Rightarrow> int \<Rightarrow> 'k \<Rightarrow> bytes) \<Rightarrow> (frozenConfig \<Rightarrow> int \<Rightarrow> 'v \<Rightarrow> bytes) \<Rightarrow> frozenConfig \<Rightarrow> int
    \<Rightarrow> 'k \<times> 'v \<Rightarrow> bytes" where
  "entry_text ktext vtext c i kv = ktext c i (fst kv) @ colon_text i @ vtext c i (snd kv)"

definition map_text :: "(frozenConfig \<Rightarrow> int \<Rightarrow> 'k \<Rightarrow> bytes) \<Rightarrow> (frozenConfig \<Rightarrow> int \<Rightarrow> 'v \<Rightarrow> bytes) \<Rightarrow> frozenConfig \<Rightarrow> int
    \<Rightarrow> ('k \<times> 'v) list option \<Rightarrow> bytes" where
  "map_text ktext vtext c i m =
     (case m of
        None \<Rightarrow> [ch_n, ch_u, ch_l, ch_l]
      | Some [] \<Rightarrow> ch_lbrace # blanks (inner c i) 0 @ blanks (inner c i) (indentionStep c) @ [ch_rbrace]
      | Some kvs \<Rightarrow> seq_text ch_lbrace ch_rbrace (blanks (inner c i) 0) (blanks (inner c i) (indentionStep c))
                      (map (entry_text ktext vtext c (inner c i)) kvs))"

section \<open>Maps keep the contract\<close>

definition map_put :: "('k \<rightharpoonup> 'v) \<Rightarrow> 'k \<times> 'v \<Rightarrow> ('k \<rightharpoonup> 'v)" where
  "map_put m kv = m(fst kv \<mapsto> snd kv)"

text \<open>Contracts for the key and for the element; a key is followed by the colon.\<close>

locale map_codec = key: codec kenc kdec ktext kok kroom cfgs + elem: codec venc vdec vtext vok vroom cfgs
  for kenc :: "'k encoder" and kdec ktext kok kroom and venc :: "'v encoder" and vdec vtext vok vroom and cfgs +
  fixes zk :: 'k and ze :: 'v
begin

definition entry_ok :: "'k \<times> 'v \<Rightarrow> bool" where
  "entry_ok kv \<longleftrightarrow> kok (fst kv) \<and> vok (snd kv)"

abbreviation room :: int where "room \<equiv> max kroom vroom"

lemma entry_written:
  assumes "entry_ok kv" "s_Error s = None"
  shows "map_entry kenc venc kv s = adds (entry_text ktext vtext (s_cfg s) (indention s) kv) s"
proof -
  let ?s = "adds (ktext (s_cfg s) (indention s) (fst kv) @ colon_text (indention s)) s"
  have k: "kenc (fst kv) s = adds (ktext (s_cfg s) (indention s) (fst kv)) s"
    using key.writes assms by (simp add: entry_ok_def)
  have "venc (snd kv) ?s = adds (vtext (s_cfg s) (indention s) (snd kv)) ?s"
    using elem.writes [of "snd kv" ?s] assms by (simp add: entry_ok_def)
  with k show ?thesis
    by (cases "indention s > 0") (simp_all add: map_entry_def Let_def split_def stream_adds colon_text_def entry_text_def)
qed

lemma entries_written:
  assumes "list_all entry_ok kvs" "s_Error s = None"
  shows "foldl (\<lambda>s kv. map_entry kenc venc kv (WriteMore s)) s kvs
    = adds (more_text (blanks (indention s) 0) (map (entry_text ktext vtext (s_cfg s) (indention s)) kvs)) s"
  using assms
proof (induction kvs arbitrary: s)
  case (Cons kv kvs)
  then show ?case using entry_written [of kv "WriteMore s"] by (simp add: stream_adds)
qed simp

lemma map_written:
  assumes "case m of None \<Rightarrow> True | Some kvs \<Rightarrow> list_all entry_ok kvs" "s_Error s = None"
  shows "mapEncoder_Encode kenc venc m s = adds (map_text ktext vtext (s_cfg s) (indention s) m) s"
proof (cases "m = None \<or> m = Some []")
  case True
  then show ?thesis by (auto simp: mapEncoder_Encode_def map_text_def stream_adds adds_def)
next
  case False
  then obtain kv kvs where m: "m = Some (kv # kvs)" by (metis list.exhaust option.exhaust)
  let ?s = "WriteObjectStart s"
  have e: "s_Error ?s = None" "s_cfg ?s = s_cfg s" "indention ?s = inner (s_cfg s) (indention s)"
    using assms(2) by (simp_all add: stream_adds)
  have "map_entry kenc venc kv ?s = adds (entry_text ktext vtext (s_cfg s) (inner (s_cfg s) (indention s)) kv) ?s"
    using entry_written [of kv ?s] e assms(1) m by simp
  then show ?thesis using entries_written [of kvs "map_entry kenc venc kv ?s"] e assms m
    by (simp add: mapEncoder_Encode_def map_text_def seq_text_def container_adds adds_def)
qed

text \<open>One entry is read.\<close>

lemma entry_reads:
  assumes "wf_iter it" "Error it = None" "0 \<le> depth it" "depth it + room \<le> maxDepth" "entry_ok kv" "list_all is_space ws"
    "pending it = ws @ entry_text ktext vtext c i kv @ t # rest" "\<not> number_char t" "length (entry_text ktext vtext c i kv) < n"
    "cfgs (cfg it)" "captured it = None"
  shows "\<exists>it'. mapDecoder_entry (kdec n) (vdec n) zk ze m it = Some (Inr (map_put m kv, it'))
    \<and> consumes it (ws @ entry_text ktext vtext c i kv) it' \<and> pending it' = t # rest"
proof -
  obtain sp where sp: "colon_text i = ch_colon # sp" "list_all is_space sp"
    by (cases "i > 0") (auto simp: colon_text_def is_space_def)
  let ?V = "vtext c i (snd kv)"
  have d: "depth it + kroom \<le> maxDepth" "depth it + vroom \<le> maxDepth" using assms(4) by simp_all
  have col: "\<not> number_char ch_colon" by (simp add: number_char_def is_digit_def)
  obtain it1 where 1: "kdec n zk it = Some (fst kv, it1)" "consumes it (ws @ ktext c i (fst kv)) it1"
      "pending it1 = ch_colon # sp @ ?V @ t # rest"
    using key.reads [of "fst kv" it ws c i ch_colon "sp @ ?V @ t # rest" n zk] assms(1-3,5-7,9-11) sp d(1) col
    by (auto simp: entry_ok_def entry_text_def)
  note s1 = consumes_same [OF 1(2)]
  obtain it2 where 2: "nextToken it1 = (ch_colon, it2)" "consumes it1 [ch_colon] it2" "pending it2 = sp @ ?V @ t # rest"
    using nextToken_at [of it1 "[]" ch_colon "sp @ ?V @ t # rest"] 1(3) s1 assms(1) by (auto simp: is_space_def)
  note s2 = consumes_same [OF 2(2)]
  obtain it3 where 3: "vdec n ze it2 = Some (snd kv, it3)" "consumes it2 (sp @ ?V) it3" "pending it3 = t # rest"
    using elem.reads [of "snd kv" it2 sp c i t rest n ze] 2(3) sp s2 s1 assms(1-3,5,8-11) d(2)
    by (auto simp: entry_ok_def entry_text_def)
  from consumes_trans [OF 1(2) consumes_trans [OF 2(2) 3(2)]] 1(1) 2(1) 3 sp show ?thesis
    by (simp add: mapDecoder_entry_def entry_text_def map_put_def)
qed

lemma loop_reads:
  assumes "wf_iter it" "Error it = None" "0 \<le> depth it" "depth it + room \<le> maxDepth" "list_all entry_ok kvs"
    "list_all is_space w" "list_all is_space w'" "\<forall>kv \<in> set kvs. length (entry_text ktext vtext c i kv) < n" "length kvs < k"
    "pending it = more_text w (map (entry_text ktext vtext c i) kvs) @ w' @ ch_rbrace # rest" "cfgs (cfg it)" "captured it = None"
  shows "\<exists>c1 it1 it'. nextToken it = (c1, it1)
    \<and> mapDecoder_loop k (kdec n) (vdec n) zk ze m c1 it1 = Some (foldl map_put m kvs, it')
    \<and> consumes it (more_text w (map (entry_text ktext vtext c i) kvs) @ w' @ [ch_rbrace]) it' \<and> pending it' = rest"
  using assms
proof (induction kvs arbitrary: it m k)
  case Nil
  then obtain k' where "k = Suc k'" by (cases k) auto
  moreover obtain it1 where "nextToken it = (ch_rbrace, it1)" "consumes it (w' @ [ch_rbrace]) it1" "pending it1 = rest"
    using nextToken_at [OF Nil(1,7), of ch_rbrace rest] Nil(10) by (auto simp: is_space_def)
  ultimately show ?case by simp
next
  case (Cons kv kvs)
  then obtain k' where k: "k = Suc k'" "length kvs < k'" by (cases k) auto
  let ?T = "more_text w (map (entry_text ktext vtext c i) kvs) @ w' @ ch_rbrace # rest"
  let ?e = "entry_text ktext vtext c i kv"
  obtain it1 where 1: "nextToken it = (ch_comma, it1)" "consumes it [ch_comma] it1" "pending it1 = w @ ?e @ ?T"
    using nextToken_at [OF Cons.prems(1), of "[]" ch_comma "w @ ?e @ ?T"] Cons.prems(10) by (auto simp: is_space_def)
  note s1 = consumes_same [OF 1(2)]
  obtain t' r where t: "?T = t' # r" "\<not> number_char t'"
    using after_element [of w' ch_rbrace w "map (entry_text ktext vtext c i) kvs" rest] Cons.prems(7)
    by (auto simp: number_char_def is_digit_def)
  obtain it2 where 2: "mapDecoder_entry (kdec n) (vdec n) zk ze m it1 = Some (Inr (map_put m kv, it2))"
      "consumes it1 (w @ ?e) it2" "pending it2 = ?T"
    using entry_reads [of it1 kv w c i t' r n m] 1(3) t s1 Cons.prems by auto
  note s2 = consumes_same [OF 2(2)]
  obtain c1 it3 it' where "nextToken it2 = (c1, it3)"
      "mapDecoder_loop k' (kdec n) (vdec n) zk ze (map_put m kv) c1 it3
        = Some (foldl map_put (map_put m kv) kvs, it')"
      "consumes it2 (more_text w (map (entry_text ktext vtext c i) kvs) @ w' @ [ch_rbrace]) it'" "pending it' = rest"
    using Cons.IH [of it2 k' "map_put m kv"] 2(3) s2 s1 Cons.prems k(2) by auto
  with 1 2 k consumes_trans [OF 1(2) consumes_trans [OF 2(2)]] show ?case
    by (intro exI [of _ ch_comma] exI [of _ it1] exI [of _ it']) simp
qed

lemma map_length:
  assumes "kv \<in> set kvs"
  shows "length (entry_text ktext vtext c (inner c i) kv) < length (map_text ktext vtext c i (Some kvs))"
    "length kvs \<le> length (map_text ktext vtext c i (Some kvs))"
proof -
  have m: "y \<in> set ys \<Longrightarrow> length (f y) \<le> length (more_text w (map f ys))" for y :: "'k \<times> 'v" and ys w f
    by (induction ys) auto
  have l: "length ys \<le> length (more_text w (map f ys))" for ys :: "('k \<times> 'v) list" and w f
    by (induction ys) auto
  obtain y ys where xs: "kvs = y # ys" using assms by (cases kvs) auto
  show "length (entry_text ktext vtext c (inner c i) kv) < length (map_text ktext vtext c i (Some kvs))"
    using assms m [of kv ys "entry_text ktext vtext c (inner c i)" "blanks (inner c i) 0"]
    by (auto simp: xs map_text_def seq_text_def)
  show "length kvs \<le> length (map_text ktext vtext c i (Some kvs))"
    using l [of ys "blanks (inner c i) 0" "entry_text ktext vtext c (inner c i)"] by (simp add: xs map_text_def seq_text_def)
qed

text \<open>Reading a map adds its entries to those the variable holds.\<close>

lemma map_reads:
  assumes "wf_iter it" "Error it = None" "0 \<le> depth it" "depth it + room \<le> maxDepth" "list_all entry_ok kvs"
    "list_all is_space ws" "pending it = ws @ map_text ktext vtext c i (Some kvs) @ rest"
    "length (map_text ktext vtext c i (Some kvs)) < n" "cfgs (cfg it)" "captured it = None"
  shows "\<exists>it'. mapDecoder_Decode n (kdec n) (vdec n) zk ze old it
      = Some (Some (foldl map_put (case old of None \<Rightarrow> Map.empty | Some m \<Rightarrow> m) kvs), it')
    \<and> consumes it (ws @ map_text ktext vtext c i (Some kvs)) it' \<and> pending it' = rest"
proof -
  let ?w = "blanks (inner c i) 0" and ?w' = "blanks (inner c i) (indentionStep c)"
  let ?m = "case old of None \<Rightarrow> Map.empty | Some m \<Rightarrow> m"
  show ?thesis
  proof (cases kvs)
    case Nil
    obtain it1 where 1: "nextToken it = (ch_lbrace, it1)" "consumes it (ws @ [ch_lbrace]) it1" "pending it1 = (?w @ ?w') @ ch_rbrace # rest"
      using nextToken_at [OF assms(1,6), of ch_lbrace "?w @ ?w' @ ch_rbrace # rest"] assms(7) Nil
      by (auto simp: map_text_def is_space_def)
    obtain it2 where 2: "nextToken it1 = (ch_rbrace, it2)" "consumes it1 ((?w @ ?w') @ [ch_rbrace]) it2" "pending it2 = rest"
      using nextToken_at [OF consumes_wf [OF 1(2)] _ 1(3)] by (auto simp: is_space_def)
    from 1(1) 2 consumes_trans [OF 1(2) 2(2)] Nil show ?thesis by (simp add: mapDecoder_Decode_def map_text_def)
  next
    case (Cons kv kvs')
    let ?e = "entry_text ktext vtext c (inner c i)"
    let ?T = "more_text ?w (map ?e kvs') @ ?w' @ ch_rbrace # rest"
    have tx: "map_text ktext vtext c i (Some kvs) = ch_lbrace # ?w @ ?e kv @ more_text ?w (map ?e kvs') @ ?w' @ [ch_rbrace]"
      by (simp add: Cons map_text_def seq_text_def)
    obtain it1 where 1: "nextToken it = (ch_lbrace, it1)" "consumes it (ws @ [ch_lbrace]) it1" "pending it1 = ?w @ ?e kv @ ?T"
      using nextToken_at [OF assms(1,6), of ch_lbrace "?w @ ?e kv @ ?T"] assms(7) by (auto simp: tx is_space_def)
    note s1 = consumes_same [OF 1(2)]
    have ok: "entry_ok kv" "list_all entry_ok kvs'" using assms(5) Cons by auto
    obtain e es where ex: "?e kv = e # es" "e \<noteq> ch_rbrace" "\<not> is_space e"
      using key.text_head [of "fst kv" c "inner c i"] ok(1)
      by (cases "ktext c (inner c i) (fst kv)") (auto simp: entry_ok_def entry_text_def)
    obtain it2 where 2: "nextToken it1 = (e, it2)" "consumes it1 (?w @ [e]) it2" "can_unread e it2" "pending it2 = es @ ?T"
      using nextToken_at [of it1 ?w e "es @ ?T"] 1(3) s1 assms(1) ex by auto
    have "Error it2 = None" using consumes_Error [OF 2(2)] s1 assms(2) by simp
    from unreadByte_spec [OF 2(2,3) this] have u: "consumes it1 ?w (unreadByte it2)" "pending (unreadByte it2) = ?e kv @ ?T"
      using 2(4) ex(1) by auto
    note su = consumes_same [OF u(1)]
    obtain t' r where t: "?T = t' # r" "\<not> number_char t'"
      using after_element [of ?w' ch_rbrace ?w "map ?e kvs'" rest] by (auto simp: number_char_def is_digit_def)
    have len: "length (?e y) < n" if "y \<in> set kvs" for y using map_length(1) [OF that, of c i] assms(8) by simp
    obtain it3 where 3: "mapDecoder_entry (kdec n) (vdec n) zk ze ?m (unreadByte it2) = Some (Inr (map_put ?m kv, it3))"
        "consumes (unreadByte it2) (?e kv) it3" "pending it3 = ?T"
      using entry_reads [of "unreadByte it2" kv "[]" c "inner c i" t' r n ?m] u(2) t su s1 assms(1-4,9,10) ok(1) len Cons by auto
    note s3 = consumes_same [OF 3(2)]
    have k: "length kvs' < n" using map_length(2) [of kv kvs c i] assms(8) Cons by simp
    obtain c1 it4 it' where 4: "nextToken it3 = (c1, it4)"
        "mapDecoder_loop n (kdec n) (vdec n) zk ze (map_put ?m kv) c1 it4 = Some (foldl map_put (map_put ?m kv) kvs', it')"
        "consumes it3 (more_text ?w (map ?e kvs') @ ?w' @ [ch_rbrace]) it'" "pending it' = rest"
      using loop_reads [of it3 kvs' ?w ?w' c "inner c i" n n rest "map_put ?m kv"] 3(3) s3 su s1 assms(1-4,9,10) ok(2) len k Cons by auto
    have con: "consumes it (ws @ map_text ktext vtext c i (Some kvs)) it'"
      using consumes_trans [OF 1(2) consumes_trans [OF u(1) consumes_trans [OF 3(2) 4(3)]]] by (simp add: tx)
    have "mapDecoder_Decode n (kdec n) (vdec n) zk ze old it = Some (Some (foldl map_put ?m kvs), it')"
      using 1(1) 2(1) ex(2) 3(1) 4(1,2) Cons by (simp add: mapDecoder_Decode_def Let_def)
    with con 4(4) show ?thesis by blast
  qed
qed

end

lemma map_put_distinct: "distinct (map fst kvs) \<Longrightarrow> foldl map_put m kvs = m ++ map_of kvs"
proof (induction kvs arbitrary: m)
  case (Cons kv kvs)
  then have "dom [fst kv \<mapsto> snd kv] \<inter> dom (map_of kvs) = {}" by (auto simp: dom_map_of_conv_image_fst)
  with Cons show ?case
    by (cases kv) (auto simp: map_put_def map_add_upd_left map_add_dom_app_simps fun_eq_iff map_add_def dom_def split: option.splits)
qed simp

section \<open>Keys that are not strings\<close>

definition quoted_text :: "(frozenConfig \<Rightarrow> int \<Rightarrow> 'k \<Rightarrow> bytes) \<Rightarrow> frozenConfig \<Rightarrow> int \<Rightarrow> 'k \<Rightarrow> bytes" where
  "quoted_text ktext c i k = ch_quote # ktext c i k @ [ch_quote]"

context codec
begin

lemma quoted_codec:
  "codec (numericMapKeyEncoder_Encode enc) (\<lambda>n. numericMapKeyDecoder_Decode (dec n)) (quoted_text val_text) ok room cfgs"
proof (unfold_locales, goal_cases)
  case (1 v s)
  then show ?case using writes [of v "adds [ch_quote] s"]
    by (simp add: numericMapKeyEncoder_Encode_def quoted_text_def stream_adds)
next
  case (2 v it ws c i t rest n old)
  let ?T = "ch_quote # t # rest"
  obtain it1 where 1: "nextToken it = (ch_quote, it1)" "consumes it (ws @ [ch_quote]) it1" "pending it1 = val_text c i v @ ?T"
    using nextToken_at [OF 2(2,6), of ch_quote "val_text c i v @ ?T"] 2(7) by (auto simp: quoted_text_def is_space_def)
  note s1 = consumes_same [OF 1(2)]
  have "\<not> number_char ch_quote" by (simp add: number_char_def is_digit_def)
  then obtain it2 where 2: "dec n old it1 = Some (v, it2)" "consumes it1 (val_text c i v) it2" "pending it2 = ?T"
    using reads [of v it1 "[]" c i ch_quote "t # rest" n old] 1(3) s1 2 by (auto simp: quoted_text_def)
  obtain it3 where 3: "nextToken it2 = (ch_quote, it3)" "consumes it2 [ch_quote] it3" "pending it3 = t # rest"
    using nextToken_at [of it2 "[]" ch_quote "t # rest"] 2(3) consumes_wf [OF 2(2)] by (auto simp: is_space_def)
  from 1(1) 2(1) 3 consumes_trans [OF 1(2) consumes_trans [OF 2(2) 3(2)]] show ?case
    by (simp add: numericMapKeyDecoder_Decode_def quoted_text_def)
qed (auto simp: quoted_text_def is_space_def)

end

interpretation int64_key: codec "numericMapKeyEncoder_Encode int64Codec_Encode" "\<lambda>n. numericMapKeyDecoder_Decode int64Codec_Decode"
    "quoted_text (\<lambda>c i v. int_text (sint v))" "\<lambda>v. True" 0 "\<lambda>c. True"
  by (rule int64.quoted_codec)

interpretation string_map: map_codec stringCodec_Encode "\<lambda>n. stringCodec_Decode" "\<lambda>c i. string_text" "\<lambda>v. True" 0
    int64Codec_Encode "\<lambda>n. int64Codec_Decode" "\<lambda>c i v. int_text (sint v)" "\<lambda>v. True" 0 "\<lambda>c. True" "[]" 0
  by unfold_locales

interpretation int_key_map: map_codec "numericMapKeyEncoder_Encode int64Codec_Encode"
    "\<lambda>n. numericMapKeyDecoder_Decode int64Codec_Decode" "quoted_text (\<lambda>c i v. int_text (sint v))" "\<lambda>v. True" 0
    "sliceEncoder_Encode ''[]string'' stringCodec_Encode"
    "\<lambda>n. sliceDecoder_Decode n ''[]string'' (grow_zero []) stringCodec_Decode" "slice_text (\<lambda>c i. string_text)"
    "\<lambda>v. case v of None \<Rightarrow> True | Some xs \<Rightarrow> list_all (\<lambda>v. True) xs" 0 "\<lambda>c. True" 0 None
  by unfold_locales

section \<open>Sorted keys\<close>

lemma ResetBytes_start:
  assumes "captured it = None" "Error it = None"
  shows "wf_iter (ResetBytes b it) \<and> Error (ResetBytes b it) = None \<and> pending (ResetBytes b it) = b \<and> captured (ResetBytes b it) = None"
  using assms by (simp add: ResetBytes_def wf_iter_def pending_def rest_bytes_def)

lemma sort_key_map: "sort_key f (map g xs) = map g (sort_key (\<lambda>x. f (g x)) xs)"
proof -
  have "insort_key f (g x) (map g xs) = map g (insort_key (\<lambda>x. f (g x)) x xs)" for x xs by (induction xs) auto
  then show ?thesis by (induction xs) (auto simp: sort_key_def)
qed

text \<open>The elements are written alike at every indention: \<open>f\<close> is their text.\<close>

definition flat_entry :: "('v \<Rightarrow> bytes) \<Rightarrow> int \<Rightarrow> bytes \<times> 'v \<Rightarrow> bytes" where
  "flat_entry f i kv = string_text (fst kv) @ colon_text i @ f (snd kv)"

lemma encodedKV_flat:
  assumes venc: "\<And>v s. s_Error s = None \<Longrightarrow> venc v s = adds (f v) s"
    and "s_Error s = None" "s_Error sub = None" "captured it = None" "Error it = None"
  shows "\<exists>it'. encodedKV stringCodec_Encode venc kv (s, sub, it, acc)
      = (s, adds (flat_entry f (indention s) kv) sub, it', acc @ [(fst kv, flat_entry f (indention s) kv)])
    \<and> captured it' = None \<and> Error it' = None"
proof -
  let ?b = "string_text (fst kv)"
  note r = ResetBytes_start [OF assms(4,5), of ?b]
  have "readStringInner_loop [] = readStringInner" by (simp add: fun_eq_iff readStringInner_def)
  obtain it' where 1: "ReadString (ResetBytes ?b it) = (fst kv, it')" "consumes (ResetBytes ?b it) ?b it'"
    using ReadString_text [of "ResetBytes ?b it" "[]" "fst kv" "[]"] r by auto
  have c: "captured it' = None" "Error it' = None"
    using 1(2) r by (auto simp: consumes_def same_frame_def)
  have "stringCodec_Encode (fst kv) sub = adds ?b sub"
    by (simp add: stringCodec_Encode_def stream_adds string_text_def)
  moreover have "venc (snd kv) (adds (?b @ colon_text (indention s)) sub) = adds (flat_entry f (indention s) kv) sub"
    using venc [of "adds (?b @ colon_text (indention s)) sub" "snd kv"] assms(3) by (simp add: flat_entry_def)
  ultimately have "encodedKV stringCodec_Encode venc kv (s, sub, it, acc)
      = (s, adds (flat_entry f (indention s) kv) sub, it', acc @ [(fst kv, flat_entry f (indention s) kv)])"
    using 1(1) assms(2,3)
    by (cases "indention s > 0")
      (simp_all add: encodedKV_def split_def Let_def Stream_Buffered_def Stream_Buffer_def stream_adds colon_text_def)
  with c show ?thesis by blast
qed

lemma encodedKVs_flat:
  assumes venc: "\<And>v s. s_Error s = None \<Longrightarrow> venc v s = adds (f v) s"
    and "s_Error s = None" "s_Error sub = None" "captured it = None" "Error it = None"
  shows "\<exists>sub' it'. foldl (\<lambda>st kv. encodedKV stringCodec_Encode venc kv st) (s, sub, it, acc) kvs
      = (s, sub', it', acc @ map (\<lambda>kv. (fst kv, flat_entry f (indention s) kv)) kvs) \<and> s_Error sub' = None"
  using assms(2-)
proof (induction kvs arbitrary: sub it acc)
  case (Cons kv kvs)
  from encodedKV_flat [where venc = venc and f = f, OF venc Cons.prems(1-4), of kv acc] obtain it1 where
    1: "encodedKV stringCodec_Encode venc kv (s, sub, it, acc)
      = (s, adds (flat_entry f (indention s) kv) sub, it1, acc @ [(fst kv, flat_entry f (indention s) kv)])"
      "captured it1 = None" "Error it1 = None" by blast
  from Cons.IH [of "adds (flat_entry f (indention s) kv) sub" it1 "acc @ [(fst kv, flat_entry f (indention s) kv)]"]
    1 Cons.prems show ?case by simp
qed simp

lemma write_entries_adds:
  assumes "s_out s = None"
  shows "write_entries kvs s = adds (case kvs of [] \<Rightarrow> [] | kv # rest \<Rightarrow> snd kv @ more_text (blanks (indention s) 0) (map snd rest)) s"
proof -
  have w: "s_out s = None \<Longrightarrow> snd (Stream_Write b s) = adds b s" for b s
    by (simp add: Stream_Write_def adds_def Let_def)
  have "s_out s = None \<Longrightarrow> foldl (\<lambda>s kv. snd (Stream_Write (snd kv) (WriteMore s))) s rest
      = adds (more_text (blanks (indention s) 0) (map snd rest)) s" for s and rest :: "(bytes \<times> bytes) list"
  proof (induction rest arbitrary: s)
    case (Cons kv rest)
    then show ?case using w [of "WriteMore s"] by (simp add: stream_adds)
  qed simp
  from this [of "adds (snd (hd kvs)) s" "tl kvs"] w [OF assms] assms show ?thesis
    by (auto simp: write_entries_def split: list.splits)
qed

lemma map_entries_flat:
  assumes venc: "\<And>v s. s_Error s = None \<Longrightarrow> venc v s = adds (f v) s" and "s_Error s = None"
  shows "foldl (\<lambda>s kv. map_entry stringCodec_Encode venc kv (WriteMore s)) s kvs
      = adds (more_text (blanks (indention s) 0) (map (flat_entry f (indention s)) kvs)) s"
    "map_entry stringCodec_Encode venc kv s = adds (flat_entry f (indention s) kv) s"
proof -
  have 1: "map_entry stringCodec_Encode venc kv s = adds (flat_entry f (indention s) kv) s" if "s_Error s = None" for kv s
    using venc [of "adds (string_text (fst kv) @ colon_text (indention s)) s" "snd kv"] that
    by (cases "indention s > 0")
      (simp_all add: map_entry_def split_def Let_def stringCodec_Encode_def stream_adds string_text_def colon_text_def flat_entry_def)
  then show "map_entry stringCodec_Encode venc kv s = adds (flat_entry f (indention s) kv) s" using assms(2) .
  show "foldl (\<lambda>s kv. map_entry stringCodec_Encode venc kv (WriteMore s)) s kvs
      = adds (more_text (blanks (indention s) 0) (map (flat_entry f (indention s)) kvs)) s"
    using assms(2)
  proof (induction kvs arbitrary: s)
    case (Cons kv kvs)
    then show ?case using 1 [of "WriteMore s" kv] by (simp add: stream_adds)
  qed simp
qed

lemma sorted_flat:
  assumes venc: "\<And>v s. s_Error s = None \<Longrightarrow> venc v s = adds (f v) s"
    and s: "s_out s = None" "s_Error s = None" and p: "captured pool_it = None"
  shows "sortKeysMapEncoder_Encode (ReturnStream ps) (ReturnIterator pool_it) stringCodec_Encode venc (Some kvs) s
    = mapEncoder_Encode stringCodec_Encode venc (Some (sort_key fst kvs)) s"
proof -
  let ?s = "WriteObjectStart s"
  have e: "s_Error ?s = None" "s_out ?s = None" using s by (simp_all add: stream_adds)
  have sub: "s_Error (BorrowStream (ReturnStream ps) None) = None" "captured (BorrowIterator (ReturnIterator pool_it) []) = None"
    "Error (BorrowIterator (ReturnIterator pool_it) []) = None"
    using p by (simp_all add: BorrowStream_def ReturnStream_def Stream_Reset_def BorrowIterator_def ReturnIterator_def ResetBytes_def)
  from encodedKVs_flat [where venc = venc and f = f, OF venc e(1) sub, of "[]" kvs] obtain sub' it' where
    1: "foldl (\<lambda>st kv. encodedKV stringCodec_Encode venc kv st)
        (?s, BorrowStream (ReturnStream ps) None, BorrowIterator (ReturnIterator pool_it) [], []) kvs
      = (?s, sub', it', map (\<lambda>kv. (fst kv, flat_entry f (indention ?s) kv)) kvs)" "s_Error sub' = None" by auto
  have "write_entries (sort_key fst (map (\<lambda>kv. (fst kv, flat_entry f (indention ?s) kv)) kvs)) ?s
      = (case sort_key fst kvs of [] \<Rightarrow> ?s
         | kv # rest \<Rightarrow> foldl (\<lambda>s kv. map_entry stringCodec_Encode venc kv (WriteMore s)) (map_entry stringCodec_Encode venc kv ?s) rest)"
    using map_entries_flat [where venc = venc and f = f, OF venc] e
    by (simp add: sort_key_map write_entries_adds o_def split: list.splits)
  with 1 e show ?thesis by (auto simp: sortKeysMapEncoder_Encode_def mapEncoder_Encode_def Let_def split: list.splits)
qed

section \<open>Properties\<close>



text \<open>With sorted keys, containers inside the map are not indented relative to it, because they
  are written to a borrowed stream whose indention is that of a new stream, not of the output.\<close>

lemma sorted_keys_lose_indention:
  "(let c = Froze (zero_Config\<lparr>IndentionStep := 2\<rparr>); s = NewStream c None; m = Some [([ch_a], Some [[ch_b]])];
        enc = sliceEncoder_Encode ''[]string'' stringCodec_Encode; q = [CHR 0x22]; nl = [CHR 0x0A] in
      s_buf (mapEncoder_Encode stringCodec_Encode enc m s)
        = map of_char (''{'' @ nl @ ''  '' @ q @ ''a'' @ q @ '': ['' @ nl @ ''    '' @ q @ ''b'' @ q @ nl @ ''  ]'' @ nl @ ''}'')
    \<and> s_buf (sortKeysMapEncoder_Encode (NewStream c None) (NewIterator c) stringCodec_Encode enc m s)
        = map of_char (''{'' @ nl @ ''  '' @ q @ ''a'' @ q @ '': ['' @ nl @ ''  '' @ q @ ''b'' @ q @ nl @ '']'' @ nl @ ''}''))"
  by code_simp

section \<open>Witnesses\<close>



end
