(* ===== verification/StructEncoder.thy ===== *)
theory StructEncoder
  imports MapCodec
begin

text \<open>
  \<open>reflect_struct_encoder.go\<close>: the encoders of structs and of their fields, the choice among fields of
  the same name (\<open>resolveConflictBinding\<close>, \<open>encoderOfStruct\<close>) and the encoders of fields tagged
  \<open>string\<close>; \<open>dereferenceEncoder.IsEmbeddedPtrNil\<close> of \<open>reflect_optional.go\<close>.

  A struct value is any \<open>'r\<close>; the encoder of one of its fields is an encoder of \<open>'r\<close> that writes this
  field. \<open>rtype\<close> is what the code asks of \<open>reflect2.Type\<close>: the name and the string of a type.
\<close>

section \<open>Encoders\<close>

record rtype =
  Type1_Name :: string
  type_String :: string

text \<open>A field, given its name, how to get it and the encoder of its type. A type assertion asks whether
  the latter has a method \<open>IsEmbeddedPtrNil\<close>: \<open>None\<close> if not.\<close>

definition structFieldEncoder_Encode :: "string \<Rightarrow> ('r \<Rightarrow> 'v) \<Rightarrow> 'v encoder \<Rightarrow> 'r encoder" where
  "structFieldEncoder_Encode name get fieldEncoder r s = wrap_enc_error (name @ '': '') (fieldEncoder (get r) s)"

definition structFieldEncoder_IsEmpty :: "('r \<Rightarrow> 'v) \<Rightarrow> ('v \<Rightarrow> bool) \<Rightarrow> 'r \<Rightarrow> bool" where
  "structFieldEncoder_IsEmpty get fieldIsEmpty r \<longleftrightarrow> fieldIsEmpty (get r)"

definition structFieldEncoder_IsEmbeddedPtrNil :: "('r \<Rightarrow> 'v) \<Rightarrow> ('v \<Rightarrow> bool) option \<Rightarrow> 'r \<Rightarrow> bool" where
  "structFieldEncoder_IsEmbeddedPtrNil get embeddedPtrNil r \<longleftrightarrow>
     (case embeddedPtrNil of None \<Rightarrow> False | Some isNil \<Rightarrow> isNil (get r))"

definition dereferenceEncoder_IsEmbeddedPtrNil :: "('v \<Rightarrow> bool) option \<Rightarrow> 'v option \<Rightarrow> bool" where
  "dereferenceEncoder_IsEmbeddedPtrNil embeddedPtrNil v \<longleftrightarrow>
     (case v of None \<Rightarrow> True
      | Some x \<Rightarrow> (case embeddedPtrNil of None \<Rightarrow> False | Some isNil \<Rightarrow> isNil x))"

text \<open>The methods of a \<open>structFieldEncoder\<close>, and its flag.\<close>

record 'r structFieldEncoder =
  field_Encode :: "'r encoder"
  field_IsEmpty :: "'r \<Rightarrow> bool"
  field_IsEmbeddedPtrNil :: "'r \<Rightarrow> bool"
  omitempty :: bool

type_synonym 'r structFieldTo = "'r structFieldEncoder \<times> bytes"

text \<open>One turn of the loop of \<open>structEncoder.Encode\<close>: its state is \<open>isNotFirst\<close> and the stream.\<close>

definition write_field :: "'r \<Rightarrow> bool \<times> stream \<Rightarrow> 'r structFieldTo \<Rightarrow> bool \<times> stream" where
  "write_field r = (\<lambda>(isNotFirst, s) (f, toName).
     if omitempty f \<and> field_IsEmpty f r then (isNotFirst, s)
     else if field_IsEmbeddedPtrNil f r then (isNotFirst, s)
     else (True, field_Encode f r (WriteObjectField toName (if isNotFirst then WriteMore s else s))))"

definition structEncoder_Encode :: "rtype \<Rightarrow> 'r structFieldTo list \<Rightarrow> 'r encoder" where
  "structEncoder_Encode typ flds r s =
     wrap_enc_error (type_String typ @ ''.'')
       (WriteObjectEnd (snd (foldl (write_field r) (False, WriteObjectStart s) flds)))"

definition structEncoder_IsEmpty :: "'r \<Rightarrow> bool" where
  "structEncoder_IsEmpty r \<longleftrightarrow> False"

definition emptyStructEncoder_Encode :: "'r encoder" where
  "emptyStructEncoder_Encode r s = WriteEmptyObject s"

definition emptyStructEncoder_IsEmpty :: "'r \<Rightarrow> bool" where
  "emptyStructEncoder_IsEmpty r \<longleftrightarrow> False"

text \<open>Fields tagged \<open>string\<close>.\<close>

definition stringModeNumberEncoder_Encode :: "'v encoder \<Rightarrow> 'v encoder" where
  "stringModeNumberEncoder_Encode elemEncoder v s = writeByte ch_quote (elemEncoder v (writeByte ch_quote s))"

definition stringModeNumberEncoder_IsEmpty :: "('v \<Rightarrow> bool) \<Rightarrow> 'v \<Rightarrow> bool" where
  "stringModeNumberEncoder_IsEmpty elemIsEmpty v \<longleftrightarrow> elemIsEmpty v"

definition stringModeStringEncoder_Encode :: "stream \<Rightarrow> 'v encoder \<Rightarrow> 'v encoder" where
  "stringModeStringEncoder_Encode pooled elemEncoder v s =
     WriteString (Stream_Buffer (elemEncoder v (BorrowStream pooled None))) s"

definition stringModeStringEncoder_IsEmpty :: "('v \<Rightarrow> bool) \<Rightarrow> 'v \<Rightarrow> bool" where
  "stringModeStringEncoder_IsEmpty elemIsEmpty v \<longleftrightarrow> elemIsEmpty v"

section \<open>Fields of the same name\<close>

text \<open>A binding of a field. \<open>tagged\<close>: its tag has a value for the key of the configuration; \<open>levels\<close>:
  the indices of the embedded structs that lead to it, and its own.\<close>

record ('r, 'd) Binding =
  tagged :: bool
  levels :: "int list"
  FromNames :: "bytes list"
  ToNames :: "bytes list"
  Encoder :: "'r structFieldEncoder"
  Decoder :: 'd

definition resolveConflictBinding :: "('r, 'd) Binding \<Rightarrow> ('r, 'd) Binding \<Rightarrow> bool \<times> bool" where
  "resolveConflictBinding old new =
     (if tagged new then
        if tagged old then
          if length (levels old) > length (levels new) then (True, False)
          else if length (levels new) > length (levels old) then (False, True)
          else (True, True)
        else (True, False)
      else if tagged old then (True, False)
      else if length (levels old) > length (levels new) then (True, False)
      else if length (levels new) > length (levels old) then (False, True)
      else (True, True))"

record ('r, 'd) bindingTo =
  binding :: "('r, 'd) Binding"
  toName :: bytes
  ignored :: bool

text \<open>A new entry is compared with every entry of its name: each comparison sets the mark of both.\<close>

definition add_binding :: "('r, 'd) bindingTo list \<Rightarrow> ('r, 'd) Binding \<times> bytes \<Rightarrow> ('r, 'd) bindingTo list" where
  "add_binding orderedBindings = (\<lambda>(b, name).
     map (\<lambda>old. if toName old = name
                then old\<lparr>ignored := fst (resolveConflictBinding (binding old) b)\<rparr> else old) orderedBindings
     @ [\<lparr>binding = b, toName = name,
          ignored = foldl (\<lambda>ign old. if toName old = name
                                    then snd (resolveConflictBinding (binding old) b) else ign)
                      False orderedBindings\<rparr>])"

definition orderedBindings :: "('r, 'd) Binding list \<Rightarrow> ('r, 'd) bindingTo list" where
  "orderedBindings bs = foldl add_binding [] (concat (map (\<lambda>b. map (Pair b) (ToNames b)) bs))"

definition finalOrderedFields :: "('r, 'd) Binding list \<Rightarrow> 'r structFieldTo list" where
  "finalOrderedFields bs =
     map (\<lambda>bt. (Encoder (binding bt), toName bt)) (filter (\<lambda>bt. \<not> ignored bt) (orderedBindings bs))"

text \<open>\<open>bs\<close> are the fields that \<open>describeStruct\<close> finds.\<close>

definition encoderOfStruct :: "rtype \<Rightarrow> ('r, 'd) Binding list \<Rightarrow> 'r encoder" where
  "encoderOfStruct typ bs =
     (if orderedBindings bs = [] then emptyStructEncoder_Encode
      else structEncoder_Encode typ (finalOrderedFields bs))"

end
