(* ===== verification/StructDecoder.thy ===== *)
theory StructDecoder
  imports StructEncoder "HOL-Library.AList" "HOL-Library.Multiset"
begin

text \<open>
  \<open>reflect_struct_decoder.go\<close>: the decoders of structs. A struct value is any \<open>'r\<close>; a decoder of one of
  its fields is a decoder of \<open>'r\<close> that changes this field. Small structs are decoded by hash: the hash
  of the name read selects the field; the other structs by name.

  Go's maps from names to fields are association lists with distinct keys, in the order in which a
  \<open>range\<close> loop happens to visit them. \<open>toLower\<close> stands for \<open>strings.ToLower\<close>.
\<close>

section \<open>Fields\<close>

text \<open>A field: its name and how to get and to set it in the struct.\<close>

definition structFieldDecoder_Decode :: "string \<Rightarrow> ('r \<Rightarrow> 'v) \<Rightarrow> ('v \<Rightarrow> 'r \<Rightarrow> 'r) \<Rightarrow> 'v decoder \<Rightarrow> 'r decoder" where
  "structFieldDecoder_Decode name get upd fieldDecoder r it =
     map_option (\<lambda>(v, it1). wrap_dec_error name (upd v r, it1)) (fieldDecoder (get r) it)"

definition skip_field :: "nat \<Rightarrow> 'r decoder" where
  "skip_field fuel r it = map_option (Pair r) (Skip fuel it)"

text \<open>The error of a field gets the name of the struct, where the type has one.\<close>

definition wrap_struct_error :: "rtype \<Rightarrow> iterator \<Rightarrow> iterator" where
  "wrap_struct_error typ it =
     (case Error it of None \<Rightarrow> it
      | Some e \<Rightarrow> if e \<noteq> EOF \<and> Type1_Name typ \<noteq> [] then it\<lparr>Error := Some (Wrapped (type_String typ @ ''.'') e)\<rparr>
               else it)"

section \<open>Decoding by hash\<close>

text \<open>The ten decoders share everything but the \<open>switch\<close> on the hash.\<close>

fun struct_loop :: "nat \<Rightarrow> (u64 \<Rightarrow> 'r decoder) \<Rightarrow> 'r decoder" where
  "struct_loop 0 switch r it = None"
| "struct_loop (Suc n) switch r it =
     (case readFieldHash it of (h, it1) \<Rightarrow>
      case switch h r it1 of
        None \<Rightarrow> None
      | Some (r', it2) \<Rightarrow>
          (case isObjectEnd it2 of (stop, it3) \<Rightarrow>
           if stop then Some (r', it3) else struct_loop n switch r' it3))"

definition decode_fields :: "nat \<Rightarrow> rtype \<Rightarrow> (u64 \<Rightarrow> 'r decoder) \<Rightarrow> 'r decoder" where
  "decode_fields fuel typ switch r it =
     (case readObjectStart it of (ok, it1) \<Rightarrow>
      if \<not> ok then Some (r, it1)
      else
        (case incrementDepth it1 of (ok, it2) \<Rightarrow>
         if \<not> ok then Some (r, it2)
         else map_option (\<lambda>(r', it3). (r', snd (decrementDepth (wrap_struct_error typ it3))))
                (struct_loop fuel switch r it2)))"

text \<open>A hash with the decoder of its field.\<close>

type_synonym 'r hashed = "u64 \<times> 'r decoder"

definition oneFieldStructDecoder_Decode :: "nat \<Rightarrow> rtype \<Rightarrow> 'r hashed \<Rightarrow> 'r decoder" where
  "oneFieldStructDecoder_Decode fuel typ f1 =
     decode_fields fuel typ (\<lambda>h.
       if h = fst f1 then snd f1
       else skip_field fuel)"

definition twoFieldsStructDecoder_Decode :: "nat \<Rightarrow> rtype \<Rightarrow> 'r hashed \<Rightarrow> 'r hashed \<Rightarrow> 'r decoder" where
  "twoFieldsStructDecoder_Decode fuel typ f1 f2 =
     decode_fields fuel typ (\<lambda>h.
       if h = fst f1 then snd f1
       else if h = fst f2 then snd f2
       else skip_field fuel)"

definition threeFieldsStructDecoder_Decode :: "nat \<Rightarrow> rtype \<Rightarrow> 'r hashed \<Rightarrow> 'r hashed \<Rightarrow> 'r hashed \<Rightarrow> 'r decoder" where
  "threeFieldsStructDecoder_Decode fuel typ f1 f2 f3 =
     decode_fields fuel typ (\<lambda>h.
       if h = fst f1 then snd f1
       else if h = fst f2 then snd f2
       else if h = fst f3 then snd f3
       else skip_field fuel)"

definition fourFieldsStructDecoder_Decode :: "nat \<Rightarrow> rtype \<Rightarrow> 'r hashed \<Rightarrow> 'r hashed \<Rightarrow> 'r hashed \<Rightarrow> 'r hashed \<Rightarrow> 'r decoder" where
  "fourFieldsStructDecoder_Decode fuel typ f1 f2 f3 f4 =
     decode_fields fuel typ (\<lambda>h.
       if h = fst f1 then snd f1
       else if h = fst f2 then snd f2
       else if h = fst f3 then snd f3
       else if h = fst f4 then snd f4
       else skip_field fuel)"

definition fiveFieldsStructDecoder_Decode :: "nat \<Rightarrow> rtype \<Rightarrow> 'r hashed \<Rightarrow> 'r hashed \<Rightarrow> 'r hashed \<Rightarrow> 'r hashed \<Rightarrow> 'r hashed \<Rightarrow> 'r decoder" where
  "fiveFieldsStructDecoder_Decode fuel typ f1 f2 f3 f4 f5 =
     decode_fields fuel typ (\<lambda>h.
       if h = fst f1 then snd f1
       else if h = fst f2 then snd f2
       else if h = fst f3 then snd f3
       else if h = fst f4 then snd f4
       else if h = fst f5 then snd f5
       else skip_field fuel)"

definition sixFieldsStructDecoder_Decode :: "nat \<Rightarrow> rtype \<Rightarrow> 'r hashed \<Rightarrow> 'r hashed \<Rightarrow> 'r hashed \<Rightarrow> 'r hashed \<Rightarrow> 'r hashed \<Rightarrow> 'r hashed \<Rightarrow> 'r decoder" where
  "sixFieldsStructDecoder_Decode fuel typ f1 f2 f3 f4 f5 f6 =
     decode_fields fuel typ (\<lambda>h.
       if h = fst f1 then snd f1
       else if h = fst f2 then snd f2
       else if h = fst f3 then snd f3
       else if h = fst f4 then snd f4
       else if h = fst f5 then snd f5
       else if h = fst f6 then snd f6
       else skip_field fuel)"

definition sevenFieldsStructDecoder_Decode :: "nat \<Rightarrow> rtype \<Rightarrow> 'r hashed \<Rightarrow> 'r hashed \<Rightarrow> 'r hashed \<Rightarrow> 'r hashed \<Rightarrow> 'r hashed \<Rightarrow> 'r hashed \<Rightarrow> 'r hashed \<Rightarrow> 'r decoder" where
  "sevenFieldsStructDecoder_Decode fuel typ f1 f2 f3 f4 f5 f6 f7 =
     decode_fields fuel typ (\<lambda>h.
       if h = fst f1 then snd f1
       else if h = fst f2 then snd f2
       else if h = fst f3 then snd f3
       else if h = fst f4 then snd f4
       else if h = fst f5 then snd f5
       else if h = fst f6 then snd f6
       else if h = fst f7 then snd f7
       else skip_field fuel)"

definition eightFieldsStructDecoder_Decode :: "nat \<Rightarrow> rtype \<Rightarrow> 'r hashed \<Rightarrow> 'r hashed \<Rightarrow> 'r hashed \<Rightarrow> 'r hashed \<Rightarrow> 'r hashed \<Rightarrow> 'r hashed \<Rightarrow> 'r hashed \<Rightarrow> 'r hashed \<Rightarrow> 'r decoder" where
  "eightFieldsStructDecoder_Decode fuel typ f1 f2 f3 f4 f5 f6 f7 f8 =
     decode_fields fuel typ (\<lambda>h.
       if h = fst f1 then snd f1
       else if h = fst f2 then snd f2
       else if h = fst f3 then snd f3
       else if h = fst f4 then snd f4
       else if h = fst f5 then snd f5
       else if h = fst f6 then snd f6
       else if h = fst f7 then snd f7
       else if h = fst f8 then snd f8
       else skip_field fuel)"

definition nineFieldsStructDecoder_Decode :: "nat \<Rightarrow> rtype \<Rightarrow> 'r hashed \<Rightarrow> 'r hashed \<Rightarrow> 'r hashed \<Rightarrow> 'r hashed \<Rightarrow> 'r hashed \<Rightarrow> 'r hashed \<Rightarrow> 'r hashed \<Rightarrow> 'r hashed \<Rightarrow> 'r hashed \<Rightarrow> 'r decoder" where
  "nineFieldsStructDecoder_Decode fuel typ f1 f2 f3 f4 f5 f6 f7 f8 f9 =
     decode_fields fuel typ (\<lambda>h.
       if h = fst f1 then snd f1
       else if h = fst f2 then snd f2
       else if h = fst f3 then snd f3
       else if h = fst f4 then snd f4
       else if h = fst f5 then snd f5
       else if h = fst f6 then snd f6
       else if h = fst f7 then snd f7
       else if h = fst f8 then snd f8
       else if h = fst f9 then snd f9
       else skip_field fuel)"

definition tenFieldsStructDecoder_Decode :: "nat \<Rightarrow> rtype \<Rightarrow> 'r hashed \<Rightarrow> 'r hashed \<Rightarrow> 'r hashed \<Rightarrow> 'r hashed \<Rightarrow> 'r hashed \<Rightarrow> 'r hashed \<Rightarrow> 'r hashed \<Rightarrow> 'r hashed \<Rightarrow> 'r hashed \<Rightarrow> 'r hashed \<Rightarrow> 'r decoder" where
  "tenFieldsStructDecoder_Decode fuel typ f1 f2 f3 f4 f5 f6 f7 f8 f9 f10 =
     decode_fields fuel typ (\<lambda>h.
       if h = fst f1 then snd f1
       else if h = fst f2 then snd f2
       else if h = fst f3 then snd f3
       else if h = fst f4 then snd f4
       else if h = fst f5 then snd f5
       else if h = fst f6 then snd f6
       else if h = fst f7 then snd f7
       else if h = fst f8 then snd f8
       else if h = fst f9 then snd f9
       else if h = fst f10 then snd f10
       else skip_field fuel)"

section \<open>Decoding by name\<close>

definition skipObjectDecoder_Decode :: "nat \<Rightarrow> 'r decoder" where
  "skipObjectDecoder_Decode fuel r it =
     (case WhatIsNext it of (valueType, it1) \<Rightarrow>
      if valueType \<noteq> ObjectValue \<and> valueType \<noteq> NilValue then
        Some (r, ReportError ''skipObjectDecoder'' ''expect object or null'' it1)
      else skip_field fuel r it1)"

text \<open>The lookup of a name: as it is, then in lower case.\<close>

definition find_field :: "(bytes \<Rightarrow> bytes) \<Rightarrow> bool \<Rightarrow> (bytes \<times> 'd) list \<Rightarrow> bytes \<Rightarrow> 'd option" where
  "find_field toLower caseSens fds field =
     (case map_of fds field of
        Some d \<Rightarrow> Some d
      | None \<Rightarrow> if \<not> caseSens then map_of fds (toLower field) else None)"

definition field_colon :: "iterator \<Rightarrow> iterator" where
  "field_colon it =
     (case nextToken it of (c, it1) \<Rightarrow>
      if c \<noteq> ch_colon
      then ReportError ''ReadObject'' (''expect : after object field, but found '' @ byte_str c) it1 else it1)"

definition generalStructDecoder_decodeOneField :: "nat \<Rightarrow> (bytes \<Rightarrow> bytes) \<Rightarrow> (bytes \<times> 'r decoder) list \<Rightarrow> bool \<Rightarrow> 'r decoder" where
  "generalStructDecoder_decodeOneField fuel toLower fds disallow r it =
     (case (if objectFieldMustBeSimpleString (cfg it)
            then case ReadRawString it of (raw, it1) \<Rightarrow> (fst (RawString_Bytes (buf it1) raw), it1)
            else ReadString it) of (field, it1) \<Rightarrow>
      case find_field toLower (caseSensitive (cfg it1)) fds field of
        None \<Rightarrow>
          let it2 = (if disallow
                     then ReportError ''ReadObject'' (''found unknown field: '' @ concat (map byte_str field)) it1
                     else it1)
          in skip_field fuel r (field_colon it2)
      | Some fieldDecoder \<Rightarrow> fieldDecoder r (field_colon it1))"

fun generalStructDecoder_loop :: "nat \<Rightarrow> 'r decoder \<Rightarrow> 'r \<Rightarrow> iterator \<Rightarrow> ('r \<times> byte \<times> iterator) option" where
  "generalStructDecoder_loop 0 decodeOneField r it = None"
| "generalStructDecoder_loop (Suc n) decodeOneField r it =
     (case decodeOneField r it of
        None \<Rightarrow> None
      | Some (r', it1) \<Rightarrow>
          (case nextToken it1 of (c, it2) \<Rightarrow>
           if c = ch_comma then generalStructDecoder_loop n decodeOneField r' it2 else Some (r', c, it2)))"

definition generalStructDecoder_Decode :: "nat \<Rightarrow> (bytes \<Rightarrow> bytes) \<Rightarrow> rtype \<Rightarrow> (bytes \<times> 'r decoder) list \<Rightarrow> bool \<Rightarrow> 'r decoder" where
  "generalStructDecoder_Decode fuel toLower typ fds disallow r it =
     (case readObjectStart it of (ok, it1) \<Rightarrow>
      if \<not> ok then Some (r, it1)
      else
        (case incrementDepth it1 of (ok, it2) \<Rightarrow>
         if \<not> ok then Some (r, it2)
         else
           (case generalStructDecoder_loop fuel (generalStructDecoder_decodeOneField fuel toLower fds disallow) r it2 of
              None \<Rightarrow> None
            | Some (r', c, it3) \<Rightarrow>
                let it4 = wrap_struct_error typ it3;
                    it5 = (if c \<noteq> ch_rbrace
                           then ReportError ''struct Decode'' (''expect }, but found '' @ byte_str c) it4 else it4)
                in Some (r', snd (decrementDepth it5)))))"

section \<open>The choice of a decoder\<close>

datatype 'r structDecoder =
    generalStructDecoder rtype "(bytes \<times> 'r decoder) list" bool
  | skipObjectDecoder rtype
  | oneFieldStructDecoder rtype "'r hashed"
  | twoFieldsStructDecoder rtype "'r hashed" "'r hashed"
  | threeFieldsStructDecoder rtype "'r hashed" "'r hashed" "'r hashed"
  | fourFieldsStructDecoder rtype "'r hashed" "'r hashed" "'r hashed" "'r hashed"
  | fiveFieldsStructDecoder rtype "'r hashed" "'r hashed" "'r hashed" "'r hashed" "'r hashed"
  | sixFieldsStructDecoder rtype "'r hashed" "'r hashed" "'r hashed" "'r hashed" "'r hashed" "'r hashed"
  | sevenFieldsStructDecoder rtype "'r hashed" "'r hashed" "'r hashed" "'r hashed" "'r hashed" "'r hashed" "'r hashed"
  | eightFieldsStructDecoder rtype "'r hashed" "'r hashed" "'r hashed" "'r hashed" "'r hashed" "'r hashed" "'r hashed" "'r hashed"
  | nineFieldsStructDecoder rtype "'r hashed" "'r hashed" "'r hashed" "'r hashed" "'r hashed" "'r hashed" "'r hashed" "'r hashed" "'r hashed"
  | tenFieldsStructDecoder rtype "'r hashed" "'r hashed" "'r hashed" "'r hashed" "'r hashed" "'r hashed" "'r hashed" "'r hashed" "'r hashed" "'r hashed"

fun structDecoder_Decode :: "nat \<Rightarrow> (bytes \<Rightarrow> bytes) \<Rightarrow> 'r structDecoder \<Rightarrow> 'r decoder" where
  "structDecoder_Decode n l (generalStructDecoder t fs u) = generalStructDecoder_Decode n l t fs u"
| "structDecoder_Decode n l (skipObjectDecoder t) = skipObjectDecoder_Decode n"
| "structDecoder_Decode n l (oneFieldStructDecoder t f1) = oneFieldStructDecoder_Decode n t f1"
| "structDecoder_Decode n l (twoFieldsStructDecoder t f1 f2) = twoFieldsStructDecoder_Decode n t f1 f2"
| "structDecoder_Decode n l (threeFieldsStructDecoder t f1 f2 f3) = threeFieldsStructDecoder_Decode n t f1 f2 f3"
| "structDecoder_Decode n l (fourFieldsStructDecoder t f1 f2 f3 f4) = fourFieldsStructDecoder_Decode n t f1 f2 f3 f4"
| "structDecoder_Decode n l (fiveFieldsStructDecoder t f1 f2 f3 f4 f5) = fiveFieldsStructDecoder_Decode n t f1 f2 f3 f4 f5"
| "structDecoder_Decode n l (sixFieldsStructDecoder t f1 f2 f3 f4 f5 f6) = sixFieldsStructDecoder_Decode n t f1 f2 f3 f4 f5 f6"
| "structDecoder_Decode n l (sevenFieldsStructDecoder t f1 f2 f3 f4 f5 f6 f7) = sevenFieldsStructDecoder_Decode n t f1 f2 f3 f4 f5 f6 f7"
| "structDecoder_Decode n l (eightFieldsStructDecoder t f1 f2 f3 f4 f5 f6 f7 f8) = eightFieldsStructDecoder_Decode n t f1 f2 f3 f4 f5 f6 f7 f8"
| "structDecoder_Decode n l (nineFieldsStructDecoder t f1 f2 f3 f4 f5 f6 f7 f8 f9) = nineFieldsStructDecoder_Decode n t f1 f2 f3 f4 f5 f6 f7 f8 f9"
| "structDecoder_Decode n l (tenFieldsStructDecoder t f1 f2 f3 f4 f5 f6 f7 f8 f9 f10) = tenFieldsStructDecoder_Decode n t f1 f2 f3 f4 f5 f6 f7 f8 f9 f10"

text \<open>The variables \<open>fieldName1\<close>, \<open>fieldDecoder1\<close>, \<dots> of \<open>createStructDecoder\<close> are a list of slots: the first
  slot whose hash is still 0 takes the field, the last one in any case. The decoder of an empty slot
  is a nil pointer: calling it does not return. \<open>known\<close> are the hashes met so far; a field whose hash is
  among them ends the search without a result.\<close>

fun fill_slot :: "'r hashed list \<Rightarrow> 'r hashed \<Rightarrow> 'r hashed list" where
  "fill_slot [] f = []"
| "fill_slot (s # ss) f = (if fst s = 0 \<or> ss = [] then f # ss else s # fill_slot ss f)"

fun fill_slots :: "(bytes \<Rightarrow> u64) \<Rightarrow> u64 list \<Rightarrow> 'r hashed list \<Rightarrow> (bytes \<times> 'r decoder) list \<Rightarrow> 'r hashed list option" where
  "fill_slots hash known slots [] = Some slots"
| "fill_slots hash known slots ((fieldName, fieldDecoder) # fds) =
     (let fieldHash = hash fieldName in
      if fieldHash \<in> set known then None
      else fill_slots hash (fieldHash # known) (fill_slot slots (fieldHash, fieldDecoder)) fds)"

definition no_slot :: "'r hashed" where
  "no_slot = (0, \<lambda>r it. None)"

text \<open>The cases of the switch on the number of fields, each with its composite literal at the end.\<close>

definition createStructDecoder_1 :: "(bytes \<Rightarrow> u64) \<Rightarrow> rtype \<Rightarrow> (bytes \<times> 'r decoder) list \<Rightarrow> 'r structDecoder" where
  "createStructDecoder_1 hash typ fds =
     (case fill_slots hash [0] [no_slot] fds of
        Some [f1] \<Rightarrow> oneFieldStructDecoder typ f1
      | _ \<Rightarrow> generalStructDecoder typ fds False)"

definition createStructDecoder_2 :: "(bytes \<Rightarrow> u64) \<Rightarrow> rtype \<Rightarrow> (bytes \<times> 'r decoder) list \<Rightarrow> 'r structDecoder" where
  "createStructDecoder_2 hash typ fds =
     (case fill_slots hash [0] [no_slot, no_slot] fds of
        Some [f1, f2] \<Rightarrow> twoFieldsStructDecoder typ f1 f2
      | _ \<Rightarrow> generalStructDecoder typ fds False)"

definition createStructDecoder_3 :: "(bytes \<Rightarrow> u64) \<Rightarrow> rtype \<Rightarrow> (bytes \<times> 'r decoder) list \<Rightarrow> 'r structDecoder" where
  "createStructDecoder_3 hash typ fds =
     (case fill_slots hash [0] [no_slot, no_slot, no_slot] fds of
        Some [f1, f2, f3] \<Rightarrow> threeFieldsStructDecoder typ f1 f2 f3
      | _ \<Rightarrow> generalStructDecoder typ fds False)"

definition createStructDecoder_4 :: "(bytes \<Rightarrow> u64) \<Rightarrow> rtype \<Rightarrow> (bytes \<times> 'r decoder) list \<Rightarrow> 'r structDecoder" where
  "createStructDecoder_4 hash typ fds =
     (case fill_slots hash [0] [no_slot, no_slot, no_slot, no_slot] fds of
        Some [f1, f2, f3, f4] \<Rightarrow> fourFieldsStructDecoder typ f1 f2 f3 f4
      | _ \<Rightarrow> generalStructDecoder typ fds False)"

definition createStructDecoder_5 :: "(bytes \<Rightarrow> u64) \<Rightarrow> rtype \<Rightarrow> (bytes \<times> 'r decoder) list \<Rightarrow> 'r structDecoder" where
  "createStructDecoder_5 hash typ fds =
     (case fill_slots hash [0] [no_slot, no_slot, no_slot, no_slot, no_slot] fds of
        Some [f1, f2, f3, f4, f5] \<Rightarrow> fiveFieldsStructDecoder typ f1 f2 f3 f4 f5
      | _ \<Rightarrow> generalStructDecoder typ fds False)"

definition createStructDecoder_6 :: "(bytes \<Rightarrow> u64) \<Rightarrow> rtype \<Rightarrow> (bytes \<times> 'r decoder) list \<Rightarrow> 'r structDecoder" where
  "createStructDecoder_6 hash typ fds =
     (case fill_slots hash [0] [no_slot, no_slot, no_slot, no_slot, no_slot, no_slot] fds of
        Some [f1, f2, f3, f4, f5, f6] \<Rightarrow> sixFieldsStructDecoder typ f1 f2 f3 f4 f5 f6
      | _ \<Rightarrow> generalStructDecoder typ fds False)"

definition createStructDecoder_7 :: "(bytes \<Rightarrow> u64) \<Rightarrow> rtype \<Rightarrow> (bytes \<times> 'r decoder) list \<Rightarrow> 'r structDecoder" where
  "createStructDecoder_7 hash typ fds =
     (case fill_slots hash [0] [no_slot, no_slot, no_slot, no_slot, no_slot, no_slot, no_slot] fds of
        Some [f1, f2, f3, f4, f5, f6, f7] \<Rightarrow> sevenFieldsStructDecoder typ f1 f2 f3 f4 f5 f6 f7
      | _ \<Rightarrow> generalStructDecoder typ fds False)"

definition createStructDecoder_8 :: "(bytes \<Rightarrow> u64) \<Rightarrow> rtype \<Rightarrow> (bytes \<times> 'r decoder) list \<Rightarrow> 'r structDecoder" where
  "createStructDecoder_8 hash typ fds =
     (case fill_slots hash [0] [no_slot, no_slot, no_slot, no_slot, no_slot, no_slot, no_slot, no_slot] fds of
        Some [f1, f2, f3, f4, f5, f6, f7, f8] \<Rightarrow> eightFieldsStructDecoder typ f1 f2 f3 f4 f5 f6 f7 f8
      | _ \<Rightarrow> generalStructDecoder typ fds False)"

definition createStructDecoder_9 :: "(bytes \<Rightarrow> u64) \<Rightarrow> rtype \<Rightarrow> (bytes \<times> 'r decoder) list \<Rightarrow> 'r structDecoder" where
  "createStructDecoder_9 hash typ fds =
     (case fill_slots hash [0] [no_slot, no_slot, no_slot, no_slot, no_slot, no_slot, no_slot, no_slot, no_slot] fds of
        Some [f1, f2, f3, f4, f5, f6, f7, f8, f9] \<Rightarrow> nineFieldsStructDecoder typ f1 f2 f3 f4 f5 f6 f7 f8 f9
      | _ \<Rightarrow> generalStructDecoder typ fds False)"

definition createStructDecoder_10 :: "(bytes \<Rightarrow> u64) \<Rightarrow> rtype \<Rightarrow> (bytes \<times> 'r decoder) list \<Rightarrow> 'r structDecoder" where
  "createStructDecoder_10 hash typ fds =
     (case fill_slots hash [0] [no_slot, no_slot, no_slot, no_slot, no_slot, no_slot, no_slot, no_slot, no_slot, no_slot] fds of
        Some [f1, f2, f3, f4, f5, f6, f7, f8, f9, f10] \<Rightarrow> tenFieldsStructDecoder typ f1 f2 f3 f4 f5 f6 f7 f8 f9 f10
      | _ \<Rightarrow> generalStructDecoder typ fds False)"

definition createStructDecoder :: "(bytes \<Rightarrow> bytes) \<Rightarrow> frozenConfig \<Rightarrow> rtype \<Rightarrow> (bytes \<times> 'r decoder) list \<Rightarrow> 'r structDecoder" where
  "createStructDecoder toLower c typ fds =
     (if disallowUnknownFields c then generalStructDecoder typ fds True
      else
        let hash = (\<lambda>n. calcHash toLower n (caseSensitive c)); k = length fds in
        if k = 0 then skipObjectDecoder typ
        else if k = 1 then createStructDecoder_1 hash typ fds
        else if k = 2 then createStructDecoder_2 hash typ fds
        else if k = 3 then createStructDecoder_3 hash typ fds
        else if k = 4 then createStructDecoder_4 hash typ fds
        else if k = 5 then createStructDecoder_5 hash typ fds
        else if k = 6 then createStructDecoder_6 hash typ fds
        else if k = 7 then createStructDecoder_7 hash typ fds
        else if k = 8 then createStructDecoder_8 hash typ fds
        else if k = 9 then createStructDecoder_9 hash typ fds
        else if k = 10 then createStructDecoder_10 hash typ fds
        else generalStructDecoder typ fds False)"

section \<open>Hash switches are lookups\<close>

text \<open>What the ten cases have in common.\<close>

definition from_slots :: "rtype \<Rightarrow> (bytes \<times> 'r decoder) list \<Rightarrow> 'r hashed list \<Rightarrow> 'r structDecoder" where
  "from_slots typ fds slots =
     (case slots of
          [f1] \<Rightarrow> oneFieldStructDecoder typ f1
        | [f1, f2] \<Rightarrow> twoFieldsStructDecoder typ f1 f2
        | [f1, f2, f3] \<Rightarrow> threeFieldsStructDecoder typ f1 f2 f3
        | [f1, f2, f3, f4] \<Rightarrow> fourFieldsStructDecoder typ f1 f2 f3 f4
        | [f1, f2, f3, f4, f5] \<Rightarrow> fiveFieldsStructDecoder typ f1 f2 f3 f4 f5
        | [f1, f2, f3, f4, f5, f6] \<Rightarrow> sixFieldsStructDecoder typ f1 f2 f3 f4 f5 f6
        | [f1, f2, f3, f4, f5, f6, f7] \<Rightarrow> sevenFieldsStructDecoder typ f1 f2 f3 f4 f5 f6 f7
        | [f1, f2, f3, f4, f5, f6, f7, f8] \<Rightarrow> eightFieldsStructDecoder typ f1 f2 f3 f4 f5 f6 f7 f8
        | [f1, f2, f3, f4, f5, f6, f7, f8, f9] \<Rightarrow> nineFieldsStructDecoder typ f1 f2 f3 f4 f5 f6 f7 f8 f9
        | [f1, f2, f3, f4, f5, f6, f7, f8, f9, f10] \<Rightarrow> tenFieldsStructDecoder typ f1 f2 f3 f4 f5 f6 f7 f8 f9 f10
      | _ \<Rightarrow> generalStructDecoder typ fds False)"

lemma length_fill_slots: "fill_slots hash known slots fds = Some slots' \<Longrightarrow> length slots' = length slots"
proof (induction hash known slots fds arbitrary: slots' rule: fill_slots.induct)
  case (2 hash known slots fieldName fieldDecoder fds)
  have "length (fill_slot slots f) = length slots" for f :: "'a hashed" by (induction slots f rule: fill_slot.induct) auto
  with 2 show ?case by (auto simp: Let_def split: if_splits)
qed simp

lemmas createStructDecoder_cases = createStructDecoder_1_def createStructDecoder_2_def createStructDecoder_3_def
  createStructDecoder_4_def createStructDecoder_5_def createStructDecoder_6_def createStructDecoder_7_def
  createStructDecoder_8_def createStructDecoder_9_def createStructDecoder_10_def

lemma createStructDecoder_slots:
  "createStructDecoder toLower c typ fds =
     (if disallowUnknownFields c then generalStructDecoder typ fds True
      else if fds = [] then skipObjectDecoder typ
      else if length fds > 10 then generalStructDecoder typ fds False
      else
        (case fill_slots (\<lambda>n. calcHash toLower n (caseSensitive c)) [0] (replicate (length fds) no_slot) fds of
           None \<Rightarrow> generalStructDecoder typ fds False
         | Some slots \<Rightarrow> from_slots typ fds slots))"
proof (cases "disallowUnknownFields c \<or> fds = [] \<or> length fds > 10")
  case True
  then show ?thesis by (auto simp: createStructDecoder_def Let_def)
next
  case False
  let ?slots = "fill_slots (\<lambda>n. calcHash toLower n (caseSensitive c)) [0] (replicate (length fds) no_slot) fds"
  have "0 < length fds" "length fds \<le> 10" using False by auto
  then have "length fds \<in> {1, 2, 3, 4, 5, 6, 7, 8, 9, 10}" by (simp only: insert_iff empty_iff) presburger
  then show ?thesis
  proof (cases ?slots)
    case None
    with False \<open>length fds \<in> _\<close> show ?thesis
      by (elim insertE emptyE) (simp_all add: createStructDecoder_def createStructDecoder_cases numeral_eq_Suc)
  next
    case (Some slots)
    from length_fill_slots [OF this] have "length slots = length fds" by simp
    with Some False \<open>length fds \<in> _\<close> show ?thesis
      by (elim insertE emptyE; auto simp: createStructDecoder_def createStructDecoder_cases from_slots_def numeral_eq_Suc length_Suc_conv)
  qed
qed

text \<open>What the ten decoders have in common: the field whose hash was read, or \<open>Skip\<close>.\<close>

definition by_hash :: "nat \<Rightarrow> 'r hashed list \<Rightarrow> u64 \<Rightarrow> 'r decoder" where
  "by_hash fuel fs h = (case map_of fs h of Some d \<Rightarrow> d | None \<Rightarrow> skip_field fuel)"

lemma from_slots_by_hash:
  assumes "slots \<noteq> []" "length slots \<le> 10"
  shows "structDecoder_Decode fuel toLower (from_slots typ fds slots) = decode_fields fuel typ (by_hash fuel slots)"
proof -
  have sw: "by_hash fuel (f # fs) = (\<lambda>h. if h = fst f then snd f else by_hash fuel fs h)" "by_hash fuel [] = (\<lambda>h. skip_field fuel)" for f fs
    by (auto simp: by_hash_def fun_eq_iff)
  have "length slots \<in> {1, 2, 3, 4, 5, 6, 7, 8, 9, 10}" using assms by (cases slots) (auto simp: le_Suc_eq numeral_eq_Suc)
  then show ?thesis
    by (elim insertE emptyE; auto simp: from_slots_def sw length_Suc_conv numeral_eq_Suc
      oneFieldStructDecoder_Decode_def twoFieldsStructDecoder_Decode_def threeFieldsStructDecoder_Decode_def
      fourFieldsStructDecoder_Decode_def fiveFieldsStructDecoder_Decode_def sixFieldsStructDecoder_Decode_def
      sevenFieldsStructDecoder_Decode_def eightFieldsStructDecoder_Decode_def nineFieldsStructDecoder_Decode_def
      tenFieldsStructDecoder_Decode_def cong del: if_weak_cong)
qed

lemma fill_slot_free:
  assumes "list_all (\<lambda>f. fst f \<noteq> 0) done" "f = no_slot # fs"
  shows "fill_slot (done @ f) g = done @ g # fs"
  using assms by (induction "done") (auto simp: no_slot_def)

lemma fill_slots_distinct:
  assumes "distinct (map (hash \<circ> fst) fds)" "set (map (hash \<circ> fst) fds) \<inter> set known = {}" "0 \<in> set known"
    "list_all (\<lambda>f. fst f \<noteq> 0) done"
  shows "fill_slots hash known (done @ replicate (length fds) no_slot) fds = Some (done @ map (\<lambda>(n, d). (hash n, d)) fds)"
  using assms
proof (induction fds arbitrary: known "done")
  case (Cons fd fds)
  obtain n d where fd: "fd = (n, d)" by force
  have nz: "hash n \<noteq> 0" "hash n \<notin> set known" using Cons.prems fd by auto
  then have "fill_slots hash (hash n # known) ((done @ [(hash n, d)]) @ replicate (length fds) no_slot) fds
      = Some ((done @ [(hash n, d)]) @ map (\<lambda>(n, d). (hash n, d)) fds)"
    using Cons.prems fd by (intro Cons.IH) auto
  then show ?case using Cons.prems(4) nz fd fill_slot_free [of "done" "no_slot # replicate (length fds) no_slot" _ "(hash n, d)"]
    by (simp add: Let_def)
qed simp

text \<open>A hash that occurs twice, or 0, sends the struct to the decoder by name.\<close>

lemma fill_slots_clash:
  assumes "\<not> (distinct (map (hash \<circ> fst) fds) \<and> set (map (hash \<circ> fst) fds) \<inter> set known = {})"
  shows "fill_slots hash known slots fds = None"
  using assms
proof (induction fds arbitrary: known slots)
  case (Cons fd fds)
  obtain n d where fd: "fd = (n, d)" by force
  show ?case
  proof (cases "hash n \<in> set known")
    case False
    with Cons.prems fd have "\<not> (distinct (map (hash \<circ> fst) fds) \<and> set (map (hash \<circ> fst) fds) \<inter> set (hash n # known) = {})"
      by (auto simp del: map_map simp: comp_def)
    from Cons.IH [OF this] fd show ?thesis by (simp add: Let_def)
  qed (simp add: fd)
qed simp

lemma create_by_hash:
  assumes "\<not> disallowUnknownFields c" "fds \<noteq> []" "length fds \<le> 10"
    "distinct (0 # map (\<lambda>(n, d). calcHash toLower n (caseSensitive c)) fds)"
  shows "structDecoder_Decode fuel toLower (createStructDecoder toLower c typ fds)
    = decode_fields fuel typ (by_hash fuel (map (\<lambda>(n, d). (calcHash toLower n (caseSensitive c), d)) fds))"
proof -
  let ?h = "\<lambda>n. calcHash toLower n (caseSensitive c)"
  have m: "map (?h \<circ> fst) fds = map (\<lambda>(n, d). ?h n) fds" by auto
  have "fill_slots ?h [0] (replicate (length fds) no_slot) fds = Some (map (\<lambda>(n, d). (?h n, d)) fds)"
    using fill_slots_distinct [of ?h fds "[0]" "[]"] assms(4) unfolding m by auto
  then show ?thesis using assms from_slots_by_hash [of "map (\<lambda>(n, d). (?h n, d)) fds"]
    by (simp add: createStructDecoder_slots)
qed

section \<open>The decoder of a struct type\<close>

text \<open>The bindings of each name: a new binding of a name displaces the old one, is dropped, or both are.\<close>

definition add_from_name :: "(bytes \<times> ('r, 'r decoder) Binding) list \<Rightarrow> ('r, 'r decoder) Binding \<times> bytes
    \<Rightarrow> (bytes \<times> ('r, 'r decoder) Binding) list" where
  "add_from_name bindings = (\<lambda>(b, fromName).
     case map_of bindings fromName of
       None \<Rightarrow> AList.update fromName b bindings
     | Some old \<Rightarrow>
         (case resolveConflictBinding old b of (ignoreOld, ignoreNew) \<Rightarrow>
          let bindings1 = (if ignoreOld then AList.delete fromName bindings else bindings)
          in if \<not> ignoreNew then AList.update fromName b bindings1 else bindings1))"

definition from_names :: "('r, 'r decoder) Binding list \<Rightarrow> (bytes \<times> ('r, 'r decoder) Binding) list" where
  "from_names bs = foldl add_from_name [] (concat (map (\<lambda>b. map (Pair b) (FromNames b)) bs))"

text \<open>Unless names are case sensitive each field is also known by its name in lower case.\<close>

definition lower_aliases :: "(bytes \<Rightarrow> bytes) \<Rightarrow> (bytes \<times> 'd) list \<Rightarrow> (bytes \<times> 'd) list" where
  "lower_aliases toLower fds =
     foldl (\<lambda>m (k, d). if map_of m (toLower k) = None then AList.update (toLower k) d m else m) fds fds"

definition decoderOfStruct :: "(bytes \<Rightarrow> bytes) \<Rightarrow> frozenConfig \<Rightarrow> rtype \<Rightarrow> ('r, 'r decoder) Binding list \<Rightarrow> 'r structDecoder" where
  "decoderOfStruct toLower c typ bs =
     (let fds = map (\<lambda>(k, b). (k, Decoder b)) (from_names bs)
      in createStructDecoder toLower c typ (if \<not> caseSensitive c then lower_aliases toLower fds else fds))"

section \<open>Fields tagged \<open>string\<close>\<close>

text \<open>The iterator \<open>pooled\<close> is borrowed; its error is lost when it is returned.\<close>

definition stringModeStringDecoder_Decode :: "iterator \<Rightarrow> bytes decoder \<Rightarrow> bytes decoder" where
  "stringModeStringDecoder_Decode pooled elemDecoder old it =
     map_option (\<lambda>(str, it1). (fst (ReadString (BorrowIterator pooled str)), it1)) (elemDecoder old it)"

definition stringModeNumberDecoder_Decode :: "'v decoder \<Rightarrow> 'v decoder" where
  "stringModeNumberDecoder_Decode elemDecoder old it =
     (case WhatIsNext it of (valueType, it1) \<Rightarrow>
      if valueType = NilValue then elemDecoder old it1
      else
        (case nextToken it1 of (c, it2) \<Rightarrow>
         if c \<noteq> ch_quote then
           Some (old, ReportError ''stringModeNumberDecoder'' (''expect '' @ [CHR 0x22] @ '', but found '' @ byte_str c) it2)
         else
           (case elemDecoder old it2 of
              None \<Rightarrow> None
            | Some (v, it3) \<Rightarrow>
                if Error it3 \<noteq> None then Some (v, it3)
                else
                  (case readByte it3 of (c, it4) \<Rightarrow>
                   Some (v, if c \<noteq> ch_quote
                            then ReportError ''stringModeNumberDecoder'' (''expect '' @ [CHR 0x22] @ '', but found '' @ byte_str c) it4
                            else it4)))))"

section \<open>Properties of the choice of a decoder\<close>

text \<open>C37: a struct with one to ten names whose hashes differ, and differ from 0, is decoded by the
  lookup of hashes, in whichever order \<open>fds'\<close> the map of its fields is visited: the ten specialised
  decoders and the slots filled for them differ in nothing else.\<close>

theorem createStructDecoder_by_hash:
  assumes "\<not> disallowUnknownFields c" "fds \<noteq> []" "length fds \<le> 10"
    "distinct (0 # map (\<lambda>(n, d). calcHash toLower n (caseSensitive c)) fds)" "mset fds' = mset fds"
  shows "structDecoder_Decode fuel toLower (createStructDecoder toLower c typ fds')
    = decode_fields fuel typ (\<lambda>h. case map_of (map (\<lambda>(n, d). (calcHash toLower n (caseSensitive c), d)) fds) h of
        Some d \<Rightarrow> d | None \<Rightarrow> skip_field fuel)"
proof -
  let ?k = "\<lambda>(n, d). (calcHash toLower n (caseSensitive c), d)" and ?h = "\<lambda>(n, d). calcHash toLower n (caseSensitive c)"
  have m: "map fst (map ?k xs) = map ?h xs" for xs :: "(bytes \<times> 'a decoder) list" by auto
  have l: "length fds' = length fds" using assms(5) by (rule mset_eq_length)
  have "mset (0 # map ?h fds') = mset (0 # map ?h fds)" using assms(5) by (simp only: mset.simps mset_map)
  then have d: "distinct (0 # map ?h fds')" using assms(4) mset_eq_imp_distinct_iff by blast
  have s: "set (map ?k fds') = set (map ?k fds)" using mset_eq_setD [OF assms(5)] by (simp only: set_map)
  have "distinct (map fst (map ?k fds'))" "distinct (map fst (map ?k fds))"
    unfolding m using d assms(4) by (simp_all only: distinct.simps)
  then have k: "map_of (map ?k fds') = map_of (map ?k fds)" using s map_of_inject_set by blast
  have "fds' \<noteq> []" "length fds' \<le> 10" using l assms(2,3) by auto
  show ?thesis
    unfolding create_by_hash [OF assms(1) \<open>fds' \<noteq> []\<close> \<open>length fds' \<le> 10\<close> d] by (simp only: by_hash_def [abs_def] k)
qed

text \<open>Two names with the same hash, found by lattice reduction: \<open>qadqdbkhkkoa\<close> and \<open>izlchbgb__kv\<close>.\<close>

definition name_q :: bytes where "name_q = [0x71, 0x61, 0x64, 0x71, 0x64, 0x62, 0x6b, 0x68, 0x6b, 0x6b, 0x6f, 0x61]"
definition name_i :: bytes where "name_i = [0x69, 0x7a, 0x6c, 0x63, 0x68, 0x62, 0x67, 0x62, 0x5f, 0x5f, 0x6b, 0x76]"

text \<open>A struct of one integer field, with the given name.\<close>

definition one_int :: "bytes \<Rightarrow> (bytes \<times> u64 decoder) list" where
  "one_int name = [(name, structFieldDecoder_Decode ''A'' id (\<lambda>v r. v) int64Codec_Decode)]"

definition member :: "bytes \<Rightarrow> byte \<Rightarrow> bytes" where
  "member name d = ch_lbrace # ch_quote # name @ [ch_quote, ch_colon, d, ch_rbrace]"

text \<open>The hash of 64 bits keeps the offset and the prime of 32-bit FNV, so that different names with
  the same hash are easy to find. A key of the input that is not the name of a field, but has its
  hash, is decoded into the field; the decoder by name skips it.\<close>

lemma colliding_key_decoded:
  "name_q \<noteq> name_i \<and> calcHash id name_q False = calcHash id name_i False
    \<and> map_option fst (structDecoder_Decode 9 id (createStructDecoder id ConfigDefault \<lparr>Type1_Name = ''T'', type_String = ''T''\<rparr> (one_int name_q))
        5 (ParseBytes ConfigDefault (member name_i 0x37))) = Some 7
    \<and> map_option fst (generalStructDecoder_Decode 9 id \<lparr>Type1_Name = ''T'', type_String = ''T''\<rparr> (one_int name_q) False
        5 (ParseBytes ConfigDefault (member name_i 0x37))) = Some 5"
  by code_simp

text \<open>Three string fields named \<open>F\<close>, two of embedded structs and one of a struct embedded in a third, and
  an encoder and a decoder for the value \<open>(a, b, c)\<close> of such a struct.\<close>

definition string_field :: "bool \<Rightarrow> int list \<Rightarrow> ('r \<Rightarrow> bytes) \<Rightarrow> (bytes \<Rightarrow> 'r \<Rightarrow> 'r) \<Rightarrow> bytes \<Rightarrow> ('r, 'r decoder) Binding" where
  "string_field tag lev get upd name =
     \<lparr>tagged = tag, levels = lev, FromNames = [name], ToNames = [name],
      Encoder = \<lparr>field_Encode = structFieldEncoder_Encode ''F'' get stringCodec_Encode,
        field_IsEmpty = structFieldEncoder_IsEmpty get stringCodec_IsEmpty,
        field_IsEmbeddedPtrNil = structFieldEncoder_IsEmbeddedPtrNil get None, omitempty = False\<rparr>,
      Decoder = structFieldDecoder_Decode ''F'' get upd stringCodec_Decode\<rparr>"

definition three_F :: "(bytes \<times> bytes \<times> bytes, (bytes \<times> bytes \<times> bytes) decoder) Binding list" where
  "three_F =
     [string_field False [0, 0] fst (\<lambda>v (a, b, c). (v, b, c)) [0x46],
      string_field False [1, 0] (fst \<circ> snd) (\<lambda>v (a, b, c). (a, v, c)) [0x46],
      string_field False [2, 0, 0] (snd \<circ> snd) (\<lambda>v (a, b, c). (a, b, v)) [0x46]]"

text \<open>Two fields, a tagged one and, behind it, one that is not.\<close>

definition tagged_first :: "(bytes \<times> bytes, (bytes \<times> bytes) decoder) Binding list" where
  "tagged_first =
     [string_field True [0, 0] fst (\<lambda>v (a, b). (v, b)) [0x46],
      string_field False [1, 0] snd (\<lambda>v (a, b). (a, v)) [0x46]]"

text \<open>Fields of the same name. The comparison with a third field undoes the marks of the first two, so
  that an ambiguous name is written twice, while the decoder has dropped both and decodes the name into
  the third; a field without a tag displaces a tagged one. encoding/json ignores all three fields in the
  first case and takes the tagged field in the second.\<close>

lemma same_name_fields:
  "s_buf (encoderOfStruct \<lparr>Type1_Name = ''T'', type_String = ''T''\<rparr> three_F ([ch_a], [ch_b], [ch_e]) (NewStream ConfigDefault None))
      = [ch_lbrace, ch_quote, 0x46, ch_quote, ch_colon, ch_quote, ch_a, ch_quote, ch_comma, ch_quote, 0x46, ch_quote, ch_colon, ch_quote, ch_b, ch_quote, ch_rbrace]
    \<and> map_option fst (structDecoder_Decode 9 (map lower_byte) (decoderOfStruct (map lower_byte) ConfigDefault
          \<lparr>Type1_Name = ''T'', type_String = ''T''\<rparr> three_F) ([ch_a], [ch_b], [ch_e])
        (ParseBytes ConfigDefault [ch_lbrace, ch_quote, 0x46, ch_quote, ch_colon, ch_quote, ch_n, ch_quote, ch_rbrace])) = Some ([ch_a], [ch_b], [ch_n])
    \<and> s_buf (encoderOfStruct \<lparr>Type1_Name = ''T'', type_String = ''T''\<rparr> tagged_first ([ch_a], [ch_b]) (NewStream ConfigDefault None))
      = [ch_lbrace, ch_quote, 0x46, ch_quote, ch_colon, ch_quote, ch_b, ch_quote, ch_rbrace]"
  by code_simp

text \<open>Two names that agree in lower case: which of them an input in another case selects depends on the order
  in which the map of the fields was visited.\<close>

lemma aliases_depend_on_order:
  "find_field (map lower_byte) False (lower_aliases (map lower_byte) [([0x41, 0x62], 1), ([0x61, 0x42], 2)]) [0x61, 0x62] = Some (1 :: nat)
    \<and> find_field (map lower_byte) False (lower_aliases (map lower_byte) [([0x61, 0x42], 2), ([0x41, 0x62], 1)]) [0x61, 0x62] = Some (2 :: nat)"
  by code_simp

text \<open>A name with an upper-case letter is in the map twice, with one hash: under a configuration that is not
  case sensitive every struct with such a field is decoded by name.\<close>

lemma upper_case_by_name:
  "createStructDecoder (map lower_byte) ConfigDefault typ (lower_aliases (map lower_byte) [([0x41], d)])
    = generalStructDecoder typ [([0x41], d), ([0x61], d)] False"
  by (simp add: createStructDecoder_slots lower_aliases_def ConfigDefault_def Froze_def zero_Config_def calcHash_def lower_byte_def Let_def)

text \<open>The error of the inner literal of a string tagged \<open>string\<close> is lost.\<close>

lemma string_mode_error_lost:
  "map_option (\<lambda>(v, it). (v, Error it))
     (stringModeStringDecoder_Decode (ParseBytes ConfigDefault []) stringCodec_Decode [0x7A]
        (ParseBytes ConfigDefault [ch_quote, 0x61, ch_quote])) = Some ([], None)"
  by code_simp

theorem createStructDecoder_by_hash_witness:
  "structDecoder_Decode 9 id (createStructDecoder id ConfigDefault \<lparr>Type1_Name = ''T'', type_String = ''T''\<rparr> (one_int [ch_b] @ one_int [ch_a]))
    = decode_fields 9 \<lparr>Type1_Name = ''T'', type_String = ''T''\<rparr> (\<lambda>h. case map_of (map (\<lambda>(n, d). (calcHash id n (caseSensitive ConfigDefault), d)) (one_int [ch_a] @ one_int [ch_b])) h of
        Some d \<Rightarrow> d | None \<Rightarrow> skip_field 9)"
proof (rule createStructDecoder_by_hash)
  show "distinct (0 # map (\<lambda>(n, d). calcHash id n (caseSensitive ConfigDefault)) (one_int [ch_a] @ one_int [ch_b]))" by code_simp
qed (simp_all add: ConfigDefault_def Froze_def zero_Config_def one_int_def)

end
