(* ===== verification/StructCodec.thy ===== *)
theory StructCodec
  imports StructDecoder
begin

text \<open>
  Structs: what \<open>encoderOfStruct\<close> writes, \<open>decoderOfStruct\<close> reads. The proofs are about the members of an
  object, each with the effect it has on the struct; the same lemmas serve the decoding by hash and by
  name, for known and for unknown names.
\<close>

section \<open>Names\<close>

text \<open>Names that are written as they are.\<close>

definition plain :: "bytes \<Rightarrow> bool" where
  "plain n \<longleftrightarrow> list_all safeSet n"

lemma plain_text:
  assumes "plain n"
  shows "string_text n = ch_quote # n @ [ch_quote]" "decode_str (n @ ch_quote # rest) = Some (n, rest)" "list_all is_ascii n"
proof -
  have "esc_bytes n = n" using assms by (induction n) (auto simp: plain_def esc_bytes_def esc_byte_def)
  then show "string_text n = ch_quote # n @ [ch_quote]" "decode_str (n @ ch_quote # rest) = Some (n, rest)"
    using decode_esc_bytes [of n rest] by (simp_all add: string_text_def)
  show "list_all is_ascii n" using assms by (auto simp: plain_def safeSet_def is_ascii_def RuneSelf_def list_all_iff)
qed

lemma drop_spaces: "list_all is_space ws \<Longrightarrow> \<not> is_space c \<Longrightarrow> dropWhile is_space (ws @ c # cs) = c # cs"
  by (induction ws) auto

lemma plain_hash_read:
  assumes "wf_iter it" "Error it = None" "list_all is_space ws" "list_all is_space w" "plain n" "toLower n = map lower_byte n"
    "pending it = ws @ string_text n @ w @ ch_colon # rest"
  shows "\<exists>it'. readFieldHash it = (calcHash toLower n (caseSensitive (cfg it)), it')
    \<and> consumes it (ws @ string_text n @ w @ [ch_colon]) it' \<and> pending it' = rest"
proof -
  have "dropWhile is_space (pending it) = ch_quote # n @ ch_quote # w @ ch_colon # rest"
    using drop_spaces [OF assms(3)] assms(7) plain_text(1) [OF assms(5)] by (simp add: is_space_def)
  from readFieldHash_reads [OF assms(1,2) this plain_text(2) [OF assms(5)] assms(4) plain_text(3) [OF assms(5)], of toLower] assms(6)
  obtain it' xs where "readFieldHash it = (calcHash toLower n (caseSensitive (cfg it)), it')" "consumes it xs it'" "pending it' = rest"
    by blast
  moreover from this have "xs = ws @ string_text n @ w @ [ch_colon]" using consumes_pending [of it xs it'] assms(7) by simp
  ultimately show ?thesis by blast
qed

lemma plain_name_read:
  assumes "wf_iter it" "Error it = None" "list_all is_space ws" "plain n" "pending it = ws @ string_text n @ rest"
  shows "\<exists>it1. (if simple then case ReadRawString it of (raw, it1) \<Rightarrow> (fst (RawString_Bytes (buf it1) raw), it1)
      else ReadString it) = (n, it1) \<and> consumes it (ws @ string_text n) it1 \<and> pending it1 = rest"
proof (cases simple)
  case False
  then show ?thesis using ReadString_text [OF assms(1-3,5)] by simp
next
  case True
  let ?cs = "n @ ch_quote # rest"
  have q: "dropWhile is_space (pending it) = ch_quote # ?cs"
    using drop_spaces [OF assms(3)] assms(5) plain_text(1) [OF assms(4)] by (simp add: is_space_def)
  obtain raw it1 where r: "ReadRawString it = (raw, it1)" by force
  from decode_str_raw [OF plain_text(2) [OF assms(4)], of False rest] obtain s h where
    s: "raw_str False False ?cs = Some (s, h, rest)" "?cs = s @ rest" by blast
  then have s': "s = n @ [ch_quote]" by simp
  have "raw_reads it [] (raw_str False False ?cs) raw it1" using ReadRawString_quote [OF assms(1,2) q] r by simp
  then obtain xs where x: "rs_buf raw \<noteq> None" "raw_bytes (buf it1) raw = n @ [ch_quote]" "consumes it xs it1" "pending it1 = rest"
    using s(1) s' by (auto simp: raw_reads_def)
  have "fst (RawString_Bytes (buf it1) raw) = n" using x(2) by (simp add: RawString_Bytes_def Let_def gslice_def)
  moreover have "xs = ws @ string_text n" using consumes_pending [OF x(3)] x(4) assms(5) by simp
  ultimately show ?thesis using True r x by auto
qed

section \<open>Members of an object\<close>

text \<open>A decoder step reads the text \<open>body\<close> of a member, under the configuration \<open>c\<close>, with the effect
  \<open>eff\<close> on the struct.\<close>

definition reads_member :: "frozenConfig \<Rightarrow> int \<Rightarrow> 'r decoder \<Rightarrow> bytes \<Rightarrow> ('r \<Rightarrow> 'r) \<Rightarrow> bool" where
  "reads_member c room step body eff \<longleftrightarrow>
     (\<forall>it r ws t rest. wf_iter it \<and> Error it = None \<and> cfg it = c \<and> 0 \<le> depth it \<and> depth it + room \<le> maxDepth
        \<and> list_all is_space ws \<and> pending it = ws @ body @ t # rest \<and> \<not> number_char t \<and> captured it = None
      \<longrightarrow> (\<exists>it'. step r it = Some (eff r, it') \<and> consumes it (ws @ body) it' \<and> pending it' = t # rest))"

lemma reads_memberD:
  assumes "reads_member c room step body eff" "wf_iter it" "Error it = None" "cfg it = c" "0 \<le> depth it" "depth it + room \<le> maxDepth"
    "list_all is_space ws" "pending it = ws @ body @ rest" "rest \<noteq> []" "\<not> number_char (hd rest)"
    "captured it = None"
  shows "\<exists>it'. step r it = Some (eff r, it') \<and> consumes it (ws @ body) it' \<and> pending it' = rest"
  using assms unfolding reads_member_def by (cases rest) auto

text \<open>A member with the white space around it.\<close>

record 'r part =
  before :: bytes
  body :: bytes
  behind :: bytes
  effect :: "'r \<Rightarrow> 'r"

definition part_text :: "'r part \<Rightarrow> bytes" where
  "part_text p = before p @ body p @ behind p"

definition part_ok :: "frozenConfig \<Rightarrow> int \<Rightarrow> 'r decoder \<Rightarrow> 'r part \<Rightarrow> bool" where
  "part_ok c room step p \<longleftrightarrow>
     list_all is_space (before p) \<and> list_all is_space (behind p) \<and> reads_member c room step (body p) (effect p)"

definition effects :: "'r part list \<Rightarrow> 'r \<Rightarrow> 'r" where
  "effects ps r = foldl (\<lambda>r p. effect p r) r ps"

lemma effects_simps [simp]: "effects [] r = r" "effects (p # ps) r = effects ps (effect p r)"
  by (simp_all add: effects_def)

lemma behind_part:
  assumes "list_all is_space w" "\<not> number_char cl"
  shows "w @ more_text [] es @ cl # rest \<noteq> [] \<and> \<not> number_char (hd (w @ more_text [] es @ cl # rest))"
proof -
  have sp: "is_space c \<Longrightarrow> \<not> number_char c" for c by (auto simp: is_space_def number_char_def is_digit_def)
  have "\<not> number_char ch_comma" by (simp add: number_char_def is_digit_def)
  with assms sp show ?thesis by (cases w; cases es) auto
qed

lemma brace_no_number: "\<not> number_char ch_rbrace"
  by (simp add: number_char_def is_digit_def)

text \<open>The members are read, one after the other, up to the closing brace.\<close>

lemma parts_read:
  assumes "list_all (part_ok c room step) (p # ps)" "wf_iter it" "Error it = None" "cfg it = c" "0 \<le> depth it"
    "depth it + room \<le> maxDepth" "pending it = part_text p @ more_text [] (map part_text ps) @ ch_rbrace # rest" "length ps < k"
    "captured it = None"
  shows "\<exists>it'. generalStructDecoder_loop k step r it = Some (effects (p # ps) r, ch_rbrace, it')
    \<and> consumes it (part_text p @ more_text [] (map part_text ps) @ [ch_rbrace]) it' \<and> pending it' = rest"
  using assms
proof (induction ps arbitrary: p it r k)
  case Nil
  then obtain k' where k: "k = Suc k'" by (cases k) auto
  have p: "list_all is_space (before p)" "list_all is_space (behind p)" "reads_member c room step (body p) (effect p)"
    using Nil.prems(1) by (auto simp: part_ok_def)
  obtain it1 where 1: "step r it = Some (effect p r, it1)" "consumes it (before p @ body p) it1" "pending it1 = behind p @ ch_rbrace # rest"
    using reads_memberD [OF p(3) Nil.prems(2-6) p(1), of "behind p @ ch_rbrace # rest" r]
      behind_part [OF p(2) brace_no_number, of "[]"] Nil.prems(7,9) by (auto simp: part_text_def)
  obtain it2 where 2: "nextToken it1 = (ch_rbrace, it2)" "consumes it1 (behind p @ [ch_rbrace]) it2" "pending it2 = rest"
    using nextToken_at [OF consumes_wf [OF 1(2)] p(2) 1(3)] by (auto simp: is_space_def)
  from 1(1) 2 consumes_trans [OF 1(2) 2(2)] k show ?case by (simp add: part_text_def)
next
  case (Cons q qs)
  then obtain k' where k: "k = Suc k'" "length qs < k'" by (cases k) auto
  let ?T = "part_text q @ more_text [] (map part_text qs) @ ch_rbrace # rest"
  have p: "list_all is_space (before p)" "list_all is_space (behind p)" "reads_member c room step (body p) (effect p)"
    using Cons.prems(1) by (auto simp: part_ok_def)
  obtain it1 where 1: "step r it = Some (effect p r, it1)" "consumes it (before p @ body p) it1" "pending it1 = behind p @ ch_comma # ?T"
    using reads_memberD [OF p(3) Cons.prems(2-6) p(1), of "behind p @ ch_comma # ?T" r]
      behind_part [OF p(2) brace_no_number, of "map part_text (q # qs)" rest] Cons.prems(7,9) by (auto simp: part_text_def [of p])
  obtain it2 where 2: "nextToken it1 = (ch_comma, it2)" "consumes it1 (behind p @ [ch_comma]) it2" "pending it2 = ?T"
    using nextToken_at [OF consumes_wf [OF 1(2)] p(2) 1(3)] by (auto simp: is_space_def)
  note s = consumes_same [OF 1(2)] consumes_same [OF 2(2)] consumes_cfg [OF 1(2)] consumes_cfg [OF 2(2)]
  obtain it' where 3: "generalStructDecoder_loop k' step (effect p r) it2 = Some (effects (q # qs) (effect p r), ch_rbrace, it')"
      "consumes it2 (part_text q @ more_text [] (map part_text qs) @ [ch_rbrace]) it'" "pending it' = rest"
    using Cons.IH [of q it2 k' "effect p r"] 2(3) s k(2) Cons.prems by auto
  from 1(1) 2(1) 3 k(1) consumes_trans [OF 1(2) consumes_trans [OF 2(2) 3(2)]] show ?case
    by (auto simp: part_text_def [of p])
qed

text \<open>The loop of the decoders by hash ends alike.\<close>

definition hash_member :: "(u64 \<Rightarrow> 'r decoder) \<Rightarrow> 'r decoder" where
  "hash_member switch r it = (case readFieldHash it of (h, it1) \<Rightarrow> switch h r it1)"

lemma struct_loop_ends:
  "generalStructDecoder_loop k (hash_member switch) r it = Some (r', ch_rbrace, it') \<Longrightarrow> struct_loop k switch r it = Some (r', it')"
  by (induction k "hash_member switch" r it rule: generalStructDecoder_loop.induct)
     (auto simp: hash_member_def isObjectEnd_def split: prod.splits option.splits if_splits)

section \<open>Objects\<close>

text \<open>What the decoders by hash and by name have in common.\<close>

definition object_frame :: "('r \<Rightarrow> iterator \<Rightarrow> ('r \<times> iterator) option) \<Rightarrow> 'r decoder" where
  "object_frame loop r it =
     (case readObjectStart it of (ok, it1) \<Rightarrow>
      if \<not> ok then Some (r, it1)
      else
        (case incrementDepth it1 of (ok, it2) \<Rightarrow>
         if \<not> ok then Some (r, it2)
         else map_option (\<lambda>(r', it3). (r', snd (decrementDepth it3))) (loop r it2)))"

lemma decode_fields_frame:
  "decode_fields k typ switch = object_frame (\<lambda>r it. map_option (\<lambda>(r', it1). (r', wrap_struct_error typ it1)) (struct_loop k switch r it))"
  by (auto simp: fun_eq_iff decode_fields_def object_frame_def option.map_comp comp_def split_def split: prod.splits)

lemma generalStructDecoder_frame:
  "generalStructDecoder_Decode k toLower typ fds disallow =
     object_frame (\<lambda>r it. map_option (\<lambda>(r', c, it1).
         (r', if c \<noteq> ch_rbrace
              then ReportError ''struct Decode'' (''expect }, but found '' @ byte_str c) (wrap_struct_error typ it1)
              else wrap_struct_error typ it1))
       (generalStructDecoder_loop k (generalStructDecoder_decodeOneField k toLower fds disallow) r it))"
  by (auto simp: fun_eq_iff generalStructDecoder_Decode_def object_frame_def Let_def split: prod.splits option.splits)

lemma wrap_struct_no_error [simp]: "Error it = None \<Longrightarrow> wrap_struct_error typ it = it"
  by (simp add: wrap_struct_error_def)

lemma object_frame_reads:
  assumes "wf_iter it" "Error it = None" "0 \<le> depth it" "depth it + 1 \<le> maxDepth" "list_all is_space ws" "list_all is_space w"
    "pending it = ws @ ch_lbrace # w @ ch_quote # tx @ rest"
    and loop: "\<And>it1. \<lbrakk>wf_iter it1; Error it1 = None; cfg it1 = cfg it; depth it1 = depth it + 1; pending it1 = ch_quote # tx @ rest;
          captured it1 = None \<longleftrightarrow> captured it = None\<rbrakk>
      \<Longrightarrow> \<exists>it'. loop r it1 = Some (r', it') \<and> consumes it1 (ch_quote # tx) it' \<and> pending it' = rest"
  shows "\<exists>it'. object_frame loop r it = Some (r', it') \<and> consumes it (ws @ ch_lbrace # w @ ch_quote # tx) it' \<and> pending it' = rest"
proof -
  obtain it1 where 1: "nextToken it = (ch_lbrace, it1)" "consumes it (ws @ [ch_lbrace]) it1" "pending it1 = w @ ch_quote # tx @ rest"
    using nextToken_at [OF assms(1,5), of ch_lbrace "w @ ch_quote # tx @ rest"] assms(7) by (auto simp: is_space_def)
  note s1 = consumes_same [OF 1(2)]
  have "Error it1 = None" using s1 assms(2) by simp
  then obtain it2 where 2: "nextToken it1 = (ch_quote, it2)" "consumes it1 w (unreadByte it2)" "pending (unreadByte it2) = ch_quote # tx @ rest"
    using token_unread [OF consumes_wf [OF 1(2)] _ assms(6) 1(3)] by (auto simp: is_space_def)
  let ?u = "unreadByte it2"
  note s2 = consumes_same [OF 2(2)]
  have d: "depth ?u = depth it" using s1 s2 by simp
  have inc: "incrementDepth ?u = (True, ?u\<lparr>depth := depth it + 1\<rparr>)" using incrementDepth_ok [of ?u] d assms(4) by simp
  have c: "consumes it (ws @ ch_lbrace # w) ?u" using consumes_trans [OF 1(2) 2(2)] by simp
  obtain it3 where 3: "loop r (?u\<lparr>depth := depth it + 1\<rparr>) = Some (r', it3)"
      "consumes (?u\<lparr>depth := depth it + 1\<rparr>) (ch_quote # tx) it3" "pending it3 = rest"
    using loop [of "?u\<lparr>depth := depth it + 1\<rparr>"] s1 s2 assms(2) 2(3) consumes_cfg [OF c] by auto
  note s3 = consumes_same [OF 3(2)]
  have dec: "decrementDepth it3 = (True, it3\<lparr>depth := depth it\<rparr>)" using decrementDepth_ok [of it3] s3 assms(3) by simp
  have "?u\<lparr>depth := depth it\<rparr> = ?u" using d by simp
  then have "consumes ?u (ch_quote # tx) (it3\<lparr>depth := depth it\<rparr>)" using consumes_depth_update [OF 3(2), of "depth it"] by simp
  with 1(1) 2(1) inc 3 dec consumes_trans [OF c] show ?thesis
    by (auto simp: object_frame_def readObjectStart_def)
qed

lemma object_frame_empty:
  assumes "wf_iter it" "Error it = None" "list_all is_space ws" "list_all is_space w" "pending it = ws @ ch_lbrace # w @ ch_rbrace # rest"
  shows "\<exists>it'. object_frame loop r it = Some (r, it') \<and> consumes it (ws @ ch_lbrace # w @ [ch_rbrace]) it' \<and> pending it' = rest"
proof -
  obtain it1 where 1: "nextToken it = (ch_lbrace, it1)" "consumes it (ws @ [ch_lbrace]) it1" "pending it1 = w @ ch_rbrace # rest"
    using nextToken_at [OF assms(1,3), of ch_lbrace "w @ ch_rbrace # rest"] assms(5) by (auto simp: is_space_def)
  obtain it2 where 2: "nextToken it1 = (ch_rbrace, it2)" "consumes it1 (w @ [ch_rbrace]) it2" "pending it2 = rest"
    using nextToken_at [OF consumes_wf [OF 1(2)] assms(4) 1(3)] by (auto simp: is_space_def)
  from 1(1) 2 consumes_trans [OF 1(2) 2(2)] show ?thesis by (auto simp: object_frame_def readObjectStart_def)
qed

section \<open>One member\<close>

text \<open>A name, a colon between white space, a value.\<close>

definition member_text :: "bytes \<Rightarrow> bytes \<Rightarrow> bytes \<Rightarrow> bytes \<Rightarrow> bytes" where
  "member_text n w w' v = string_text n @ w @ ch_colon # w' @ v"

lemma hash_member_reads:
  assumes "plain n" "toLower n = map lower_byte n" "list_all is_space w" "list_all is_space w'"
    "reads_member c room (switch (calcHash toLower n (caseSensitive c))) v eff"
  shows "reads_member c room (hash_member switch) (member_text n w w' v) eff"
  unfolding reads_member_def
proof (intro allI impI, elim conjE)
  fix it :: iterator and r ws t rest
  assume a: "wf_iter it" "Error it = None" "cfg it = c" "0 \<le> depth it" "depth it + room \<le> maxDepth" "list_all is_space ws"
    "pending it = ws @ member_text n w w' v @ t # rest" "\<not> number_char t" "captured it = None"
  obtain it1 where 1: "readFieldHash it = (calcHash toLower n (caseSensitive c), it1)"
      "consumes it (ws @ string_text n @ w @ [ch_colon]) it1" "pending it1 = w' @ v @ t # rest"
    using plain_hash_read [OF a(1,2,6) assms(3,1), where toLower = toLower and rest = "w' @ v @ t # rest"] assms(2) a(3,7) by (auto simp: member_text_def)
  note s1 = consumes_same [OF 1(2)] consumes_cfg [OF 1(2)]
  obtain it2 where 2: "switch (calcHash toLower n (caseSensitive c)) r it1 = Some (eff r, it2)" "consumes it1 (w' @ v) it2"
      "pending it2 = t # rest"
    using reads_memberD [OF assms(5), of it1 w' "t # rest" r] s1 a assms(4) 1(3) by auto
  from 1(1) 2 consumes_trans [OF 1(2) 2(2)] show "\<exists>it'. hash_member switch r it = Some (eff r, it')
      \<and> consumes it (ws @ member_text n w w' v) it' \<and> pending it' = t # rest"
    by (simp add: hash_member_def member_text_def)
qed

lemma field_colon_reads:
  assumes "wf_iter it" "list_all is_space w" "pending it = w @ ch_colon # rest"
  shows "consumes it (w @ [ch_colon]) (field_colon it) \<and> pending (field_colon it) = rest"
  using nextToken_at [OF assms(1,2), of ch_colon rest] assms(3) by (auto simp: field_colon_def is_space_def)

lemma name_member_reads:
  assumes "plain n" "list_all is_space w" "list_all is_space w'"
    and val: "\<exists>dec. reads_member c room dec v eff
      \<and> (find_field toLower (caseSensitive c) fds n = Some dec
         \<or> find_field toLower (caseSensitive c) fds n = None \<and> \<not> disallow \<and> dec = skip_field k)"
  shows "reads_member c room (generalStructDecoder_decodeOneField k toLower fds disallow) (member_text n w w' v) eff"
  unfolding reads_member_def
proof (intro allI impI, elim conjE)
  fix it :: iterator and r ws t rest
  assume a: "wf_iter it" "Error it = None" "cfg it = c" "0 \<le> depth it" "depth it + room \<le> maxDepth" "list_all is_space ws"
    "pending it = ws @ member_text n w w' v @ t # rest" "\<not> number_char t" "captured it = None"
  let ?name = "\<lambda>it. if objectFieldMustBeSimpleString (cfg it) then case ReadRawString it of (raw, it1) \<Rightarrow> (fst (RawString_Bytes (buf it1) raw), it1)
      else ReadString it"
  obtain it1 where 1: "?name it = (n, it1)" "consumes it (ws @ string_text n) it1" "pending it1 = w @ ch_colon # w' @ v @ t # rest"
    using plain_name_read [OF a(1,2,6) assms(1), of "w @ ch_colon # w' @ v @ t # rest"] a(7)
    by (auto simp: member_text_def)
  note s1 = consumes_same [OF 1(2)] consumes_cfg [OF 1(2)]
  have 2: "consumes it1 (w @ [ch_colon]) (field_colon it1)" "pending (field_colon it1) = w' @ v @ t # rest"
    using field_colon_reads [OF _ assms(2) 1(3)] s1 by auto
  note s2 = consumes_same [OF 2(1)] consumes_cfg [OF 2(1)]
  from val obtain dec where d: "reads_member c room dec v eff"
    "find_field toLower (caseSensitive c) fds n = Some dec
     \<or> find_field toLower (caseSensitive c) fds n = None \<and> \<not> disallow \<and> dec = skip_field k" by blast
  obtain it2 where 3: "dec r (field_colon it1) = Some (eff r, it2)" "consumes (field_colon it1) (w' @ v) it2" "pending it2 = t # rest"
    using reads_memberD [OF d(1), of "field_colon it1" w' "t # rest" r] s1 s2 a assms(3) 2(2) by auto
  have "generalStructDecoder_decodeOneField k toLower fds disallow r it = dec r (field_colon it1)"
    using 1(1) d(2) s1 a(3) unfolding generalStructDecoder_decodeOneField_def by auto
  with 3 consumes_trans [OF 1(2) consumes_trans [OF 2(1) 3(2)]]
  show "\<exists>it'. generalStructDecoder_decodeOneField k toLower fds disallow r it = Some (eff r, it')
      \<and> consumes it (ws @ member_text n w w' v) it' \<and> pending it' = t # rest"
    by (simp add: member_text_def)
qed

section \<open>A whole object\<close>

text \<open>What a member is to a struct with the fields \<open>fds\<close>: the value of one of them, or a value to skip,
  whose name is that of no field, in no case, and has the hash of none.\<close>

definition known_field :: "frozenConfig \<Rightarrow> int \<Rightarrow> (bytes \<times> 'r decoder) list \<Rightarrow> bytes \<Rightarrow> bytes \<Rightarrow> ('r \<Rightarrow> 'r) \<Rightarrow> bool" where
  "known_field c room fds n v eff \<longleftrightarrow> (\<exists>dec. map_of fds n = Some dec \<and> reads_member c room dec v eff)"

definition unknown_field :: "(bytes \<Rightarrow> bytes) \<Rightarrow> nat \<Rightarrow> frozenConfig \<Rightarrow> int \<Rightarrow> (bytes \<times> 'r decoder) list \<Rightarrow> bytes \<Rightarrow> bytes \<Rightarrow> ('r \<Rightarrow> 'r) \<Rightarrow> bool" where
  "unknown_field toLower k c room fds n v eff \<longleftrightarrow>
     \<not> disallowUnknownFields c \<and> find_field toLower (caseSensitive c) fds n = None
     \<and> calcHash toLower n (caseSensitive c) \<notin> set (map (\<lambda>(n, d). calcHash toLower n (caseSensitive c)) fds)
     \<and> reads_member c room (skip_field k) v eff"

definition struct_part :: "(bytes \<Rightarrow> bytes) \<Rightarrow> nat \<Rightarrow> frozenConfig \<Rightarrow> int \<Rightarrow> (bytes \<times> 'r decoder) list \<Rightarrow> 'r part \<Rightarrow> bool" where
  "struct_part toLower k c room fds p \<longleftrightarrow>
     list_all is_space (before p) \<and> list_all is_space (behind p)
     \<and> (\<exists>n w w' v. body p = member_text n w w' v \<and> plain n \<and> toLower n = map lower_byte n
          \<and> list_all is_space w \<and> list_all is_space w'
          \<and> (known_field c room fds n v (effect p) \<or> unknown_field toLower k c room fds n v (effect p)))"

lemma struct_part_by_name:
  assumes "struct_part toLower k c room fds p"
  shows "part_ok c room (generalStructDecoder_decodeOneField k toLower fds (disallowUnknownFields c)) p"
proof -
  from assms obtain n w w' v where b: "body p = member_text n w w' v" "plain n" "list_all is_space w" "list_all is_space w'"
      "known_field c room fds n v (effect p) \<or> unknown_field toLower k c room fds n v (effect p)"
    by (auto simp: struct_part_def)
  have "\<exists>dec. reads_member c room dec v (effect p)
      \<and> (find_field toLower (caseSensitive c) fds n = Some dec
         \<or> find_field toLower (caseSensitive c) fds n = None \<and> \<not> disallowUnknownFields c \<and> dec = skip_field k)"
    using b(5)
  proof
    assume "known_field c room fds n v (effect p)"
    then show ?thesis by (auto simp: known_field_def find_field_def)
  next
    assume "unknown_field toLower k c room fds n v (effect p)"
    then show ?thesis by (simp add: unknown_field_def)
  qed
  from name_member_reads [OF b(2-4) this] b(1) assms show ?thesis by (simp add: part_ok_def struct_part_def)
qed

lemma struct_part_by_hash:
  fixes fds :: "(bytes \<times> 'r decoder) list"
  assumes "struct_part toLower k c room fds p" "distinct (map (\<lambda>(n, d). calcHash toLower n (caseSensitive c)) fds)"
  shows "part_ok c room (hash_member (by_hash k (map (\<lambda>(n, d). (calcHash toLower n (caseSensitive c), d)) fds))) p"
proof -
  let ?h = "\<lambda>n. calcHash toLower n (caseSensitive c)" and ?hs = "map (\<lambda>(n, d). (calcHash toLower n (caseSensitive c), d)) fds"
  have m: "map fst (map (\<lambda>(n, d). (?h n, d)) xs) = map (\<lambda>(n, d). ?h n) xs" for xs :: "(bytes \<times> 'r decoder) list" by auto
  from assms(1) obtain n w w' v where b: "body p = member_text n w w' v" "plain n" "toLower n = map lower_byte n"
      "list_all is_space w" "list_all is_space w'"
      "known_field c room fds n v (effect p) \<or> unknown_field toLower k c room fds n v (effect p)"
    by (auto simp: struct_part_def)
  have "reads_member c room (by_hash k ?hs (?h n)) v (effect p)"
    using b(6)
  proof
    assume "known_field c room fds n v (effect p)"
    then obtain dec where d: "map_of fds n = Some dec" "reads_member c room dec v (effect p)" by (auto simp: known_field_def)
    have "(?h n, dec) \<in> set ?hs" using map_of_SomeD [OF d(1)] by force
    moreover have "distinct (map fst ?hs)" using assms(2) by (simp only: m)
    ultimately have "map_of ?hs (?h n) = Some dec" by (rule map_of_is_SomeI [rotated])
    with d(2) show ?thesis by (simp add: by_hash_def)
  next
    assume u: "unknown_field toLower k c room fds n v (effect p)"
    then have "?h n \<notin> fst ` set ?hs" by (auto simp: unknown_field_def)
    then have "map_of ?hs (?h n) = None" by (simp only: map_of_eq_None_iff not_False_eq_True)
    with u show ?thesis by (simp add: by_hash_def unknown_field_def)
  qed
  from hash_member_reads [where toLower = toLower and switch = "by_hash k ?hs", OF b(2,3,4,5) this] b(1) assms(1) show ?thesis by (simp add: part_ok_def struct_part_def)
qed

text \<open>The text of an object: white space only, or members between the braces.\<close>

definition object_text :: "bytes \<Rightarrow> 'r part list \<Rightarrow> bytes" where
  "object_text w ps =
     (case ps of [] \<Rightarrow> ch_lbrace # w @ [ch_rbrace]
      | p # qs \<Rightarrow> ch_lbrace # part_text p @ more_text [] (map part_text qs) @ [ch_rbrace])"

lemma object_reads:
  assumes "wf_iter it" "Error it = None" "0 \<le> depth it" "depth it + 1 + room \<le> maxDepth" "0 \<le> room"
    "list_all is_space ws" "list_all is_space w" "pending it = ws @ object_text w ps @ rest" "captured it = None"
    and quote: "\<forall>p \<in> set ps. \<exists>b. body p = ch_quote # b"
    and ok: "list_all (part_ok (cfg it) room step) ps"
    and loop: "\<And>it1 it'. generalStructDecoder_loop k step r it1 = Some (effects ps r, ch_rbrace, it') \<Longrightarrow> Error it' = None
      \<Longrightarrow> loop r it1 = Some (effects ps r, it')" and k: "length ps < k"
  shows "\<exists>it'. object_frame loop r it = Some (effects ps r, it') \<and> consumes it (ws @ object_text w ps) it' \<and> pending it' = rest"
proof (cases ps)
  case Nil
  then show ?thesis using object_frame_empty [OF assms(1,2,6,7), of rest loop r] assms(8) by (simp add: object_text_def)
next
  case (Cons p qs)
  let ?p = "p\<lparr>before := []\<rparr>"
  obtain b where b: "body p = ch_quote # b" using quote Cons by auto
  let ?tx = "b @ behind p @ more_text [] (map part_text qs) @ [ch_rbrace]"
  have tx: "object_text w ps = ch_lbrace # before p @ ch_quote # ?tx" by (simp add: Cons object_text_def part_text_def b)
  have p: "list_all (part_ok (cfg it) room step) (?p # qs)" using ok Cons by (auto simp: part_ok_def)
  have e: "effects (?p # qs) r = effects ps r" by (simp add: Cons)
  have sp: "list_all is_space (before p)" using ok Cons by (auto simp: part_ok_def)
  have "\<exists>it'. object_frame loop r it = Some (effects ps r, it') \<and> consumes it (ws @ ch_lbrace # before p @ ch_quote # ?tx) it' \<and> pending it' = rest"
  proof (rule object_frame_reads [OF assms(1,2,3) _ assms(6) sp])
    show "depth it + 1 \<le> maxDepth" using assms(4,5) by simp
    show "pending it = ws @ ch_lbrace # before p @ ch_quote # ?tx @ rest" using assms(8) tx by simp
    fix it1
    assume a: "wf_iter it1" "Error it1 = None" "cfg it1 = cfg it" "depth it1 = depth it + 1" "pending it1 = ch_quote # ?tx @ rest" "captured it1 = None \<longleftrightarrow> captured it = None"
    have "pending it1 = part_text ?p @ more_text [] (map part_text qs) @ ch_rbrace # rest" using a(5) b by (simp add: part_text_def [of ?p])
    then obtain it' where "generalStructDecoder_loop k step r it1 = Some (effects ps r, ch_rbrace, it')"
        "consumes it1 (part_text ?p @ more_text [] (map part_text qs) @ [ch_rbrace]) it'" "pending it' = rest"
      using parts_read [OF p a(1-3), of rest k r] a(4,6) assms(3,4,9) k Cons e by auto
    moreover from this have "Error it' = None" using consumes_Error a(2) by simp
    ultimately show "\<exists>it'. loop r it1 = Some (effects ps r, it') \<and> consumes it1 (ch_quote # ?tx) it' \<and> pending it' = rest"
      using loop b by (auto simp: part_text_def [of ?p])
  qed
  then show ?thesis unfolding tx .
qed

lemma createStructDecoder_reads:
  assumes it: "wf_iter it" "Error it = None" "0 \<le> depth it" "depth it + 1 + room \<le> maxDepth" "0 \<le> room"
    "list_all is_space ws" "list_all is_space w" "pending it = ws @ object_text w ps @ rest" "captured it = None"
    and ps: "list_all (struct_part toLower k (cfg it) room fds) ps" "length ps < k" "fds \<noteq> []"
  shows "\<exists>it'. structDecoder_Decode k toLower (createStructDecoder toLower (cfg it) typ fds) r it = Some (effects ps r, it')
    \<and> consumes it (ws @ object_text w ps) it' \<and> pending it' = rest"
proof -
  let ?c = "cfg it" and ?h = "\<lambda>n. calcHash toLower n (caseSensitive (cfg it))"
  have q: "\<forall>p \<in> set ps. \<exists>b. body p = ch_quote # b"
    using ps(1) by (force simp: struct_part_def member_text_def string_text_def list_all_iff)
  have gen: ?thesis if "createStructDecoder toLower ?c typ fds = generalStructDecoder typ fds (disallowUnknownFields ?c)"
    unfolding that structDecoder_Decode.simps generalStructDecoder_frame
  proof (rule object_reads [where step = "generalStructDecoder_decodeOneField k toLower fds (disallowUnknownFields ?c)", OF it q _ _ ps(2)])
    show "list_all (part_ok ?c room (generalStructDecoder_decodeOneField k toLower fds (disallowUnknownFields ?c))) ps"
      using ps(1) by (rule list.pred_mono_strong) (rule struct_part_by_name)
  qed simp
  show ?thesis
  proof (cases "disallowUnknownFields ?c \<or> length fds > 10")
    case True
    then show ?thesis using ps(3) by (intro gen) (auto simp: createStructDecoder_slots)
  next
    case False
    show ?thesis
    proof (cases "distinct (0 # map (\<lambda>(n, d). ?h n) fds)")
      case True
      have d: "distinct (map (\<lambda>(n, d). ?h n) fds)" using True by simp
      have len: "length fds \<le> 10" "\<not> disallowUnknownFields ?c" using False by auto
      show ?thesis
        unfolding create_by_hash [OF len(2) ps(3) len(1) True] decode_fields_frame
      proof (rule object_reads [where step = "hash_member (by_hash k (map (\<lambda>(n, d). (?h n, d)) fds))", OF it q _ _ ps(2)])
        show "list_all (part_ok ?c room (hash_member (by_hash k (map (\<lambda>(n, d). (?h n, d)) fds)))) ps"
          using ps(1) by (rule list.pred_mono_strong) (rule struct_part_by_hash [OF _ d])
      qed (simp add: struct_loop_ends)
    next
      case clash: False
      have m: "map (?h \<circ> fst) fds = map (\<lambda>(n, d). ?h n) fds" by auto
      have "fill_slots ?h [0] (replicate (length fds) no_slot) fds = None"
        using clash by (intro fill_slots_clash) (simp only: m, auto)
      then show ?thesis using False by (intro gen) (auto simp: createStructDecoder_slots ps(3))
    qed
  qed
qed

section \<open>Structs whose names differ\<close>

lemma update_new: "k \<notin> fst ` set al \<Longrightarrow> AList.update k v al = al @ [(k, v)]"
  by (induction al) auto

lemma from_names_distinct:
  assumes "distinct (map f bs)" "\<And>b. b \<in> set bs \<Longrightarrow> FromNames b = [f b]"
  shows "from_names bs = map (\<lambda>b. (f b, b)) bs"
proof -
  have "foldl add_from_name acc (concat (map (\<lambda>b. map (Pair b) (FromNames b)) bs)) = acc @ map (\<lambda>b. (f b, b)) bs"
    if "distinct (map f bs)" "\<And>b. b \<in> set bs \<Longrightarrow> FromNames b = [f b]" "fst ` set acc \<inter> f ` set bs = {}" for acc
    using that
  proof (induction bs arbitrary: acc)
    case (Cons b bs)
    have n: "f b \<notin> fst ` set acc" using Cons.prems(3) by auto
    then have "map_of acc (f b) = None" by (simp add: map_of_eq_None_iff)
    then have "add_from_name acc (b, f b) = acc @ [(f b, b)]" using update_new [OF n] by (simp add: add_from_name_def)
    moreover have "fst ` set (acc @ [(f b, b)]) \<inter> f ` set bs = {}" using Cons.prems(1,3) by auto
    ultimately show ?case using Cons.IH [of "acc @ [(f b, b)]"] Cons.prems by simp
  qed simp
  from this [of "[]"] assms show ?thesis by (simp add: from_names_def)
qed

lemma final_fields_distinct:
  assumes "distinct (map f bs)" "\<And>b. b \<in> set bs \<Longrightarrow> ToNames b = [f b]"
  shows "orderedBindings bs = map (\<lambda>b. \<lparr>binding = b, toName = f b, ignored = False\<rparr>) bs"
proof -
  let ?m = "map (\<lambda>b. \<lparr>binding = b, toName = f b, ignored = False\<rparr>)"
  have keep: "map (\<lambda>old. if toName old = n then g old else old) xs = xs
      \<and> foldl (\<lambda>ign old. if toName old = n then h old else ign) i xs = i"
    if "n \<notin> toName ` set xs" for n g h i and xs :: "('a, 'b) bindingTo list"
    using that by (induction xs) auto
  have "foldl add_binding (?m ds) (concat (map (\<lambda>b. map (Pair b) (ToNames b)) es)) = ?m (ds @ es)"
    if "distinct (map f (ds @ es))" "\<And>b. b \<in> set es \<Longrightarrow> ToNames b = [f b]" for ds es
    using that
  proof (induction es arbitrary: ds)
    case (Cons e es)
    have n: "f e \<notin> toName ` set (?m ds)" "\<forall>b \<in> set ds. f b \<noteq> f e"
      using Cons.prems(1) by (auto, metis imageI)
    then have "add_binding (?m ds) (e, f e) = ?m (ds @ [e])" by (auto simp: add_binding_def keep)
    with Cons.IH [of "ds @ [e]"] Cons.prems show ?case by simp
  qed simp
  from this [of "[]" bs] assms show ?thesis by (simp add: orderedBindings_def)
qed

lemma lower_aliases_keep:
  assumes "map_of fds n = Some d"
  shows "map_of (lower_aliases toLower fds) n = Some d"
proof -
  have "map_of (foldl (\<lambda>m (k, d). if map_of m (toLower k) = None then AList.update (toLower k) d m else m) m xs) n = Some d"
    if "map_of m n = Some d" for m xs
    using that
  proof (induction xs arbitrary: m)
    case (Cons kd xs)
    obtain k d' where kd: "kd = (k, d')" by force
    have "map_of (if map_of m (toLower k) = None then AList.update (toLower k) d' m else m) n = Some d"
      using Cons.prems by (auto simp: update_conv')
    from Cons.IH [OF this] show ?case by (simp add: kd)
  qed simp
  from this [OF assms] show ?thesis by (simp add: lower_aliases_def)
qed

section \<open>The text of members between uniform white space\<close>

fun parts_of :: "bytes \<Rightarrow> bytes \<Rightarrow> ('f \<Rightarrow> bytes) \<Rightarrow> ('f \<Rightarrow> 'r \<Rightarrow> 'r) \<Rightarrow> 'f list \<Rightarrow> 'r part list" where
  "parts_of w w' b e [] = []"
| "parts_of w w' b e [f] = [\<lparr>before = w, body = b f, behind = w', effect = e f\<rparr>]"
| "parts_of w w' b e (f # g # fs) = \<lparr>before = w, body = b f, behind = [], effect = e f\<rparr> # parts_of w w' b e (g # fs)"

lemma length_parts_of [simp]: "length (parts_of w w' b e fs) = length fs"
  by (induction w w' b e fs rule: parts_of.induct) auto

lemma effects_parts_of: "effects (parts_of w w' b e fs) r = foldl (\<lambda>r f. e f r) r fs"
  by (induction w w' b e fs arbitrary: r rule: parts_of.induct) auto

lemma parts_of_all:
  assumes "\<And>f q. f \<in> set fs \<Longrightarrow> q \<in> {[], w'} \<Longrightarrow> P \<lparr>before = w, body = b f, behind = q, effect = e f\<rparr>"
  shows "list_all P (parts_of w w' b e fs)"
  using assms by (induction w w' b e fs rule: parts_of.induct) auto

lemma parts_of_text:
  assumes "fs \<noteq> []"
  shows "object_text x (parts_of w w' b e fs) = seq_text ch_lbrace ch_rbrace w w' (map b fs)"
proof -
  have "\<exists>p qs. parts_of w w' b e fs = p # qs \<and> part_text p @ more_text [] (map part_text qs) = w @ b (hd fs) @ more_text w (map b (tl fs)) @ w'"
    using assms
  proof (induction w w' b e fs rule: parts_of.induct)
    case (3 w w' b e f g fs)
    then obtain p qs where "parts_of w w' b e (g # fs) = p # qs"
      "part_text p @ more_text [] (map part_text qs) = w @ b g @ more_text w (map b fs) @ w'" by auto
    then show ?case by (simp add: part_text_def [of "\<lparr>before = w, body = b f, behind = [], effect = e f\<rparr>"])
  qed (auto simp: part_text_def)
  then show ?thesis using assms by (cases fs) (auto simp: object_text_def seq_text_def)
qed

section \<open>Structs keep the contract\<close>

text \<open>A field for the contract: \<open>fput r o\<close> is the struct \<open>o\<close> with the field taken from \<open>r\<close>.\<close>

record 'r sfield =
  fname :: bytes
  fenc :: "'r structFieldEncoder"
  fdec :: "nat \<Rightarrow> 'r decoder"
  ftext :: "frozenConfig \<Rightarrow> int \<Rightarrow> 'r \<Rightarrow> bytes"
  fput :: "'r \<Rightarrow> 'r \<Rightarrow> 'r"

definition field_binding :: "nat \<Rightarrow> 'r sfield \<Rightarrow> ('r, 'r decoder) Binding" where
  "field_binding n f = \<lparr>tagged = False, levels = [], FromNames = [fname f], ToNames = [fname f],
     Encoder = fenc f, Decoder = fdec f n\<rparr>"

definition written :: "'r \<Rightarrow> 'r sfield \<Rightarrow> bool" where
  "written r f \<longleftrightarrow> \<not> (omitempty (fenc f) \<and> field_IsEmpty (fenc f) r) \<and> \<not> field_IsEmbeddedPtrNil (fenc f) r"

definition space_text :: "int \<Rightarrow> bytes" where
  "space_text i = (if i > 0 then [ch_space] else [])"

definition field_text_at :: "frozenConfig \<Rightarrow> int \<Rightarrow> 'r \<Rightarrow> 'r sfield \<Rightarrow> bytes" where
  "field_text_at c i r f = member_text (fname f) [] (space_text i) (ftext f c i r)"

definition struct_text :: "'r sfield list \<Rightarrow> frozenConfig \<Rightarrow> int \<Rightarrow> 'r \<Rightarrow> bytes" where
  "struct_text flds c i r =
     (case filter (written r) flds of
        [] \<Rightarrow> ch_lbrace # blanks (inner c i) 0 @ blanks (inner c i) (indentionStep c) @ [ch_rbrace]
      | fs \<Rightarrow> seq_text ch_lbrace ch_rbrace (blanks (inner c i) 0) (blanks (inner c i) (indentionStep c))
                (map (field_text_at c (inner c i) r) fs))"

definition struct_enc :: "rtype \<Rightarrow> 'r sfield list \<Rightarrow> 'r encoder" where
  "struct_enc typ flds = encoderOfStruct typ (map (field_binding 0) flds)"

text \<open>A decoder belongs to the configuration of the iterator.\<close>

definition struct_dec :: "(bytes \<Rightarrow> bytes) \<Rightarrow> rtype \<Rightarrow> 'r sfield list \<Rightarrow> nat \<Rightarrow> 'r decoder" where
  "struct_dec toLower typ flds n r it =
     structDecoder_Decode n toLower (decoderOfStruct toLower (cfg it) typ (map (field_binding n) flds)) r it"

locale struct_codec =
  fixes toLower :: "bytes \<Rightarrow> bytes" and rt :: rtype and flds :: "'r sfield list" and ok :: "'r \<Rightarrow> bool" and room :: int
    and cfgs :: "frozenConfig \<Rightarrow> bool"
  assumes some_field: "flds \<noteq> []" and names_differ: "distinct (map fname flds)" and room_pos: "0 \<le> room"
    and plain_names: "f \<in> set flds \<Longrightarrow> plain (fname f) \<and> toLower (fname f) = map lower_byte (fname f)"
    and field_writes: "\<lbrakk>f \<in> set flds; ok r; written r f; s_Error s = None\<rbrakk>
      \<Longrightarrow> field_Encode (fenc f) r s = adds (ftext f (s_cfg s) (indention s) r) s"
    and field_reads: "\<lbrakk>f \<in> set flds; ok r; written r f; length (ftext f c' i r) < n; cfgs c\<rbrakk>
      \<Longrightarrow> reads_member c room (fdec f n) (ftext f c' i r) (fput f r)"
begin

lemma field_written:
  assumes "f \<in> set flds" "ok r" "written r f" "s_Error s = None"
  shows "field_Encode (fenc f) r (WriteObjectField (fname f) s) = adds (field_text_at (s_cfg s) (indention s) r f) s"
  using field_writes [OF assms(1-3), of "WriteObjectField (fname f) s"] assms(4)
  by (simp add: stream_adds field_text_at_def member_text_def string_text_def space_text_def)

lemma fields_written:
  assumes "set fs \<subseteq> set flds" "ok r" "s_Error s = None"
  shows "foldl (write_field r) (True, s) (map (\<lambda>f. (fenc f, fname f)) fs)
    = (True, adds (more_text (blanks (indention s) 0) (map (field_text_at (s_cfg s) (indention s) r) (filter (written r) fs))) s)"
  using assms
proof (induction fs arbitrary: s)
  case (Cons f fs)
  show ?case
  proof (cases "written r f")
    case True
    then have "write_field r (True, s) (fenc f, fname f) = (True, field_Encode (fenc f) r (WriteObjectField (fname f) (WriteMore s)))"
      by (auto simp: write_field_def written_def)
    also have "\<dots> = (True, adds (ch_comma # blanks (indention s) 0 @ field_text_at (s_cfg s) (indention s) r f) s)"
      using field_written [OF _ Cons.prems(2) True, of "WriteMore s"] Cons.prems by (simp add: stream_adds)
    finally show ?thesis using Cons True by simp
  next
    case False
    then have "write_field r (True, s) (fenc f, fname f) = (True, s)" by (auto simp: write_field_def written_def)
    with Cons False show ?thesis by simp
  qed
qed simp

lemma first_fields_written:
  assumes "set fs \<subseteq> set flds" "ok r" "s_Error s = None"
  shows "snd (foldl (write_field r) (False, s) (map (\<lambda>f. (fenc f, fname f)) fs))
    = (case filter (written r) fs of [] \<Rightarrow> s
       | g # gs \<Rightarrow> adds (field_text_at (s_cfg s) (indention s) r g
           @ more_text (blanks (indention s) 0) (map (field_text_at (s_cfg s) (indention s) r) gs)) s)"
  using assms
proof (induction fs)
  case (Cons f fs)
  show ?case
  proof (cases "written r f")
    case True
    then have "write_field r (False, s) (fenc f, fname f) = (True, adds (field_text_at (s_cfg s) (indention s) r f) s)"
      using field_written [OF _ Cons.prems(2) True Cons.prems(3)] Cons.prems(1) by (auto simp: write_field_def written_def)
    then show ?thesis using fields_written [of fs r "adds (field_text_at (s_cfg s) (indention s) r f) s"] Cons.prems True by simp
  next
    case False
    then have "write_field r (False, s) (fenc f, fname f) = (False, s)" by (auto simp: write_field_def written_def)
    with Cons False show ?thesis by simp
  qed
qed simp

lemma struct_written:
  assumes "ok r" "s_Error s = None"
  shows "struct_enc rt flds r s = adds (struct_text flds (s_cfg s) (indention s) r) s"
proof -
  have "orderedBindings (map (field_binding 0) flds) = map (\<lambda>b. \<lparr>binding = b, toName = hd (ToNames b), ignored = False\<rparr>) (map (field_binding 0) flds)"
    using names_differ by (intro final_fields_distinct) (auto simp: field_binding_def comp_def)
  then have e: "struct_enc rt flds = structEncoder_Encode rt (map (\<lambda>f. (fenc f, fname f)) flds)"
    using some_field by (simp add: struct_enc_def encoderOfStruct_def finalOrderedFields_def field_binding_def comp_def)
  have st: "s_Error (WriteObjectStart s) = None" "s_cfg (WriteObjectStart s) = s_cfg s"
      "indention (WriteObjectStart s) = inner (s_cfg s) (indention s)" using assms(2) by (simp_all add: stream_adds)
  show ?thesis
    unfolding e structEncoder_Encode_def first_fields_written [OF subset_refl assms(1) st(1)]
    using st assms(2)
    by (cases "filter (written r) flds") (simp_all add: struct_text_def seq_text_def container_adds adds_def)
qed

lemma field_text_small:
  assumes "f \<in> set flds" "written r f"
  shows "length (ftext f c (inner c i) r) < length (struct_text flds c i r)"
    "length (filter (written r) flds) < length (struct_text flds c i r)"
proof -
  have m: "y \<in> set ys \<Longrightarrow> length (g y) \<le> length (more_text w (map g ys))" for y :: "'r sfield" and ys w g
    by (induction ys) auto
  have l: "length ys \<le> length (more_text w (map g ys))" for ys :: "'r sfield list" and w g
    by (induction ys) auto
  obtain y ys where fs: "filter (written r) flds = y # ys" "f = y \<or> f \<in> set ys"
  proof (cases "filter (written r) flds")
    case Nil
    with assms show ?thesis by (auto simp: filter_empty_conv)
  next
    case (Cons y ys)
    have "f \<in> set (filter (written r) flds)" using assms by simp
    with Cons that show ?thesis by simp
  qed
  let ?g = "field_text_at c (inner c i) r"
  have "length (ftext f c (inner c i) r) \<le> length (?g f)" by (simp add: field_text_at_def member_text_def)
  moreover have "length (?g f) < length (struct_text flds c i r)"
    using fs(2) m [of f ys ?g "blanks (inner c i) 0"] by (auto simp: struct_text_def seq_text_def fs(1))
  ultimately show "length (ftext f c (inner c i) r) < length (struct_text flds c i r)" by simp
  have "0 < length (?g y)" by (simp add: field_text_at_def member_text_def)
  then show "length (filter (written r) flds) < length (struct_text flds c i r)"
    using l [of ys "blanks (inner c i) 0" ?g] by (simp add: struct_text_def seq_text_def fs(1))
qed

lemma decoder_fields:
  "\<exists>fds. decoderOfStruct toLower c rt (map (field_binding n) flds) = createStructDecoder toLower c rt fds \<and> fds \<noteq> []
    \<and> (\<forall>f \<in> set flds. map_of fds (fname f) = Some (fdec f n))"
proof -
  let ?F = "map (\<lambda>f. (fname f, fdec f n)) flds"
  have "from_names (map (field_binding n) flds) = map (\<lambda>b. (hd (FromNames b), b)) (map (field_binding n) flds)"
    using names_differ by (intro from_names_distinct) (auto simp: field_binding_def comp_def)
  then have "map (\<lambda>(k, b). (k, Decoder b)) (from_names (map (field_binding n) flds)) = ?F" by (simp add: field_binding_def comp_def)
  then have d: "decoderOfStruct toLower c rt (map (field_binding n) flds)
      = createStructDecoder toLower c rt (if \<not> caseSensitive c then lower_aliases toLower ?F else ?F)"
    by (simp add: decoderOfStruct_def Let_def)
  have m: "map_of ?F (fname f) = Some (fdec f n)" if "f \<in> set flds" for f
    using names_differ that by (intro map_of_is_SomeI) (auto simp: comp_def)
  obtain g where g: "g \<in> set flds" using some_field by (cases flds) auto
  have "lower_aliases toLower ?F \<noteq> []" using lower_aliases_keep [OF m [OF g], of toLower] by auto
  with d m lower_aliases_keep [OF m] some_field show ?thesis by (cases "caseSensitive c") auto
qed

lemma struct_reads:
  assumes "ok r" "wf_iter it" "Error it = None" "0 \<le> depth it" "depth it + (room + 1) \<le> maxDepth" "list_all is_space ws"
    "pending it = ws @ struct_text flds c i r @ rest" "length (struct_text flds c i r) < n" "cfgs (cfg it)" "captured it = None"
  shows "\<exists>it'. struct_dec toLower rt flds n old it = Some (foldl (\<lambda>s f. fput f r s) old (filter (written r) flds), it')
    \<and> consumes it (ws @ struct_text flds c i r) it' \<and> pending it' = rest"
proof -
  let ?w = "blanks (inner c i) 0" and ?w' = "blanks (inner c i) (indentionStep c)" and ?fs = "filter (written r) flds"
  let ?ps = "parts_of ?w ?w' (field_text_at c (inner c i) r) (\<lambda>f. fput f r) ?fs"
  from decoder_fields [of "cfg it" n] obtain fds where
    F: "decoderOfStruct toLower (cfg it) rt (map (field_binding n) flds) = createStructDecoder toLower (cfg it) rt fds"
      "fds \<noteq> []" "\<And>f. f \<in> set flds \<Longrightarrow> map_of fds (fname f) = Some (fdec f n)" by blast
  have tx: "object_text (?w @ ?w') ?ps = struct_text flds c i r"
  proof (cases ?fs)
    case Nil
    then show ?thesis by (simp only: Nil parts_of.simps) (simp add: object_text_def struct_text_def Nil)
  next
    case (Cons g gs)
    then have "?fs \<noteq> []" by simp
    from parts_of_text [OF this] show ?thesis by (simp add: struct_text_def Cons del: parts_of.simps)
  qed
  have len: "length ?ps < n"
  proof (cases ?fs)
    case Nil
    then show ?thesis using assms(8) by simp
  next
    case (Cons g gs)
    have "g \<in> set ?fs" by (simp only: Cons list.set_intros)
    then have "g \<in> set flds" "written r g" by auto
    from field_text_small(2) [OF this, of c i] assms(8) show ?thesis by simp
  qed
  have "list_all (struct_part toLower n (cfg it) room fds) ?ps"
  proof (rule parts_of_all)
    fix f q
    assume f: "f \<in> set ?fs" and q: "q \<in> {[], ?w'}"
    then have f': "f \<in> set flds" "written r f" by auto
    have "length (ftext f c (inner c i) r) < n" using field_text_small(1) [OF f', of c i] assms(8) by simp
    from field_reads [OF f'(1) assms(1) f'(2) this assms(9)] F(3) [OF f'(1)]
    have "known_field (cfg it) room fds (fname f) (ftext f c (inner c i) r) (fput f r)" by (auto simp: known_field_def)
    moreover have "list_all is_space (space_text (inner c i))" by (simp add: space_text_def is_space_def)
    ultimately show "struct_part toLower n (cfg it) room fds \<lparr>before = ?w, body = field_text_at c (inner c i) r f, behind = q, effect = fput f r\<rparr>"
      using q plain_names [OF f'(1)] unfolding struct_part_def field_text_at_def by (auto intro!: exI)
  qed
  from createStructDecoder_reads [OF assms(2-4) _ room_pos assms(6) _ _ assms(10) this len F(2), of "?w @ ?w'" rest rt old] assms(5,7)
  show ?thesis unfolding tx by (simp add: struct_dec_def F(1) effects_parts_of)
qed

end

section \<open>A struct is a codec\<close>

text \<open>When no field is omitted and the fields make up the struct, the struct keeps the contract of a codec:
  it may be the element of a slice, the value of a map, the field of another struct.\<close>

locale full_struct_codec = struct_codec +
  assumes all_written: "ok r \<Longrightarrow> f \<in> set flds \<Longrightarrow> written r f"
    and rebuilt: "ok r \<Longrightarrow> foldl (\<lambda>s f. fput f r s) old flds = r"
begin

lemma all_written_filter: "ok r \<Longrightarrow> filter (written r) flds = flds"
  using all_written by (simp add: filter_id_conv)

sublocale whole: closed_codec "struct_enc rt flds" "struct_dec toLower rt flds" "struct_text flds" ok "room + 1" cfgs
proof (unfold_locales, goal_cases)
  case (1 v s)
  then show ?case by (rule struct_written)
next
  case (2 v it ws c i t rest n old)
  from struct_reads [OF 2(1-6), of c i "t # rest" n old] 2 show ?case by (simp add: all_written_filter rebuilt)
next
  case (3 v c i)
  show ?case by (cases "filter (written v) flds") (simp_all add: struct_text_def seq_text_def is_space_def)
next
  case (4 v it ws c i rest n old)
  from struct_reads [OF 4, of old] 4(1) show ?case by (simp add: all_written_filter rebuilt)
qed

lemma whole_closed: "closed_codec (struct_enc rt flds) (struct_dec toLower rt flds) (struct_text flds) ok (room + 1) cfgs"
  by (rule whole.closed_codec_axioms)

end

text \<open>The field of a struct whose type has a codec.\<close>

definition codec_field :: "bytes \<Rightarrow> string \<Rightarrow> ('r \<Rightarrow> 'v) \<Rightarrow> ('v \<Rightarrow> 'r \<Rightarrow> 'r) \<Rightarrow> 'v encoder \<Rightarrow> (nat \<Rightarrow> 'v decoder)
    \<Rightarrow> (frozenConfig \<Rightarrow> int \<Rightarrow> 'v \<Rightarrow> bytes) \<Rightarrow> ('v \<Rightarrow> bool) option \<Rightarrow> 'r sfield" where
  "codec_field name goname get upd enc dec txt omit =
     \<lparr>fname = name,
      fenc = \<lparr>field_Encode = structFieldEncoder_Encode goname get enc,
        field_IsEmpty = structFieldEncoder_IsEmpty get (case omit of None \<Rightarrow> \<lambda>v. False | Some isEmpty \<Rightarrow> isEmpty),
        field_IsEmbeddedPtrNil = structFieldEncoder_IsEmbeddedPtrNil get None,
        omitempty = (omit \<noteq> None)\<rparr>,
      fdec = (\<lambda>n. structFieldDecoder_Decode goname get upd (dec n)),
      ftext = (\<lambda>c i r. txt c i (get r)), fput = (\<lambda>r. upd (get r))\<rparr>"

lemma codec_field_simps [simp]:
  "fname (codec_field name goname get upd enc dec txt omit) = name"
  "ftext (codec_field name goname get upd enc dec txt omit) c i r = txt c i (get r)"
  "fput (codec_field name goname get upd enc dec txt omit) r = upd (get r)"
  "written r (codec_field name goname get upd enc dec txt omit) \<longleftrightarrow> (case omit of None \<Rightarrow> True | Some isEmpty \<Rightarrow> \<not> isEmpty (get r))"
  by (auto simp: codec_field_def written_def structFieldEncoder_IsEmpty_def structFieldEncoder_IsEmbeddedPtrNil_def split: option.splits)

context codec
begin

lemma field_writes:
  assumes "ok (get r)" "s_Error s = None"
  shows "field_Encode (fenc (codec_field name goname get upd enc dec val_text omit)) r s = adds (val_text (s_cfg s) (indention s) (get r)) s"
  using writes [OF assms] assms(2) by (simp add: codec_field_def structFieldEncoder_Encode_def)

lemma field_reads:
  assumes "ok (get r)" "room \<le> room'" "length (val_text c' i (get r)) < n" "cfgs c"
  shows "reads_member c room' (fdec (codec_field name goname get upd enc dec val_text omit) n) (val_text c' i (get r)) (upd (get r))"
  unfolding reads_member_def
proof (intro allI impI, elim conjE)
  fix it r' ws t rest
  assume a: "wf_iter it" "Error it = None" "cfg it = c" "0 \<le> depth it" "depth it + room' \<le> maxDepth" "list_all is_space ws"
    "pending it = ws @ val_text c' i (get r) @ t # rest" "\<not> number_char t" "captured it = None"
  have "depth it + room \<le> maxDepth" using a(5) assms(2) by simp
  from reads [OF assms(1) a(1,2,4) this a(6-8) assms(3), of "get r'"] assms(4) a(3,9) obtain it' where
    1: "dec n (get r') it = Some (get r, it')" "consumes it (ws @ val_text c' i (get r)) it'" "pending it' = t # rest" by blast
  have "Error it' = None" using consumes_Error [OF 1(2)] a(2) by simp
  with 1 show "\<exists>it'. fdec (codec_field name goname get upd enc dec val_text omit) n r' it = Some (upd (get r) r', it')
      \<and> consumes it (ws @ val_text c' i (get r)) it' \<and> pending it' = t # rest"
    by (simp add: codec_field_def structFieldDecoder_Decode_def)
qed

end

section \<open>An example: a struct with three fields, and slices of it\<close>

record person =
  p_name :: bytes
  p_age :: u64
  p_tags :: "bytes list option"

definition person_type :: rtype where
  "person_type = \<lparr>Type1_Name = ''Person'', type_String = ''main.Person''\<rparr>"

abbreviation name_field :: "person sfield" where
  "name_field \<equiv> codec_field (map of_char ''Name'') ''Name'' p_name (\<lambda>v r. r\<lparr>p_name := v\<rparr>) stringCodec_Encode (\<lambda>n. stringCodec_Decode) (\<lambda>c i. string_text) None"

abbreviation age_field :: "person sfield" where
  "age_field \<equiv> codec_field (map of_char ''age'') ''Age'' p_age (\<lambda>v r. r\<lparr>p_age := v\<rparr>) int64Codec_Encode (\<lambda>n. int64Codec_Decode) (\<lambda>c i v. int_text (sint v)) None"

abbreviation tags_field :: "(bytes list option \<Rightarrow> bool) option \<Rightarrow> person sfield" where
  "tags_field omit \<equiv> codec_field (map of_char ''tags'') ''Tags'' p_tags (\<lambda>v r. r\<lparr>p_tags := v\<rparr>)
     (sliceEncoder_Encode ''[]string'' stringCodec_Encode)
     (\<lambda>n. sliceDecoder_Decode n ''[]string'' (grow_zero []) stringCodec_Decode) (slice_text (\<lambda>c i. string_text)) omit"

text \<open>The third field as it is, or omitted when empty.\<close>

definition person_fields :: "(bytes list option \<Rightarrow> bool) option \<Rightarrow> person sfield list" where
  "person_fields omit = [name_field, age_field, tags_field omit]"

lemma any_tags: "case v of None \<Rightarrow> True | Some xs \<Rightarrow> list_all (\<lambda>v. True) xs" for v :: "bytes list option"
  by (simp add: list_all_iff split: option.splits)

lemma person_struct: "struct_codec (map lower_byte) (person_fields omit) (\<lambda>r. True) 0 (\<lambda>c. True)"
proof (unfold_locales, goal_cases)
  case (4 f)
  then show ?case by (auto simp: person_fields_def plain_def safeSet_def RuneSelf_def of_char_def)
next
  case (5 f r s)
  then show ?case using string.field_writes int64.field_writes string_slice.slice.field_writes [OF any_tags]
    by (auto simp: person_fields_def split: option.splits)
next
  case (6 f r c' i n c)
  then consider "f = name_field" | "f = age_field" | "f = tags_field omit" by (auto simp: person_fields_def)
  then show ?case
  proof cases
    case 1
    with 6 show ?thesis
      using string.field_reads [where get = p_name and upd = "\<lambda>v r. r\<lparr>p_name := v\<rparr>" and r = r and n = n] by simp
  next
    case 2
    with 6 show ?thesis
      using int64.field_reads [where get = p_age and upd = "\<lambda>v r. r\<lparr>p_age := v\<rparr>" and r = r and n = n] by simp
  next
    case 3
    with 6 show ?thesis
      using string_slice.slice.field_reads [where get = p_tags and upd = "\<lambda>v r. r\<lparr>p_tags := v\<rparr>" and r = r and n = n, OF any_tags]
      by simp
  qed
qed (simp_all add: person_fields_def of_char_def)

text \<open>With \<open>omitempty\<close> on the third field, and without.\<close>

interpretation omit_person: struct_codec "map lower_byte" person_type "person_fields (Some sliceEncoder_IsEmpty)" "\<lambda>r. True" 0 "\<lambda>c. True"
  by (rule person_struct)

interpretation person: full_struct_codec "map lower_byte" person_type "person_fields None" "\<lambda>r. True" 0 "\<lambda>c. True"
proof (rule full_struct_codec.intro [OF person_struct], unfold_locales, goal_cases)
  case (2 r old)
  show ?case by (cases r; cases old) (simp add: person_fields_def)
qed (auto simp: person_fields_def)

interpretation people: slice_codec "struct_enc person_type (person_fields None)" "struct_dec (map lower_byte) person_type (person_fields None)"
    "struct_text (person_fields None)" "\<lambda>r. True" "0 + 1" "\<lambda>c. True" "grow_zero \<lparr>p_name = [], p_age = 0, p_tags = None\<rparr>" "''[]main.Person''"
  by unfold_locales (simp_all add: grow_zero_laws)

text \<open>A value to skip.\<close>

lemma skip_reads:
  assumes "json d v" "length v < k" "int d \<le> room"
  shows "reads_member c room (skip_field k) v id"
  unfolding reads_member_def
proof (intro allI impI, elim conjE)
  fix it :: iterator and r :: 'r and ws t rest
  assume a: "wf_iter it" "Error it = None" "cfg it = c" "0 \<le> depth it" "depth it + room \<le> maxDepth" "list_all is_space ws"
    "pending it = ws @ v @ t # rest" "\<not> number_char t" "captured it = None"
  have "depth it + int d \<le> maxDepth" using a(5) assms(3) by simp
  with json_skips [OF assms(1)] assms(2) a have "\<exists>it'. Skip k it = Some it' \<and> consumes it (ws @ v) it' \<and> pending it' = t # rest"
    unfolding skips_def by blast
  then show "\<exists>it'. skip_field k r it = Some (id r, it') \<and> consumes it (ws @ v) it' \<and> pending it' = t # rest"
    by (auto simp: skip_field_def)
qed

section \<open>Properties\<close>

text \<open>C4: a struct is read back as it was written, whatever the configurations of the two sides: by hash or
  by name, with indention or without, with any number of fields, provided the names differ and are
  written as they are, and every field keeps the contract of its codec. The fields that were written
  are set; those that were omitted keep what the variable held.\<close>

theorem struct_round_trip:
  assumes "struct_codec toLower flds ok room cfgs" "room + 1 \<le> maxDepth" "ok r" "\<forall>c. cfgs c"
  shows "\<exists>m. \<forall>k c' old rest. \<exists>it'.
    structDecoder_Decode (m + k) toLower (decoderOfStruct toLower c' rt (map (field_binding (m + k)) flds)) old
      (ParseBytes c' (s_buf (encoderOfStruct rt (map (field_binding 0) flds) r (NewStream c out)) @ ch_comma # rest))
      = Some (foldl (\<lambda>s f. fput f r s) old (filter (written r) flds), it')
    \<and> Error it' = None \<and> pending it' = ch_comma # rest"
proof -
  let ?t = "struct_text flds c 0 r"
  have "struct_enc rt flds r (NewStream c out) = adds ?t (NewStream c out)"
    using struct_codec.struct_written [OF assms(1,3), of "NewStream c out" rt] by (simp add: NewStream_def)
  then have b: "s_buf (encoderOfStruct rt (map (field_binding 0) flds) r (NewStream c out)) = ?t"
    by (simp add: struct_enc_def NewStream_def)
  show ?thesis
    unfolding b
  proof (intro exI [of _ "Suc (length ?t)"] allI)
    fix k c' old rest
    let ?it = "ParseBytes c' (?t @ ch_comma # rest)"
    have "\<exists>it'. struct_dec toLower rt flds (Suc (length ?t) + k) old ?it = Some (foldl (\<lambda>s f. fput f r s) old (filter (written r) flds), it')
        \<and> consumes ?it ([] @ ?t) it' \<and> pending it' = ch_comma # rest"
      by (rule struct_codec.struct_reads [OF assms(1,3)])
         (use ParseBytes_start [of c' "?t @ ch_comma # rest"] assms(2,4) in auto)
    moreover have "cfg ?it = c'" by (simp add: ParseBytes_def)
    ultimately show "\<exists>it'. structDecoder_Decode (Suc (length ?t) + k) toLower
        (decoderOfStruct toLower c' rt (map (field_binding (Suc (length ?t) + k)) flds)) old ?it
        = Some (foldl (\<lambda>s f. fput f r s) old (filter (written r) flds), it') \<and> Error it' = None \<and> pending it' = ch_comma # rest"
      using ParseBytes_start [of c' "?t @ ch_comma # rest"] by (auto simp: struct_dec_def dest: consumes_Error)
  qed
qed

theorem struct_round_trip_witness:
  "\<exists>m. \<forall>k c' old rest. \<exists>it'.
    structDecoder_Decode (m + k) (map lower_byte) (decoderOfStruct (map lower_byte) c' person_type
        (map (field_binding (m + k)) (person_fields (Some sliceEncoder_IsEmpty)))) old
      (ParseBytes c' (s_buf (encoderOfStruct person_type (map (field_binding 0) (person_fields (Some sliceEncoder_IsEmpty)))
          \<lparr>p_name = map of_char ''Ann'', p_age = 7, p_tags = None\<rparr> (NewStream ConfigDefault None)) @ ch_comma # rest))
      = Some (foldl (\<lambda>s f. fput f \<lparr>p_name = map of_char ''Ann'', p_age = 7, p_tags = None\<rparr> s) old
          (filter (written \<lparr>p_name = map of_char ''Ann'', p_age = 7, p_tags = None\<rparr>) (person_fields (Some sliceEncoder_IsEmpty))), it')
    \<and> Error it' = None \<and> pending it' = ch_comma # rest"
  by (rule struct_round_trip [OF person_struct]) (simp_all add: maxDepth_def)

text \<open>C5: an object is decoded into a struct whenever each of its members is the value of a field or has the
  name of no field, in no case, and the hash of none: the effects of the members follow one another, and
  the others are skipped. Which of the decoders was chosen makes no difference.\<close>

theorem members_decoded:
  assumes "wf_iter it" "Error it = None" "0 \<le> depth it" "depth it + 1 + room \<le> maxDepth" "0 \<le> room"
    "list_all is_space ws" "list_all is_space w" "pending it = ws @ object_text w ps @ rest"
    "captured it = None" "list_all (struct_part toLower k (cfg it) room fds) ps" "length ps < k" "fds \<noteq> []"
  shows "\<exists>it'. structDecoder_Decode k toLower (createStructDecoder toLower (cfg it) rt fds) r it = Some (effects ps r, it')
    \<and> consumes it (ws @ object_text w ps) it' \<and> pending it' = rest"
  by (rule createStructDecoder_reads [OF assms])

text \<open>The object \<open>{"x":[1, null],"A":7}\<close> and a struct with the field \<open>A\<close>.\<close>

definition x_then_A :: "u64 part list" where
  "x_then_A =
     [\<lparr>before = [], body = member_text (map of_char ''x'') [] [] (map of_char ''[1, null]''), behind = [], effect = id\<rparr>,
      \<lparr>before = [], body = member_text (map of_char ''A'') [] [] (int_text 7), behind = [], effect = (\<lambda>r. 7)\<rparr>]"

lemma x_then_A_parts:
  assumes "cfg it = ConfigDefault"
  shows "list_all (struct_part (map lower_byte) 40 (cfg it) 1 (one_int (map of_char ''A''))) x_then_A"
proof -
  have u: "unknown_field (map lower_byte) 40 ConfigDefault 1 (one_int (map of_char ''A'')) (map of_char ''x'') (map of_char ''[1, null]'') id"
    unfolding unknown_field_def
  proof (intro conjI)
    show "reads_member ConfigDefault 1 (skip_field 40) (map of_char ''[1, null]'') id" by (rule skip_reads [OF sample_json]) simp_all
    show "find_field (map lower_byte) (caseSensitive ConfigDefault) (one_int (map of_char ''A'')) (map of_char ''x'') = None"
      by (simp add: find_field_def one_int_def of_char_def lower_byte_def)
  qed code_simp+
  have l: "length (int_text (sint (id (7 :: u64)))) < 40" "sint (7 :: u64) = 7" by code_simp+
  have "reads_member ConfigDefault 1 (structFieldDecoder_Decode ''A'' id (\<lambda>v r. v) int64Codec_Decode) (int_text 7) (\<lambda>r. 7 :: u64)"
    using int64.field_reads [where get = id and upd = "\<lambda>v r. v" and r = 7 and n = 40 and goname = "''A''", OF TrueI _ l(1), of 1, simplified] l(2)
    by (simp add: codec_field_def)
  then have k: "known_field ConfigDefault 1 (one_int (map of_char ''A'')) (map of_char ''A'') (int_text 7) (\<lambda>r. 7)"
    by (simp add: known_field_def one_int_def)
  have n: "plain (map of_char ''x'')" "plain (map of_char ''A'')" by code_simp+
  have mk: "struct_part (map lower_byte) 40 ConfigDefault 1 (one_int (map of_char ''A''))
      \<lparr>before = [], body = member_text nm [] [] v, behind = [], effect = e\<rparr>"
    if "plain nm" "known_field ConfigDefault 1 (one_int (map of_char ''A'')) nm v e
      \<or> unknown_field (map lower_byte) 40 ConfigDefault 1 (one_int (map of_char ''A'')) nm v e" for nm v e
    unfolding struct_part_def by (simp, rule exI [of _ nm], rule exI [of _ "[]"], rule exI [of _ "[]"], rule exI [of _ v]) (use that in simp)
  from mk [OF n(1) disjI2 [OF u]] mk [OF n(2) disjI1 [OF k]] show ?thesis by (simp add: assms x_then_A_def)
qed

theorem members_decoded_witness:
  "\<exists>it'. structDecoder_Decode 40 (map lower_byte) (createStructDecoder (map lower_byte)
        (cfg (ParseBytes ConfigDefault ([] @ object_text [] x_then_A @ []))) person_type (one_int (map of_char ''A''))) 5
        (ParseBytes ConfigDefault ([] @ object_text [] x_then_A @ [])) = Some (effects x_then_A 5, it')
    \<and> consumes (ParseBytes ConfigDefault ([] @ object_text [] x_then_A @ [])) ([] @ object_text [] x_then_A) it' \<and> pending it' = []"
  by (rule members_decoded [OF _ _ _ _ _ _ _ _ _ x_then_A_parts])
     (simp_all add: ParseBytes_start, simp_all add: ParseBytes_def maxDepth_def x_then_A_def one_int_def)

end
