(* ===== verification/RawCodec.thy ===== *)
theory RawCodec
  imports SliceCodec
begin

text \<open>
  Codecs for types whose text is not computed from a structure: \<open>RawMessage\<close>
  (\<open>reflect_json_raw_message.go\<close>), which keeps the text of any value, \<open>Number\<close>
  (\<open>reflect_json_number.go\<close>), which keeps the text of a number, and byte slices in base64
  (\<open>base64Codec\<close> of \<open>reflect_native.go\<close>) with \<open>base64.StdEncoding\<close>.
\<close>

section \<open>Raw messages\<close>

text \<open>A \<open>RawMessage\<close> is nil or bytes. The codecs of the two types of that name have the same body.\<close>

definition jsonRawMessageCodec_Decode :: "nat \<Rightarrow> bytes option decoder" where
  "jsonRawMessageCodec_Decode fuel old it =
     (case ReadNil it of (isnil, it1) \<Rightarrow>
      if isnil then Some (None, it1)
      else map_option (\<lambda>(b, it2). (Some b, it2)) (SkipAndReturnBytes fuel it1))"

definition jsonRawMessageCodec_Encode :: "bytes option encoder" where
  "jsonRawMessageCodec_Encode v s = (case v of None \<Rightarrow> WriteNil s | Some b \<Rightarrow> WriteRaw b s)"

definition jsonRawMessageCodec_IsEmpty :: "bytes option \<Rightarrow> bool" where
  "jsonRawMessageCodec_IsEmpty v \<longleftrightarrow> (case v of None \<Rightarrow> True | Some b \<Rightarrow> b = [])"

definition jsoniterRawMessageCodec_Decode :: "nat \<Rightarrow> bytes option decoder" where
  "jsoniterRawMessageCodec_Decode fuel old it =
     (case ReadNil it of (isnil, it1) \<Rightarrow>
      if isnil then Some (None, it1)
      else map_option (\<lambda>(b, it2). (Some b, it2)) (SkipAndReturnBytes fuel it1))"

definition jsoniterRawMessageCodec_Encode :: "bytes option encoder" where
  "jsoniterRawMessageCodec_Encode v s = (case v of None \<Rightarrow> WriteNil s | Some b \<Rightarrow> WriteRaw b s)"

definition jsoniterRawMessageCodec_IsEmpty :: "bytes option \<Rightarrow> bool" where
  "jsoniterRawMessageCodec_IsEmpty v \<longleftrightarrow> (case v of None \<Rightarrow> True | Some b \<Rightarrow> b = [])"

section \<open>Numbers\<close>

definition jsonNumberCodec_Decode :: "bytes decoder" where
  "jsonNumberCodec_Decode old it =
     (case WhatIsNext it of (t, it1) \<Rightarrow>
      if t = StringValue then Some (ReadString it1)
      else if t = NilValue then Some ([], skipFourBytes ch_n ch_u ch_l ch_l it1)
      else Some (readNumberAsString it1))"

definition jsonNumberCodec_Encode :: "bytes encoder" where
  "jsonNumberCodec_Encode number s = (if number = [] then writeByte ch_0 s else WriteRaw number s)"

definition jsonNumberCodec_IsEmpty :: "bytes \<Rightarrow> bool" where
  "jsonNumberCodec_IsEmpty number \<longleftrightarrow> number = []"

definition jsoniterNumberCodec_Decode :: "bytes decoder" where
  "jsoniterNumberCodec_Decode old it =
     (case WhatIsNext it of (t, it1) \<Rightarrow>
      if t = StringValue then Some (ReadString it1)
      else if t = NilValue then Some ([], skipFourBytes ch_n ch_u ch_l ch_l it1)
      else Some (readNumberAsString it1))"

definition jsoniterNumberCodec_Encode :: "bytes encoder" where
  "jsoniterNumberCodec_Encode number s = (if number = [] then writeByte ch_0 s else WriteRaw number s)"

definition jsoniterNumberCodec_IsEmpty :: "bytes \<Rightarrow> bool" where
  "jsoniterNumberCodec_IsEmpty number \<longleftrightarrow> number = []"

text \<open>The methods of \<open>Number\<close>.\<close>

definition Number_String :: "bytes \<Rightarrow> bytes" where
  "Number_String n = n"

definition Number_Float64 :: "bytes \<Rightarrow> go_float option" where
  "Number_Float64 n = ParseFloat n 64"

section \<open>base64.StdEncoding\<close>

text \<open>The alphabet; three bytes become four characters, the last group is padded.\<close>

definition b64_char :: "nat \<Rightarrow> byte" where
  "b64_char n =
     (if n < 26 then of_nat (65 + n)
      else if n < 52 then of_nat (97 + (n - 26))
      else if n < 62 then of_nat (48 + (n - 52))
      else if n = 62 then ch_plus else ch_slash)"

definition b64_val :: "byte \<Rightarrow> nat option" where
  "b64_val c =
     (let n = unat c in
      if 65 \<le> n \<and> n \<le> 90 then Some (n - 65)
      else if 97 \<le> n \<and> n \<le> 122 then Some (n - 97 + 26)
      else if 48 \<le> n \<and> n \<le> 57 then Some (n - 48 + 52)
      else if c = ch_plus then Some 62
      else if c = ch_slash then Some 63
      else None)"

abbreviation ch_eq :: byte where "ch_eq \<equiv> 0x3D"

fun base64_encode :: "bytes \<Rightarrow> bytes" where
  "base64_encode [] = []"
| "base64_encode [a] = [b64_char (unat a div 4), b64_char (unat a mod 4 * 16), ch_eq, ch_eq]"
| "base64_encode [a, b] =
     [b64_char (unat a div 4), b64_char (unat a mod 4 * 16 + unat b div 16), b64_char (unat b mod 16 * 4), ch_eq]"
| "base64_encode (a # b # c # r) =
     [b64_char (unat a div 4), b64_char (unat a mod 4 * 16 + unat b div 16),
      b64_char (unat b mod 16 * 4 + unat c div 64), b64_char (unat c mod 64)] @ base64_encode r"

text \<open>Decoding skips line ends; nothing may follow the padding; the unused bits are not checked.\<close>

fun base64_groups :: "bytes \<Rightarrow> bytes option" where
  "base64_groups [] = Some []"
| "base64_groups (a # b # c # d # r) =
     (case (b64_val a, b64_val b) of
        (Some x, Some y) \<Rightarrow>
          if d = ch_eq then
            if r \<noteq> [] then None
            else if c = ch_eq then Some [of_nat (x * 4 + y div 16)]
            else map_option (\<lambda>z. [of_nat (x * 4 + y div 16), of_nat (y mod 16 * 16 + z div 4)]) (b64_val c)
          else
            (case (b64_val c, b64_val d) of
               (Some z, Some w) \<Rightarrow>
                 map_option (\<lambda>bs. [of_nat (x * 4 + y div 16), of_nat (y mod 16 * 16 + z div 4), of_nat (z mod 4 * 64 + w)] @ bs)
                   (base64_groups r)
             | _ \<Rightarrow> None)
      | _ \<Rightarrow> None)"
| "base64_groups _ = None"

definition base64_decode :: "bytes \<Rightarrow> bytes option" where
  "base64_decode s = base64_groups (filter (\<lambda>c. c \<noteq> ch_cr \<and> c \<noteq> ch_nl) s)"

section \<open>Byte slices\<close>

text \<open>\<open>errText\<close> is the text of the error that \<open>DecodeString\<close> returns for its argument; a nil slice is \<open>None\<close>.\<close>

definition base64Codec_Decode :: "(bytes \<Rightarrow> string) \<Rightarrow> bytes option decoder \<Rightarrow> bytes option decoder" where
  "base64Codec_Decode errText sliceDecoder old it =
     (case ReadNil it of (isnil, it1) \<Rightarrow>
      if isnil then Some (None, it1)
      else
        (case WhatIsNext it1 of (t, it2) \<Rightarrow>
         if t = StringValue then
           (case ReadString it2 of (src, it3) \<Rightarrow>
              Some (case base64_decode src of
                      None \<Rightarrow> (old, ReportError ''decode base64'' (errText src) it3)
                    | Some dst \<Rightarrow> (Some dst, it3)))
         else if t = ArrayValue then sliceDecoder old it2
         else Some (old, ReportError ''base64Codec'' ''invalid input'' it2)))"

definition base64Codec_Encode :: "bytes option encoder" where
  "base64Codec_Encode v s =
     (case v of
        None \<Rightarrow> WriteNil s
      | Some src \<Rightarrow>
          let s1 = writeByte ch_quote s;
              s2 = (if length src \<noteq> 0 then s1\<lparr>s_buf := s_buf s1 @ base64_encode src\<rparr> else s1)
          in writeByte ch_quote s2)"

definition base64Codec_IsEmpty :: "bytes option \<Rightarrow> bool" where
  "base64Codec_IsEmpty v \<longleftrightarrow> (case v of None \<Rightarrow> True | Some b \<Rightarrow> b = [])"

section \<open>base64 is undone\<close>

lemma sextets:
  fixes a b :: nat
  assumes "b < 256"
  shows "(a mod 4 * 16 + b div 16) div 16 = a mod 4" "(a mod 4 * 16 + b div 16) mod 16 = b div 16"
    "(a mod 16 * 4 + b div 64) div 4 = a mod 16" "(a mod 16 * 4 + b div 64) mod 4 = b div 64"
proof -
  have "b div 16 < 16" "b div 64 < 4" using assms by auto
  then show "(a mod 4 * 16 + b div 16) div 16 = a mod 4" "(a mod 4 * 16 + b div 16) mod 16 = b div 16"
    "(a mod 16 * 4 + b div 64) div 4 = a mod 16" "(a mod 16 * 4 + b div 64) mod 4 = b div 64" by simp_all
qed

lemma sextet_bounds:
  fixes a b :: nat
  assumes "b < 256"
  shows "b div 4 < 64" "a mod 4 * 16 < 64" "a mod 4 * 16 + b div 16 < 64" "a mod 16 * 4 + b div 64 < 64"
    "a mod 16 * 4 < 64" "a mod 64 < 64"
proof -
  have "b div 4 < 64" "b div 16 < 16" "b div 64 < 4" using assms by auto
  moreover have "a mod 4 < 4" "a mod 16 < 16" by simp_all
  ultimately show "b div 4 < 64" "a mod 4 * 16 < 64" "a mod 4 * 16 + b div 16 < 64" "a mod 16 * 4 + b div 64 < 64"
    "a mod 16 * 4 < 64" "a mod 64 < 64" by linarith+
qed

lemmas sextet_bound = sextet_bounds(2,5,6) [of 0]

lemma byte_bound: "unat (a :: byte) < 256"
  using unat_bound [of a] by simp

text \<open>A character of base64 needs no escape and is no line end.\<close>

definition b64_plain :: "byte \<Rightarrow> bool" where
  "b64_plain c \<longleftrightarrow> c > 31 \<and> c \<noteq> ch_quote \<and> c \<noteq> ch_bslash \<and> c \<noteq> ch_cr \<and> c \<noteq> ch_nl"

lemma b64_chars: "n < 64 \<Longrightarrow> b64_val (b64_char n) = Some n \<and> b64_char n \<noteq> ch_eq \<and> b64_plain (b64_char n)"
proof -
  have "list_all (\<lambda>n. b64_val (b64_char n) = Some n \<and> b64_char n \<noteq> ch_eq \<and> b64_plain (b64_char n)) [0..<64]" by code_simp
  then show "n < 64 \<Longrightarrow> ?thesis" by (simp add: list_all_iff)
qed

lemmas b64_sextet = conjunct1 [OF b64_chars] conjunct1 [OF conjunct2 [OF b64_chars]] conjunct2 [OF conjunct2 [OF b64_chars]]

lemma b64_pad: "b64_val ch_eq = None" "b64_plain ch_eq"
  by code_simp+

lemma base64_plain: "list_all b64_plain (base64_encode v)"
  by (induction v rule: base64_encode.induct) (simp_all add: b64_sextet b64_pad sextet_bounds sextet_bound byte_bound)

lemma byte_small: "unat (b :: byte) div 16 < 16" "unat b div 64 < 4"
  using byte_bound [of b] by simp_all

lemma byte_join:
  "word_of_nat (unat b div 16) * 16 + word_of_nat (unat b mod 16) = b"
  "word_of_nat (unat b div 64) * 64 + word_of_nat (unat b mod 64) = b" for b :: byte
proof -
  have "word_of_nat (unat b div 16 * 16 + unat b mod 16) = b" "word_of_nat (unat b div 64 * 64 + unat b mod 64) = b"
    by (simp_all only: div_mult_mod_eq) simp_all
  then show "word_of_nat (unat b div 16) * 16 + word_of_nat (unat b mod 16) = b"
    "word_of_nat (unat b div 64) * 64 + word_of_nat (unat b mod 64) = b"
    by (simp_all only: of_nat_add of_nat_mult of_nat_numeral)
qed

lemma base64_groups_encode: "base64_groups (base64_encode v) = Some v"
proof (induction v rule: base64_encode.induct)
  case (2 a)
  then show ?case by (simp add: b64_sextet sextet_bounds sextet_bound byte_bound div_mult_mod_eq)
next
  case (3 a b)
  then show ?case by (simp add: b64_sextet sextet_bounds sextet_bound byte_bound sextets byte_small byte_join div_mult_mod_eq)
next
  case (4 a b c r)
  then show ?case by (simp add: b64_sextet sextet_bounds sextet_bound byte_bound sextets byte_small byte_join div_mult_mod_eq)
qed simp

lemma base64_decode_encode: "base64_decode (base64_encode v) = Some v"
proof -
  have "filter (\<lambda>c. c \<noteq> ch_cr \<and> c \<noteq> ch_nl) (base64_encode v) = base64_encode v"
    using base64_plain [of v] by (auto simp: filter_id_conv list_all_iff b64_plain_def)
  then show ?thesis by (simp add: base64_decode_def base64_groups_encode)
qed

lemma base64_string_text: "string_text (base64_encode v) = ch_quote # base64_encode v @ [ch_quote]"
  using base64_plain [of v] by (simp add: string_text_def esc_bytes_safe list_all_iff b64_plain_def)

section \<open>The contracts\<close>

lemma drop_spaces_to: "list_all is_space ws \<Longrightarrow> \<not> is_space c \<Longrightarrow> dropWhile is_space (ws @ c # r) = c # r \<and> takeWhile is_space (ws @ c # r) = ws"
  by (auto simp: list_all_iff dropWhile_append takeWhile_append)

lemma WhatIsNext_at:
  assumes "wf_iter it" "Error it = None" "list_all is_space ws" "pending it = ws @ c # rest" "\<not> is_space c"
  shows "\<exists>it'. WhatIsNext it = (valueTypes c, it') \<and> consumes it ws it' \<and> pending it' = c # rest"
  using WhatIsNext_spec [OF assms(1,2)] drop_spaces_to [OF assms(3,5)] assms(4) by simp

definition base64_text :: "bytes option \<Rightarrow> bytes" where
  "base64_text v = (case v of None \<Rightarrow> [ch_n, ch_u, ch_l, ch_l] | Some b \<Rightarrow> string_text (base64_encode b))"

lemma base64_reads:
  assumes "wf_iter it" "Error it = None" "list_all is_space ws" "pending it = ws @ base64_text v @ rest"
  shows "\<exists>it'. base64Codec_Decode errText sliceDecoder old it = Some (v, it') \<and> consumes it (ws @ base64_text v) it' \<and> pending it' = rest"
proof (cases v)
  case None
  with ReadNil_null [OF assms(1,3), of rest] assms(4) show ?thesis by (auto simp: base64Codec_Decode_def base64_text_def)
next
  case (Some b)
  obtain e es where ex: "base64_text v = e # es" "e = ch_quote" using Some by (simp add: base64_text_def string_text_def)
  obtain it1 where 1: "ReadNil it = (False, it1)" "consumes it ws it1" "pending it1 = e # es @ rest"
    using ReadNil_not [OF assms(1-3), of e "es @ rest"] assms(4) ex by (auto simp: is_space_def)
  note s1 = consumes_same [OF 1(2)]
  obtain it2 where 2: "WhatIsNext it1 = (StringValue, it2)" "consumes it1 [] it2" "pending it2 = e # es @ rest"
    using WhatIsNext_at [of it1 "[]" e "es @ rest"] s1 1(3) assms(2) ex by (auto simp: is_space_def valueTypes_def)
  note s2 = consumes_same [OF 2(2)]
  have p: "pending it2 = [] @ string_text (base64_encode b) @ rest" using 2(3) ex(1) Some by (simp add: base64_text_def)
  obtain it3 where 3: "ReadString it2 = (base64_encode b, it3)" "consumes it2 (string_text (base64_encode b)) it3" "pending it3 = rest"
    using ReadString_text [OF _ _ _ p] s1 s2 assms(2) by auto
  from 1(1) 2(1) 3 consumes_trans [OF 1(2) consumes_trans [OF 2(2) 3(2)]] Some show ?thesis
    by (auto simp: base64Codec_Decode_def base64_decode_encode base64_text_def)
qed

interpretation base64: closed_codec base64Codec_Encode "\<lambda>n. base64Codec_Decode errText (sliceDecoder n)" "\<lambda>c i. base64_text"
    "\<lambda>v. True" 0 "\<lambda>c. True" for errText sliceDecoder
proof (unfold_locales, goal_cases)
  case (1 v s)
  show ?case
    by (cases v) (auto simp: base64Codec_Encode_def base64_text_def base64_string_text string_text_def [of "[]"] stream_adds Let_def adds_def)
next
  case (2 v it ws c i t rest n old)
  then show ?case using base64_reads [of it ws v "t # rest"] by simp
next
  case (3 v c i)
  then show ?case by (simp add: base64_text_def string_text_def is_space_def split: option.splits)
next
  case (4 v it ws c i rest n old)
  then show ?case by (intro base64_reads)
qed

text \<open>A number: any text of the characters that numbers are made of.\<close>

definition number_ok :: "bytes \<Rightarrow> bool" where
  "number_ok v \<longleftrightarrow> v \<noteq> [] \<and> list_all number_char v"

lemma number_reads:
  assumes "number_ok v" "wf_iter it" "Error it = None" "list_all is_space ws" "pending it = ws @ v @ t # rest" "\<not> number_char t"
  shows "\<exists>it'. jsonNumberCodec_Decode old it = Some (v, it') \<and> consumes it (ws @ v) it' \<and> pending it' = t # rest"
proof -
  obtain e es where v: "v = e # es" "number_char e" using assms(1) by (cases v) (auto simp: number_ok_def)
  then have e: "\<not> is_space e" "valueTypes e \<noteq> StringValue" "valueTypes e \<noteq> NilValue"
    by (auto simp: number_char_def is_digit_def is_space_def valueTypes_def)
  obtain it1 where 1: "WhatIsNext it = (valueTypes e, it1)" "consumes it ws it1" "pending it1 = v @ t # rest"
    using WhatIsNext_at [OF assms(2-4), of e "es @ t # rest"] assms(5) e(1) v by auto
  note s1 = consumes_same [OF 1(2)]
  have w: "takeWhile number_char (pending it1) = v" "dropWhile number_char (pending it1) = t # rest"
    using assms(1,6) 1(3) by (auto simp: number_ok_def list_all_iff takeWhile_append dropWhile_append)
  obtain it2 where 2: "readNumber_loop [] it1 = (v, it2)" "consumes it1 v it2" "pending it2 = t # rest"
    using readNumber_loop_reads [of it1 t rest "[]"] w s1 by auto
  have "Error it2 = None" using consumes_same [OF 2(2)] s1 assms(3) by simp
  with 1(1) 2 e v consumes_trans [OF 1(2) 2(2)] show ?thesis
    by (auto simp: jsonNumberCodec_Decode_def readNumberAsString_def readNumberAsBytes_def)
qed

interpretation number: codec jsonNumberCodec_Encode "\<lambda>n. jsonNumberCodec_Decode" "\<lambda>c i v. v" number_ok 0 "\<lambda>c. True"
proof (unfold_locales, goal_cases)
  case (2 v it ws c i t rest n old)
  then show ?case by (intro number_reads)
next
  case (3 v c i)
  then show ?case by (cases v) (auto simp: number_ok_def number_char_def is_digit_def is_space_def)
qed (auto simp: jsonNumberCodec_Encode_def number_ok_def stream_adds)

text \<open>A raw message: nil, or the text of a JSON value other than null.\<close>

definition raw_ok :: "nat \<Rightarrow> bytes option \<Rightarrow> bool" where
  "raw_ok d v \<longleftrightarrow> (case v of None \<Rightarrow> True | Some b \<Rightarrow> json d b \<and> hd b \<noteq> ch_n)"

definition raw_text :: "bytes option \<Rightarrow> bytes" where
  "raw_text v = (case v of None \<Rightarrow> [ch_n, ch_u, ch_l, ch_l] | Some b \<Rightarrow> b)"

text \<open>The text \<open>SkipAndReturnBytes\<close> returns for a value at the position.\<close>

lemma SkipAndReturnBytes_value:
  assumes "json d b" "length b < n" "wf_iter it" "Error it = None" "0 \<le> depth it" "depth it + int d \<le> maxDepth"
    "captured it = None" "pending it = b @ t # rest" "\<not> number_char t"
  shows "\<exists>it'. SkipAndReturnBytes n it = Some (b, it') \<and> consumes it b it' \<and> pending it' = t # rest"
proof -
  obtain it2 where 2: "startCaptureTo [] (head it) it = Some it2" using assms(7) by (simp add: startCaptureTo_def)
  note c = startCapture_log [OF 2]
  obtain it3 where 3: "Skip n it2 = Some it3" "consumes it2 ([] @ b) it3" "pending it3 = t # rest"
    using json_skips [OF assms(1), unfolded skips_def, rule_format, of n it2 "[]" t rest] c assms by auto
  have "cap_log it3 = Some b" using 3(2) c assms(3) by (simp add: consumes_def)
  then obtain it4 where 4: "stopCapture it3 = Some (b, it4)" "it4 = it3\<lparr>captureStartedAt := -1, captured := None\<rparr>"
    by (auto simp: stopCapture_def cap_log_def)
  have it2: "it2 = it\<lparr>captureStartedAt := head it, captured := Some []\<rparr>" using assms(7) 2 by (simp add: startCaptureTo_def)
  have "consumes it b it4" "pending it4 = t # rest"
    using 3(2,3) assms(3,7) unfolding 4(2) it2
    by (simp_all add: consumes_def same_frame_def wf_iter_def cap_log_def pending_def rest_bytes_def end_err_def)
  with 2 3(1) 4(1) show ?thesis by (simp add: SkipAndReturnBytes_def startCapture_def)
qed

lemma raw_reads_back:
  assumes "raw_ok d v" "wf_iter it" "Error it = None" "0 \<le> depth it" "depth it + int d \<le> maxDepth" "list_all is_space ws"
    "pending it = ws @ raw_text v @ t # rest" "\<not> number_char t" "length (raw_text v) < n" "captured it = None"
  shows "\<exists>it'. jsonRawMessageCodec_Decode n old it = Some (v, it') \<and> consumes it (ws @ raw_text v) it' \<and> pending it' = t # rest"
proof (cases v)
  case None
  with ReadNil_null [OF assms(2,6), of "t # rest"] assms(7) show ?thesis by (auto simp: jsonRawMessageCodec_Decode_def raw_text_def)
next
  case (Some b)
  with assms(1) have j: "json d b" "hd b \<noteq> ch_n" by (auto simp: raw_ok_def)
  obtain e es where b: "b = e # es" "\<not> is_space e" using json_head [OF j(1)] by (cases b) auto
  obtain it1 where 1: "ReadNil it = (False, it1)" "consumes it ws it1" "pending it1 = b @ t # rest"
    using ReadNil_not [OF assms(2,3,6), of e "es @ t # rest"] assms(7) b j(2) Some by (auto simp: raw_text_def)
  note s1 = consumes_same [OF 1(2)]
  obtain it4 where "SkipAndReturnBytes n it1 = Some (b, it4)" "consumes it1 b it4" "pending it4 = t # rest"
    using SkipAndReturnBytes_value [OF j(1) _ _ _ _ _ _ 1(3) assms(8), of n] s1 assms(3-5,9,10) Some
    by (auto simp: raw_text_def)
  then show ?thesis using 1(1) consumes_trans [OF 1(2)] Some
    by (auto simp: jsonRawMessageCodec_Decode_def raw_text_def)
qed

lemma json_first: "json d v \<Longrightarrow> v \<noteq> [] \<and> hd v \<notin> {ch_rbrack, ch_rbrace} \<and> \<not> is_space (hd v)"
  by (erule json.cases) (auto simp: is_space_def is_digit_def dest!: number_token_head)

interpretation raw_message: codec jsonRawMessageCodec_Encode "\<lambda>n. jsonRawMessageCodec_Decode n" "\<lambda>c i. raw_text" "raw_ok d" "int d" "\<lambda>c. True" for d
proof (unfold_locales, goal_cases)
  case (1 v s)
  show ?case by (auto simp: jsonRawMessageCodec_Encode_def raw_text_def stream_adds split: option.splits)
next
  case (2 v it ws c i t rest n old)
  then show ?case by (intro raw_reads_back) auto
next
  case (3 v c i)
  then show ?case by (auto simp: raw_ok_def raw_text_def is_space_def dest: json_first split: option.splits)
qed

section \<open>Property\<close>

text \<open>A raw message that is nil or the text of a JSON value other than null is written as it is and read back byte for
  byte, whatever the value is and whatever the variable held.\<close>

lemma raw_message_round_trip:
  assumes "raw_ok d v" "int d \<le> maxDepth"
  shows "\<exists>m. \<forall>k. parsed_back (jsonRawMessageCodec_Decode (m + k)) (s_buf (jsonRawMessageCodec_Encode v (NewStream c out))) v"
  by (rule raw_message.parse_back [OF assms]) simp

lemma raw_message_round_trip_witness:
  "\<exists>m. \<forall>k. parsed_back (jsonRawMessageCodec_Decode (m + k))
     (s_buf (jsonRawMessageCodec_Encode (Some (map of_char ''true'')) (NewStream ConfigDefault None))) (Some (map of_char ''true''))"
proof (rule raw_message_round_trip)
  show "raw_ok 0 (Some (map of_char ''true''))"
    using json.intros by (auto simp: raw_ok_def of_char_def)
qed (simp add: maxDepth_def)

end
