(* ===== verification/Api.thy ===== *)
theory Api
  imports StructCodec RawCodec
begin

text \<open>
  The functions users call: \<open>ReadVal\<close> and \<open>WriteVal\<close> of \<open>reflect.go\<close>, \<open>Marshal\<close>, \<open>Unmarshal\<close>,
  \<open>Valid\<close>, \<dots> of \<open>config.go\<close>, and the \<open>Encoder\<close> and \<open>Decoder\<close> of \<open>adapter.go\<close> (whose package-level functions
  call those of \<open>config.go\<close> on \<open>ConfigDefault\<close>). The codec that the caches and the reflection choose
  for the type of the argument is a parameter. The pools hand out \<open>pooled\<close> streams and iterators.
\<close>

section \<open>ReadVal and WriteVal\<close>

text \<open>The argument of \<open>ReadVal\<close>: something that is no pointer, a nil pointer, a pointer to a variable
  and what it holds.\<close>

datatype 'v target = NotPointer | NilPointer | Pointer 'v

definition ReadVal :: "'v decoder \<Rightarrow> 'v target \<Rightarrow> iterator \<Rightarrow> ('v target \<times> iterator) option" where
  "ReadVal decoder obj it =
     (case obj of
        NotPointer \<Rightarrow> Some (obj, ReportError ''ReadVal'' ''can only unmarshal into pointer'' it)
      | NilPointer \<Rightarrow> Some (obj, ReportError ''ReadVal'' ''can not read into nil pointer'' it)
      | Pointer v \<Rightarrow>
          (case decoder v it of
             None \<Rightarrow> None
           | Some (v', it1) \<Rightarrow>
               Some (Pointer v',
                 if depth it1 \<noteq> depth it then ReportError ''ReadVal'' ''unexpected mismatched nesting'' it1 else it1)))"

definition WriteVal :: "'v encoder \<Rightarrow> 'v option \<Rightarrow> stream \<Rightarrow> stream" where
  "WriteVal encoder val s = (case val of None \<Rightarrow> WriteNil s | Some v \<Rightarrow> encoder v s)"

section \<open>Configurations with extensions, and their cache\<close>

record 'x api =
  frozen :: frozenConfig
  extraExtensions :: "'x list"

definition RegisterExtension :: "'x \<Rightarrow> 'x api \<Rightarrow> 'x api" where
  "RegisterExtension extension api = api\<lparr>extraExtensions := extraExtensions api @ [extension]\<rparr>"

type_synonym 'x cfgCache = "Config \<rightharpoonup> 'x api"

definition frozeWithCacheReuse :: "Config \<Rightarrow> 'x list \<Rightarrow> 'x cfgCache \<Rightarrow> 'x api \<times> 'x cfgCache" where
  "frozeWithCacheReuse c exts cache =
     (case cache c of
        Some api \<Rightarrow> (api, cache)
      | None \<Rightarrow>
          let api = foldl (\<lambda>api e. RegisterExtension e api) \<lparr>frozen = Froze c, extraExtensions = []\<rparr> exts
          in (api, cache(c \<mapsto> api)))"

section \<open>Marshal and Unmarshal\<close>

text \<open>The result, an error or the bytes, and the stream put back into the pool.\<close>

definition Marshal :: "stream \<Rightarrow> 'v encoder \<Rightarrow> 'v option \<Rightarrow> (go_error + bytes) \<times> stream" where
  "Marshal pooled encoder val =
     (let s = WriteVal encoder val (BorrowStream pooled None)
      in (case s_Error s of Some e \<Rightarrow> Inl e | None \<Rightarrow> Inr (Stream_Buffer s), ReturnStream s))"

definition MarshalToString :: "stream \<Rightarrow> 'v encoder \<Rightarrow> 'v option \<Rightarrow> (go_error + bytes) \<times> stream" where
  "MarshalToString pooled encoder val =
     (let s = WriteVal encoder val (BorrowStream pooled None)
      in (case s_Error s of Some e \<Rightarrow> Inl e | None \<Rightarrow> Inr (Stream_Buffer s), ReturnStream s))"

text \<open>\<open>None\<close> is a panic. Pool and encoder belong to the configuration used.\<close>

definition MarshalIndent :: "'x api \<Rightarrow> 'x cfgCache \<Rightarrow> (frozenConfig \<Rightarrow> stream) \<Rightarrow> (frozenConfig \<Rightarrow> 'v encoder)
    \<Rightarrow> 'v option \<Rightarrow> bytes \<Rightarrow> bytes \<Rightarrow> ((go_error + bytes) \<times> 'x cfgCache) option" where
  "MarshalIndent api cache pool encoderOf val prefix indent =
     (if prefix \<noteq> [] then None
      else if \<not> list_all (\<lambda>r. r = ch_space) indent then None
      else
        let newCfg = (configBeforeFrozen (frozen api))\<lparr>IndentionStep := int (length indent)\<rparr>
        in (case frozeWithCacheReuse newCfg (extraExtensions api) cache of (api', cache') \<Rightarrow>
              Some (fst (Marshal (pool (frozen api')) (encoderOf (frozen api')) val), cache')))"

text \<open>The variable, the error and the iterator afterwards, put back into the pool.\<close>

definition Unmarshal :: "iterator \<Rightarrow> 'v decoder \<Rightarrow> bytes \<Rightarrow> 'v target \<Rightarrow> ('v target \<times> go_error option \<times> iterator) option" where
  "Unmarshal pooled decoder data obj =
     (case ReadVal decoder obj (BorrowIterator pooled data) of
        None \<Rightarrow> None
      | Some (obj', it1) \<Rightarrow>
          (case nextToken it1 of (c, it2) \<Rightarrow>
           if c = 0 then
             Some (obj', if Error it2 = Some EOF then None else Error it2, ReturnIterator it2)
           else
             let it3 = ReportError ''Unmarshal'' ''there are bytes left after unmarshal'' it2
             in Some (obj', Error it3, ReturnIterator it3)))"

definition UnmarshalFromString :: "iterator \<Rightarrow> 'v decoder \<Rightarrow> bytes \<Rightarrow> 'v target \<Rightarrow> ('v target \<times> go_error option \<times> iterator) option" where
  "UnmarshalFromString pooled decoder str obj =
     (case ReadVal decoder obj (BorrowIterator pooled str) of
        None \<Rightarrow> None
      | Some (obj', it1) \<Rightarrow>
          (case nextToken it1 of (c, it2) \<Rightarrow>
           if c = 0 then
             Some (obj', if Error it2 = Some EOF then None else Error it2, ReturnIterator it2)
           else
             let it3 = ReportError ''Unmarshal'' ''there are bytes left after unmarshal'' it2
             in Some (obj', Error it3, ReturnIterator it3)))"

definition Valid :: "nat \<Rightarrow> iterator \<Rightarrow> bytes \<Rightarrow> bool option" where
  "Valid fuel pooled data = map_option (\<lambda>it. Error it = None) (Skip fuel (BorrowIterator pooled data))"

section \<open>Encoder and Decoder\<close>

text \<open>\<open>Decode\<close> fills the buffer first, so that the end of the input between two values is seen.\<close>

definition Decoder_Decode :: "'v decoder \<Rightarrow> 'v target \<Rightarrow> iterator \<Rightarrow> ('v target \<times> go_error option \<times> iterator) option" where
  "Decoder_Decode decoder obj it =
     (case (if head it = tail it \<and> reader it \<noteq> None then loadMore it else (True, it)) of (ok, it1) \<Rightarrow>
      if \<not> ok then Some (obj, Some EOF, it1)
      else
        (case ReadVal decoder obj it1 of
           None \<Rightarrow> None
         | Some (obj', it2) \<Rightarrow> Some (obj', if Error it2 = Some EOF then None else Error it2, it2)))"

definition Decoder_More :: "iterator \<Rightarrow> bool \<times> iterator" where
  "Decoder_More it =
     (if Error it \<noteq> None then (False, it)
      else
        (case nextToken it of (c, it1) \<Rightarrow>
         if c = 0 then (False, it1)
         else (c \<noteq> ch_rbrack \<and> c \<noteq> ch_rbrace, unreadByte it1)))"

definition Decoder_Buffered :: "iterator \<Rightarrow> bytes" where
  "Decoder_Buffered it = gslice (buf it) (head it) (tail it)"

definition Decoder_UseNumber :: "'x list \<Rightarrow> 'x cfgCache \<Rightarrow> iterator \<Rightarrow> iterator \<times> 'x cfgCache" where
  "Decoder_UseNumber exts cache it =
     (case frozeWithCacheReuse ((configBeforeFrozen (cfg it))\<lparr>UseNumber := True\<rparr>) exts cache of (api, cache') \<Rightarrow>
      (it\<lparr>cfg := frozen api\<rparr>, cache'))"

definition Decoder_DisallowUnknownFields :: "'x list \<Rightarrow> 'x cfgCache \<Rightarrow> iterator \<Rightarrow> iterator \<times> 'x cfgCache" where
  "Decoder_DisallowUnknownFields exts cache it =
     (case frozeWithCacheReuse ((configBeforeFrozen (cfg it))\<lparr>DisallowUnknownFields := True\<rparr>) exts cache of (api, cache') \<Rightarrow>
      (it\<lparr>cfg := frozen api\<rparr>, cache'))"

definition NewDecoder :: "frozenConfig \<Rightarrow> reader \<Rightarrow> iterator" where
  "NewDecoder c r = Parse c r 512"

definition NewEncoder :: "frozenConfig \<Rightarrow> writer \<Rightarrow> stream" where
  "NewEncoder c w = NewStream c (Some w)"

definition Encoder_Encode :: "'v encoder \<Rightarrow> 'v option \<Rightarrow> stream \<Rightarrow> go_error option \<times> stream" where
  "Encoder_Encode encoder val s =
     (let s1 = snd (Flush (WriteRaw [ch_nl] (WriteVal encoder val s))) in (s_Error s1, s1))"

definition Encoder_SetIndent :: "'x list \<Rightarrow> 'x cfgCache \<Rightarrow> bytes \<Rightarrow> bytes \<Rightarrow> stream \<Rightarrow> stream \<times> 'x cfgCache" where
  "Encoder_SetIndent exts cache prefix indent s =
     (case frozeWithCacheReuse ((configBeforeFrozen (s_cfg s))\<lparr>IndentionStep := int (length indent)\<rparr>) exts cache of (api, cache') \<Rightarrow>
      (s\<lparr>s_cfg := frozen api\<rparr>, cache'))"

definition Encoder_SetEscapeHTML :: "'x list \<Rightarrow> 'x cfgCache \<Rightarrow> bool \<Rightarrow> stream \<Rightarrow> stream \<times> 'x cfgCache" where
  "Encoder_SetEscapeHTML exts cache escape s =
     (case frozeWithCacheReuse ((configBeforeFrozen (s_cfg s))\<lparr>EscapeHTML := escape\<rparr>) exts cache of (api, cache') \<Rightarrow>
      (s\<lparr>s_cfg := frozen api\<rparr>, cache'))"

section \<open>The string encoder of a configuration that escapes HTML\<close>

definition htmlEscapedStringEncoder_Encode :: "bytes encoder" where
  "htmlEscapedStringEncoder_Encode str s = WriteStringWithHTMLEscaped str s"

definition htmlEscapedStringEncoder_IsEmpty :: "bytes \<Rightarrow> bool" where
  "htmlEscapedStringEncoder_IsEmpty str \<longleftrightarrow> str = []"

section \<open>The HTML-escaping string encoder is a codec\<close>

text \<open>With HTML escapes the text is another, and only valid UTF-8 is kept.\<close>

definition html_text :: "bytes \<Rightarrow> bytes" where
  "html_text b = ch_quote # html_esc b @ [ch_quote]"

lemma ReadString_html:
  assumes "valid_utf8 v = v" "wf_iter it" "Error it = None" "list_all is_space ws" "pending it = ws @ html_text v @ rest"
  shows "\<exists>it'. stringCodec_Decode old it = Some (v, it') \<and> consumes it (ws @ html_text v) it' \<and> pending it' = rest"
  using ReadString_literal [OF assms(2-4), of "html_esc v @ [ch_quote]" rest v] assms(1,5) decode_html_esc [of v]
  by (simp add: html_text_def stringCodec_Decode_def)

interpretation html_string: closed_codec htmlEscapedStringEncoder_Encode "\<lambda>n. stringCodec_Decode" "\<lambda>c i. html_text" "\<lambda>v. valid_utf8 v = v" 0 "\<lambda>c. True"
proof (unfold_locales, goal_cases)
  case (2 v it ws c i t rest n old)
  then show ?case using ReadString_html [of v it ws "t # rest"] by simp
next
  case (4 v it ws c i rest n old)
  then show ?case using ReadString_html [of v it ws rest] by simp
qed (auto simp: htmlEscapedStringEncoder_Encode_def stream_adds html_text_def is_space_def)

section \<open>Encoding and decoding through the API\<close>

context closed_codec
begin

lemma Marshal_text:
  assumes "ok v" "s_Error ps = None"
  shows "fst (Marshal ps enc (Some v)) = Inr (val_text (s_cfg ps) (indention ps) v)"
  using writes [OF assms(1), of "BorrowStream ps None"] assms(2)
  by (simp add: Marshal_def WriteVal_def Let_def BorrowStream_def Stream_Reset_def Stream_Buffer_def)

lemma ReadVal_reads:
  assumes "ok v" "room \<le> maxDepth" "captured pit = None" "Error pit = None" "length (val_text c i v) < n" "cfgs (cfg pit)"
  shows "\<exists>it'. ReadVal (dec n) (Pointer old) (BorrowIterator pit (val_text c i v @ rest)) = Some (Pointer v, it')
    \<and> wf_iter it' \<and> Error it' = None \<and> pending it' = rest \<and> reader it' = None"
proof -
  let ?it = "BorrowIterator pit (val_text c i v @ rest)"
  have s: "wf_iter ?it" "Error ?it = None" "pending ?it = [] @ val_text c i v @ rest" "depth ?it = 0" "reader ?it = None" "cfg ?it = cfg pit" "captured ?it = None"
    using ResetBytes_start [OF assms(3,4), of "val_text c i v @ rest"] by (simp_all add: BorrowIterator_def ResetBytes_def)
  obtain it' where "dec n old ?it = Some (v, it')" "consumes ?it ([] @ val_text c i v) it'" "pending it' = rest"
    using reads_closed [OF assms(1) s(1,2) _ _ _ s(3) assms(5), of old] s(4,6,7) assms(2,6) by auto
  with s show ?thesis by (auto simp: ReadVal_def consumes_def same_frame_def)
qed

lemma Unmarshal_text:
  assumes "ok v" "room \<le> maxDepth" "captured pit = None" "Error pit = None" "length (val_text c i v) < n" "cfgs (cfg pit)" "list_all is_space ws"
  shows "\<exists>it'. Unmarshal pit (dec n) (val_text c i v @ ws) (Pointer old) = Some (Pointer v, None, it')"
    "\<not> is_space x \<Longrightarrow> x \<noteq> 0 \<Longrightarrow>
      \<exists>e it'. Unmarshal pit (dec n) (val_text c i v @ ws @ x # junk) (Pointer old) = Some (Pointer v, Some e, it')"
proof -
  obtain it1 where 1: "ReadVal (dec n) (Pointer old) (BorrowIterator pit (val_text c i v @ ws)) = Some (Pointer v, it1)"
      "wf_iter it1" "Error it1 = None" "pending it1 = ws" "reader it1 = None"
    using ReadVal_reads [OF assms(1-6), of old ws] by blast
  have "dropWhile is_space (pending it1) = []" using assms(7) 1(4) by (auto simp: list_all_iff)
  from nextToken_end [OF 1(2) this] obtain it2 where "nextToken it1 = (0, it2)" "Error it2 = Some (final_err it1)" by blast
  moreover have "final_err it1 = EOF" using 1(3,5) by (simp add: final_err_def end_err_def)
  ultimately show "\<exists>it'. Unmarshal pit (dec n) (val_text c i v @ ws) (Pointer old) = Some (Pointer v, None, it')"
    using 1(1) by (simp add: Unmarshal_def)
next
  assume x: "\<not> is_space x" "x \<noteq> 0"
  obtain it1 where 1: "ReadVal (dec n) (Pointer old) (BorrowIterator pit (val_text c i v @ ws @ x # junk)) = Some (Pointer v, it1)"
      "wf_iter it1" "Error it1 = None" "pending it1 = ws @ x # junk"
    using ReadVal_reads [OF assms(1-6), of old "ws @ x # junk"] by blast
  obtain it2 where 2: "nextToken it1 = (x, it2)" "consumes it1 (ws @ [x]) it2"
    using nextToken_at [OF 1(2) assms(7) 1(4) x(1)] by blast
  obtain e where "Error (ReportError ''Unmarshal'' ''there are bytes left after unmarshal'' it2) = Some e"
    using ReportError_Error_not_None by blast
  then show "\<exists>e it'. Unmarshal pit (dec n) (val_text c i v @ ws @ x # junk) (Pointer old) = Some (Pointer v, Some e, it')"
    using 1(1) 2(1) x(2) by (simp add: Unmarshal_def Let_def)
qed

end

section \<open>A stream of values\<close>

definition encode_all :: "'v encoder \<Rightarrow> 'v list \<Rightarrow> stream \<Rightarrow> stream" where
  "encode_all enc vs s = foldl (\<lambda>s v. snd (Encoder_Encode enc (Some v) s)) s vs"

text \<open>As many calls of \<open>Decode\<close> as there are variables, with what these hold.\<close>

fun decode_all :: "'v decoder \<Rightarrow> 'v list \<Rightarrow> iterator \<Rightarrow> (('v target \<times> go_error option) list \<times> iterator) option" where
  "decode_all dec [] it = Some ([], it)"
| "decode_all dec (old # olds) it =
     (case Decoder_Decode dec (Pointer old) it of
        None \<Rightarrow> None
      | Some (obj, err, it1) \<Rightarrow> map_option (\<lambda>(xs, it2). ((obj, err) # xs, it2)) (decode_all dec olds it1))"

context codec
begin

definition lines_text :: "frozenConfig \<Rightarrow> 'v list \<Rightarrow> bytes" where
  "lines_text c vs = concat (map (\<lambda>v. val_text c 0 v @ [ch_nl]) vs)"

lemma encode_all_sink:
  assumes "list_all ok vs"
  shows "encode_all enc vs \<lparr>s_cfg = c, s_out = Some \<lparr>sink = b, script = []\<rparr>, s_buf = [], s_Error = None, indention = 0\<rparr>
    = \<lparr>s_cfg = c, s_out = Some \<lparr>sink = b @ lines_text c vs, script = []\<rparr>, s_buf = [], s_Error = None, indention = 0\<rparr>"
  using assms
proof (induction vs arbitrary: b)
  case (Cons v vs)
  let ?s = "\<lambda>b. \<lparr>s_cfg = c, s_out = Some \<lparr>sink = b, script = []\<rparr>, s_buf = [], s_Error = None, indention = 0\<rparr>"
  have "enc v (?s b) = adds (val_text c 0 v) (?s b)" using writes [of v "?s b"] Cons.prems by simp
  then have "snd (Encoder_Encode enc (Some v) (?s b)) = ?s (b @ val_text c 0 v @ [ch_nl])"
    by (simp add: Encoder_Encode_def WriteVal_def Let_def WriteRaw_def adds_def Flush_def writer_Write_def)
  with Cons show ?case by (simp add: encode_all_def lines_text_def)
qed (simp add: encode_all_def lines_text_def)

lemma Decode_reads:
  assumes "ok v" "room \<le> maxDepth" "wf_iter it" "Error it = None" "depth it = 0" "list_all is_space ws"
    "pending it = ws @ val_text c 0 v @ ch_nl # rest" "length (val_text c 0 v) < n" "cfgs (cfg it)" "captured it = None"
  shows "\<exists>it'. Decoder_Decode (dec n) (Pointer old) it = Some (Pointer v, None, it')
    \<and> wf_iter it' \<and> Error it' = None \<and> depth it' = 0 \<and> cfg it' = cfg it \<and> captured it' = None \<and> pending it' = ch_nl # rest"
proof -
  let ?l = "if head it = tail it \<and> reader it \<noteq> None then loadMore it else (True, it)"
  have "\<exists>it1. ?l = (True, it1) \<and> consumes it [] it1"
  proof (cases "head it = tail it \<and> reader it \<noteq> None")
    case True
    then have w: "gslice (buf it) (head it) (tail it) = []" by (simp add: gslice_empty)
    then have "rest_bytes it \<noteq> []" using assms(7) by (auto simp: pending_def)
    then obtain it1 where "loadMore it = (True, it1)" using loadMore_rest [OF assms(3)] by (cases "loadMore it") auto
    with loadMore_True [OF this assms(3)] w True show ?thesis by auto
  next
    case False
    then show ?thesis using consumes_refl [OF assms(3)] by auto
  qed
  then obtain it1 where 1: "?l = (True, it1)" "consumes it [] it1" by blast
  note s1 = consumes_same [OF 1(2)]
  have p1: "pending it1 = ws @ val_text c 0 v @ ch_nl # rest" using consumes_pending [OF 1(2)] assms(7) by simp
  have "\<not> number_char ch_nl" by (simp add: number_char_def is_digit_def)
  then obtain it2 where 2: "dec n old it1 = Some (v, it2)" "consumes it1 (ws @ val_text c 0 v) it2" "pending it2 = ch_nl # rest"
    using reads [OF assms(1), of it1 ws c 0 ch_nl rest n old] p1 s1 assms by auto
  from consumes_same [OF 2(2)] s1 1(1) 2 assms(4,5,10) show ?thesis by (auto simp: Decoder_Decode_def ReadVal_def)
qed

lemma decode_all_reads:
  assumes "list_all ok vs" "room \<le> maxDepth" "wf_iter it" "Error it = None" "depth it = 0" "list_all is_space ws"
    "pending it = ws @ lines_text c vs" "length (lines_text c vs) < n" "length olds = length vs" "cfgs (cfg it)" "captured it = None"
  shows "\<exists>it'. decode_all (dec n) olds it = Some (map (\<lambda>v. (Pointer v, None)) vs, it')
    \<and> wf_iter it' \<and> Error it' = None \<and> list_all is_space (pending it')"
  using assms
proof (induction vs arbitrary: it ws olds)
  case (Cons v vs)
  obtain old olds' where os: "olds = old # olds'" "length olds' = length vs" using Cons.prems(9) by (cases olds) auto
  have tx: "lines_text c (v # vs) = val_text c 0 v @ ch_nl # lines_text c vs" by (simp add: lines_text_def)
  obtain it1 where 1: "Decoder_Decode (dec n) (Pointer old) it = Some (Pointer v, None, it1)" "wf_iter it1" "Error it1 = None"
      "depth it1 = 0" "pending it1 = [ch_nl] @ lines_text c vs" "cfg it1 = cfg it" "captured it1 = None"
    using Decode_reads [OF _ Cons.prems(2-6), of v c "lines_text c vs" n old] Cons.prems by (auto simp: tx)
  have "list_all is_space [ch_nl]" by (simp add: is_space_def)
  from Cons.IH [OF _ Cons.prems(2) 1(2-4) this 1(5) _ os(2)] Cons.prems 1(6,7) obtain it' where
    "decode_all (dec n) olds' it1 = Some (map (\<lambda>v. (Pointer v, None)) vs, it')" "wf_iter it'" "Error it' = None" "list_all is_space (pending it')"
    by (auto simp: tx)
  with 1(1) os(1) show ?case by simp
qed (simp add: lines_text_def)

end

section \<open>The beginning of a stream\<close>

lemma Parse_start:
  assumes "reader_fits n (Some r)"
  shows "wf_iter (Parse c r n) \<and> Error (Parse c r n) = None \<and> depth (Parse c r n) = 0 \<and> cfg (Parse c r n) = c \<and> captured (Parse c r n) = None \<and> pending (Parse c r n) = src_bytes r"
  using assms by (simp add: Parse_def wf_iter_def pending_def rest_bytes_def gslice_empty)

lemma Decoder_More_end:
  assumes "wf_iter it" "Error it = None" "list_all is_space (pending it)"
  shows "\<not> fst (Decoder_More it)"
proof -
  have "dropWhile is_space (pending it) = []" using assms(3) by (auto simp: list_all_iff)
  from nextToken_end [OF assms(1) this] show ?thesis using assms(2) by (auto simp: Decoder_More_def)
qed

section \<open>Properties\<close>


text \<open>C3: what an \<open>Encoder\<close> writes for a list of values, a \<open>Decoder\<close> reads back value by value, however the
  reader cuts the bytes up, and \<open>More\<close> sees the end.\<close>

theorem Decoder_reads_Encoder:
  assumes "codec enc dec txt ok room cfgs" "cfgs c'" "room \<le> maxDepth" "list_all ok vs"
    "s_out (encode_all enc vs (NewEncoder c \<lparr>sink = [], script = []\<rparr>)) = Some w"
    "src_bytes r = sink w" "reader_fits 512 (Some r)" "length olds = length vs"
  shows "\<exists>m. \<forall>k. \<exists>it'. decode_all (dec (m + k)) olds (NewDecoder c' r) = Some (map (\<lambda>v. (Pointer v, None)) vs, it')
    \<and> \<not> fst (Decoder_More it')"
proof (rule exI, rule allI)
  fix k
  let ?t = "codec.lines_text txt c vs"
  have w: "sink w = ?t"
    using codec.encode_all_sink [OF assms(1,4), of c "[]"] assms(5) by (auto simp: NewEncoder_def NewStream_def)
  have "\<exists>it'. decode_all (dec (Suc (length ?t) + k)) olds (NewDecoder c' r) = Some (map (\<lambda>v. (Pointer v, None)) vs, it')
      \<and> wf_iter it' \<and> Error it' = None \<and> list_all is_space (pending it')"
    by (rule codec.decode_all_reads [OF assms(1,4,3) _ _ _ _ _ _ assms(8), where ws = "[]" and c = c])
       (use Parse_start [OF assms(7), of c'] assms(2,6) w in \<open>simp_all add: NewDecoder_def\<close>)
  with Decoder_More_end show "\<exists>it'. decode_all (dec (Suc (length ?t) + k)) olds (NewDecoder c' r) = Some (map (\<lambda>v. (Pointer v, None)) vs, it')
      \<and> \<not> fst (Decoder_More it')" by blast
qed


section \<open>Deviations\<close>

text \<open>A number at the very end of the input is invalid for \<open>Valid\<close>, since the end of the input shows as
  an error; \<open>Unmarshal\<close>, which does tell it apart, takes a byte 0 for the end.\<close>

lemma Valid_refuses_numbers:
  "Valid 9 (ParseBytes ConfigDefault []) (map of_char ''1'') = Some False
   \<and> Valid 9 (ParseBytes ConfigDefault []) (map of_char ''0'') = Some False
   \<and> Valid 9 (ParseBytes ConfigDefault []) (map of_char ''1 '') = Some True
   \<and> Valid 9 (ParseBytes ConfigDefault []) (map of_char ''{} x'') = Some True"
  by (intro conjI; code_simp)

lemma zero_byte_ends_input:
  "map_option (\<lambda>(v, e, it). (v, e)) (Unmarshal (ParseBytes ConfigDefault []) (int64Codec_Decode) (map of_char ''1'' @ [0] @ map of_char ''xy'') (Pointer 5))
    = Some (Pointer 1, None)"
  by code_simp

section \<open>Witnesses\<close>


theorem Decoder_reads_Encoder_witness:
  "\<exists>m :: nat. \<forall>k :: nat. \<exists>it'. decode_all (stringCodec_Decode) [[], [1]]
      (NewDecoder ConfigDefault [(map of_char [CHR 0x22, CHR ''a'', CHR 0x22, CHR 0x0A, CHR 0x22], None), (map of_char [CHR ''b'', CHR 0x22, CHR 0x0A], Some EOF)])
      = Some (map (\<lambda>v. (Pointer v, None)) [map of_char ''a'', map of_char ''b''], it')
    \<and> \<not> fst (Decoder_More it')"
proof -
  have "s_out (encode_all stringCodec_Encode [map of_char ''a'', map of_char ''b''] (NewEncoder ConfigDefault \<lparr>sink = [], script = []\<rparr>))
    = Some \<lparr>sink = map of_char [CHR 0x22, CHR ''a'', CHR 0x22, CHR 0x0A, CHR 0x22, CHR ''b'', CHR 0x22, CHR 0x0A], script = []\<rparr>"
    by code_simp
  note D = Decoder_reads_Encoder [where dec = "\<lambda>n. stringCodec_Decode", OF string.codec_axioms TrueI zero_room _ this]
  show ?thesis by (rule D) (simp_all add: reader_fits.simps)
qed


end
