(* ===== verification/GoTypes.thy ===== *)
theory GoTypes
  imports Api
begin

text \<open>
  \<open>reflect.go\<close>, \<open>reflect_extension.go\<close> and the constructors of the other \<open>reflect_*.go\<close>: the choice of the
  encoder and the decoder of a type, from its description by reflect2.

  Go types are values of \<open>gotype\<close> (kind, \<open>String()\<close> and parts of a \<open>reflect2.Type\<close>), Go values are values of
  \<open>gval\<close>. A type whose description contains itself, for which the code keeps maps of placeholders, is not a
  \<open>gotype\<close>. \<open>int\<close>, \<open>uint\<close> and \<open>uintptr\<close> have 64 bits. \<open>ctx\<close> holds the configuration, the extensions and the
  registered codecs, and what the model is given of reflect2, of the methods of user types and of the pools.
\<close>

section \<open>Types and values\<close>

datatype kind = Bool | IntKind | Int8 | Int16 | Int32 | Int64 | Uint | Uint8 | Uint16 | Uint32 | Uint64 | Uintptr
  | Float32 | Float64 | String | Array | Interface | Map | Ptr | Slice | Struct | OtherKind

text \<open>A field has a name, the mark of an embedded field, its tag as a list of keys and values, and its type.\<close>

datatype gotype =
    Basic kind string
  | SliceType string gotype
  | ArrayType string nat gotype
  | PtrType gotype
  | MapType string gotype gotype
  | StructType string string "gofield list"
  | OtherType kind string
and gofield = Field (Name: string) (Anonymous: bool) (Tag: "(string \<times> string) list") (Type: gotype)

fun Kind :: "gotype \<Rightarrow> kind" where
  "Kind (Basic k s) = k"
| "Kind (SliceType s t) = Slice"
| "Kind (ArrayType s n t) = Array"
| "Kind (PtrType t) = Ptr"
| "Kind (MapType s k t) = Map"
| "Kind (StructType m s fs) = Struct"
| "Kind (OtherType k s) = k"

fun TypeString :: "gotype \<Rightarrow> string" where
  "TypeString (Basic k s) = s"
| "TypeString (SliceType s t) = s"
| "TypeString (ArrayType s n t) = s"
| "TypeString (PtrType t) = CHR ''*'' # TypeString t"
| "TypeString (MapType s k t) = s"
| "TypeString (StructType m s fs) = s"
| "TypeString (OtherType k s) = s"

text \<open>Nil slices, pointers and maps are \<open>None\<close>; a map is a finite function on its keys.\<close>

datatype gkey = KeyString bytes | Key8 byte | Key16 u16 | Key32 u32 | Key64 u64 | KeyBool bool

datatype gval = VBool bool | V8 byte | V16 u16 | V32 u32 | V64 u64 | VString bytes
  | VSlice "gval list option" | VArray "gval list" | VPtr "gval option" | VMap "(gkey \<rightharpoonup> gval) option"
  | VStruct "gval list"

text \<open>What a value holds. Types fix the constructor; for other values the result does not matter.\<close>

fun to_bool :: "gval \<Rightarrow> bool" where "to_bool (VBool b) = b" | "to_bool _ = False"
fun to_8 :: "gval \<Rightarrow> byte" where "to_8 (V8 w) = w" | "to_8 _ = 0"
fun to_16 :: "gval \<Rightarrow> u16" where "to_16 (V16 w) = w" | "to_16 _ = 0"
fun to_32 :: "gval \<Rightarrow> u32" where "to_32 (V32 w) = w" | "to_32 _ = 0"
fun to_64 :: "gval \<Rightarrow> u64" where "to_64 (V64 w) = w" | "to_64 _ = 0"
fun to_string :: "gval \<Rightarrow> bytes" where "to_string (VString s) = s" | "to_string _ = []"
fun to_slice :: "gval \<Rightarrow> gval list option" where "to_slice (VSlice v) = v" | "to_slice _ = None"
fun to_ptr :: "gval \<Rightarrow> gval option" where "to_ptr (VPtr v) = v" | "to_ptr _ = None"
fun to_map :: "gval \<Rightarrow> (gkey \<rightharpoonup> gval) option" where "to_map (VMap m) = m" | "to_map _ = None"

text \<open>The elements of an array or the fields of a struct: as many as in \<open>zs\<close>.\<close>

definition fit :: "gval list \<Rightarrow> gval list \<Rightarrow> gval list" where
  "fit zs vs = take (length zs) vs @ drop (length vs) zs"

fun to_array :: "gval list \<Rightarrow> gval \<Rightarrow> gval list" where
  "to_array zs (VArray vs) = fit zs vs" | "to_array zs _ = zs"

fun to_struct :: "gval list \<Rightarrow> gval \<Rightarrow> gval list" where
  "to_struct zs (VStruct vs) = fit zs vs" | "to_struct zs _ = zs"

definition to_bytes :: "gval \<Rightarrow> bytes option" where
  "to_bytes v = map_option (map to_8) (to_slice v)"

definition of_bytes :: "bytes option \<Rightarrow> gval" where
  "of_bytes b = VSlice (map_option (map V8) b)"

fun of_key :: "gkey \<Rightarrow> gval" where
  "of_key (KeyString s) = VString s" | "of_key (Key8 w) = V8 w" | "of_key (Key16 w) = V16 w" | "of_key (Key32 w) = V32 w"
| "of_key (Key64 w) = V64 w" | "of_key (KeyBool b) = VBool b"

fun to_key :: "gval \<Rightarrow> gkey" where
  "to_key (V8 w) = Key8 w" | "to_key (V16 w) = Key16 w" | "to_key (V32 w) = Key32 w"
| "to_key (V64 w) = Key64 w" | "to_key (VBool b) = KeyBool b" | "to_key v = KeyString (to_string v)"

lemma size_Type [termination_simp]: "f \<in> set fs \<Longrightarrow> size (Type f) < Suc (size_list size fs)"
proof -
  assume "f \<in> set fs"
  then have "size f \<le> size_list size fs"
    by (rule size_list_estimation') simp
  moreover have "size (Type f) < size f"
    by (cases f) simp
  ultimately show ?thesis
    by simp
qed

text \<open>The zero value of a type.\<close>

fun zero :: "gotype \<Rightarrow> gval" where
  "zero (Basic k s) =
     (if k = Bool then VBool False else if k = String then VString []
      else if k = Int8 \<or> k = Uint8 then V8 0 else if k = Int16 \<or> k = Uint16 then V16 0
      else if k = Int32 \<or> k = Uint32 then V32 0 else V64 0)"
| "zero (SliceType s t) = VSlice None"
| "zero (ArrayType s n t) = VArray (replicate n (zero t))"
| "zero (PtrType t) = VPtr None"
| "zero (MapType s k t) = VMap None"
| "zero (StructType m s fs) = VStruct (map (\<lambda>f. zero (Type f)) fs)"
| "zero (OtherType k s) = VPtr None"

section \<open>Encoders, decoders, extensions\<close>

type_synonym gdecoder = "nat \<Rightarrow> gval decoder"

text \<open>The methods of a \<open>ValEncoder\<close>; only some have the last one.\<close>

record gencoder =
  Encode :: "gval encoder"
  IsEmpty :: "gval \<Rightarrow> bool"
  EmbeddedPtrNil :: "(gval \<Rightarrow> bool) option"

text \<open>A codec of what a value holds, as a codec of values.\<close>

definition val_encoder :: "(gval \<Rightarrow> 'v) \<Rightarrow> 'v encoder \<Rightarrow> ('v \<Rightarrow> bool) \<Rightarrow> gencoder" where
  "val_encoder proj enc isEmpty =
     \<lparr>Encode = (\<lambda>v. enc (proj v)), IsEmpty = (\<lambda>v. isEmpty (proj v)), EmbeddedPtrNil = None\<rparr>"

definition val_decoder :: "('v \<Rightarrow> gval) \<Rightarrow> (gval \<Rightarrow> 'v) \<Rightarrow> 'v decoder \<Rightarrow> gval decoder" where
  "val_decoder wrap proj dec old it = map_option (\<lambda>(v, it1). (wrap v, it1)) (dec (proj old) it)"

text \<open>The binding of a field before \<open>processTags\<close>, with the index of the field.\<close>

record rawBinding =
  Index :: nat
  rawField :: gofield
  rawLevels :: "int list"
  rawFromNames :: "string list"
  rawToNames :: "string list"
  rawEncoder :: gencoder
  rawDecoder :: gdecoder

record extension =
  UpdateStructDescriptor :: "rawBinding list \<Rightarrow> rawBinding list"
  CreateMapKeyDecoder :: "gotype \<Rightarrow> gdecoder option"
  CreateMapKeyEncoder :: "gotype \<Rightarrow> gencoder option"
  CreateDecoder :: "gotype \<Rightarrow> gdecoder option"
  CreateEncoder :: "gotype \<Rightarrow> gencoder option"
  DecorateDecoder :: "gotype \<Rightarrow> gdecoder \<Rightarrow> gdecoder"
  DecorateEncoder :: "gotype \<Rightarrow> gencoder \<Rightarrow> gencoder"

definition DummyExtension :: extension where
  "DummyExtension = \<lparr>UpdateStructDescriptor = id, CreateMapKeyDecoder = Map.empty, CreateMapKeyEncoder = Map.empty,
     CreateDecoder = Map.empty, CreateEncoder = Map.empty, DecorateDecoder = (\<lambda>t d. d), DecorateEncoder = (\<lambda>t e. e)\<rparr>"

text \<open>A map from types to encoders, or to decoders, as an extension.\<close>

definition EncoderExtension :: "(gotype \<rightharpoonup> gencoder) \<Rightarrow> extension" where
  "EncoderExtension m = DummyExtension\<lparr>CreateEncoder := m\<rparr>"

definition DecoderExtension :: "(gotype \<rightharpoonup> gdecoder) \<Rightarrow> extension" where
  "DecoderExtension m = DummyExtension\<lparr>CreateDecoder := m\<rparr>"

text \<open>The last fields are parameters: the codecs of types with their own methods (\<open>reflect_marshaler.go\<close>), of
  \<open>Any\<close> types, of interface types (\<open>reflect_dynamic.go\<close>) and of floats, \<open>UnsafeGrow\<close>, the order of iteration over
  a map, \<open>strings.ToLower\<close>, the texts of base64 errors, the lossy float encoders, whether \<open>iter.Read\<close> accepts a
  raw message, the decoder that \<open>useNumber\<close> gives \<open>interface{}\<close>, the pools.\<close>

record ctx =
  config :: frozenConfig
  ctxPrefix :: string
  extensions :: "extension list"
  encoderExtension :: extension
  decoderExtension :: extension
  ctxExtraExtensions :: "extension list"
  typeDecoders :: "string \<rightharpoonup> gdecoder"
  fieldDecoders :: "string \<rightharpoonup> gdecoder"
  typeEncoders :: "string \<rightharpoonup> gencoder"
  fieldEncoders :: "string \<rightharpoonup> gencoder"
  marshalerEncoder :: "gotype \<Rightarrow> gencoder option"
  marshalerDecoder :: "gotype \<Rightarrow> gdecoder option"
  keyMarshalerEncoder :: "gotype \<Rightarrow> gencoder option"
  keyMarshalerDecoder :: "gotype \<Rightarrow> gdecoder option"
  anyEncoder :: "gotype \<Rightarrow> gencoder option"
  anyDecoder :: "gotype \<Rightarrow> gdecoder option"
  ifaceEncoder :: "gotype \<Rightarrow> gencoder"
  ifaceDecoder :: "gotype \<Rightarrow> gdecoder"
  ifaceKeyEncoder :: "gotype \<Rightarrow> gencoder"
  floatEncoder :: "kind \<Rightarrow> gencoder"
  floatDecoder :: "kind \<Rightarrow> gdecoder"
  UnsafeGrow :: "gval \<Rightarrow> gval list \<Rightarrow> nat \<Rightarrow> gval list"
  iterate :: "(gkey \<rightharpoonup> gval) \<Rightarrow> (gkey \<times> gval) list"
  ToLower :: "bytes \<Rightarrow> bytes"
  base64Error :: "bytes \<Rightarrow> string"
  lossyEncoder :: "kind \<Rightarrow> gencoder"
  rawMessageIsValid :: "bytes \<Rightarrow> bool"
  numberDecoder :: gdecoder
  streamPool :: stream
  iteratorPool :: iterator

definition ctx_append :: "string \<Rightarrow> ctx \<Rightarrow> ctx" where
  "ctx_append p c = c\<lparr>ctxPrefix := ctxPrefix c @ '' '' @ p\<rparr>"

text \<open>All extensions, in the order in which they are asked.\<close>

definition decoder_extensions :: "ctx \<Rightarrow> extension list" where
  "decoder_extensions c = extensions c @ decoderExtension c # ctxExtraExtensions c"

definition encoder_extensions :: "ctx \<Rightarrow> extension list" where
  "encoder_extensions c = extensions c @ encoderExtension c # ctxExtraExtensions c"

definition decorate_decoder :: "ctx \<Rightarrow> gotype \<Rightarrow> gdecoder \<Rightarrow> gdecoder" where
  "decorate_decoder c typ d = foldl (\<lambda>d e. DecorateDecoder e typ d) d (decoder_extensions c)"

definition decorate_encoder :: "ctx \<Rightarrow> gotype \<Rightarrow> gencoder \<Rightarrow> gencoder" where
  "decorate_encoder c typ x = foldl (\<lambda>x e. DecorateEncoder e typ x) x (encoder_extensions c)"

text \<open>The first answer in a list.\<close>

fun first_Some :: "'a option list \<Rightarrow> 'a option" where
  "first_Some [] = None"
| "first_Some (Some x # xs) = Some x"
| "first_Some (None # xs) = first_Some xs"

definition getTypeDecoderFromExtension_raw :: "ctx \<Rightarrow> gotype \<Rightarrow> gdecoder option" where
  "getTypeDecoderFromExtension_raw c typ =
     (case first_Some (map (\<lambda>e. CreateDecoder e typ) (decoder_extensions c)) of
        Some d \<Rightarrow> Some d
      | None \<Rightarrow>
          (case typeDecoders c (TypeString typ) of
             Some d \<Rightarrow> Some d
           | None \<Rightarrow>
               (case typ of
                  PtrType t \<Rightarrow>
                    map_option (\<lambda>d n. val_decoder VPtr to_ptr (OptionalDecoder_Decode (zero t) (d n))) (typeDecoders c (TypeString t))
                | _ \<Rightarrow> None)))"

definition getTypeDecoderFromExtension :: "ctx \<Rightarrow> gotype \<Rightarrow> gdecoder option" where
  "getTypeDecoderFromExtension c typ = map_option (decorate_decoder c typ) (getTypeDecoderFromExtension_raw c typ)"

definition getTypeEncoderFromExtension_raw :: "ctx \<Rightarrow> gotype \<Rightarrow> gencoder option" where
  "getTypeEncoderFromExtension_raw c typ =
     (case first_Some (map (\<lambda>e. CreateEncoder e typ) (encoder_extensions c)) of
        Some x \<Rightarrow> Some x
      | None \<Rightarrow>
          (case typeEncoders c (TypeString typ) of
             Some x \<Rightarrow> Some x
           | None \<Rightarrow>
               (case typ of
                  PtrType t \<Rightarrow>
                    map_option (\<lambda>x. val_encoder to_ptr (OptionalEncoder_Encode (Encode x)) OptionalEncoder_IsEmpty)
                      (typeEncoders c (TypeString t))
                | _ \<Rightarrow> None)))"

definition getTypeEncoderFromExtension :: "ctx \<Rightarrow> gotype \<Rightarrow> gencoder option" where
  "getTypeEncoderFromExtension c typ = map_option (decorate_encoder c typ) (getTypeEncoderFromExtension_raw c typ)"

section \<open>Registration\<close>

text \<open>The maps and the list of extensions are global; here they are part of the \<open>ctx\<close>. \<open>funcEncoder\<close> is an encoder made of
  functions, of which that for emptiness may be nil.\<close>

definition funcEncoder :: "gval encoder \<Rightarrow> (gval \<Rightarrow> bool) option \<Rightarrow> gencoder" where
  "funcEncoder f isEmptyFunc =
     \<lparr>Encode = f, IsEmpty = (\<lambda>v. case isEmptyFunc of None \<Rightarrow> False | Some e \<Rightarrow> e v), EmbeddedPtrNil = None\<rparr>"

definition RegisterTypeDecoder :: "string \<Rightarrow> gdecoder \<Rightarrow> ctx \<Rightarrow> ctx" where
  "RegisterTypeDecoder typ decoder c = c\<lparr>typeDecoders := (typeDecoders c)(typ \<mapsto> decoder)\<rparr>"

definition RegisterFieldDecoder :: "string \<Rightarrow> string \<Rightarrow> gdecoder \<Rightarrow> ctx \<Rightarrow> ctx" where
  "RegisterFieldDecoder typ field decoder c = c\<lparr>fieldDecoders := (fieldDecoders c)(typ @ ''/'' @ field \<mapsto> decoder)\<rparr>"

definition RegisterTypeEncoder :: "string \<Rightarrow> gencoder \<Rightarrow> ctx \<Rightarrow> ctx" where
  "RegisterTypeEncoder typ encoder c = c\<lparr>typeEncoders := (typeEncoders c)(typ \<mapsto> encoder)\<rparr>"

definition RegisterTypeEncoderFunc :: "string \<Rightarrow> gval encoder \<Rightarrow> (gval \<Rightarrow> bool) option \<Rightarrow> ctx \<Rightarrow> ctx" where
  "RegisterTypeEncoderFunc typ f isEmptyFunc c = c\<lparr>typeEncoders := (typeEncoders c)(typ \<mapsto> funcEncoder f isEmptyFunc)\<rparr>"

definition RegisterFieldEncoder :: "string \<Rightarrow> string \<Rightarrow> gencoder \<Rightarrow> ctx \<Rightarrow> ctx" where
  "RegisterFieldEncoder typ field encoder c = c\<lparr>fieldEncoders := (fieldEncoders c)(typ @ ''/'' @ field \<mapsto> encoder)\<rparr>"

definition RegisterFieldEncoderFunc :: "string \<Rightarrow> string \<Rightarrow> gval encoder \<Rightarrow> (gval \<Rightarrow> bool) option \<Rightarrow> ctx \<Rightarrow> ctx" where
  "RegisterFieldEncoderFunc typ field f isEmptyFunc c = RegisterFieldEncoder typ field (funcEncoder f isEmptyFunc) c"

definition RegisterGlobalExtension :: "extension \<Rightarrow> ctx \<Rightarrow> ctx" where
  "RegisterGlobalExtension e c = c\<lparr>extensions := extensions c @ [e]\<rparr>"

section \<open>Codecs of the kinds\<close>

text \<open>The name that the predeclared type of a kind has.\<close>

fun kind_name :: "kind \<Rightarrow> string" where
  "kind_name Bool = ''bool''" | "kind_name IntKind = ''int''" | "kind_name Int8 = ''int8''" | "kind_name Int16 = ''int16''"
| "kind_name Int32 = ''int32''" | "kind_name Int64 = ''int64''" | "kind_name Uint = ''uint''" | "kind_name Uint8 = ''uint8''"
| "kind_name Uint16 = ''uint16''" | "kind_name Uint32 = ''uint32''" | "kind_name Uint64 = ''uint64''"
| "kind_name Uintptr = ''uintptr''" | "kind_name Float32 = ''float32''" | "kind_name Float64 = ''float64''"
| "kind_name String = ''string''" | "kind_name _ = []"

definition native_kind :: "kind \<Rightarrow> bool" where
  "native_kind k \<longleftrightarrow> kind_name k \<noteq> []"

definition createEncoderOfNative :: "ctx \<Rightarrow> kind \<Rightarrow> gencoder" where
  "createEncoderOfNative c k =
     (if k = String then val_encoder to_string stringCodec_Encode stringCodec_IsEmpty
      else if k = IntKind then val_encoder to_64 int64Codec_Encode int64Codec_IsEmpty
      else if k = Int8 then val_encoder to_8 int8Codec_Encode int8Codec_IsEmpty
      else if k = Int16 then val_encoder to_16 int16Codec_Encode int16Codec_IsEmpty
      else if k = Int32 then val_encoder to_32 int32Codec_Encode int32Codec_IsEmpty
      else if k = Int64 then val_encoder to_64 int64Codec_Encode int64Codec_IsEmpty
      else if k = Uint then val_encoder to_64 uint64Codec_Encode uint64Codec_IsEmpty
      else if k = Uint8 then val_encoder to_8 uint8Codec_Encode uint8Codec_IsEmpty
      else if k = Uint16 then val_encoder to_16 uint16Codec_Encode uint16Codec_IsEmpty
      else if k = Uint32 then val_encoder to_32 uint32Codec_Encode uint32Codec_IsEmpty
      else if k = Uintptr then val_encoder to_64 uint64Codec_Encode uint64Codec_IsEmpty
      else if k = Uint64 then val_encoder to_64 uint64Codec_Encode uint64Codec_IsEmpty
      else if k = Bool then val_encoder to_bool boolCodec_Encode boolCodec_IsEmpty
      else floatEncoder c k)"

definition createDecoderOfNative :: "ctx \<Rightarrow> kind \<Rightarrow> gdecoder" where
  "createDecoderOfNative c k =
     (if k = String then (\<lambda>n. val_decoder VString to_string stringCodec_Decode)
      else if k = IntKind then (\<lambda>n. val_decoder V64 to_64 int64Codec_Decode)
      else if k = Int8 then (\<lambda>n. val_decoder V8 to_8 int8Codec_Decode)
      else if k = Int16 then (\<lambda>n. val_decoder V16 to_16 int16Codec_Decode)
      else if k = Int32 then (\<lambda>n. val_decoder V32 to_32 int32Codec_Decode)
      else if k = Int64 then (\<lambda>n. val_decoder V64 to_64 int64Codec_Decode)
      else if k = Uint then (\<lambda>n. val_decoder V64 to_64 uint64Codec_Decode)
      else if k = Uint8 then (\<lambda>n. val_decoder V8 to_8 uint8Codec_Decode)
      else if k = Uint16 then (\<lambda>n. val_decoder V16 to_16 uint16Codec_Decode)
      else if k = Uint32 then (\<lambda>n. val_decoder V32 to_32 uint32Codec_Decode)
      else if k = Uintptr then (\<lambda>n. val_decoder V64 to_64 uint64Codec_Decode)
      else if k = Uint64 then (\<lambda>n. val_decoder V64 to_64 uint64Codec_Decode)
      else if k = Bool then (\<lambda>n. val_decoder VBool to_bool boolCodec_Decode)
      else floatDecoder c k)"

text \<open>The types that are recognised before their kind is looked at, by identity, so by name.\<close>

definition createEncoderOfJsonRawMessage :: "gotype \<Rightarrow> gencoder option" where
  "createEncoderOfJsonRawMessage typ =
     (if TypeString typ = ''json.RawMessage'' then Some (val_encoder to_bytes jsonRawMessageCodec_Encode jsonRawMessageCodec_IsEmpty)
      else if TypeString typ = ''jsoniter.RawMessage'' then
        Some (val_encoder to_bytes jsoniterRawMessageCodec_Encode jsoniterRawMessageCodec_IsEmpty)
      else None)"

definition createDecoderOfJsonRawMessage :: "gotype \<Rightarrow> gdecoder option" where
  "createDecoderOfJsonRawMessage typ =
     (if TypeString typ = ''json.RawMessage'' then Some (\<lambda>n. val_decoder of_bytes to_bytes (jsonRawMessageCodec_Decode n))
      else if TypeString typ = ''jsoniter.RawMessage'' then Some (\<lambda>n. val_decoder of_bytes to_bytes (jsoniterRawMessageCodec_Decode n))
      else None)"

definition createEncoderOfJsonNumber :: "gotype \<Rightarrow> gencoder option" where
  "createEncoderOfJsonNumber typ =
     (if TypeString typ = ''json.Number'' then Some (val_encoder to_string jsonNumberCodec_Encode jsonNumberCodec_IsEmpty)
      else if TypeString typ = ''jsoniter.Number'' then
        Some (val_encoder to_string jsoniterNumberCodec_Encode jsoniterNumberCodec_IsEmpty)
      else None)"

definition createDecoderOfJsonNumber :: "gotype \<Rightarrow> gdecoder option" where
  "createDecoderOfJsonNumber typ =
     (if TypeString typ = ''json.Number'' then Some (\<lambda>n. val_decoder VString to_string jsonNumberCodec_Decode)
      else if TypeString typ = ''jsoniter.Number'' then Some (\<lambda>n. val_decoder VString to_string jsoniterNumberCodec_Decode)
      else None)"

text \<open>Unsupported types. The pointer to the value is nil when the argument of \<open>WriteVal\<close> is.\<close>

definition lazyErrorEncoder_Encode :: "go_error \<Rightarrow> 'v option encoder" where
  "lazyErrorEncoder_Encode err v s =
     (case v of None \<Rightarrow> WriteNil s | Some _ \<Rightarrow> if s_Error s = None then s\<lparr>s_Error := Some err\<rparr> else s)"

definition lazyErrorEncoder_IsEmpty :: "'v option \<Rightarrow> bool" where
  "lazyErrorEncoder_IsEmpty v \<longleftrightarrow> False"

definition lazyErrorDecoder_Decode :: "go_error \<Rightarrow> nat \<Rightarrow> 'v decoder" where
  "lazyErrorDecoder_Decode err fuel old it =
     (case WhatIsNext it of (t, it1) \<Rightarrow>
      if t \<noteq> NilValue then Some (old, if Error it1 = None then it1\<lparr>Error := Some err\<rparr> else it1)
      else map_option (Pair old) (Skip fuel it1))"

definition unsupported :: "ctx \<Rightarrow> gotype \<Rightarrow> go_error" where
  "unsupported c typ = LibErr (ctxPrefix c @ TypeString typ @ '' is unsupported type'')"

definition lazyErrorEncoder :: "go_error \<Rightarrow> gencoder" where
  "lazyErrorEncoder err = val_encoder Some (lazyErrorEncoder_Encode err) lazyErrorEncoder_IsEmpty"

section \<open>Keys of maps\<close>

text \<open>The registered global extensions are not asked. \<open>of_native\<close> is the encoder, or decoder, of the predeclared type of
  a kind; the methods of user types are parameters again.\<close>

definition encoderOfMapKey :: "ctx \<Rightarrow> gotype \<Rightarrow> (kind \<Rightarrow> gencoder) \<Rightarrow> gencoder" where
  "encoderOfMapKey c typ of_native =
     (case first_Some (map (\<lambda>e. CreateMapKeyEncoder e typ) (encoderExtension c # ctxExtraExtensions c)) of
        Some x \<Rightarrow> x
      | None \<Rightarrow>
          (case (if Kind typ \<noteq> String then keyMarshalerEncoder c typ else None) of
             Some x \<Rightarrow> x
           | None \<Rightarrow>
               if Kind typ = String then of_native String
               else if native_kind (Kind typ) then
                 (of_native (Kind typ))\<lparr>Encode := numericMapKeyEncoder_Encode (Encode (of_native (Kind typ))), IsEmpty := (\<lambda>v. False)\<rparr>
               else if Kind typ = Interface then ifaceKeyEncoder c typ
               else lazyErrorEncoder (LibErr (''unsupported map key type: '' @ TypeString typ))))"

definition decoderOfMapKey :: "ctx \<Rightarrow> gotype \<Rightarrow> (kind \<Rightarrow> gdecoder) \<Rightarrow> gdecoder" where
  "decoderOfMapKey c typ of_native =
     (case first_Some (map (\<lambda>e. CreateMapKeyDecoder e typ) (decoderExtension c # ctxExtraExtensions c)) of
        Some d \<Rightarrow> d
      | None \<Rightarrow>
          (case keyMarshalerDecoder c typ of
             Some d \<Rightarrow> d
           | None \<Rightarrow>
               if Kind typ = String then of_native String
               else if native_kind (Kind typ) then (\<lambda>n. numericMapKeyDecoder_Decode (of_native (Kind typ) n))
               else lazyErrorDecoder_Decode (LibErr (''unsupported map key type: '' @ TypeString typ))))"

section \<open>Fields of structs\<close>

text \<open>\<open>strings.Split(s, ",")\<close>; the prefix of the tag names the field, the other parts are options.\<close>

fun split_comma :: "string \<Rightarrow> string list" where
  "split_comma [] = [[]]"
| "split_comma (x # xs) = (if x = CHR '','' then [] # split_comma xs else (x # hd (split_comma xs)) # tl (split_comma xs))"

text \<open>\<open>unicode.IsLower\<close> on a byte taken for a rune.\<close>

definition IsLower :: "char \<Rightarrow> bool" where
  "IsLower x \<longleftrightarrow> (let n = of_char x :: nat in 97 \<le> n \<and> n \<le> 122 \<or> n = 181 \<or> 223 \<le> n \<and> n \<le> 255 \<and> n \<noteq> 247)"

definition calcFieldNames :: "string \<Rightarrow> string \<Rightarrow> string \<Rightarrow> string list" where
  "calcFieldNames originalFieldName tagProvidedFieldName wholeTag =
     (if wholeTag = ''-'' then []
      else
        let fieldNames = (if tagProvidedFieldName = [] then [originalFieldName] else [tagProvidedFieldName])
        in if IsLower (hd originalFieldName) \<or> hd originalFieldName = CHR ''_'' then [] else fieldNames)"

definition tag_lookup :: "ctx \<Rightarrow> gofield \<Rightarrow> string option" where
  "tag_lookup c f = map_of (Tag f) (getTagKey (config c))"

definition tag_get :: "ctx \<Rightarrow> gofield \<Rightarrow> string" where
  "tag_get c f = (case tag_lookup c f of None \<Rightarrow> [] | Some t \<Rightarrow> t)"

text \<open>Access to field \<open>i\<close> of a struct with the zero values \<open>zs\<close>.\<close>

definition field_get :: "gval list \<Rightarrow> nat \<Rightarrow> gval \<Rightarrow> gval" where
  "field_get zs i v = to_struct zs v ! i"

definition field_put :: "gval list \<Rightarrow> nat \<Rightarrow> gval \<Rightarrow> gval \<Rightarrow> gval" where
  "field_put zs i x v = VStruct ((to_struct zs v)[i := x])"

text \<open>\<open>&structFieldEncoder{field, encoder, omitempty}\<close> and \<open>&structFieldDecoder{field, decoder}\<close>.\<close>

definition field_encoder :: "gval list \<Rightarrow> nat \<Rightarrow> gofield \<Rightarrow> gencoder \<Rightarrow> bool \<Rightarrow> gval structFieldEncoder" where
  "field_encoder zs i f x omit =
     \<lparr>field_Encode = structFieldEncoder_Encode (Name f) (field_get zs i) (Encode x),
      field_IsEmpty = structFieldEncoder_IsEmpty (field_get zs i) (IsEmpty x),
      field_IsEmbeddedPtrNil = structFieldEncoder_IsEmbeddedPtrNil (field_get zs i) (EmbeddedPtrNil x),
      omitempty = omit\<rparr>"

definition field_decoder :: "gval list \<Rightarrow> nat \<Rightarrow> gofield \<Rightarrow> gdecoder \<Rightarrow> gdecoder" where
  "field_decoder zs i f d n = structFieldDecoder_Decode (Name f) (field_get zs i) (field_put zs i) (d n)"

text \<open>A binding of an embedded struct, or of one behind a pointer.\<close>

definition of_field_encoder :: "gval structFieldEncoder \<Rightarrow> gencoder" where
  "of_field_encoder x =
     \<lparr>Encode = field_Encode x, IsEmpty = field_IsEmpty x, EmbeddedPtrNil = Some (field_IsEmbeddedPtrNil x)\<rparr>"

definition dereference_encoder :: "gencoder \<Rightarrow> gencoder" where
  "dereference_encoder x =
     \<lparr>Encode = (\<lambda>v. dereferenceEncoder_Encode (Encode x) (to_ptr v)),
      IsEmpty = (\<lambda>v. dereferenceEncoder_IsEmpty (IsEmpty x) (to_ptr v)),
      EmbeddedPtrNil = Some (\<lambda>v. dereferenceEncoder_IsEmbeddedPtrNil (EmbeddedPtrNil x) (to_ptr v))\<rparr>"

definition embed :: "gval list \<Rightarrow> nat \<Rightarrow> gofield \<Rightarrow> (gencoder \<Rightarrow> gencoder) \<Rightarrow> (gdecoder \<Rightarrow> gdecoder)
    \<Rightarrow> (gval, gdecoder) Binding \<Rightarrow> (gval, gdecoder) Binding" where
  "embed zs i f wrapEnc wrapDec b =
     b\<lparr>levels := int i # levels b,
       Encoder := field_encoder zs i f (wrapEnc (of_field_encoder (Encoder b))) (omitempty (Encoder b)),
       Decoder := field_decoder zs i f (wrapDec (Decoder b))\<rparr>"

text \<open>One turn of the loop of \<open>describeStruct\<close>: a binding of the field itself, or those of an embedded struct.
  \<open>embedded\<close> describes the embedded struct.\<close>

definition describe_field :: "ctx \<Rightarrow> string \<Rightarrow> gval list \<Rightarrow> nat \<Rightarrow> gofield \<Rightarrow> gencoder \<Rightarrow> gdecoder \<Rightarrow> (gval, gdecoder) Binding list
    \<Rightarrow> rawBinding list \<times> (gval, gdecoder) Binding list" where
  "describe_field c typName zs i f enc dec embedded =
     (let tag = tag_get c f; tagParts = split_comma tag; t = Type f;
          raw = (let fieldCacheKey = typName @ ''/'' @ Name f; names = calcFieldNames (Name f) (hd tagParts) tag
                 in [\<lparr>Index = i, rawField = f, rawLevels = [int i], rawFromNames = names, rawToNames = names,
                      rawEncoder = (case fieldEncoders c fieldCacheKey of None \<Rightarrow> enc | Some e \<Rightarrow> e),
                      rawDecoder = (case fieldDecoders c fieldCacheKey of None \<Rightarrow> dec | Some d \<Rightarrow> d)\<rparr>])
      in if onlyTaggedField (config c) \<and> tag_lookup c f = None \<and> \<not> Anonymous f then ([], [])
         else if tag = ''-'' \<or> Name f = ''_'' then ([], [])
         else if Anonymous f \<and> (tag = [] \<or> hd tagParts = []) then
           (case t of
              StructType m s fs \<Rightarrow> ([], map (embed zs i f id id) embedded)
            | PtrType (StructType m s fs) \<Rightarrow>
                ([], map (embed zs i f dereference_encoder
                       (\<lambda>d n. val_decoder VPtr to_ptr (dereferenceDecoder_Decode (zero (StructType m s fs)) (d n)))) embedded)
            | _ \<Rightarrow> (raw, []))
         else (raw, []))"

text \<open>The options of the tag wrap the codecs, from left to right.\<close>

definition process_option :: "ctx \<Rightarrow> gofield \<Rightarrow> bool \<times> gencoder \<times> gdecoder \<Rightarrow> string \<Rightarrow> bool \<times> gencoder \<times> gdecoder" where
  "process_option c f = (\<lambda>(omit, x, d) tagPart.
     if tagPart = ''omitempty'' then (True, x, d)
     else if tagPart = ''string'' then
       if Kind (Type f) = String then
         (omit, x\<lparr>Encode := stringModeStringEncoder_Encode (streamPool c) (Encode x), EmbeddedPtrNil := None\<rparr>,
          \<lambda>n. val_decoder VString to_string (stringModeStringDecoder_Decode (iteratorPool c)
                (\<lambda>old it. map_option (\<lambda>(v, it1). (to_string v, it1)) (d n (VString old) it))))
       else
         (omit, x\<lparr>Encode := stringModeNumberEncoder_Encode (Encode x), EmbeddedPtrNil := None\<rparr>,
          \<lambda>n. stringModeNumberDecoder_Decode (d n))
     else (omit, x, d))"

definition processTags :: "ctx \<Rightarrow> gval list \<Rightarrow> rawBinding \<Rightarrow> (gval, gdecoder) Binding" where
  "processTags c zs b =
     (case foldl (process_option c (rawField b)) (False, rawEncoder b, rawDecoder b) (tl (split_comma (tag_get c (rawField b)))) of
        (omit, x, d) \<Rightarrow>
          \<lparr>tagged = tag_get c (rawField b) \<noteq> [], levels = rawLevels b,
           FromNames = map (map of_char) (rawFromNames b), ToNames = map (map of_char) (rawToNames b),
           Encoder = field_encoder zs (Index b) (rawField b) x omit,
           Decoder = field_decoder zs (Index b) (rawField b) d\<rparr>)"

text \<open>The order \<open>sortableBindings.Less\<close>; \<open>None\<close> when it runs past the end of a list.\<close>

fun bindings_Less :: "int list \<Rightarrow> int list \<Rightarrow> bool option" where
  "bindings_Less (l # left) (r # right) = (if l < r then Some True else if l > r then Some False else bindings_Less left right)"
| "bindings_Less _ _ = None"

definition createStructDescriptor :: "ctx \<Rightarrow> gval list \<Rightarrow> rawBinding list \<Rightarrow> (gval, gdecoder) Binding list \<Rightarrow> (gval, gdecoder) Binding list" where
  "createStructDescriptor c zs bindings embeddedBindings =
     (let fields = foldl (\<lambda>bs e. UpdateStructDescriptor e bs) bindings
            (extensions c @ encoderExtension c # decoderExtension c # ctxExtraExtensions c)
      in sort_key levels (embeddedBindings @ map (processTags c zs) fields))"

section \<open>The codec of a type\<close>

text \<open>A measure for the recursion: a named type of a predeclared kind is replaced by the predeclared type.\<close>

fun tsize :: "gotype \<Rightarrow> nat" where
  "tsize (Basic k s) = (if s = kind_name k then 0 else 1)"
| "tsize (SliceType s t) = Suc (tsize t)"
| "tsize (ArrayType s n t) = Suc (tsize t)"
| "tsize (PtrType t) = Suc (tsize t)"
| "tsize (MapType s k t) = Suc (tsize t)"
| "tsize (StructType m s fs) = Suc (sum_list (map (\<lambda>f. tsize (Type f)) fs))"
| "tsize (OtherType k s) = 0"

lemma tsize_field: "(i, f) \<in> set (enumerate n fs) \<Longrightarrow> tsize (Type f) \<le> (\<Sum>f\<leftarrow>fs. tsize (Type f))"
  using member_le_sum_list [of "tsize (Type f)" "map (\<lambda>f. tsize (Type f)) fs"] by (auto simp: in_set_enumerate_eq)

definition with_fuel :: "nat \<Rightarrow> (gval, gdecoder) Binding \<Rightarrow> (gval, gval decoder) Binding" where
  "with_fuel n b = \<lparr>tagged = tagged b, levels = levels b, FromNames = FromNames b, ToNames = ToNames b,
     Encoder = Encoder b, Decoder = Decoder b n\<rparr>"

function encoderOfType :: "ctx \<Rightarrow> gotype \<Rightarrow> gencoder"
  and decoderOfType :: "ctx \<Rightarrow> gotype \<Rightarrow> gdecoder"
  and describeStruct :: "ctx \<Rightarrow> gotype \<Rightarrow> (gval, gdecoder) Binding list" where
  "encoderOfType c typ =
     (case getTypeEncoderFromExtension c typ of
        Some x \<Rightarrow> x
      | None \<Rightarrow> decorate_encoder c typ
          (case first_Some [createEncoderOfJsonRawMessage typ, createEncoderOfJsonNumber typ, marshalerEncoder c typ, anyEncoder c typ] of
             Some x \<Rightarrow> x
           | None \<Rightarrow>
               (case typ of
                  Basic k s \<Rightarrow>
                    if \<not> native_kind k then lazyErrorEncoder (unsupported c typ)
                    else if s \<noteq> kind_name k then encoderOfType c (Basic k (kind_name k))
                    else createEncoderOfNative c k
                | SliceType s t \<Rightarrow>
                    if Kind t = Uint8 then val_encoder to_bytes base64Codec_Encode base64Codec_IsEmpty
                    else val_encoder to_slice (sliceEncoder_Encode s (Encode (encoderOfType (ctx_append ''[sliceElem]'' c) t))) sliceEncoder_IsEmpty
                | ArrayType s n t \<Rightarrow>
                    val_encoder (to_array (replicate n (zero t)))
                      (encoderOfArray s (Encode (encoderOfType (ctx_append ''[arrayElem]'' c) t)) n) (\<lambda>v. n = 0)
                | PtrType t \<Rightarrow> val_encoder to_ptr (OptionalEncoder_Encode (Encode (encoderOfType c t))) OptionalEncoder_IsEmpty
                | MapType s k t \<Rightarrow>
                    let keyEncoder = encoderOfMapKey (ctx_append ''[mapKey]'' c) k
                          (\<lambda>k. encoderOfType (ctx_append ''[mapKey]'' c) (Basic k (kind_name k)));
                        elemEncoder = encoderOfType (ctx_append ''[mapElem]'' c) t
                    in val_encoder (\<lambda>v. map_option (iterate c) (to_map v))
                         (if sortMapKeys (config c)
                          then sortKeysMapEncoder_Encode (streamPool c) (iteratorPool c) (\<lambda>k. Encode keyEncoder (of_key k)) (Encode elemEncoder)
                          else mapEncoder_Encode (\<lambda>k. Encode keyEncoder (of_key k)) (Encode elemEncoder))
                         mapEncoder_IsEmpty
                | StructType m s fs \<Rightarrow>
                    val_encoder id (encoderOfStruct \<lparr>Type1_Name = m, type_String = s\<rparr> (describeStruct c typ)) (\<lambda>v. False)
                | OtherType k s \<Rightarrow>
                    if k = Interface then ifaceEncoder c typ else lazyErrorEncoder (unsupported c typ))))"
| "decoderOfType c typ =
     (case getTypeDecoderFromExtension c typ of
        Some d \<Rightarrow> d
      | None \<Rightarrow> decorate_decoder c typ
          (case first_Some [createDecoderOfJsonRawMessage typ, createDecoderOfJsonNumber typ, marshalerDecoder c typ, anyDecoder c typ] of
             Some d \<Rightarrow> d
           | None \<Rightarrow>
               (case typ of
                  Basic k s \<Rightarrow>
                    if \<not> native_kind k then lazyErrorDecoder_Decode (unsupported c typ)
                    else if s \<noteq> kind_name k then decoderOfType c (Basic k (kind_name k))
                    else createDecoderOfNative c k
                | SliceType s t \<Rightarrow>
                    let sliceDecoder = (\<lambda>n. sliceDecoder_Decode n s (UnsafeGrow c (zero t)) (decoderOfType (ctx_append ''[sliceElem]'' c) t n))
                    in if Kind t = Uint8 then
                         (\<lambda>n. val_decoder of_bytes to_bytes (base64Codec_Decode (base64Error c)
                            (\<lambda>old it. map_option (\<lambda>(v, it1). (to_bytes (VSlice v), it1)) (sliceDecoder n (to_slice (of_bytes old)) it))))
                       else (\<lambda>n. val_decoder VSlice to_slice (sliceDecoder n))
                | ArrayType s n t \<Rightarrow>
                    (\<lambda>m. val_decoder VArray (to_array (replicate n (zero t)))
                       (arrayDecoder_Decode m s (decoderOfType (ctx_append ''[arrayElem]'' c) t m)))
                | PtrType t \<Rightarrow> (\<lambda>n. val_decoder VPtr to_ptr (OptionalDecoder_Decode (zero t) (decoderOfType c t n)))
                | MapType s k t \<Rightarrow>
                    let keyDecoder = decoderOfMapKey (ctx_append ''[mapKey]'' c) k
                          (\<lambda>k. decoderOfType (ctx_append ''[mapKey]'' c) (Basic k (kind_name k)));
                        elemDecoder = decoderOfType (ctx_append ''[mapElem]'' c) t
                    in (\<lambda>n. val_decoder VMap to_map
                         (mapDecoder_Decode n (\<lambda>old it. map_option (\<lambda>(v, it1). (to_key v, it1)) (keyDecoder n (of_key old) it))
                            (elemDecoder n) (to_key (zero k)) (zero t)))
                | StructType m s fs \<Rightarrow>
                    (\<lambda>n. structDecoder_Decode n (ToLower c)
                       (decoderOfStruct (ToLower c) (config c) \<lparr>Type1_Name = m, type_String = s\<rparr> (map (with_fuel n) (describeStruct c typ))))
                | OtherType k s \<Rightarrow>
                    if k = Interface then ifaceDecoder c typ else lazyErrorDecoder_Decode (unsupported c typ))))"
| "describeStruct c typ =
     (case typ of
        StructType m s fs \<Rightarrow>
          let zs = map (\<lambda>f. zero (Type f)) fs;
              parts = map (\<lambda>(i, f). describe_field c s zs i f
                        (encoderOfType (ctx_append (Name f) c) (Type f)) (decoderOfType (ctx_append (Name f) c) (Type f))
                        (case Type f of PtrType t \<Rightarrow> describeStruct c t | t \<Rightarrow> describeStruct c t)) (enumerate 0 fs)
          in createStructDescriptor c zs (concat (map fst parts)) (concat (map snd parts))
      | _ \<Rightarrow> [])"
  by pat_completeness auto
termination
proof (relation "measure (\<lambda>x. case x of Inl (c, t) \<Rightarrow> 2 * tsize t + 1 | Inr (Inl (c, t)) \<Rightarrow> 2 * tsize t + 1 | Inr (Inr (c, t)) \<Rightarrow> 2 * tsize t)")
qed (auto simp: native_kind_def dest!: tsize_field)

declare encoderOfType.simps [simp del] decoderOfType.simps [simp del] describeStruct.simps [simp del]

section \<open>The extensions of a configuration\<close>

definition marshalFloatWith6Digits :: "ctx \<Rightarrow> (gotype \<rightharpoonup> gencoder) \<Rightarrow> gotype \<rightharpoonup> gencoder" where
  "marshalFloatWith6Digits c m = m(Basic Float32 ''float32'' \<mapsto> lossyEncoder c Float32, Basic Float64 ''float64'' \<mapsto> lossyEncoder c Float64)"

definition escapeHTML :: "(gotype \<rightharpoonup> gencoder) \<Rightarrow> gotype \<rightharpoonup> gencoder" where
  "escapeHTML m = m(Basic String ''string'' \<mapsto> val_encoder to_string htmlEscapedStringEncoder_Encode htmlEscapedStringEncoder_IsEmpty)"

definition validateJsonRawMessage :: "ctx \<Rightarrow> (gotype \<rightharpoonup> gencoder) \<Rightarrow> gotype \<rightharpoonup> gencoder" where
  "validateJsonRawMessage c m =
     (let raw = (\<lambda>b. case b of None \<Rightarrow> [] | Some b \<Rightarrow> b);
          encoder = val_encoder to_bytes
            (\<lambda>b. if rawMessageIsValid c (raw b) then WriteRaw (raw b) else WriteRaw [ch_n, ch_u, ch_l, ch_l]) (\<lambda>b. raw b = [])
      in m(SliceType ''json.RawMessage'' (Basic Uint8 ''uint8'') \<mapsto> encoder,
           SliceType ''jsoniter.RawMessage'' (Basic Uint8 ''uint8'') \<mapsto> encoder))"

definition useNumber :: "ctx \<Rightarrow> (gotype \<rightharpoonup> gdecoder) \<Rightarrow> gotype \<rightharpoonup> gdecoder" where
  "useNumber c m = m(OtherType Interface ''interface {}'' \<mapsto> numberDecoder c)"

text \<open>\<open>Froze\<close>, in the global state and with the parameters of \<open>c\<close>.\<close>

definition frozen_ctx :: "Config \<Rightarrow> ctx \<Rightarrow> ctx" where
  "frozen_ctx conf c =
     (let encs = Map.empty;
          encs = (if MarshalFloatWith6Digits conf then marshalFloatWith6Digits c encs else encs);
          encs = (if EscapeHTML conf then escapeHTML encs else encs);
          encs = (if ValidateJsonRawMessage conf then validateJsonRawMessage c encs else encs);
          decs = (if UseNumber conf then useNumber c Map.empty else Map.empty)
      in c\<lparr>config := Froze conf, ctxPrefix := [], encoderExtension := EncoderExtension encs,
           decoderExtension := DecoderExtension decs, ctxExtraExtensions := []\<rparr>)"

section \<open>The caches of codecs\<close>

text \<open>The keys are the types. \<open>DecoderOf\<close> is given the type of a pointer, else it panics: \<open>None\<close>. The additional
  level of pointers of \<open>onePtrEncoder\<close> is not visible in values.\<close>

definition DecoderOf :: "ctx \<Rightarrow> (gotype \<rightharpoonup> gdecoder) \<Rightarrow> gotype \<Rightarrow> (gdecoder \<times> (gotype \<rightharpoonup> gdecoder)) option" where
  "DecoderOf c decoderCache typ =
     (case decoderCache typ of
        Some d \<Rightarrow> Some (d, decoderCache)
      | None \<Rightarrow>
          (case typ of
             PtrType t \<Rightarrow> let d = decoderOfType (c\<lparr>ctxPrefix := []\<rparr>) t in Some (d, decoderCache(typ \<mapsto> d))
           | _ \<Rightarrow> None))"

definition EncoderOf :: "ctx \<Rightarrow> (gotype \<rightharpoonup> gencoder) \<Rightarrow> gotype \<Rightarrow> gencoder \<times> (gotype \<rightharpoonup> gencoder)" where
  "EncoderOf c encoderCache typ =
     (case encoderCache typ of
        Some x \<Rightarrow> (x, encoderCache)
      | None \<Rightarrow> let x = encoderOfType (c\<lparr>ctxPrefix := []\<rparr>) typ in (x, encoderCache(typ \<mapsto> x)))"

end
