(* ===== verification/Descriptor.thy ===== *)
theory Descriptor
  imports GoTypes
begin

text \<open>
  The bindings that \<open>describeStruct\<close> of \<open>reflect_extension.go\<close> finds: their order is that of the paths of field
  indices that lead to them, and \<open>sortableBindings.Less\<close> never runs past the end of a path.
\<close>

section \<open>Comparing paths\<close>

lemma Less_True: "bindings_Less l r = Some True \<longleftrightarrow> l < r \<and> bindings_Less l r \<noteq> None"
  by (induction l r rule: bindings_Less.induct) (auto simp: Cons_less_Cons)

lemma Less_None_sym: "bindings_Less l r = None \<longleftrightarrow> bindings_Less r l = None"
  by (induction l r rule: bindings_Less.induct) auto

definition comparable :: "int list \<Rightarrow> int list \<Rightarrow> bool" where
  "comparable l r \<longleftrightarrow> bindings_Less l r \<noteq> None"

lemma comparable_Cons [simp]: "comparable (i # l) (j # r) \<longleftrightarrow> i \<noteq> j \<or> comparable l r"
  by (auto simp: comparable_def)

definition paths_ok :: "int list list \<Rightarrow> bool" where
  "paths_ok ls \<longleftrightarrow> distinct ls \<and> (\<forall>l \<in> set ls. \<forall>r \<in> set ls. l \<noteq> r \<longrightarrow> comparable l r)"

lemma paths_ok_append:
  assumes "paths_ok a" "paths_ok b" "\<And>l r. l \<in> set a \<Longrightarrow> r \<in> set b \<Longrightarrow> comparable l r \<and> l \<noteq> r \<and> comparable r l"
  shows "paths_ok (a @ b)"
proof -
  have "distinct (a @ b)" using assms by (auto simp: paths_ok_def)
  moreover have "comparable l r" if lr: "l \<in> set (a @ b)" "r \<in> set (a @ b)" "l \<noteq> r" for l r
  proof -
    consider "l \<in> set a \<and> r \<in> set a" | "l \<in> set b \<and> r \<in> set b" | "l \<in> set a \<and> r \<in> set b" | "l \<in> set b \<and> r \<in> set a"
      using lr(1,2) by auto
    then show ?thesis
    proof cases
      case 1
      with assms(1) lr(3) show ?thesis unfolding paths_ok_def by blast
    next
      case 2
      with assms(2) lr(3) show ?thesis unfolding paths_ok_def by blast
    qed (use assms(3) in blast)+
  qed
  ultimately show ?thesis unfolding paths_ok_def by blast
qed

lemma paths_ok_mset: "mset a = mset b \<Longrightarrow> paths_ok a = paths_ok b"
  unfolding paths_ok_def using mset_eq_imp_distinct_iff [of a b] mset_eq_setD [of a b] by simp

lemma sorted_paths:
  assumes "paths_ok (map levels bs)"
  shows "sorted_wrt (\<lambda>a b. bindings_Less (levels a) (levels b) = Some True) (sort_key levels bs)"
proof -
  let ?S = "sort_key levels bs"
  have m: "mset ?S = mset bs" by simp
  then have ml: "mset (map levels ?S) = mset (map levels bs)" by (simp only: mset_map)
  have ok: "distinct (map levels ?S)" "set (map levels ?S) = set (map levels bs)"
    using mset_eq_imp_distinct_iff [OF ml] mset_eq_setD [OF ml] assms by (simp_all only: paths_ok_def)
  have "sorted (map levels ?S)" by simp
  with ok(1) have "sorted_wrt (<) (map levels ?S)" by (simp add: strict_sorted_iff)
  then have lt: "sorted_wrt (\<lambda>a b. levels a < levels b) ?S" by (simp add: sorted_wrt_map)
  have "bindings_Less (levels a) (levels b) = Some True" if "a \<in> set ?S" "b \<in> set ?S" "levels a < levels b" for a b
  proof -
    have "levels a \<in> set (map levels bs)" "levels b \<in> set (map levels bs)" "levels a \<noteq> levels b" using that by auto
    with assms have "comparable (levels a) (levels b)" unfolding paths_ok_def by blast
    with that(3) show ?thesis by (simp add: Less_True comparable_def)
  qed
  with lt show ?thesis by (rule sorted_wrt_mono_rel [rotated]) blast
qed

section \<open>The bindings of a struct\<close>

lemma embed_levels [simp]: "levels (embed zs i f we wd b) = int i # levels b"
  by (simp add: embed_def)

text \<open>A field has a binding of its own or those of an embedded struct.\<close>

lemma describe_field_parts:
  "(\<exists>b. describe_field c s zs i f e d embedded = ([b], []) \<and> rawLevels b = [int i])
   \<or> (\<exists>bs. describe_field c s zs i f e d embedded = ([], bs) \<and> (bs = [] \<or> map levels bs = map ((#) (int i)) (map levels embedded)))"
  by (auto simp: describe_field_def Let_def comp_def split: gotype.split)

text \<open>The paths of the bindings in the order in which \<open>sort.Sort\<close> gets them.\<close>

lemma collected_paths:
  fixes g :: "nat \<times> gofield \<Rightarrow> rawBinding list \<times> (gval, gdecoder) Binding list"
  assumes "\<And>i f. (\<exists>b. g (i, f) = ([b], []) \<and> rawLevels b = [int i])
      \<or> (\<exists>bs. g (i, f) = ([], bs) \<and> (bs = [] \<or> map levels bs = map ((#) (int i)) (ls f)))"
    and "\<And>f. f \<in> set fs \<Longrightarrow> paths_ok (ls f)"
  shows "paths_ok (concat (map (\<lambda>x. map levels (snd (g x))) (enumerate n fs)) @ concat (map (\<lambda>x. map rawLevels (fst (g x))) (enumerate n fs)))"
  using assms(2)
proof (induction fs arbitrary: n)
  case Nil
  then show ?case by (simp add: paths_ok_def)
next
  case (Cons f fs)
  let ?E = "\<lambda>n fs. concat (map (\<lambda>x. map levels (snd (g x))) (enumerate n fs))"
    and ?R = "\<lambda>n fs. concat (map (\<lambda>x. map rawLevels (fst (g x))) (enumerate n fs))"
  let ?P = "\<lambda>i f. map levels (snd (g (i, f))) @ map rawLevels (fst (g (i, f)))"
  have part: "?P i f = [[int i]] \<or> ?P i f = [] \<or> ?P i f = map ((#) (int i)) (ls f)" for i f
  proof -
    consider b where "g (i, f) = ([b], [])" "rawLevels b = [int i]"
      | bs where "g (i, f) = ([], bs)" "bs = [] \<or> map levels bs = map ((#) (int i)) (ls f)"
      using assms(1) [of i f] by blast
    then show ?thesis by cases auto
  qed
  have heads: "\<exists>l'. l = int i # l'" if "l \<in> set (?P i f)" for l i f
    using part [of i f] that by (elim disjE) (simp_all only: list.set set_map, auto)
  have later: "\<exists>j l'. l = int j # l' \<and> n \<le> j" if "l \<in> set (?E n fs) \<union> set (?R n fs)" for l n fs
  proof -
    from that obtain j h where "(j, h) \<in> set (enumerate n fs)" and l: "l \<in> set (?P j h)" by auto
    then have "n \<le> j" by (auto simp: in_set_enumerate_eq)
    with heads [OF l] show ?thesis by blast
  qed
  let ?here = "?P n f"
  have "paths_ok (map ((#) (int n)) (ls f))"
    using Cons.prems [of f] by (auto simp: paths_ok_def distinct_map)
  then have here: "paths_ok ?here" using part [of n f] by (elim disjE) (simp_all only:, simp_all add: paths_ok_def)
  have IH: "paths_ok (?E (Suc n) fs @ ?R (Suc n) fs)" by (rule Cons.IH) (use Cons.prems in auto)
  have other: "comparable l r \<and> l \<noteq> r \<and> comparable r l"
    if lr: "l \<in> set ?here" "r \<in> set (?E (Suc n) fs @ ?R (Suc n) fs)" for l r
  proof -
    obtain l' where l: "l = int n # l'" using heads [OF lr(1)] by blast
    obtain j r' where r: "r = int j # r'" "Suc n \<le> j" using later [of r "Suc n" fs] lr(2) by (auto simp only: set_append)
    show ?thesis using r(2) by (simp add: l r(1))
  qed
  let ?xs = "?E (Suc n) fs @ ?R (Suc n) fs"
  have "paths_ok (?here @ ?xs)" by (rule paths_ok_append [OF here IH other])
  moreover have "mset (?E n (f # fs) @ ?R n (f # fs)) = mset (?here @ ?xs)"
  proof -
    have e: "?E n (f # fs) = map levels (snd (g (n, f))) @ ?E (Suc n) fs" "?R n (f # fs) = map rawLevels (fst (g (n, f))) @ ?R (Suc n) fs"
      by (simp_all only: enumerate_simps list.map concat.simps)
    show ?thesis unfolding e mset_append by (simp only: add.assoc add.left_commute)
  qed
  ultimately show ?case using paths_ok_mset by blast
qed

lemma fst_snd_concat: "map levels (concat (map snd ps)) = concat (map (\<lambda>p. map levels (snd p)) ps)"
  "map rawLevels (concat (map fst ps)) = concat (map (\<lambda>p. map rawLevels (fst p)) ps)"
  by (simp_all add: map_concat comp_def)

definition keeps_descriptors :: "ctx \<Rightarrow> bool" where
  "keeps_descriptors c \<longleftrightarrow> (\<forall>e \<in> set (extensions c @ encoderExtension c # decoderExtension c # ctxExtraExtensions c). \<forall>bs. UpdateStructDescriptor e bs = bs)"

lemma processTags_levels [simp]: "levels (processTags c zs b) = rawLevels b"
  by (simp add: processTags_def split: prod.splits)

lemma no_updates:
  assumes "keeps_descriptors c"
  shows "foldl (\<lambda>bs e. UpdateStructDescriptor e bs) bs (extensions c @ encoderExtension c # decoderExtension c # ctxExtraExtensions c) = bs"
proof -
  have "foldl (\<lambda>bs e. UpdateStructDescriptor e bs) bs es = bs" if "\<forall>e \<in> set es. \<forall>bs. UpdateStructDescriptor e bs = bs" for es :: "extension list"
    using that by (induction es) auto
  with assms show ?thesis unfolding keeps_descriptors_def by blast
qed

lemma describe_paths:
  assumes "keeps_descriptors c"
  shows "paths_ok (map levels (describeStruct c t)) \<and> sorted_wrt (\<lambda>a b. bindings_Less (levels a) (levels b) = Some True) (describeStruct c t)"
proof (induction t rule: measure_induct_rule [of size])
  case (less t)
  show ?case
  proof (cases "\<exists>m s fs. t = StructType m s fs")
    case True
    then obtain m s fs where t: "t = StructType m s fs" by blast
    define sub where "sub f = (case Type f of PtrType t \<Rightarrow> describeStruct c t | t \<Rightarrow> describeStruct c t)" for f
    define zs where "zs = map (\<lambda>f. zero (Type f)) fs"
    define g where "g = (\<lambda>(i, f). describe_field c s zs i f
        (encoderOfType (ctx_append (Name f) c) (Type f)) (decoderOfType (ctx_append (Name f) c) (Type f)) (sub f))"
    let ?ps = "map g (enumerate 0 fs)"
    let ?bs = "concat (map snd ?ps) @ map (processTags c zs) (concat (map fst ?ps))"
    have d: "describeStruct c t = sort_key levels ?bs"
      unfolding t describeStruct.simps [of c "StructType m s fs"] gotype.case Let_def createStructDescriptor_def
        no_updates [OF assms] g_def zs_def sub_def ..
    have "paths_ok (map levels (sub f))" if "f \<in> set fs" for f
    proof -
      have "size (Type f) < size t" using size_Type [OF that] t by simp
      then show ?thesis using less [of "Type f"] less [of "case Type f of PtrType t \<Rightarrow> t | t \<Rightarrow> t"]
        by (auto simp: sub_def split: gotype.splits)
    qed
    then have "paths_ok (concat (map (\<lambda>x. map levels (snd (g x))) (enumerate 0 fs)) @ concat (map (\<lambda>x. map rawLevels (fst (g x))) (enumerate 0 fs)))"
      by (intro collected_paths [where ls = "\<lambda>f. map levels (sub f)"]) (simp add: g_def del: map_map, rule describe_field_parts, blast)
    then have ok: "paths_ok (map levels ?bs)"
      by (simp add: map_concat comp_def)
    have "mset (map levels (describeStruct c t)) = mset (map levels ?bs)" by (simp only: d mset_map mset_sort)
    from paths_ok_mset [OF this] ok have "paths_ok (map levels (describeStruct c t))" by (simp only:)
    with sorted_paths [OF ok] show ?thesis by (simp only: d)
  next
    case False
    then have "describeStruct c t = []" unfolding describeStruct.simps [of c t] by (cases t) simp_all
    then show ?thesis by (simp add: paths_ok_def)
  qed
qed

section \<open>Names of fields\<close>

text \<open>The first byte of a name is taken for its first character: the unexported Go name that begins with the letter
  U+00E9 gives a field, the exported one that begins with the capital U+10A0 does not.\<close>

lemma names_by_first_byte:
  "calcFieldNames [CHR 0xC3, CHR 0xA9] [] [] = [[CHR 0xC3, CHR 0xA9]]" "calcFieldNames [CHR 0xE1, CHR 0x82, CHR 0xA0] [] [] = []"
  by code_simp+

section \<open>Property\<close>

text \<open>C36: unless an extension changes descriptors, the bindings that \<open>describeStruct\<close> returns are in the strict order of
  \<open>sortableBindings.Less\<close> for every type, however its structs are embedded in one another, and that method returns for
  any two of them; so the order does not depend on the sorting algorithm, which need not be stable.\<close>

theorem describeStruct_ordered:
  assumes "keeps_descriptors c"
  shows "sorted_wrt (\<lambda>a b. bindings_Less (levels a) (levels b) = Some True) (describeStruct c t)"
  using describe_paths [OF assms] by blast

section \<open>Witness\<close>

text \<open>A state with nothing registered, and types without methods.\<close>

definition base_ctx :: ctx where
  "base_ctx = \<lparr>config = ConfigDefault, ctxPrefix = [], extensions = [], encoderExtension = DummyExtension,
     decoderExtension = DummyExtension, ctxExtraExtensions = [], typeDecoders = Map.empty, fieldDecoders = Map.empty,
     typeEncoders = Map.empty, fieldEncoders = Map.empty, marshalerEncoder = Map.empty, marshalerDecoder = Map.empty,
     keyMarshalerEncoder = Map.empty, keyMarshalerDecoder = Map.empty, anyEncoder = Map.empty, anyDecoder = Map.empty,
     ifaceEncoder = (\<lambda>t. lazyErrorEncoder (LibErr [])), ifaceDecoder = (\<lambda>t. lazyErrorDecoder_Decode (LibErr [])),
     ifaceKeyEncoder = (\<lambda>t. lazyErrorEncoder (LibErr [])), floatEncoder = (\<lambda>k. lazyErrorEncoder (LibErr [])),
     floatDecoder = (\<lambda>k. lazyErrorDecoder_Decode (LibErr [])), UnsafeGrow = grow_zero, iterate = (\<lambda>m. []), ToLower = map lower_byte,
     base64Error = (\<lambda>s. []), lossyEncoder = (\<lambda>k. lazyErrorEncoder (LibErr [])), rawMessageIsValid = (\<lambda>b. True),
     numberDecoder = lazyErrorDecoder_Decode (LibErr []), streamPool = NewStream ConfigDefault None, iteratorPool = ParseBytes ConfigDefault []\<rparr>"

definition nested_type :: gotype where
  "nested_type = StructType ''A'' ''main.A''
     [Field ''X'' False [] (Basic Bool ''bool''),
      Field ''B'' True [] (PtrType (StructType ''B'' ''main.B''
        [Field ''Y'' False [] (Basic Bool ''bool''),
         Field ''C'' True [] (StructType ''C'' ''main.C'' [Field ''Z'' False [] (Basic Bool ''bool'')])])),
      Field ''W'' False [(''json'', ''w,omitempty'')] (Basic Int8 ''int8'')]"

theorem describeStruct_ordered_witness:
  "sorted_wrt (\<lambda>a b. bindings_Less (levels a) (levels b) = Some True) (describeStruct (frozen_ctx zero_Config base_ctx) nested_type)"
  by (rule describeStruct_ordered) (auto simp: keeps_descriptors_def frozen_ctx_def base_ctx_def EncoderExtension_def DecoderExtension_def DummyExtension_def Let_def)

end
