(* ===== verification/TypeCodec.thy ===== *)
theory TypeCodec
  imports Descriptor
begin

text \<open>
  The codecs that \<open>encoderOfType\<close> and \<open>decoderOfType\<close> choose keep the contract of codecs, for every type made of
  predeclared types other than floats by slices, arrays, pointers and structs, as long as nothing but the
  kind of the types decides.
\<close>

section \<open>Transport of the contract\<close>

lemma codec_cong:
  assumes "codec enc dec txt ok room cfgs" "\<And>n old it. cfgs (cfg it) \<Longrightarrow> dec' n old it = dec n old it"
  shows "codec enc dec' txt ok room cfgs"
proof (unfold_locales, goal_cases)
  case (2 v it ws c i t rest n old)
  then show ?case using codec.reads [OF assms(1), of v it ws c i t rest n old] assms(2) by simp
qed (use codec.writes [OF assms(1)] codec.text_head [OF assms(1)] in auto)

lemma closed_codec_cong:
  assumes "closed_codec enc dec txt ok room cfgs" "\<And>n old it. cfgs (cfg it) \<Longrightarrow> dec' n old it = dec n old it"
  shows "closed_codec enc dec' txt ok room cfgs"
proof (rule closed_codec.intro)
  show "codec enc dec' txt ok room cfgs"
    using codec_cong [OF closed_codec.axioms(1) [OF assms(1)]] assms(2) by blast
  show "closed_codec_axioms dec' txt ok room cfgs"
  proof (unfold_locales, goal_cases)
    case (1 v it ws c i rest n old)
    then show ?case using closed_codec.reads_closed [OF assms(1), of v it ws c i rest n old] assms(2) by simp
  qed
qed

lemma closed_restricted:
  assumes "closed_codec enc dec txt ok room cfgs" "\<And>v. ok' v \<Longrightarrow> ok v" "room \<le> room'" "\<And>c. cfgs' c \<Longrightarrow> cfgs c"
  shows "closed_codec enc dec txt ok' room' cfgs'"
proof (rule closed_codec.intro)
  show "codec enc dec txt ok' room' cfgs'"
    using codec.restricted [OF closed_codec.axioms(1) [OF assms(1)]] assms(2-4) by blast
  show "closed_codec_axioms dec txt ok' room' cfgs'"
  proof (unfold_locales, goal_cases)
    case (1 v it ws c i rest n old)
    then show ?case using closed_codec.reads_closed [OF assms(1), of v it ws c i rest n old] assms(2-4) by auto
  qed
qed

text \<open>A codec of what values hold, as a codec of values.\<close>

lemma lifted_codec:
  assumes "codec enc dec txt ok room cfgs"
  shows "codec (Encode (val_encoder proj enc e)) (\<lambda>n. val_decoder wrap proj (dec n)) (\<lambda>c i v. txt c i (proj v))
    (\<lambda>v. wrap (proj v) = v \<and> ok (proj v)) room cfgs"
proof (unfold_locales, goal_cases)
  case (2 v it ws c i t rest n old)
  then show ?case using codec.reads [OF assms(1), of "proj v" it ws c i t rest n "proj old"] by (auto simp: val_decoder_def)
qed (use codec.writes [OF assms(1)] codec.text_head [OF assms(1)] in \<open>auto simp: val_encoder_def\<close>)

lemma lifted_closed:
  assumes "closed_codec enc dec txt ok room cfgs"
  shows "closed_codec (Encode (val_encoder proj enc e)) (\<lambda>n. val_decoder wrap proj (dec n)) (\<lambda>c i v. txt c i (proj v))
    (\<lambda>v. wrap (proj v) = v \<and> ok (proj v)) room cfgs"
proof (rule closed_codec.intro [OF lifted_codec [OF closed_codec.axioms(1) [OF assms(1)]]], unfold_locales, goal_cases)
  case (1 v it ws c i rest n old)
  then show ?case
    using closed_codec.reads_closed [OF assms(1), of "proj v" it ws c i rest n "proj old"] by (auto simp: val_decoder_def)
qed

context slice_codec
begin

lemma slice_closed: "closed_codec (sliceEncoder_Encode tname enc) (\<lambda>n. sliceDecoder_Decode n tname grow (dec n)) (slice_text val_text)
    (\<lambda>v. case v of None \<Rightarrow> True | Some xs \<Rightarrow> list_all ok xs) room cfgs"
  by (rule slice.closed_codec_axioms)

end

context pointer_codec
begin

lemma pointer_kept: "codec (OptionalEncoder_Encode enc) (\<lambda>n. OptionalDecoder_Decode zero (dec n)) (pointer_text val_text)
    (\<lambda>v. case v of None \<Rightarrow> True | Some x \<Rightarrow> ok x) room cfgs"
  by (rule pointer.codec_axioms)

end

section \<open>Arrays keep the contract\<close>

context codec
begin

lemma array_loop_reads:
  assumes "wf_iter it" "Error it = None" "0 \<le> depth it" "depth it + room \<le> maxDepth" "list_all ok ys"
    "list_all is_space w" "list_all is_space w'" "\<forall>y \<in> set ys. length (val_text c i y) < n" "length ys < k"
    "pending it = more_text w (map (val_text c i) ys) @ w' @ ch_rbrack # rest" "cfgs (cfg it)" "captured it = None"
    "length olds = length ys"
  shows "\<exists>c1 it1 it'. nextToken it = (c1, it1) \<and> arrayDecoder_loop k (dec n) (length acc) c1 (acc @ olds) it1 = Some (acc @ ys, ch_rbrack, it')
    \<and> consumes it (more_text w (map (val_text c i) ys) @ w' @ [ch_rbrack]) it' \<and> pending it' = rest"
  using assms
proof (induction ys arbitrary: it acc k olds)
  case Nil
  then obtain k' where "k = Suc k'" by (cases k) auto
  moreover obtain it1 where "nextToken it = (ch_rbrack, it1)" "consumes it (w' @ [ch_rbrack]) it1" "pending it1 = rest"
    using nextToken_at [OF Nil(1,7), of ch_rbrack rest] Nil(10) by (auto simp: is_space_def)
  ultimately show ?case using Nil(13) by simp
next
  case (Cons y ys)
  then obtain k' where k: "k = Suc k'" "length ys < k'" by (cases k) auto
  obtain z olds' where olds: "olds = z # olds'" "length olds' = length ys" using Cons.prems(13) by (cases olds) auto
  let ?T = "more_text w (map (val_text c i) ys) @ w' @ ch_rbrack # rest"
  obtain it1 where 1: "nextToken it = (ch_comma, it1)" "consumes it [ch_comma] it1" "pending it1 = w @ val_text c i y @ ?T"
    using nextToken_at [OF Cons.prems(1), of "[]" ch_comma "w @ val_text c i y @ ?T"] Cons.prems(10) by (auto simp: is_space_def)
  note s1 = consumes_same [OF 1(2)]
  obtain t' r where t: "?T = t' # r" "\<not> number_char t'"
    using after_element [of w' ch_rbrack w "map (val_text c i) ys" rest] Cons.prems(7) by (auto simp: number_char_def is_digit_def)
  obtain it2 where 2: "dec n z it1 = Some (y, it2)" "consumes it1 (w @ val_text c i y) it2" "pending it2 = ?T"
    using reads [of y it1 w c i t' r n] 1(3) t s1 Cons.prems by auto
  note s2 = consumes_same [OF 2(2)]
  obtain c1 it3 it' where "nextToken it2 = (c1, it3)"
      "arrayDecoder_loop k' (dec n) (length (acc @ [y])) c1 ((acc @ [y]) @ olds') it3 = Some ((acc @ [y]) @ ys, ch_rbrack, it')"
      "consumes it2 (more_text w (map (val_text c i) ys) @ w' @ [ch_rbrack]) it'" "pending it' = rest"
    using Cons.IH [of it2 k' olds' "acc @ [y]"] 2(3) s2 s1 Cons.prems k(2) olds by auto
  with 1 2 k olds consumes_trans [OF 1(2) consumes_trans [OF 2(2)]] show ?case
    by (intro exI [of _ ch_comma] exI [of _ it1] exI [of _ it']) (simp add: Let_def)
qed

lemma as_slice: "slice_codec enc dec val_text ok room cfgs (grow_zero z)"
  by unfold_locales (simp_all add: grow_zero_laws)

lemma array_written:
  assumes "list_all ok vs" "s_Error s = None"
  shows "encoderOfArray tname enc (length vs) vs s = adds (slice_text val_text (s_cfg s) (indention s) (Some vs)) s"
proof (cases vs)
  case Nil
  with assms(2) show ?thesis by (simp add: encoderOfArray_def emptyArrayEncoder_Encode_def slice_text_def stream_adds)
next
  case (Cons x xs)
  with slice_codec.nonempty_written [OF as_slice, of x xs s] assms show ?thesis
    by (simp add: encoderOfArray_def arrayEncoder_Encode_def)
qed

lemma array_reads:
  assumes "wf_iter it" "Error it = None" "0 \<le> depth it" "depth it + room \<le> maxDepth" "list_all ok vs"
    "list_all is_space ws" "pending it = ws @ slice_text val_text c i (Some vs) @ rest"
    "length (slice_text val_text c i (Some vs)) < n" "cfgs (cfg it)" "captured it = None" "length old = length vs"
  shows "\<exists>it'. arrayDecoder_Decode n tname (dec n) old it = Some (vs, it')
    \<and> consumes it (ws @ slice_text val_text c i (Some vs)) it' \<and> pending it' = rest"
proof (cases vs)
  case Nil
  obtain it1 where 1: "nextToken it = (ch_lbrack, it1)" "consumes it (ws @ [ch_lbrack]) it1" "pending it1 = ch_rbrack # rest"
    using nextToken_at [OF assms(1,6), of ch_lbrack "ch_rbrack # rest"] assms(7) Nil by (auto simp: is_space_def slice_text_def)
  obtain it2 where 2: "nextToken it1 = (ch_rbrack, it2)" "consumes it1 [ch_rbrack] it2" "pending it2 = rest"
    using nextToken_at [of it1 "[]" ch_rbrack rest] 1(3) consumes_wf [OF 1(2)] by (auto simp: is_space_def)
  have "Error it2 = None" using consumes_Error [OF 1(2)] consumes_Error [OF 2(2)] assms(2) by simp
  with 1 2 consumes_trans [OF 1(2) 2(2)] Nil assms(11) show ?thesis
    by (simp add: arrayDecoder_Decode_def arrayDecoder_doDecode_def slice_text_def)
next
  case (Cons x xs)
  let ?v = "val_text c (inner c i)" and ?w = "blanks (inner c i) 0" and ?w' = "blanks (inner c i) (indentionStep c)"
  let ?T = "more_text ?w (map ?v xs) @ ?w' @ ch_rbrack # rest"
  have tx: "slice_text val_text c i (Some vs) = ch_lbrack # ?w @ ?v x @ more_text ?w (map ?v xs) @ ?w' @ [ch_rbrack]"
    by (simp add: Cons slice_text_def seq_text_def)
  obtain z olds where olds: "old = z # olds" "length olds = length xs" using assms(11) Cons by (cases old) auto
  obtain it1 where 1: "nextToken it = (ch_lbrack, it1)" "consumes it (ws @ [ch_lbrack]) it1" "pending it1 = ?w @ ?v x @ ?T"
    using nextToken_at [OF assms(1,6), of ch_lbrack "?w @ ?v x @ ?T"] assms(7) by (auto simp: tx is_space_def)
  note s1 = consumes_same [OF 1(2)]
  obtain e es where ex: "?v x = e # es" "e \<noteq> ch_rbrack" "\<not> is_space e"
    using text_head [of x c "inner c i"] assms(5) Cons by (cases "?v x") auto
  obtain it2 where 2: "nextToken it1 = (e, it2)" "consumes it1 (?w @ [e]) it2" "can_unread e it2" "pending it2 = es @ ?T"
    using nextToken_at [of it1 ?w e "es @ ?T"] 1(3) s1 assms(1) ex by auto
  have "Error it2 = None" using consumes_Error [OF 2(2)] s1 assms(2) by simp
  from unreadByte_spec [OF 2(2,3) this] have u: "consumes it1 ?w (unreadByte it2)" "pending (unreadByte it2) = ?v x @ ?T"
    using 2(4) ex(1) by auto
  note su = consumes_same [OF u(1)]
  obtain t' r where t: "?T = t' # r" "\<not> number_char t'"
    using after_element [of ?w' ch_rbrack ?w "map ?v xs" rest] by (auto simp: number_char_def is_digit_def)
  note sl = slice_codec.slice_length [OF as_slice]
  have len: "length (?v y) < n" if "y \<in> set (x # xs)" for y using sl(1) [OF that, of c i] assms(8) Cons by simp
  obtain it3 where 3: "dec n z (unreadByte it2) = Some (x, it3)" "consumes (unreadByte it2) (?v x) it3" "pending it3 = ?T"
    using reads [of x "unreadByte it2" "[]" c "inner c i" t' r n z] u(2) t su s1 assms(1-5,9,10) len Cons by auto
  note s3 = consumes_same [OF 3(2)]
  have k: "length xs < n" using sl(2) [of x "x # xs" c i] assms(8) Cons by simp
  obtain c1 it4 it' where 4: "nextToken it3 = (c1, it4)" "arrayDecoder_loop n (dec n) (length [x]) c1 ([x] @ olds) it4 = Some ([x] @ xs, ch_rbrack, it')"
      "consumes it3 (more_text ?w (map ?v xs) @ ?w' @ [ch_rbrack]) it'" "pending it' = rest"
    using array_loop_reads [of it3 xs ?w ?w' c "inner c i" n n rest olds "[x]"] 3(3) s3 su s1 assms(1-5,9,10) len k olds(2) Cons by auto
  have con: "consumes it (ws @ slice_text val_text c i (Some vs)) it'"
    using consumes_trans [OF 1(2) consumes_trans [OF u(1) consumes_trans [OF 3(2) 4(3)]]] by (simp add: tx)
  then have "Error it' = None" using assms(2) by (simp add: consumes_Error)
  with 1(1) 2(1) ex(2) 3(1) 4(1,2) olds Cons con 4(4) show ?thesis
    by (simp add: arrayDecoder_Decode_def arrayDecoder_doDecode_def Let_def)
qed

text \<open>The array as a value; \<open>proj\<close> gives as many elements as it has.\<close>

lemma array_codec:
  assumes "\<And>v. length (proj v) = len"
  shows "closed_codec (Encode (val_encoder proj (encoderOfArray tname enc len) e))
    (\<lambda>n. val_decoder wrap proj (arrayDecoder_Decode n tname (dec n))) (\<lambda>c i v. slice_text val_text c i (Some (proj v)))
    (\<lambda>v. wrap (proj v) = v \<and> list_all ok (proj v)) room cfgs"
proof (unfold_locales, goal_cases)
  case (1 v s)
  then show ?case using array_written [of "proj v" s] assms by (simp add: val_encoder_def)
next
  case (2 v it ws c i t rest n old)
  then show ?case using array_reads [of it "proj v" ws c i "t # rest" n "proj old" tname] assms by (auto simp: val_decoder_def)
next
  case (3 v c i)
  then show ?case by (auto simp: slice_text_def seq_text_def is_space_def split: list.splits)
next
  case (4 v it ws c i rest n old)
  then show ?case using array_reads [of it "proj v" ws c i rest n "proj old" tname] assms by (auto simp: val_decoder_def)
qed

end

section \<open>Types whose kind decides\<close>

definition unextended :: "ctx \<Rightarrow> bool" where
  "unextended c \<longleftrightarrow> extensions c = [] \<and> ctxExtraExtensions c = []
     \<and> (\<exists>m. encoderExtension c = EncoderExtension m) \<and> (\<exists>m. decoderExtension c = DecoderExtension m)"

text \<open>No registered codec and no method is in charge of the type.\<close>

definition enc_by_kind :: "ctx \<Rightarrow> gotype \<Rightarrow> bool" where
  "enc_by_kind c t \<longleftrightarrow> CreateEncoder (encoderExtension c) t = None \<and> typeEncoders c (TypeString t) = None
     \<and> (case t of PtrType t' \<Rightarrow> typeEncoders c (TypeString t') = None | _ \<Rightarrow> True)
     \<and> createEncoderOfJsonRawMessage t = None \<and> createEncoderOfJsonNumber t = None
     \<and> marshalerEncoder c t = None \<and> anyEncoder c t = None"

definition dec_by_kind :: "ctx \<Rightarrow> gotype \<Rightarrow> bool" where
  "dec_by_kind c t \<longleftrightarrow> CreateDecoder (decoderExtension c) t = None \<and> typeDecoders c (TypeString t) = None
     \<and> (case t of PtrType t' \<Rightarrow> typeDecoders c (TypeString t') = None | _ \<Rightarrow> True)
     \<and> createDecoderOfJsonRawMessage t = None \<and> createDecoderOfJsonNumber t = None
     \<and> marshalerDecoder c t = None \<and> anyDecoder c t = None"

lemma append_keeps [simp]:
  "config (ctx_append p c) = config c" "unextended (ctx_append p c) = unextended c"
  "enc_by_kind (ctx_append p c) t = enc_by_kind c t" "dec_by_kind (ctx_append p c) t = dec_by_kind c t"
  "encoderExtension (ctx_append p c) = encoderExtension c" "tag_get (ctx_append p c) f = tag_get c f"
  "tag_lookup (ctx_append p c) f = tag_lookup c f" "fieldEncoders (ctx_append p c) = fieldEncoders c"
  "fieldDecoders (ctx_append p c) = fieldDecoders c" "ToLower (ctx_append p c) = ToLower c"
  by (simp_all add: ctx_append_def unextended_def enc_by_kind_def dec_by_kind_def tag_get_def tag_lookup_def cong: gotype.case_cong)

lemma no_extensions:
  assumes "unextended c"
  shows "decorate_encoder c t x = x" "decorate_decoder c t d = d"
    "first_Some (map (\<lambda>e. CreateEncoder e t) (encoder_extensions c)) = CreateEncoder (encoderExtension c) t"
    "first_Some (map (\<lambda>e. CreateDecoder e t) (decoder_extensions c)) = CreateDecoder (decoderExtension c) t"
    "foldl (\<lambda>bs e. UpdateStructDescriptor e bs) bindings (extensions c @ encoderExtension c # decoderExtension c # ctxExtraExtensions c) = bindings"
proof -
  have f: "first_Some [a] = a" for a :: "'a option" by (cases a) auto
  show "decorate_encoder c t x = x" "decorate_decoder c t d = d"
    "first_Some (map (\<lambda>e. CreateEncoder e t) (encoder_extensions c)) = CreateEncoder (encoderExtension c) t"
    "first_Some (map (\<lambda>e. CreateDecoder e t) (decoder_extensions c)) = CreateDecoder (decoderExtension c) t"
    "foldl (\<lambda>bs e. UpdateStructDescriptor e bs) bindings (extensions c @ encoderExtension c # decoderExtension c # ctxExtraExtensions c) = bindings"
    using assms f by (auto simp: unextended_def decorate_encoder_def decorate_decoder_def encoder_extensions_def decoder_extensions_def
      EncoderExtension_def DecoderExtension_def DummyExtension_def)
qed

lemma not_extended:
  assumes "unextended c"
  shows "enc_by_kind c t \<Longrightarrow> getTypeEncoderFromExtension c t = None" "dec_by_kind c t \<Longrightarrow> getTypeDecoderFromExtension c t = None"
  by (auto simp: getTypeEncoderFromExtension_def getTypeEncoderFromExtension_raw_def getTypeDecoderFromExtension_def
    getTypeDecoderFromExtension_raw_def no_extensions [OF assms] enc_by_kind_def dec_by_kind_def split: gotype.splits option.splits)

lemma encoder_of:
  assumes "unextended c" "enc_by_kind c typ"
  shows "typ = Basic k s \<Longrightarrow> native_kind k \<Longrightarrow> s \<noteq> kind_name k \<Longrightarrow> encoderOfType c typ = encoderOfType c (Basic k (kind_name k))"
    "typ = Basic k (kind_name k) \<Longrightarrow> native_kind k \<Longrightarrow> encoderOfType c typ = createEncoderOfNative c k"
    "typ = SliceType s t \<Longrightarrow> encoderOfType c typ =
      (if Kind t = Uint8 then val_encoder to_bytes base64Codec_Encode base64Codec_IsEmpty
       else val_encoder to_slice (sliceEncoder_Encode s (Encode (encoderOfType (ctx_append ''[sliceElem]'' c) t))) sliceEncoder_IsEmpty)"
    "typ = ArrayType s n t \<Longrightarrow> encoderOfType c typ = val_encoder (to_array (replicate n (zero t)))
      (encoderOfArray s (Encode (encoderOfType (ctx_append ''[arrayElem]'' c) t)) n) (\<lambda>v. n = 0)"
    "typ = PtrType t \<Longrightarrow> encoderOfType c typ = val_encoder to_ptr (OptionalEncoder_Encode (Encode (encoderOfType c t))) OptionalEncoder_IsEmpty"
    "typ = StructType m s fs \<Longrightarrow> encoderOfType c typ =
      val_encoder id (encoderOfStruct \<lparr>Type1_Name = m, type_String = s\<rparr> (describeStruct c typ)) (\<lambda>v. False)"
  using assms(2) by (subst encoderOfType.simps; simp add: no_extensions [OF assms(1)] not_extended [OF assms(1)] enc_by_kind_def Let_def)+

lemma decoder_of:
  assumes "unextended c" "dec_by_kind c typ"
  shows "typ = Basic k s \<Longrightarrow> native_kind k \<Longrightarrow> s \<noteq> kind_name k \<Longrightarrow> decoderOfType c typ = decoderOfType c (Basic k (kind_name k))"
    "typ = Basic k (kind_name k) \<Longrightarrow> native_kind k \<Longrightarrow> decoderOfType c typ = createDecoderOfNative c k"
    "typ = SliceType s t \<Longrightarrow> Kind t = Uint8 \<Longrightarrow> \<exists>sl. decoderOfType c typ =
      (\<lambda>n. val_decoder of_bytes to_bytes (base64Codec_Decode (base64Error c) (sl n)))"
    "typ = SliceType s t \<Longrightarrow> Kind t \<noteq> Uint8 \<Longrightarrow> decoderOfType c typ =
      (\<lambda>n. val_decoder VSlice to_slice (sliceDecoder_Decode n s (UnsafeGrow c (zero t)) (decoderOfType (ctx_append ''[sliceElem]'' c) t n)))"
    "typ = ArrayType s n t \<Longrightarrow> decoderOfType c typ = (\<lambda>m. val_decoder VArray (to_array (replicate n (zero t)))
       (arrayDecoder_Decode m s (decoderOfType (ctx_append ''[arrayElem]'' c) t m)))"
    "typ = PtrType t \<Longrightarrow> decoderOfType c typ = (\<lambda>n. val_decoder VPtr to_ptr (OptionalDecoder_Decode (zero t) (decoderOfType c t n)))"
    "typ = StructType m s fs \<Longrightarrow> decoderOfType c typ = (\<lambda>n. structDecoder_Decode n (ToLower c)
       (decoderOfStruct (ToLower c) (config c) \<lparr>Type1_Name = m, type_String = s\<rparr> (map (with_fuel n) (describeStruct c typ))))"
  using assms(2) by (subst decoderOfType.simps; auto simp: no_extensions [OF assms(1)] not_extended [OF assms(1)] dec_by_kind_def Let_def)+

section \<open>The fields of a struct\<close>

text \<open>An exported field with at most a name in its tag, and no registered codec.\<close>

definition field_name :: "ctx \<Rightarrow> gofield \<Rightarrow> bytes" where
  "field_name c f = map of_char (if tag_get c f = [] then Name f else tag_get c f)"

definition plain_field :: "ctx \<Rightarrow> string \<Rightarrow> gofield \<Rightarrow> bool" where
  "plain_field c s f \<longleftrightarrow> \<not> Anonymous f \<and> \<not> IsLower (hd (Name f)) \<and> hd (Name f) \<noteq> CHR ''_'' \<and> tag_get c f \<noteq> ''-''
     \<and> CHR '','' \<notin> set (tag_get c f) \<and> (onlyTaggedField (config c) \<longrightarrow> tag_lookup c f \<noteq> None)
     \<and> fieldEncoders c (s @ ''/'' @ Name f) = None \<and> fieldDecoders c (s @ ''/'' @ Name f) = None"

definition plain_binding :: "ctx \<Rightarrow> gval list \<Rightarrow> nat \<times> gofield \<Rightarrow> (gval, gdecoder) Binding" where
  "plain_binding c zs = (\<lambda>(i, f). \<lparr>tagged = tag_get c f \<noteq> [], levels = [int i], FromNames = [field_name c f], ToNames = [field_name c f],
     Encoder = field_encoder zs i f (encoderOfType (ctx_append (Name f) c) (Type f)) False,
     Decoder = field_decoder zs i f (decoderOfType (ctx_append (Name f) c) (Type f))\<rparr>)"

lemma split_no_comma: "CHR '','' \<notin> set xs \<Longrightarrow> split_comma xs = [xs]"
  by (induction xs) auto

lemma describe_plain:
  assumes "unextended c" "\<forall>f \<in> set fs. plain_field c s f"
  shows "describeStruct c (StructType m s fs) = map (plain_binding c (map (\<lambda>f. zero (Type f)) fs)) (enumerate 0 fs)"
proof -
  let ?zs = "map (\<lambda>f. zero (Type f)) fs"
  let ?E = "\<lambda>f. encoderOfType (ctx_append (Name f) c) (Type f)" and ?D = "\<lambda>f. decoderOfType (ctx_append (Name f) c) (Type f)"
  let ?raw = "\<lambda>(i, f). \<lparr>Index = i, rawField = f, rawLevels = [int i], rawFromNames = [if tag_get c f = [] then Name f else tag_get c f],
    rawToNames = [if tag_get c f = [] then Name f else tag_get c f], rawEncoder = ?E f, rawDecoder = ?D f\<rparr>"
  have d: "describe_field c s ?zs i f (?E f) (?D f) inn = ([?raw (i, f)], [])" if "f \<in> set fs" for i f inn
    using assms(2) that split_no_comma [of "tag_get c f"]
    by (auto simp: describe_field_def plain_field_def Let_def calcFieldNames_def)
  have p: "processTags c ?zs (?raw (i, f)) = plain_binding c ?zs (i, f)" if "f \<in> set fs" for i f
    using assms(2) that split_no_comma [of "tag_get c f"]
    by (auto simp: processTags_def plain_field_def plain_binding_def field_name_def)
  have mem: "x \<in> set (enumerate 0 fs) \<Longrightarrow> snd x \<in> set fs" for x
    by (auto simp: in_set_enumerate_eq dest: nth_mem)
  have parts: "map (\<lambda>(i, f). describe_field c s ?zs i f (?E f) (?D f) (g f)) (enumerate 0 fs) = map (\<lambda>x. ([?raw x], [])) (enumerate 0 fs)" for g
  proof (rule map_cong [OF refl])
    fix x assume "x \<in> set (enumerate 0 fs)"
    from d [OF mem [OF this]] show "(case x of (i, f) \<Rightarrow> describe_field c s ?zs i f (?E f) (?D f) (g f)) = ([?raw x], [])"
      by (cases x) simp
  qed
  have srt: "sorted (map levels (map (plain_binding c ?zs) (enumerate 0 fs)))"
    by (auto simp: sorted_iff_nth_mono plain_binding_def nth_enumerate_eq split: prod.splits)
  have no: "concat (map (\<lambda>x. []) xs) = []" for xs :: "'x list"
    by (induction xs) auto
  have "describeStruct c (StructType m s fs) = sort_key levels (map (processTags c ?zs) (map ?raw (enumerate 0 fs)))"
    unfolding describeStruct.simps [of c "StructType m s fs"] gotype.case Let_def parts createStructDescriptor_def
      no_extensions(5) [OF assms(1)]
    by (simp add: comp_def no)
  also have "map (processTags c ?zs) (map ?raw (enumerate 0 fs)) = map (plain_binding c ?zs) (enumerate 0 fs)"
  proof -
    have "processTags c ?zs (?raw x) = plain_binding c ?zs x" if "x \<in> set (enumerate 0 fs)" for x
      using p [OF mem [OF that]] by (cases x) simp
    then show ?thesis by simp
  qed
  finally show ?thesis using srt by (simp add: sort_key_id_if_sorted)
qed

lemma encoder_distinct:
  assumes "distinct (map nm xs)" "\<And>x. x \<in> set xs \<Longrightarrow> ToNames (g x) = [nm x]" "xs \<noteq> []"
  shows "encoderOfStruct rt (map g xs) = structEncoder_Encode rt (map (\<lambda>x. (Encoder (g x), nm x)) xs)"
proof -
  have n: "map (\<lambda>b. hd (ToNames b)) (map g xs) = map nm xs" using assms(2) by simp
  have "orderedBindings (map g xs) = map (\<lambda>b. \<lparr>binding = b, toName = hd (ToNames b), ignored = False\<rparr>) (map g xs)"
  proof (rule final_fields_distinct)
    show "distinct (map (\<lambda>b. hd (ToNames b)) (map g xs))" unfolding n by (rule assms(1))
  qed (use assms(2) in auto)
  also have "\<dots> = map (\<lambda>x. \<lparr>binding = g x, toName = nm x, ignored = False\<rparr>) xs" using assms(2) by simp
  finally show ?thesis using assms(3) by (simp add: encoderOfStruct_def finalOrderedFields_def comp_def)
qed

lemma decoder_distinct:
  assumes "distinct (map nm xs)" "\<And>x. x \<in> set xs \<Longrightarrow> FromNames (g x) = [nm x]"
  shows "decoderOfStruct toLower c rt (map g xs) = (let fds = map (\<lambda>x. (nm x, Decoder (g x))) xs
    in createStructDecoder toLower c rt (if \<not> caseSensitive c then lower_aliases toLower fds else fds))"
proof -
  have n: "map (\<lambda>b. hd (FromNames b)) (map g xs) = map nm xs" using assms(2) by simp
  have "from_names (map g xs) = map (\<lambda>b. (hd (FromNames b), b)) (map g xs)"
  proof (rule from_names_distinct)
    show "distinct (map (\<lambda>b. hd (FromNames b)) (map g xs))" unfolding n by (rule assms(1))
  qed (use assms(2) in auto)
  also have "\<dots> = map (\<lambda>x. (nm x, g x)) xs" using assms(2) by simp
  finally show ?thesis by (simp add: decoderOfStruct_def comp_def)
qed

text \<open>The fields as the contract of structs wants them. \<open>E\<close>, \<open>D\<close> and \<open>T\<close> are codec and text of field \<open>i\<close>.\<close>

definition value_field :: "gval list \<Rightarrow> (gofield \<Rightarrow> bytes) \<Rightarrow> (gofield \<Rightarrow> gencoder) \<Rightarrow> (gofield \<Rightarrow> gdecoder)
    \<Rightarrow> (nat \<Rightarrow> frozenConfig \<Rightarrow> int \<Rightarrow> gval \<Rightarrow> bytes) \<Rightarrow> nat \<times> gofield \<Rightarrow> gval sfield" where
  "value_field zs name E D T = (\<lambda>(i, f).
     \<lparr>fname = name f, fenc = field_encoder zs i f (E f) False, fdec = field_decoder zs i f (D f),
      ftext = (\<lambda>c j r. T i c j (field_get zs i r)), fput = (\<lambda>r. field_put zs i (field_get zs i r))\<rparr>)"

lemma fit_id [simp]: "length vs = length zs \<Longrightarrow> fit zs vs = vs"
  by (simp add: fit_def)

lemma fit_length [simp]: "length (fit zs vs) = length zs"
  by (simp add: fit_def)

lemma to_struct_length [simp]: "length (to_struct zs v) = length zs"
  by (cases v) simp_all

lemma to_array_length [simp]: "length (to_array zs v) = length zs"
  by (cases v) simp_all

lemma fields_rebuilt:
  assumes "length vs = length zs" "k \<le> length zs"
  shows "foldl (\<lambda>r i. field_put zs i (vs ! i) r) old [0..<k]
    = (if k = 0 then old else VStruct (take k vs @ drop k (to_struct zs old)))"
  using assms(2)
proof (induction k)
  case (Suc k)
  have "(take k vs @ drop k (to_struct zs old))[k := vs ! k] = take (Suc k) vs @ drop (Suc k) (to_struct zs old)"
    using Suc.prems assms(1) by (simp add: upd_conv_take_nth_drop take_Suc_conv_app_nth)
  with Suc assms(1) show ?case by (cases "k = 0") (auto simp: field_put_def)
qed simp

lemma struct_of_fields:
  assumes "fs \<noteq> []" "distinct (map name fs)" "0 \<le> room" "length zs = length fs"
    "\<And>f. f \<in> set fs \<Longrightarrow> plain (name f) \<and> toLower (name f) = map lower_byte (name f)"
    "\<And>i. i < length fs \<Longrightarrow> codec (Encode (E (fs ! i))) (D (fs ! i)) (T i) (ok i) room cfgs"
    "\<And>f. f \<in> set fs \<Longrightarrow> EmbeddedPtrNil (E f) = None"
  shows "full_struct_codec toLower (map (value_field zs name E D T) (enumerate 0 fs))
    (\<lambda>v. \<exists>vs. v = VStruct vs \<and> length vs = length fs \<and> (\<forall>i < length fs. ok i (vs ! i))) room cfgs"
proof -
  let ?flds = "map (value_field zs name E D T) (enumerate 0 fs)"
  have mem: "\<exists>i f. i < length fs \<and> f = fs ! i \<and> x = value_field zs name E D T (i, f)" if "x \<in> set ?flds" for x
    using that by (auto simp: in_set_enumerate_eq)
  have "map fname ?flds = map (\<lambda>x. name (snd x)) (enumerate 0 fs)"
    by (auto simp: value_field_def)
  also have "\<dots> = map name (map snd (enumerate 0 fs))" by (simp only: map_map comp_def)
  finally have names: "map fname ?flds = map name fs" by (simp only: map_snd_enumerate)
  have get: "field_get zs i (VStruct vs) = vs ! i" if "length vs = length fs" for i vs
    using that assms(4) by (simp add: field_get_def)
  have wr: "written r x" if "x \<in> set ?flds" for r x
    using mem [OF that] assms(7) nth_mem
    by (auto simp: written_def value_field_def field_encoder_def structFieldEncoder_IsEmbeddedPtrNil_def)
  show ?thesis
  proof (unfold_locales, goal_cases)
    case 1
    then show ?case using assms(1) by (simp add: enumerate_eq_zip)
  next
    case 2
    then show ?case using assms(2) names by simp
  next
    case 3
    then show ?case by (rule assms(3))
  next
    case (4 x)
    then show ?case using mem [OF 4] assms(5) nth_mem by (auto simp: value_field_def)
  next
    case (5 x r s)
    from mem [OF 5(1)] obtain i where i: "i < length fs" "x = value_field zs name E D T (i, fs ! i)" by blast
    from 5(2) obtain vs where vs: "r = VStruct vs" "length vs = length fs" "ok i (vs ! i)" using i(1) by blast
    from codec.field_writes [OF assms(6) [OF i(1)], where get = "field_get zs i" and r = r and upd = "field_put zs i" and omit = None] 5(4) vs
    show ?case by (simp add: i(2) value_field_def codec_field_def field_encoder_def get)
  next
    case (6 x r c' j n c)
    from mem [OF 6(1)] obtain i where i: "i < length fs" "x = value_field zs name E D T (i, fs ! i)" by blast
    from 6(2) obtain vs where vs: "r = VStruct vs" "length vs = length fs" "ok i (vs ! i)" using i(1) by blast
    from codec.field_reads [OF assms(6) [OF i(1)], where get = "field_get zs i" and r = r and upd = "field_put zs i"
        and omit = None and room' = room and c' = c' and i = j and n = n and c = c and goname = "Name (fs ! i)" and name = "name (fs ! i)"] 6(4,5) vs
    show ?case by (simp add: i(2) value_field_def codec_field_def field_decoder_def get)
  next
    case (7 r x)
    then show ?case by (intro wr)
  next
    case (8 r old)
    then obtain vs where vs: "r = VStruct vs" "length vs = length fs" by blast
    have "foldl (\<lambda>s f. fput f r s) old ?flds = foldl (\<lambda>s x. field_put zs (fst x) (vs ! fst x) s) old (enumerate 0 fs)"
      by (simp add: foldl_map value_field_def case_prod_beta vs get)
    also have "\<dots> = foldl (\<lambda>s i. field_put zs i (vs ! i) s) old (map fst (enumerate 0 fs))"
      by (simp only: foldl_map)
    finally have "foldl (\<lambda>s f. fput f r s) old ?flds = foldl (\<lambda>s i. field_put zs i (vs ! i) s) old [0..<length fs]"
      by simp
    with fields_rebuilt [of vs zs "length fs" old] vs assms(1,4) show ?case by simp
  qed
qed

section \<open>Types and their values\<close>

definition escapes_html :: "ctx \<Rightarrow> bool" where
  "escapes_html c \<longleftrightarrow> EscapeHTML (configBeforeFrozen (config c))"

text \<open>Only \<open>string\<close> may have a codec of its own, that which escapes HTML.\<close>

definition native_plain :: "ctx \<Rightarrow> ctx \<Rightarrow> kind \<Rightarrow> bool" where
  "native_plain ce cd k \<longleftrightarrow> native_kind k \<and> k \<notin> {Float32, Float64} \<and> dec_by_kind cd (Basic k (kind_name k))
     \<and> (if k = String \<and> escapes_html ce
        then CreateEncoder (encoderExtension ce) (Basic String ''string'') = Some (val_encoder to_string htmlEscapedStringEncoder_Encode htmlEscapedStringEncoder_IsEmpty)
        else enc_by_kind ce (Basic k (kind_name k)))"

fun nullable :: "gotype \<Rightarrow> bool" where
  "nullable (SliceType s t) = True" | "nullable (PtrType t) = True" | "nullable _ = False"

fun plain_type :: "ctx \<Rightarrow> ctx \<Rightarrow> gotype \<Rightarrow> bool" where
  "plain_type ce cd (Basic k s) \<longleftrightarrow> native_plain ce cd k
     \<and> (s \<noteq> kind_name k \<longrightarrow> enc_by_kind ce (Basic k s) \<and> dec_by_kind cd (Basic k s))"
| "plain_type ce cd (SliceType s t) \<longleftrightarrow> enc_by_kind ce (SliceType s t) \<and> dec_by_kind cd (SliceType s t)
     \<and> (Kind t \<noteq> Uint8 \<longrightarrow> plain_type ce cd t)"
| "plain_type ce cd (ArrayType s n t) \<longleftrightarrow> enc_by_kind ce (ArrayType s n t) \<and> dec_by_kind cd (ArrayType s n t) \<and> plain_type ce cd t"
| "plain_type ce cd (PtrType t) \<longleftrightarrow> enc_by_kind ce (PtrType t) \<and> dec_by_kind cd (PtrType t) \<and> plain_type ce cd t \<and> \<not> nullable t"
| "plain_type ce cd (StructType m s fs) \<longleftrightarrow> enc_by_kind ce (StructType m s fs) \<and> dec_by_kind cd (StructType m s fs)
     \<and> fs \<noteq> [] \<and> distinct (map (field_name ce) fs)
     \<and> (\<forall>f \<in> set fs. plain_field ce s f \<and> plain_field cd s f \<and> field_name cd f = field_name ce f \<and> plain (field_name ce f)
          \<and> ToLower cd (field_name ce f) = map lower_byte (field_name ce f) \<and> plain_type ce cd (Type f))"
| "plain_type ce cd _ \<longleftrightarrow> False"

text \<open>The values of a type; strings that are escaped must be valid UTF-8.\<close>

definition value_of_kind :: "ctx \<Rightarrow> kind \<Rightarrow> gval \<Rightarrow> bool" where
  "value_of_kind c k v \<longleftrightarrow>
     (if k = Bool then VBool (to_bool v) = v
      else if k = String then VString (to_string v) = v \<and> (escapes_html c \<longrightarrow> valid_utf8 (to_string v) = to_string v)
      else if k = Int8 \<or> k = Uint8 then V8 (to_8 v) = v
      else if k = Int16 \<or> k = Uint16 then V16 (to_16 v) = v
      else if k = Int32 \<or> k = Uint32 then V32 (to_32 v) = v
      else V64 (to_64 v) = v)"

lemma size_Type_zip [termination_simp]: "(f, x) \<in> set (zip fs vs) \<Longrightarrow> size (Type f) < Suc (size_list size fs)"
  by (rule size_Type) (rule set_zip_leftD)

fun value_of :: "ctx \<Rightarrow> gotype \<Rightarrow> gval \<Rightarrow> bool" where
  "value_of c (Basic k s) v \<longleftrightarrow> value_of_kind c k v"
| "value_of c (SliceType s t) v \<longleftrightarrow>
     (if Kind t = Uint8 then of_bytes (to_bytes v) = v
      else VSlice (to_slice v) = v \<and> (case to_slice v of None \<Rightarrow> True | Some vs \<Rightarrow> list_all (value_of c t) vs))"
| "value_of c (ArrayType s n t) v \<longleftrightarrow>
     (case v of VArray vs \<Rightarrow> length vs = n \<and> list_all (value_of c t) vs | _ \<Rightarrow> False)"
| "value_of c (PtrType t) v \<longleftrightarrow> VPtr (to_ptr v) = v \<and> (case to_ptr v of None \<Rightarrow> True | Some x \<Rightarrow> value_of c t x)"
| "value_of c (StructType m s fs) v \<longleftrightarrow>
     (case v of VStruct vs \<Rightarrow> length vs = length fs \<and> (\<forall>(f, x) \<in> set (zip fs vs). value_of c (Type f) x) | _ \<Rightarrow> False)"
| "value_of c _ v \<longleftrightarrow> False"

text \<open>How deep structs are nested.\<close>

fun nesting :: "gotype \<Rightarrow> int" where
  "nesting (SliceType s t) = nesting t"
| "nesting (ArrayType s n t) = nesting t"
| "nesting (PtrType t) = nesting t"
| "nesting (StructType m s fs) = Max (insert 0 ((\<lambda>f. nesting (Type f)) ` set fs)) + 1"
| "nesting _ = 0"

fun closed_type :: "gotype \<Rightarrow> bool" where
  "closed_type (Basic k s) = (k = String)" | "closed_type (PtrType t) = False" | "closed_type t = True"

lemma nesting_pos: "0 \<le> nesting t"
proof (induction t rule: nesting.induct)
  case (4 m s fs)
  have "0 \<le> Max (insert 0 ((\<lambda>f. nesting (Type f)) ` set fs))" by (rule Max_ge) auto
  then show ?case by simp
qed auto

section \<open>The chosen codecs keep the contract\<close>

lemma lifted_native:
  assumes "codec enc (\<lambda>n. dec) txt (\<lambda>v. True) 0 (\<lambda>c. True)" "\<And>v. ok v \<Longrightarrow> wrap (proj v) = v" "\<And>c i v. hd (txt c i v) \<noteq> ch_n"
  shows "\<exists>txt. codec (Encode (val_encoder proj enc e)) (\<lambda>n. val_decoder wrap proj dec) txt ok 0 cfgs \<and> (\<forall>c i v. ok v \<longrightarrow> hd (txt c i v) \<noteq> ch_n)"
  using codec.restricted [OF lifted_codec [OF assms(1), of proj e wrap], of ok 0 cfgs] assms(2,3) by auto

lemma number_not_null: "hd (int_text i) \<noteq> ch_n" "hd (bool_text b) \<noteq> ch_n"
  using int_head_chars [of i] by (simp_all add: bool_text_def)

lemma native_codec:
  assumes "native_kind k" "k \<notin> {String, Float32, Float64}"
  shows "\<exists>txt. codec (Encode (createEncoderOfNative ce k)) (createDecoderOfNative cd k) txt (value_of_kind ce k) 0 cfgs
    \<and> (\<forall>c i v. value_of_kind ce k v \<longrightarrow> hd (txt c i v) \<noteq> ch_n)"
  using assms number_not_null
  by (cases k; simp add: createEncoderOfNative_def createDecoderOfNative_def native_kind_def)
    (rule lifted_native [OF bool.codec_axioms] lifted_native [OF int8.codec_axioms] lifted_native [OF int16.codec_axioms]
      lifted_native [OF int32.codec_axioms] lifted_native [OF int64.codec_axioms] lifted_native [OF uint8.codec_axioms]
      lifted_native [OF uint16.codec_axioms] lifted_native [OF uint32.codec_axioms] lifted_native [OF uint64.codec_axioms];
      simp add: value_of_kind_def)+

lemma append_same [simp]:
  "escapes_html (ctx_append p c) = escapes_html c" "value_of_kind (ctx_append p c) = value_of_kind c"
  "native_plain (ctx_append p ce) (ctx_append q cd) k = native_plain ce cd k"
  "field_name (ctx_append p c) = field_name c" "plain_field (ctx_append p c) = plain_field c"
  by (simp_all add: escapes_html_def value_of_kind_def native_plain_def field_name_def plain_field_def fun_eq_iff)

lemma plain_type_append [simp]: "plain_type (ctx_append p ce) (ctx_append q cd) t = plain_type ce cd t"
  by (induction ce cd t rule: plain_type.induct) auto

lemma value_of_append': "value_of (ctx_append p c) t v = value_of c t v"
proof (induction c t v rule: value_of.induct)
  case (5 c m s fs v)
  show ?case by (simp split: gval.split) (use 5 in blast)
qed (auto split: gval.splits option.splits simp: list_all_iff)

lemma value_of_append [simp]: "value_of (ctx_append p c) = value_of c"
  by (simp add: fun_eq_iff value_of_append')

lemma UnsafeGrow_append [simp]: "UnsafeGrow (ctx_append p c) = UnsafeGrow c"
  by (simp add: ctx_append_def)

text \<open>The contract of \<open>UnsafeGrow\<close>.\<close>

definition grows :: "ctx \<Rightarrow> bool" where
  "grows c \<longleftrightarrow> (\<forall>z xs n. length (UnsafeGrow c z xs n) = n \<and> take (length xs) (UnsafeGrow c z xs (Suc (length xs))) = xs)"

lemma grows_append [simp]: "grows (ctx_append p c) = grows c"
  by (simp add: grows_def)

lemma plain_not_embedded:
  assumes "unextended ce" "plain_type ce cd t"
  shows "EmbeddedPtrNil (encoderOfType ce t) = None"
proof -
  have b: "EmbeddedPtrNil (encoderOfType ce (Basic k (kind_name k))) = None" if k: "native_plain ce cd k" for k
  proof (cases "k = String \<and> escapes_html ce")
    case True
    then have "getTypeEncoderFromExtension ce (Basic k (kind_name k)) = Some (val_encoder to_string htmlEscapedStringEncoder_Encode htmlEscapedStringEncoder_IsEmpty)"
      using k by (simp add: native_plain_def getTypeEncoderFromExtension_def getTypeEncoderFromExtension_raw_def no_extensions [OF assms(1)])
    then show ?thesis by (simp add: encoderOfType.simps [of ce "Basic k (kind_name k)"] val_encoder_def)
  next
    case False
    with k have "enc_by_kind ce (Basic k (kind_name k))" "native_kind k" "k \<noteq> Float32" "k \<noteq> Float64" by (auto simp: native_plain_def)
    moreover have "EmbeddedPtrNil (createEncoderOfNative ce k) = None" if "native_kind k" "k \<noteq> Float32" "k \<noteq> Float64"
      using that by (cases k) (simp_all add: createEncoderOfNative_def val_encoder_def native_kind_def)
    ultimately show ?thesis using encoder_of(2) [OF assms(1), of "Basic k (kind_name k)" k] by simp
  qed
  show ?thesis
  proof (cases t)
    case (Basic k s)
    with assms(2) b [of k] encoder_of(1) [OF assms(1), of t k s] show ?thesis
      by (cases "s = kind_name k") (auto simp: native_plain_def)
  qed (use assms(2) encoder_of(3-) [OF assms(1), of t] in \<open>auto simp: val_encoder_def\<close>)
qed

text \<open>What the theorem says of a type.\<close>

definition keeps :: "ctx \<Rightarrow> ctx \<Rightarrow> gotype \<Rightarrow> bool" where
  "keeps ce cd t \<longleftrightarrow> (\<exists>txt.
     codec (Encode (encoderOfType ce t)) (decoderOfType cd t) txt (value_of ce t) (nesting t) (\<lambda>c. c = config cd)
     \<and> (closed_type t \<longrightarrow> closed_codec (Encode (encoderOfType ce t)) (decoderOfType cd t) txt (value_of ce t) (nesting t) (\<lambda>c. c = config cd))
     \<and> (\<not> nullable t \<longrightarrow> (\<forall>c i v. value_of ce t v \<longrightarrow> hd (txt c i v) \<noteq> ch_n)))"

lemma keeps_closed:
  assumes "closed_codec (Encode (encoderOfType ce t)) (decoderOfType cd t) txt (value_of ce t) (nesting t) (\<lambda>c. c = config cd)"
    "\<not> nullable t \<Longrightarrow> (\<forall>c i v. value_of ce t v \<longrightarrow> hd (txt c i v) \<noteq> ch_n)"
  shows "keeps ce cd t"
  using assms closed_codec.axioms(1) unfolding keeps_def by blast

lemma keeps_basic:
  assumes "unextended ce" "unextended cd" "plain_type ce cd (Basic k s)"
  shows "keeps ce cd (Basic k s)"
proof -
  let ?B = "Basic k (kind_name k)"
  have k: "native_plain ce cd k" "native_kind k" using assms(3) by (auto simp: native_plain_def)
  have same: "encoderOfType ce (Basic k s) = encoderOfType ce ?B" "decoderOfType cd (Basic k s) = decoderOfType cd ?B"
    using encoder_of(1) [OF assms(1), of "Basic k s"] decoder_of(1) [OF assms(2), of "Basic k s"] assms(3) k
    by (cases "s = kind_name k"; auto)+
  have d: "decoderOfType cd ?B = createDecoderOfNative cd k"
    using decoder_of(2) [OF assms(2), of ?B k] k by (simp add: native_plain_def)
  show ?thesis
  proof (cases "k = String")
    case False
    then have e: "encoderOfType ce ?B = createEncoderOfNative ce k"
      using encoder_of(2) [OF assms(1), of ?B k] k by (simp add: native_plain_def)
    have v: "value_of ce (Basic k s) = value_of_kind ce k" by (simp add: fun_eq_iff)
    from native_codec [OF k(2), of ce cd "\<lambda>c. c = config cd"] k(1) False show ?thesis
      unfolding keeps_def same d e v by (auto simp: native_plain_def)
  next
    case str: True
    have ds: "decoderOfType cd ?B = (\<lambda>n. val_decoder VString to_string stringCodec_Decode)"
      using d by (simp add: createDecoderOfNative_def str)
    show ?thesis
    proof (cases "escapes_html ce")
      case True
      then have "getTypeEncoderFromExtension ce ?B = Some (val_encoder to_string htmlEscapedStringEncoder_Encode htmlEscapedStringEncoder_IsEmpty)"
        using k str by (simp add: native_plain_def getTypeEncoderFromExtension_def getTypeEncoderFromExtension_raw_def no_extensions [OF assms(1)])
      then have e: "encoderOfType ce ?B = val_encoder to_string htmlEscapedStringEncoder_Encode htmlEscapedStringEncoder_IsEmpty"
        by (simp add: encoderOfType.simps [of ce ?B])
      show ?thesis
        by (rule keeps_closed, unfold same ds e, rule closed_restricted [OF lifted_closed [OF html_string.closed_codec_axioms]])
          (use str True in \<open>auto simp: value_of_kind_def html_text_def\<close>)
    next
      case False
      then have e: "encoderOfType ce ?B = val_encoder to_string stringCodec_Encode stringCodec_IsEmpty"
        using encoder_of(2) [OF assms(1), of ?B k] k str by (simp add: native_plain_def createEncoderOfNative_def)
      show ?thesis
        by (rule keeps_closed, unfold same ds e, rule closed_restricted [OF lifted_closed [OF string.closed_codec_axioms]])
          (use str in \<open>auto simp: value_of_kind_def string_text_def\<close>)
    qed
  qed
qed

lemma keeps_slice:
  assumes "unextended ce" "unextended cd" "grows cd" "plain_type ce cd (SliceType s t)"
    "Kind t \<noteq> Uint8 \<Longrightarrow> keeps (ctx_append p ce) (ctx_append p cd) t" and p: "p = ''[sliceElem]''"
  shows "keeps ce cd (SliceType s t)"
proof (cases "Kind t = Uint8")
  case True
  then obtain sl where d: "decoderOfType cd (SliceType s t) = (\<lambda>n. val_decoder of_bytes to_bytes (base64Codec_Decode (base64Error cd) (sl n)))"
    using decoder_of(3) [OF assms(2), of "SliceType s t"] assms(4) by auto
  have e: "encoderOfType ce (SliceType s t) = val_encoder to_bytes base64Codec_Encode base64Codec_IsEmpty"
    using encoder_of(3) [OF assms(1), of "SliceType s t"] assms(4) True by simp
  have room: "0 \<le> nesting t" using nesting_pos by simp
  show ?thesis
    by (rule keeps_closed, unfold d e, rule closed_restricted [OF lifted_closed [OF base64.closed_codec_axioms]])
      (use True room in auto)
next
  case False
  let ?E = "Encode (encoderOfType (ctx_append p ce) t)" and ?D = "decoderOfType (ctx_append p cd) t"
  from assms(5) [OF False] obtain T
    where c: "codec ?E ?D T (value_of ce t) (nesting t) (\<lambda>c. c = config cd)" by (auto simp: keeps_def)
  have "slice_codec ?E ?D T (value_of ce t) (nesting t) (\<lambda>c. c = config cd) (UnsafeGrow cd (zero t))"
    using assms(3) by (intro slice_codec.intro [OF c]) (unfold_locales, auto simp: grows_def)
  from slice_codec.slice_closed [OF this, of s]
  have sc: "closed_codec (sliceEncoder_Encode s ?E) (\<lambda>n. sliceDecoder_Decode n s (UnsafeGrow cd (zero t)) (?D n)) (slice_text T)
      (\<lambda>v. case v of None \<Rightarrow> True | Some xs \<Rightarrow> list_all (value_of ce t) xs) (nesting t) (\<lambda>c. c = config cd)" .
  have d: "decoderOfType cd (SliceType s t) = (\<lambda>n. val_decoder VSlice to_slice (sliceDecoder_Decode n s (UnsafeGrow cd (zero t)) (?D n)))"
    using decoder_of(4) [OF assms(2), of "SliceType s t"] assms(4) False p by simp
  have e: "encoderOfType ce (SliceType s t) = val_encoder to_slice (sliceEncoder_Encode s ?E) sliceEncoder_IsEmpty"
    using encoder_of(3) [OF assms(1), of "SliceType s t"] assms(4) False p by simp
  show ?thesis
    by (rule keeps_closed, unfold d e, rule closed_restricted [OF lifted_closed [OF sc]]) (use False in auto)
qed

lemma keeps_array:
  assumes "unextended ce" "unextended cd" "plain_type ce cd (ArrayType s n t)"
    "keeps (ctx_append p ce) (ctx_append p cd) t" and p: "p = ''[arrayElem]''"
  shows "keeps ce cd (ArrayType s n t)"
proof -
  let ?E = "Encode (encoderOfType (ctx_append p ce) t)" and ?D = "decoderOfType (ctx_append p cd) t"
  from assms(4) obtain T where c: "codec ?E ?D T (value_of ce t) (nesting t) (\<lambda>c. c = config cd)" by (auto simp: keeps_def)
  have d: "decoderOfType cd (ArrayType s n t) = (\<lambda>m. val_decoder VArray (to_array (replicate n (zero t))) (arrayDecoder_Decode m s (?D m)))"
    using decoder_of(5) [OF assms(2), of "ArrayType s n t"] assms(3) p by simp
  have e: "encoderOfType ce (ArrayType s n t) = val_encoder (to_array (replicate n (zero t))) (encoderOfArray s ?E n) (\<lambda>v. n = 0)"
    using encoder_of(4) [OF assms(1), of "ArrayType s n t"] assms(3) p by simp
  show ?thesis
    by (rule keeps_closed, unfold d e, rule closed_restricted [OF codec.array_codec [OF c]])
      (auto simp: slice_text_def seq_text_def split: gval.splits list.splits)
qed

lemma keeps_pointer:
  assumes "unextended ce" "unextended cd" "plain_type ce cd (PtrType t)" "keeps ce cd t"
  shows "keeps ce cd (PtrType t)"
proof -
  let ?E = "Encode (encoderOfType ce t)" and ?D = "decoderOfType cd t"
  from assms(3,4) obtain T where c: "codec ?E ?D T (value_of ce t) (nesting t) (\<lambda>c. c = config cd)"
      "\<And>c i v. value_of ce t v \<Longrightarrow> hd (T c i v) \<noteq> ch_n" by (auto simp: keeps_def)
  have "pointer_codec ?E ?D T (value_of ce t) (nesting t) (\<lambda>c. c = config cd)"
    by (intro pointer_codec.intro [OF c(1)]) (unfold_locales, use c(2) in auto)
  note pc = lifted_codec [OF pointer_codec.pointer_kept [OF this, of "zero t"], of to_ptr OptionalEncoder_IsEmpty VPtr]
  have d: "decoderOfType cd (PtrType t) = (\<lambda>n. val_decoder VPtr to_ptr (OptionalDecoder_Decode (zero t) (?D n)))"
    using decoder_of(6) [OF assms(2), of "PtrType t"] assms(3) by simp
  have e: "encoderOfType ce (PtrType t) = val_encoder to_ptr (OptionalEncoder_Encode ?E) OptionalEncoder_IsEmpty"
    using encoder_of(5) [OF assms(1), of "PtrType t"] assms(3) by simp
  have v: "value_of ce (PtrType t) = (\<lambda>v. VPtr (to_ptr v) = v \<and> (case to_ptr v of None \<Rightarrow> True | Some x \<Rightarrow> value_of ce t x))"
    by (simp add: fun_eq_iff)
  show ?thesis unfolding keeps_def d e v using pc by auto
qed

lemma struct_text_head: "hd (struct_text flds c i v) = ch_lbrace"
  by (cases "filter (written v) flds") (simp_all add: struct_text_def seq_text_def)

lemma keeps_struct:
  assumes "unextended ce" "unextended cd" "plain_type ce cd (StructType m s fs)"
    "\<And>f. f \<in> set fs \<Longrightarrow> keeps (ctx_append (Name f) ce) (ctx_append (Name f) cd) (Type f)"
  shows "keeps ce cd (StructType m s fs)"
proof -
  let ?t = "StructType m s fs" and ?zs = "map (\<lambda>f. zero (Type f)) fs" and ?rt = "\<lparr>Type1_Name = m, type_String = s\<rparr>"
  let ?E = "\<lambda>f. encoderOfType (ctx_append (Name f) ce) (Type f)" and ?D = "\<lambda>f. decoderOfType (ctx_append (Name f) cd) (Type f)"
  let ?room = "Max (insert 0 ((\<lambda>f. nesting (Type f)) ` set fs))" and ?cf = "\<lambda>c. c = config cd"
  have p: "fs \<noteq> []" "distinct (map (field_name ce) fs)" "\<forall>f \<in> set fs. plain_field ce s f" "\<forall>f \<in> set fs. plain_field cd s f"
      "\<And>f. f \<in> set fs \<Longrightarrow> field_name cd f = field_name ce f \<and> plain (field_name ce f) \<and> ToLower cd (field_name ce f) = map lower_byte (field_name ce f)
        \<and> plain_type ce cd (Type f)"
    using assms(3) by auto
  have "\<exists>T. codec (Encode (?E (fs ! i))) (?D (fs ! i)) T (value_of ce (Type (fs ! i))) ?room ?cf" if "i < length fs" for i
  proof -
    from assms(4) [OF nth_mem [OF that]] obtain T
      where c: "codec (Encode (?E (fs ! i))) (?D (fs ! i)) T (value_of ce (Type (fs ! i))) (nesting (Type (fs ! i))) ?cf"
      by (auto simp: keeps_def)
    have "nesting (Type (fs ! i)) \<le> ?room" using nth_mem [OF that] by (intro Max_ge) auto
    from codec.restricted [OF c _ this, of "value_of ce (Type (fs ! i))" ?cf] show ?thesis by blast
  qed
  then obtain T where T: "\<And>i. i < length fs \<Longrightarrow>
      codec (Encode (?E (fs ! i))) (?D (fs ! i)) (T i) (value_of ce (Type (fs ! i))) ?room ?cf" by metis
  let ?flds = "map (value_field ?zs (field_name ce) ?E ?D T) (enumerate 0 fs)"
  let ?ok = "\<lambda>v. \<exists>vs. v = VStruct vs \<and> length vs = length fs \<and> (\<forall>i < length fs. value_of ce (Type (fs ! i)) (vs ! i))"
  have room: "0 \<le> ?room" by (rule Max_ge) auto
  have emb: "EmbeddedPtrNil (?E f) = None" if "f \<in> set fs" for f
    using plain_not_embedded [of "ctx_append (Name f) ce" "ctx_append (Name f) cd" "Type f"] assms(1) p(5) [OF that] by simp
  have fsc: "full_struct_codec (ToLower cd) ?flds ?ok ?room ?cf"
    by (rule struct_of_fields [OF p(1,2) room, of ?zs "ToLower cd" ?E ?D T "\<lambda>i. value_of ce (Type (fs ! i))" ?cf])
      (use p(5) T emb in auto)
  note whole = full_struct_codec.whole_closed [OF this, of ?rt]
  let ?xs = "enumerate 0 fs" and ?nm = "\<lambda>x :: nat \<times> gofield. field_name ce (snd x)"
  have "map ?nm ?xs = map (field_name ce) (map snd ?xs)" by (simp only: map_map comp_def)
  then have di: "distinct (map ?nm ?xs)" "?xs \<noteq> []" using p(1,2) by (simp_all add: enumerate_eq_zip)
  have mem: "snd x \<in> set fs" if "x \<in> set ?xs" for x
    using that by (auto simp: in_set_enumerate_eq dest: nth_mem)
  have "Encode (encoderOfType ce ?t) = encoderOfStruct ?rt (map (plain_binding ce ?zs) ?xs)"
    using encoder_of(6) [OF assms(1), of ?t] assms(3) describe_plain [OF assms(1) p(3)] by (simp add: val_encoder_def)
  also have "\<dots> = structEncoder_Encode ?rt (map (\<lambda>x. (Encoder (plain_binding ce ?zs x), ?nm x)) ?xs)"
    by (rule encoder_distinct [OF di(1) _ di(2)]) (simp add: plain_binding_def case_prod_beta)
  also have "\<dots> = encoderOfStruct ?rt (map (\<lambda>x. field_binding 0 (value_field ?zs (field_name ce) ?E ?D T x)) ?xs)"
    by (subst encoder_distinct [OF di(1) _ di(2)]) (simp_all add: plain_binding_def field_binding_def value_field_def case_prod_beta)
  finally have enc: "Encode (encoderOfType ce ?t) = struct_enc ?rt ?flds" by (simp add: struct_enc_def comp_def)
  have dec: "decoderOfType cd ?t n old it = struct_dec (ToLower cd) ?rt ?flds n old it" if "cfg it = config cd" for n old it
  proof -
    let ?fds = "map (\<lambda>x. (?nm x, field_decoder ?zs (fst x) (snd x) (?D (snd x)) n)) ?xs"
    have "decoderOfType cd ?t n = structDecoder_Decode n (ToLower cd)
        (decoderOfStruct (ToLower cd) (config cd) ?rt (map (\<lambda>x. with_fuel n (plain_binding cd ?zs x)) ?xs))"
      using decoder_of(7) [OF assms(2), of ?t] assms(3) describe_plain [OF assms(2) p(4)] by (simp add: comp_def)
    moreover have "decoderOfStruct (ToLower cd) (config cd) ?rt (map (\<lambda>x. with_fuel n (plain_binding cd ?zs x)) ?xs)
        = (let fds = ?fds in createStructDecoder (ToLower cd) (config cd) ?rt (if \<not> caseSensitive (config cd) then lower_aliases (ToLower cd) fds else fds))"
      by (subst decoder_distinct [OF di(1)]) (simp_all add: plain_binding_def with_fuel_def case_prod_beta p(5) [OF mem])
    moreover have "decoderOfStruct (ToLower cd) (config cd) ?rt (map (\<lambda>x. field_binding n (value_field ?zs (field_name ce) ?E ?D T x)) ?xs)
        = (let fds = ?fds in createStructDecoder (ToLower cd) (config cd) ?rt (if \<not> caseSensitive (config cd) then lower_aliases (ToLower cd) fds else fds))"
      by (subst decoder_distinct [OF di(1)]) (simp_all add: field_binding_def value_field_def case_prod_beta)
    ultimately show ?thesis using that by (simp add: struct_dec_def comp_def)
  qed
  have c: "closed_codec (Encode (encoderOfType ce ?t)) (decoderOfType cd ?t) (struct_text ?flds) ?ok (?room + 1) ?cf"
    unfolding enc by (rule closed_codec_cong [OF whole]) (rule dec)
  have ok: "?ok v" if v: "value_of ce ?t v" for v
  proof -
    obtain vs where vs: "v = VStruct vs" "length vs = length fs" "\<forall>(f, x) \<in> set (zip fs vs). value_of ce (Type f) x"
      using v by (cases v) auto
    have "value_of ce (Type (fs ! i)) (vs ! i)" if "i < length fs" for i
      using vs(2) that bspec [OF vs(3), of "(fs ! i, vs ! i)"] by (auto simp: set_zip)
    with vs show ?thesis by blast
  qed
  have "closed_codec (Encode (encoderOfType ce ?t)) (decoderOfType cd ?t) (struct_text ?flds) (value_of ce ?t) (nesting ?t) ?cf"
  proof (rule closed_restricted [OF c])
    show "?room + 1 \<le> nesting ?t" by (simp only: nesting.simps order.refl)
  qed (assumption | rule ok)+
  then show ?thesis by (rule keeps_closed) (intro allI impI, unfold struct_text_head, simp)
qed

lemma chosen_codecs_keep:
  assumes "unextended ce" "unextended cd" "grows cd" "plain_type ce cd t"
  shows "keeps ce cd t"
  using assms
proof (induction t arbitrary: ce cd rule: measure_induct_rule [of size])
  case (less t)
  show ?case
  proof (cases t)
    case (Basic k s)
    with less.prems keeps_basic show ?thesis by blast
  next
    case (SliceType s t')
    then show ?thesis using less by (simp add: keeps_slice)
  next
    case (ArrayType s n t')
    then show ?thesis using less by (simp add: keeps_array)
  next
    case (PtrType t')
    then show ?thesis using less by (simp add: keeps_pointer)
  next
    case (StructType m s fs)
    have "keeps (ctx_append (Name f) ce) (ctx_append (Name f) cd) (Type f)" if "f \<in> set fs" for f
      using less size_Type [OF that] that StructType by auto
    with less.prems StructType show ?thesis by (simp add: keeps_struct)
  qed (use less.prems in auto)
qed

section \<open>An API in use\<close>

text \<open>A frozen configuration with its caches. Its steps: the lookup of an encoder by \<open>WriteVal\<close>, that of a decoder by
  \<open>ReadVal\<close>, and \<open>RegisterExtension\<close>.\<close>

record gapi =
  gctx :: ctx
  decoderCache :: "gotype \<rightharpoonup> gdecoder"
  encoderCache :: "gotype \<rightharpoonup> gencoder"

definition new_api :: "Config \<Rightarrow> ctx \<Rightarrow> gapi" where
  "new_api conf c = \<lparr>gctx = frozen_ctx conf c, decoderCache = Map.empty, encoderCache = Map.empty\<rparr>"

definition register :: "extension \<Rightarrow> gapi \<Rightarrow> gapi" where
  "register e a = a\<lparr>gctx := (gctx a)\<lparr>ctxExtraExtensions := ctxExtraExtensions (gctx a) @ [e]\<rparr>\<rparr>"

inductive api_step :: "gapi \<Rightarrow> gapi \<Rightarrow> bool" where
  find_encoder: "EncoderOf (gctx a) (encoderCache a) t = (x, cache) \<Longrightarrow> api_step a (a\<lparr>encoderCache := cache\<rparr>)"
| find_decoder: "DecoderOf (gctx a) (decoderCache a) t = Some (d, cache) \<Longrightarrow> api_step a (a\<lparr>decoderCache := cache\<rparr>)"
| registers: "api_step a (register e a)"

inductive_cases api_stepE: "api_step a b"

definition reachable_api :: "Config \<Rightarrow> ctx \<Rightarrow> gapi \<Rightarrow> bool" where
  "reachable_api conf c a \<longleftrightarrow> api_step\<^sup>*\<^sup>* (new_api conf c) a"

text \<open>A configuration with the first \<open>n\<close> of the registered extensions.\<close>

definition with_extensions :: "Config \<Rightarrow> ctx \<Rightarrow> extension list \<Rightarrow> ctx" where
  "with_extensions conf c es = (frozen_ctx conf c)\<lparr>ctxExtraExtensions := es\<rparr>"

definition caches_ok :: "Config \<Rightarrow> ctx \<Rightarrow> gapi \<Rightarrow> bool" where
  "caches_ok conf c a \<longleftrightarrow> gctx a = with_extensions conf c (ctxExtraExtensions (gctx a))
     \<and> (\<forall>t x. encoderCache a t = Some x \<longrightarrow>
          (\<exists>n. x = encoderOfType (with_extensions conf c (take n (ctxExtraExtensions (gctx a)))) t))
     \<and> (\<forall>t d. decoderCache a t = Some d \<longrightarrow>
          (\<exists>n t'. t = PtrType t' \<and> d = decoderOfType (with_extensions conf c (take n (ctxExtraExtensions (gctx a)))) t'))"

lemma with_extensions_simps [simp]:
  "(with_extensions conf c es)\<lparr>ctxPrefix := []\<rparr> = with_extensions conf c es"
  "(with_extensions conf c es)\<lparr>ctxExtraExtensions := es'\<rparr> = with_extensions conf c es'"
  "ctxExtraExtensions (with_extensions conf c es) = es"
  by (simp_all add: with_extensions_def frozen_ctx_def Let_def)

lemma take_longer: "\<exists>m. take n es = take m (es @ [e])"
  by (cases "n \<le> length es") (auto intro: exI [of _ n] exI [of _ "length es"])

lemma caches_kept:
  assumes "api_step a b" "caches_ok conf c a"
  shows "caches_ok conf c b"
proof -
  obtain es where g: "gctx a = with_extensions conf c es"
      "\<forall>t x. encoderCache a t = Some x \<longrightarrow> (\<exists>n. x = encoderOfType (with_extensions conf c (take n es)) t)"
      "\<forall>t d. decoderCache a t = Some d \<longrightarrow> (\<exists>n t'. t = PtrType t' \<and> d = decoderOfType (with_extensions conf c (take n es)) t')"
    using assms(2) unfolding caches_ok_def by blast
  have es: "take (length es) es = es" by simp
  from assms(1) show ?thesis
  proof cases
    case (find_encoder t x cache)
    then have "\<forall>t x. cache t = Some x \<longrightarrow> (\<exists>n. x = encoderOfType (with_extensions conf c (take n es)) t)"
    proof (intro allI impI)
      fix t' x' assume c: "cache t' = Some x'"
      show "\<exists>n. x' = encoderOfType (with_extensions conf c (take n es)) t'"
      proof (cases "encoderCache a t' = Some x'")
        case True
        with g(2) show ?thesis by blast
      next
        case False
        with find_encoder(2) c have "x' = encoderOfType (with_extensions conf c es) t'"
          by (auto simp: EncoderOf_def g(1) Let_def split: option.splits if_splits)
        then show ?thesis by (intro exI [of _ "length es"]) (simp only: es)
      qed
    qed
    with g find_encoder show ?thesis by (simp add: caches_ok_def)
  next
    case (find_decoder t d cache)
    then have "\<forall>t d. cache t = Some d \<longrightarrow> (\<exists>n t'. t = PtrType t' \<and> d = decoderOfType (with_extensions conf c (take n es)) t')"
    proof (intro allI impI)
      fix t' x' assume c: "cache t' = Some x'"
      show "\<exists>n u. t' = PtrType u \<and> x' = decoderOfType (with_extensions conf c (take n es)) u"
      proof (cases "decoderCache a t' = Some x'")
        case True
        with g(3) show ?thesis by blast
      next
        case False
        with find_decoder(2) c obtain u where "t' = PtrType u" "x' = decoderOfType (with_extensions conf c es) u"
          by (cases t) (auto simp: DecoderOf_def g(1) Let_def split: option.splits if_splits)
        then show ?thesis by (intro exI [of _ "length es"] exI [of _ u]) (simp only: es)
      qed
    qed
    with g find_decoder show ?thesis by (simp add: caches_ok_def)
  next
    case (registers e)
    then have b: "gctx b = with_extensions conf c (es @ [e])" "encoderCache b = encoderCache a" "decoderCache b = decoderCache a"
      using g(1) by (simp_all add: register_def)
    have "\<exists>n. x = encoderOfType (with_extensions conf c (take n (es @ [e]))) t" if "encoderCache a t = Some x" for t x
      using g(2) that take_longer [of _ es e] by metis
    moreover have "\<exists>n t'. t = PtrType t' \<and> d = decoderOfType (with_extensions conf c (take n (es @ [e]))) t'" if "decoderCache a t = Some d" for t d
      using g(3) that take_longer [of _ es e] by metis
    ultimately show ?thesis unfolding caches_ok_def b by simp
  qed
qed

lemma with_no_extensions: "with_extensions conf c [] = frozen_ctx conf c"
  by (simp add: with_extensions_def frozen_ctx_def Let_def)

lemma new_caches: "caches_ok conf c (new_api conf c)"
  by (simp add: caches_ok_def new_api_def with_extensions_def frozen_ctx_def Let_def)

lemma reachable_caches_ok:
  assumes "reachable_api conf c a"
  shows "caches_ok conf c a"
  using assms unfolding reachable_api_def by (induction rule: rtranclp_induct) (auto intro: new_caches caches_kept)

lemma reachable_codecs:
  assumes "reachable_api conf c a" "ctxExtraExtensions (gctx a) = []"
  shows "fst (EncoderOf (gctx a) (encoderCache a) t) = encoderOfType (frozen_ctx conf c) t"
    "\<exists>cache. DecoderOf (gctx a) (decoderCache a) (PtrType t) = Some (decoderOfType (frozen_ctx conf c) t, cache)"
proof -
  have c: "gctx a = frozen_ctx conf c" "(frozen_ctx conf c)\<lparr>ctxPrefix := []\<rparr> = frozen_ctx conf c"
    "\<And>t x. encoderCache a t = Some x \<Longrightarrow> x = encoderOfType (frozen_ctx conf c) t"
    "\<And>t d. decoderCache a (PtrType t) = Some d \<Longrightarrow> d = decoderOfType (frozen_ctx conf c) t"
    using reachable_caches_ok [OF assms(1)] assms(2) with_extensions_simps(1) [of conf c "[]"]
    by (auto simp: caches_ok_def with_no_extensions)
  show "fst (EncoderOf (gctx a) (encoderCache a) t) = encoderOfType (frozen_ctx conf c) t"
    using c(3) [of t] by (cases "encoderCache a t") (auto simp: EncoderOf_def c(1,2) Let_def)
  show "\<exists>cache. DecoderOf (gctx a) (decoderCache a) (PtrType t) = Some (decoderOfType (frozen_ctx conf c) t, cache)"
    using c(4) [of t] by (cases "decoderCache a (PtrType t)") (auto simp: DecoderOf_def c(1,2) Let_def)
qed

lemma frozen_unextended:
  assumes "extensions c = []"
  shows "unextended (frozen_ctx conf c)"
  using assms by (auto simp: unextended_def frozen_ctx_def Let_def)

lemma frozen_grows: "grows (frozen_ctx conf c) = grows c"
  by (simp add: grows_def frozen_ctx_def Let_def)

section \<open>Properties\<close>



section \<open>Witnesses\<close>

definition user_type :: gotype where
  "user_type = StructType ''User'' ''main.User''
     [Field ''Name'' False [] (Basic String ''string''),
      Field ''Tags'' False [(''json'', ''tags'')] (SliceType ''[]main.Tag'' (Basic String ''main.Tag'')),
      Field ''Age'' False [] (PtrType (Basic Int64 ''int64'')),
      Field ''Key'' False [] (SliceType ''[]uint8'' (Basic Uint8 ''uint8'')),
      Field ''Pos'' False [] (ArrayType ''[2]int8'' 2 (Basic Int8 ''int8''))]"

definition user :: gval where
  "user = VStruct [VString (map of_char ''a<b''), VSlice (Some [VString []]), VPtr (Some (V64 5)), VSlice (Some [V8 255]), VArray [V8 1, V8 2]]"

lemma base_grows: "grows base_ctx"
  by (simp add: grows_def base_ctx_def grow_zero_laws)

lemma user_type_plain: "plain_type (frozen_ctx (zero_Config\<lparr>EscapeHTML := True\<rparr>) base_ctx) (frozen_ctx zero_Config base_ctx) user_type"
  by (simp add: user_type_def native_plain_def enc_by_kind_def dec_by_kind_def frozen_ctx_def base_ctx_def zero_Config_def escapes_html_def Froze_def
    EncoderExtension_def DecoderExtension_def DummyExtension_def createEncoderOfJsonRawMessage_def createEncoderOfJsonNumber_def
    createDecoderOfJsonRawMessage_def createDecoderOfJsonNumber_def native_kind_def escapeHTML_def Let_def
    plain_field_def field_name_def tag_get_def tag_lookup_def getTagKey_def IsLower_def plain_def safeSet_def RuneSelf_def of_char_def lower_byte_def)

lemma user_value: "value_of (frozen_ctx (zero_Config\<lparr>EscapeHTML := True\<rparr>) base_ctx) user_type user"
proof -
  have "valid_utf8 (map of_char ''a<b'') = map of_char ''a<b''" by code_simp
  then show ?thesis by (simp add: user_type_def user_def value_of_kind_def of_bytes_def to_bytes_def)
qed

lemma start_reachable: "reachable_api conf c (new_api conf c)" "ctxExtraExtensions (gctx (new_api conf c)) = []"
  by (simp_all add: reachable_api_def new_api_def frozen_ctx_def Let_def)


text \<open>A map is used before and after an extension is registered that changes its encoder.\<close>

definition null_extension :: extension where
  "null_extension = DummyExtension\<lparr>CreateEncoder := (\<lambda>t. Some (lazyErrorEncoder (LibErr [])))\<rparr>"


end
