(* ===== verification/GoValue.thy ===== *)
theory GoValue
  imports Api
begin

text \<open>
  Values of type \<open>interface{}\<close>, and \<open>iter.go\<close>'s \<open>Read\<close> and \<open>reflect_dynamic.go\<close>, which decode them.

  A \<open>govalue\<close> is a value with its dynamic type, as \<open>Wrap\<close> and the paths of \<open>Get\<close> take it. The lazy
  values of the \<open>any_*.go\<close> files are declared with it, because a slice or a map may hold them: one
  constructor per Go struct that implements \<open>Any\<close>, with the struct's fields. Floats are finite here, \<open>int\<close>
  and \<open>uint\<close> have 64 bits. The entries of a map are in the order in which the map is iterated.
\<close>

section \<open>Dynamic values and lazy values\<close>

text \<open>The type of a map's keys: its name and whether its kind is string, or \<open>interface {}\<close>.\<close>

datatype key_type = KeyType string bool | KeyInterface

text \<open>\<open>GDefined\<close> is a value of a defined type over a basic one, as \<open>json.Number\<close>; the string of a slice, struct,
  map or pointer is the name of its type; a struct's fields have a name and the mark of an exported one.\<close>

datatype govalue =
    GNil | GBool bool | GString bytes
  | GInt u64 | GInt8 byte | GInt16 u16 | GInt32 u32 | GInt64 u64
  | GUint u64 | GUintptr u64 | GUint8 byte | GUint16 u16 | GUint32 u32 | GUint64 u64
  | GFloat32 go_float | GFloat64 go_float
  | GDefined string govalue
  | GSlice string "govalue list option"
  | GStruct string "(bytes \<times> bool \<times> govalue) list"
  | GMap string key_type "(govalue \<times> govalue) list option"
  | GPtr string "govalue option"
  | GAny any
  | GOther string
and any =
    nilAny | trueAny | falseAny
  | invalidAny "any_error option"
  | stringAny bytes
  | int32Any u32 | int64Any u64 | uint32Any u32 | uint64Any u64
  | floatAny go_float
  | numberLazyAny frozenConfig bytes "any_error option"
  | objectLazyAny frozenConfig bytes "any_error option"
  | arrayLazyAny frozenConfig bytes "any_error option"
  | arrayAny govalue
  | objectAny "any_error option" govalue
  | mapAny "any_error option" govalue
and any_error =
    IterErr go_error
  | NotFound "govalue list"
  | GetIndex "govalue list"
  | GetFromInvalid "any_error option" "govalue list"
  | UnsupportedType string
  | InputEmpty

text \<open>What \<open>LastError\<close> and the constructors of \<open>fmt.Errorf\<close> keep: \<open>NotFound\<close> is \<open>"%v not found"\<close>,
  \<open>GetIndex\<close> is \<open>"GetIndex %v from simple value"\<close>, \<open>GetFromInvalid\<close> is \<open>"%v, get %v from invalid"\<close>.\<close>

type_synonym path = "govalue list"

section \<open>Generic decoding\<close>

text \<open>What the code needs to know of a pointer type: the kind of its element, the zero element, the decoder
  \<open>ReadVal\<close> finds for it.\<close>

record ptr_type =
  elem_is_ptr :: bool
  elem_zero :: govalue
  elem_decoder :: "govalue decoder"

definition read_into :: "govalue decoder \<Rightarrow> govalue decoder" where
  "read_into dec v it =
     (case ReadVal dec (Pointer v) it of
        Some (Pointer v', it') \<Rightarrow> Some (v', it')
      | _ \<Rightarrow> None)"

definition efaceDecoder_Decode :: "(iterator \<Rightarrow> (govalue \<times> iterator) option) \<Rightarrow> (string \<Rightarrow> ptr_type) \<Rightarrow> govalue decoder" where
  "efaceDecoder_Decode read ptrs obj it =
     (case obj of
        GPtr tname target \<Rightarrow>
          (case WhatIsNext it of (vt, it1) \<Rightarrow>
           if vt = NilValue \<and> \<not> elem_is_ptr (ptrs tname) then
             Some (GNil, skipFourBytes ch_n ch_u ch_l ch_l it1)
           else
             map_option (\<lambda>(v, it2). (GPtr tname (Some v), it2))
               (read_into (elem_decoder (ptrs tname))
                 (case target of None \<Rightarrow> elem_zero (ptrs tname) | Some v \<Rightarrow> v) it1))
      | _ \<Rightarrow> read it)"

text \<open>The value of a non-empty interface that is no nil pointer is read with the decoder of its own type,
  \<open>None\<close> if it has no value.\<close>

definition ifaceDecoder_Decode :: "'v decoder \<Rightarrow> 'v option decoder" where
  "ifaceDecoder_Decode dec obj it =
     (case ReadNil it of (isNil, it1) \<Rightarrow>
      if isNil then Some (None, it1)
      else
        (case obj of
           None \<Rightarrow> Some (None, ReportError ''decode non empty interface'' ''can not unmarshal into nil'' it1)
         | Some v \<Rightarrow>
             (case ReadVal dec (Pointer v) it1 of
                Some (Pointer v', it2) \<Rightarrow> Some (Some v', it2)
              | _ \<Rightarrow> None)))"

definition dynamicEncoder_Encode :: "'v encoder \<Rightarrow> 'v option encoder" where
  "dynamicEncoder_Encode enc obj s = WriteVal enc obj s"

definition dynamicEncoder_IsEmpty :: "'v option \<Rightarrow> bool" where
  "dynamicEncoder_IsEmpty obj \<longleftrightarrow> obj = None"

text \<open>\<open>iter.ReadVal(&elem)\<close> with a nil \<open>elem\<close> runs \<open>efaceDecoder\<close>.\<close>

fun Read :: "(string \<Rightarrow> ptr_type) \<Rightarrow> nat \<Rightarrow> iterator \<Rightarrow> (govalue \<times> iterator) option" where
  "Read ptrs 0 it = None"
| "Read ptrs (Suc n) it =
     (case WhatIsNext it of (valueType, it1) \<Rightarrow>
      case valueType of
        StringValue \<Rightarrow> (case ReadString it1 of (s, it2) \<Rightarrow> Some (GString s, it2))
      | NumberValue \<Rightarrow>
          if UseNumber (configBeforeFrozen (cfg it1)) then
            (case readNumberAsString it1 of (s, it2) \<Rightarrow> Some (GDefined ''json.Number'' (GString s), it2))
          else (case ReadFloat64 it1 of (x, it2) \<Rightarrow> Some (GFloat64 x, it2))
      | NilValue \<Rightarrow> Some (GNil, skipFourBytes ch_n ch_u ch_l ch_l it1)
      | BoolValue \<Rightarrow> (case ReadBool it1 of (b, it2) \<Rightarrow> Some (GBool b, it2))
      | ArrayValue \<Rightarrow>
          map_option (\<lambda>(ok, arr, it2). (GSlice ''[]interface {}'' (Some arr), it2))
            (ReadArrayCB n
              (\<lambda>it arr. map_option (\<lambda>(elem, it'). (True, arr @ [elem], it')) (read_into (efaceDecoder_Decode (Read ptrs n) ptrs) GNil it))
              it1 [])
      | ObjectValue \<Rightarrow>
          map_option (\<lambda>(ok, obj, it2). (GMap ''map[string]interface {}'' (KeyType ''string'' True) (Some obj), it2))
            (ReadObjectCB n
              (\<lambda>it field obj. map_option (\<lambda>(elem, it'). (True, AList.update (GString field) elem obj, it'))
                (read_into (efaceDecoder_Decode (Read ptrs n) ptrs) GNil it))
              it1 [])
      | InvalidValue \<Rightarrow>
          Some (GNil, ReportError ''Read'' (''unexpected value type: 0'') it1))"

section \<open>The reference: the value a text denotes\<close>

text \<open>\<open>generic u d v g\<close>: the JSON text \<open>v\<close> of at most \<open>d\<close> levels denotes \<open>g\<close>; \<open>u\<close> is \<open>UseNumber\<close>. A name
  that occurs twice keeps its place and takes the later value.\<close>

abbreviation field_lit :: "field \<Rightarrow> bytes" where "field_lit f \<equiv> fst (snd f)"
abbreviation field_val :: "field \<Rightarrow> bytes" where "field_val f \<equiv> fst (snd (snd (snd (snd f))))"

definition elem_frame :: "bytes \<times> bytes \<times> bytes \<Rightarrow> bool" where "elem_frame = elem_ok (\<lambda>e. True)"
definition field_frame :: "field \<Rightarrow> bool" where "field_frame = field_ok (\<lambda>e. True)"

inductive generic :: "bool \<Rightarrow> nat \<Rightarrow> bytes \<Rightarrow> govalue \<Rightarrow> bool" for u where
  generic_null: "generic u d [ch_n, ch_u, ch_l, ch_l] GNil"
| generic_bool: "generic u d (bool_text b) (GBool b)"
| generic_float: "\<not> u \<Longrightarrow> num_ok ip fp \<Longrightarrow> v = (if neg then [ch_minus] else []) @ num_text ip fp \<Longrightarrow>
    ParseFloat v 64 = Some x \<Longrightarrow> generic u d v (GFloat64 x)"
| generic_number: "u \<Longrightarrow> number_token v \<Longrightarrow> generic u d v (GDefined ''json.Number'' (GString v))"
| generic_string: "decode_str s = Some (x, []) \<Longrightarrow> generic u d (ch_quote # s) (GString x)"
| generic_array0: "list_all is_space w \<Longrightarrow>
    generic u (Suc d) (ch_lbrack # w @ [ch_rbrack]) (GSlice ''[]interface {}'' (Some []))"
| generic_array: "length es = length gs \<Longrightarrow> \<forall>p \<in> set (zip es gs). elem_frame (fst p) \<and> generic u d (fst (snd (fst p))) (snd p) \<Longrightarrow>
    es \<noteq> [] \<Longrightarrow> generic u (Suc d) (ch_lbrack # elems_text es @ [ch_rbrack]) (GSlice ''[]interface {}'' (Some gs))"
| generic_object0: "list_all is_space w \<Longrightarrow>
    generic u (Suc d) (ch_lbrace # w @ [ch_rbrace]) (GMap ''map[string]interface {}'' (KeyType ''string'' True) (Some []))"
| generic_object: "length fs = length kgs \<Longrightarrow> \<forall>p \<in> set (zip fs kgs). field_frame (fst p)
      \<and> name_of (field_lit (fst p)) = fst (snd p) \<and> generic u d (field_val (fst p)) (snd (snd p)) \<Longrightarrow>
    fs \<noteq> [] \<Longrightarrow> generic u (Suc d) (ch_lbrace # fields_text fs @ [ch_rbrace])
      (GMap ''map[string]interface {}'' (KeyType ''string'' True)
        (Some (fold (\<lambda>(k, g). AList.update (GString k) g) kgs [])))"

definition reads_go :: "bool \<Rightarrow> nat \<Rightarrow> bytes \<Rightarrow> govalue \<Rightarrow> bool" where
  "reads_go u d v g \<longleftrightarrow> (\<forall>ptrs n it ws t rest. length v < n \<longrightarrow> wf_iter it \<longrightarrow> Error it = None
     \<longrightarrow> UseNumber (configBeforeFrozen (cfg it)) = u \<longrightarrow> 0 \<le> depth it
     \<longrightarrow> depth it + int d \<le> maxDepth \<longrightarrow> list_all is_space ws \<longrightarrow> pending it = ws @ v @ t # rest \<longrightarrow> \<not> number_char t
     \<longrightarrow> (\<exists>it'. Read ptrs n it = Some (g, it') \<and> consumes it (ws @ v) it' \<and> pending it' = t # rest))"

text \<open>It suffices to read from the first byte on.\<close>

lemma reads_goI:
  assumes v: "v = h # r" "\<not> is_space h"
    and rd: "\<And>ptrs n it1 it t rest. \<lbrakk>length r < n; WhatIsNext it = (valueTypes h, it1); wf_iter it1; Error it1 = None;
      UseNumber (configBeforeFrozen (cfg it1)) = u; 0 \<le> depth it1; depth it1 + int d \<le> maxDepth;
      pending it1 = v @ t # rest; \<not> number_char t\<rbrakk>
      \<Longrightarrow> \<exists>it'. Read ptrs (Suc n) it = Some (g, it') \<and> consumes it1 v it' \<and> pending it' = t # rest"
  shows "reads_go u d v g"
  unfolding reads_go_def
proof (intro allI impI)
  fix ptrs n it ws t rest
  assume a: "length v < n" "wf_iter it" "Error it = None" "UseNumber (configBeforeFrozen (cfg it)) = u" "0 \<le> depth it"
    "depth it + int d \<le> maxDepth" "list_all is_space ws" "pending it = ws @ v @ t # rest" "\<not> number_char t"
  obtain m where n: "n = Suc m" "length r < m" using a(1) v by (cases n) auto
  from WhatIsNext_at [OF a(2,3,7), of h "r @ t # rest"] a(8) v obtain it1 where
    1: "WhatIsNext it = (valueTypes h, it1)" "consumes it ws it1" "pending it1 = v @ t # rest" by auto
  note s = consumes_same [OF 1(2)]
  from rd [OF n(2) 1(1) _ _ _ _ _ 1(3) a(9), of ptrs] s a(3-6) obtain it' where
    "Read ptrs (Suc m) it = Some (g, it')" "consumes it1 v it'" "pending it' = t # rest" by auto
  with consumes_trans [OF 1(2)] n show "\<exists>it'. Read ptrs n it = Some (g, it') \<and> consumes it (ws @ v) it' \<and> pending it' = t # rest"
    by blast
qed

lemma reads_go_unique:
  assumes "reads_go u d v g" "reads_go u d v g'" "int d \<le> maxDepth"
  shows "g = g'"
proof -
  let ?c = "ConfigDefault\<lparr>configBeforeFrozen := (configBeforeFrozen ConfigDefault)\<lparr>UseNumber := u\<rparr>\<rparr>"
  let ?it = "ParseBytes ?c (v @ [ch_comma])"
  have s: "wf_iter ?it" "Error ?it = None" "UseNumber (configBeforeFrozen (cfg ?it)) = u" "depth ?it = 0" "pending ?it = [] @ v @ ch_comma # []"
    by (simp_all add: wf_iter_def ParseBytes_def pending_def rest_bytes_def gslice_def)
  have c: "\<not> number_char ch_comma" by (simp add: number_char_def is_digit_def)
  have "length v < Suc (length v)" by simp
  with assms s c have "\<exists>it'. Read undefined (Suc (length v)) ?it = Some (g, it')" "\<exists>it'. Read undefined (Suc (length v)) ?it = Some (g', it')"
    unfolding reads_go_def by (metis add_0 dual_order.refl list.pred_inject(1))+
  then show ?thesis by auto
qed

text \<open>The callbacks of \<open>Read\<close>.\<close>

lemma read_element:
  assumes "reads_go u d e g" "length e < n" "wf_iter it" "Error it = None" "UseNumber (configBeforeFrozen (cfg it)) = u"
    "0 \<le> depth it" "depth it + int d \<le> maxDepth" "list_all is_space ws" "pending it = ws @ e @ t # rest" "\<not> number_char t"
  shows "\<exists>it'. read_into (efaceDecoder_Decode (Read ptrs n) ptrs) GNil it = Some (g, it') \<and> consumes it (ws @ e) it'
    \<and> pending it' = t # rest"
proof -
  from assms obtain it' where 1: "Read ptrs n it = Some (g, it')" "consumes it (ws @ e) it'" "pending it' = t # rest"
    unfolding reads_go_def by blast
  then show ?thesis by (simp add: read_into_def ReadVal_def efaceDecoder_Decode_def consumes_depth)
qed

abbreviation go_of :: "bool \<Rightarrow> nat \<Rightarrow> bytes \<Rightarrow> govalue" where
  "go_of u d e \<equiv> SOME g. reads_go u d e g"

abbreviation go_elem :: "bool \<Rightarrow> nat \<Rightarrow> nat \<Rightarrow> bytes \<Rightarrow> bool" where
  "go_elem u d n e \<equiv> e \<noteq> [] \<and> hd e \<noteq> ch_rbrack \<and> \<not> is_space (hd e) \<and> reads_go u d e (go_of u d e) \<and> length e < n"

interpretation read_elements: element_reader
    "\<lambda>it arr. map_option (\<lambda>(elem, it'). (True, arr @ [elem], it')) (read_into (efaceDecoder_Decode (Read ptrs n) ptrs) GNil it)"
    "\<lambda>it. UseNumber (configBeforeFrozen (cfg it)) = u" "go_elem u d n" "\<lambda>e s. s @ [go_of u d e]" "int d" for ptrs n u d
proof (unfold_locales, goal_cases)
  case (1 it ws e t rest s)
  then show ?case using read_element [of u d e "go_of u d e" n it ws t rest ptrs] by auto
qed (auto dest: consumes_cfg)

interpretation read_members: field_reader
    "\<lambda>it rs s. case RawString_String (buf it) rs of None \<Rightarrow> None | Some name \<Rightarrow>
       map_option (\<lambda>(elem, it'). (True, AList.update (GString name) elem s, it'))
         (read_into (efaceDecoder_Decode (Read ptrs n) ptrs) GNil it)"
    "\<lambda>it. UseNumber (configBeforeFrozen (cfg it)) = u" "go_elem u d n"
    "\<lambda>name e s. AList.update (GString name) (go_of u d e) s" "int d" for ptrs n u d
proof (unfold_locales, goal_cases)
  case (1 rs name it ws e t rest s)
  then show ?case using read_element [of u d e "go_of u d e" n it ws t rest ptrs] by auto
qed (auto dest: consumes_cfg)

lemma steps_generic:
  assumes "length es = length gs" "\<forall>p \<in> set (zip es gs). go_of u d (fst (snd (fst p))) = snd p"
  shows "steps (\<lambda>e s. s @ [go_of u d e]) es s = s @ gs"
  using assms
proof (induction es gs arbitrary: s rule: list_induct2)
  case (Cons x es g gs)
  then show ?case by (cases x) auto
qed simp

lemma fsteps_generic:
  assumes "length fs = length kgs" "\<forall>p \<in> set (zip fs kgs). name_of (field_lit (fst p)) = fst (snd p)
      \<and> go_of u d (field_val (fst p)) = snd (snd p)"
  shows "fsteps (\<lambda>name e s. AList.update (GString name) (go_of u d e) s) fs s
    = fold (\<lambda>(k, g). AList.update (GString k) g) kgs s"
  using assms
proof (induction fs kgs arbitrary: s rule: list_induct2)
  case (Cons f fs kg kgs)
  then show ?case by (cases f; cases kg) auto
qed simp

lemma zip_fst: "length xs = length ys \<Longrightarrow> x \<in> set xs \<Longrightarrow> \<exists>y. (x, y) \<in> set (zip xs ys)"
  by (metis fst_conv in_set_impl_in_set_zip1 prod.collapse)

lemma go_of_reads: "reads_go u d e g \<Longrightarrow> int d \<le> maxDepth \<Longrightarrow> reads_go u d e (go_of u d e) \<and> go_of u d e = g"
  using reads_go_unique someI [of "reads_go u d e" g] by blast

lemma generic_head: "generic u d v g \<Longrightarrow> v \<noteq> [] \<and> hd v \<noteq> ch_rbrack \<and> \<not> is_space (hd v)"
proof (induction rule: generic.induct)
  case (generic_float ip fp v neg x d)
  then show ?case by (cases neg; cases ip) (auto simp: num_ok_def num_text_def is_space_def is_digit_def)
next
  case (generic_number v d)
  then show ?case using json_head [of d v] json.json_number by blast
next
  case (generic_bool d b)
  then show ?case by (simp add: bool_text_def is_space_def)
qed (auto simp: is_space_def)

lemma reads_number_token:
  assumes "number_token v" "wf_iter it" "Error it = None" "pending it = v @ t # rest" "\<not> number_char t"
  shows "\<exists>it'. readNumberAsString it = (v, it') \<and> consumes it v it' \<and> pending it' = t # rest"
proof -
  have tw: "takeWhile number_char (pending it) = v" "dropWhile number_char (pending it) = t # rest" "v \<noteq> []"
  proof -
    from assms(1) obtain neg ip fp where v: "v = (if neg then [ch_minus] else []) @ num_text ip fp" "num_ok ip fp"
      unfolding number_token_def by blast
    with num_text_chars [OF v(2)] have "list_all number_char v" by (simp add: number_char_def)
    then show "takeWhile number_char (pending it) = v" "dropWhile number_char (pending it) = t # rest"
      using dropWhile_span [of v t rest "pending it" number_char] assms(4,5) by (auto simp: list_all_iff)
    show "v \<noteq> []" using v by (auto simp: num_ok_def num_text_def)
  qed
  from readNumber_loop_reads [OF assms(2) tw(2), of "[]"] obtain it' where
    r: "readNumber_loop [] it = (v, it')" "consumes it v it'" "pending it' = t # rest"
    unfolding tw by auto
  have "Error it' = None" using consumes_Error [OF r(2)] assms(3) by simp
  with r tw(3) show ?thesis by (simp add: readNumberAsString_def readNumberAsBytes_def)
qed

text \<open>One lemma for each case of the grammar.\<close>

lemma reads_null:
  "reads_go u d [ch_n, ch_u, ch_l, ch_l] GNil"
proof (rule reads_goI [of _ ch_n "[ch_u, ch_l, ch_l]"])
  fix ptrs n it it1 t rest
  assume "WhatIsNext it = (valueTypes ch_n, it1)" "wf_iter it1" "pending it1 = [ch_n, ch_u, ch_l, ch_l] @ t # rest"
  with skipFourBytes_ok [of it1 ch_n ch_u ch_l ch_l "t # rest"]
  show "\<exists>it'. Read ptrs (Suc n) it = Some (GNil, it') \<and> consumes it1 [ch_n, ch_u, ch_l, ch_l] it' \<and> pending it' = t # rest"
    by (simp add: valueTypes_def is_digit_def)
qed (simp_all add: is_space_def)

lemma reads_bool:
  "reads_go u d (bool_text b) (GBool b)"
proof (rule reads_goI [of _ "hd (bool_text b)" "tl (bool_text b)"])
  fix ptrs n it it1 t rest
  assume "WhatIsNext it = (valueTypes (hd (bool_text b)), it1)" "wf_iter it1" "pending it1 = bool_text b @ t # rest"
  with ReadBool_reads [of it1 b "t # rest"]
  show "\<exists>it'. Read ptrs (Suc n) it = Some (GBool b, it') \<and> consumes it1 (bool_text b) it' \<and> pending it' = t # rest"
    by (auto simp: valueTypes_def is_digit_def bool_text_def split: if_splits)
qed (auto simp: is_space_def bool_text_def)

lemma reads_float:
  assumes "\<not> u" "num_ok ip fp" "v = (if neg then [ch_minus] else []) @ num_text ip fp" "ParseFloat v 64 = Some x"
  shows "reads_go u d v (GFloat64 x)"
proof -
  obtain h r where h: "v = h # r" "h = ch_minus \<or> is_digit h"
    using assms by (cases neg; cases ip) (auto simp: num_ok_def num_text_def)
  show ?thesis
  proof (rule reads_goI [OF h(1)])
    fix ptrs n it it1 t rest
    assume a: "WhatIsNext it = (valueTypes h, it1)" "wf_iter it1" "Error it1 = None"
      "UseNumber (configBeforeFrozen (cfg it1)) = u" "pending it1 = v @ t # rest" "\<not> number_char t"
    have "valueTypes h = NumberValue" using h(2) by (auto simp: valueTypes_def is_digit_def)
    with ReadFloat64_literal [OF a(2,3) _ assms(2), of "[]" neg t rest x] a assms
    show "\<exists>it'. Read ptrs (Suc n) it = Some (GFloat64 x, it') \<and> consumes it1 v it' \<and> pending it' = t # rest"
      by auto
  qed (use h in \<open>auto simp: is_space_def is_digit_def\<close>)
qed

lemma reads_number:
  assumes "u" "number_token v"
  shows "reads_go u d v (GDefined ''json.Number'' (GString v))"
proof -
  from number_token_head [OF assms(2)] obtain h r where h: "v = h # r" "h = ch_minus \<or> is_digit h" by blast
  show ?thesis
  proof (rule reads_goI [OF h(1)])
    fix ptrs n it it1 t rest
    assume a: "WhatIsNext it = (valueTypes h, it1)" "wf_iter it1" "Error it1 = None"
      "UseNumber (configBeforeFrozen (cfg it1)) = u" "pending it1 = v @ t # rest" "\<not> number_char t"
    have "valueTypes h = NumberValue" using h(2) by (auto simp: valueTypes_def is_digit_def)
    with reads_number_token [OF assms(2) a(2,3,5,6)] a assms
    show "\<exists>it'. Read ptrs (Suc n) it = Some (GDefined ''json.Number'' (GString v), it') \<and> consumes it1 v it' \<and> pending it' = t # rest"
      by auto
  qed (use h in \<open>auto simp: is_space_def is_digit_def\<close>)
qed

lemma reads_string:
  assumes "decode_str s = Some (x, [])"
  shows "reads_go u d (ch_quote # s) (GString x)"
proof (rule reads_goI [of _ ch_quote s])
  fix ptrs n it it1 t rest
  assume a: "WhatIsNext it = (valueTypes ch_quote, it1)" "wf_iter it1" "Error it1 = None"
    "pending it1 = (ch_quote # s) @ t # rest"
  from decode_str_local [OF assms] have "\<forall>ys. decode_str (s @ ys) = Some (x, ys)" by auto
  with ReadString_literal [OF a(2,3), of "[]" s "t # rest" x] a(1,4)
  show "\<exists>it'. Read ptrs (Suc n) it = Some (GString x, it') \<and> consumes it1 (ch_quote # s) it' \<and> pending it' = t # rest"
    by (auto simp: valueTypes_def)
qed (simp_all add: is_space_def)

lemma reads_array0:
  assumes "list_all is_space w"
  shows "reads_go u (Suc d) (ch_lbrack # w @ [ch_rbrack]) (GSlice ''[]interface {}'' (Some []))"
proof (rule reads_goI [of _ ch_lbrack "w @ [ch_rbrack]"])
  fix ptrs n it it1 t rest
  assume a: "WhatIsNext it = (valueTypes ch_lbrack, it1)" "wf_iter it1" "0 \<le> depth it1" "depth it1 + int (Suc d) \<le> maxDepth"
    "pending it1 = (ch_lbrack # w @ [ch_rbrack]) @ t # rest"
  from a(4) have "depth it1 + 1 \<le> maxDepth" by simp
  from empty_consumed(1) [OF a(2,3) this _ assms, of "[]" "t # rest"] a(1,5)
  show "\<exists>it'. Read ptrs (Suc n) it = Some (GSlice ''[]interface {}'' (Some []), it')
      \<and> consumes it1 (ch_lbrack # w @ [ch_rbrack]) it' \<and> pending it' = t # rest"
    by (fastforce simp: valueTypes_def is_digit_def)
qed (simp_all add: is_space_def)

lemma reads_object0:
  assumes "list_all is_space w"
  shows "reads_go u (Suc d) (ch_lbrace # w @ [ch_rbrace])
    (GMap ''map[string]interface {}'' (KeyType ''string'' True) (Some []))"
proof (rule reads_goI [of _ ch_lbrace "w @ [ch_rbrace]"])
  fix ptrs n it it1 t rest
  assume a: "WhatIsNext it = (valueTypes ch_lbrace, it1)" "wf_iter it1" "0 \<le> depth it1" "depth it1 + int (Suc d) \<le> maxDepth"
    "pending it1 = (ch_lbrace # w @ [ch_rbrace]) @ t # rest"
  from a(4) have "depth it1 + 1 \<le> maxDepth" by simp
  from empty_consumed(2) [OF a(2,3) this _ assms, of "[]" "t # rest"] a(1,5)
  show "\<exists>it'. Read ptrs (Suc n) it = Some (GMap ''map[string]interface {}'' (KeyType ''string'' True) (Some []), it')
      \<and> consumes it1 (ch_lbrace # w @ [ch_rbrace]) it' \<and> pending it' = t # rest"
    by (fastforce simp: valueTypes_def is_digit_def ReadObjectCB_def)
qed (simp_all add: is_space_def)

lemma reads_array:
  assumes "length es = length gs" "es \<noteq> []" "\<forall>p \<in> set (zip es gs). elem_frame (fst p)
      \<and> generic u d (fst (snd (fst p))) (snd p) \<and> reads_go u d (fst (snd (fst p))) (snd p)"
  shows "reads_go u (Suc d) (ch_lbrack # elems_text es @ [ch_rbrack]) (GSlice ''[]interface {}'' (Some gs))"
proof (rule reads_goI [of _ ch_lbrack "elems_text es @ [ch_rbrack]"])
  fix ptrs n it it1 t rest
  assume a: "length (elems_text es @ [ch_rbrack]) < n" "WhatIsNext it = (valueTypes ch_lbrack, it1)" "wf_iter it1"
    "Error it1 = None" "UseNumber (configBeforeFrozen (cfg it1)) = u" "0 \<le> depth it1" "depth it1 + int (Suc d) \<le> maxDepth"
    "pending it1 = (ch_lbrack # elems_text es @ [ch_rbrack]) @ t # rest"
  have d: "int d \<le> maxDepth" using a(6,7) by simp
  have go: "\<forall>p \<in> set (zip es gs). elem_frame (fst p) \<and> generic u d (fst (snd (fst p))) (snd p)
      \<and> reads_go u d (fst (snd (fst p))) (go_of u d (fst (snd (fst p)))) \<and> go_of u d (fst (snd (fst p))) = snd p"
    using assms(3) go_of_reads d by blast
  have ok: "elem_ok (go_elem u d n) x" if x: "x \<in> set es" for x
  proof -
    obtain w e w' where xe: "x = (w, e, w')" by (cases x) auto
    from zip_fst [OF assms(1) x] go generic_head length_elems [of w e w' es] a(1) x
    show ?thesis by (fastforce simp: xe elem_ok_def elem_frame_def)
  qed
  then have oks: "list_all (elem_ok (go_elem u d n)) es" by (simp add: list_all_iff)
  have "length es \<le> n" using length_elems_text [of es] ok a(1) by (force simp: elem_ok_def)
  from read_elements.array_consumed [OF a(5,3,4,6) _ _ _ oks assms(2) _ this, of "[]" "t # rest" ptrs "[]"] a(2,7,8)
    steps_generic [OF assms(1), of u d "[]"] go
  show "\<exists>it'. Read ptrs (Suc n) it = Some (GSlice ''[]interface {}'' (Some gs), it')
      \<and> consumes it1 (ch_lbrack # elems_text es @ [ch_rbrack]) it' \<and> pending it' = t # rest"
    by (auto simp: valueTypes_def is_digit_def)
qed (simp_all add: is_space_def)

lemma reads_object:
  assumes "length fs = length kgs" "fs \<noteq> []" "\<forall>p \<in> set (zip fs kgs). field_frame (fst p) \<and> name_of (field_lit (fst p)) = fst (snd p)
      \<and> generic u d (field_val (fst p)) (snd (snd p)) \<and> reads_go u d (field_val (fst p)) (snd (snd p))"
  shows "reads_go u (Suc d) (ch_lbrace # fields_text fs @ [ch_rbrace])
    (GMap ''map[string]interface {}'' (KeyType ''string'' True) (Some (fold (\<lambda>(k, g). AList.update (GString k) g) kgs [])))"
proof (rule reads_goI [of _ ch_lbrace "fields_text fs @ [ch_rbrace]"])
  fix ptrs n it it1 t rest
  assume a: "length (fields_text fs @ [ch_rbrace]) < n" "WhatIsNext it = (valueTypes ch_lbrace, it1)" "wf_iter it1"
    "Error it1 = None" "UseNumber (configBeforeFrozen (cfg it1)) = u" "0 \<le> depth it1" "depth it1 + int (Suc d) \<le> maxDepth"
    "pending it1 = (ch_lbrace # fields_text fs @ [ch_rbrace]) @ t # rest"
  have d: "int d \<le> maxDepth" using a(6,7) by simp
  have go: "\<forall>p \<in> set (zip fs kgs). field_frame (fst p) \<and> name_of (field_lit (fst p)) = fst (snd p)
      \<and> generic u d (field_val (fst p)) (snd (snd p))
      \<and> reads_go u d (field_val (fst p)) (go_of u d (field_val (fst p))) \<and> go_of u d (field_val (fst p)) = snd (snd p)"
    using assms(3) go_of_reads d by blast
  have ok: "field_ok (go_elem u d n) f" if f: "f \<in> set fs" for f
  proof -
    obtain w1 k w2 w3 v w4 where fe: "f = (w1, k, w2, w3, v, w4)" by (cases f) auto
    from zip_fst [OF assms(1) f] go generic_head length_fields [of w1 k w2 w3 v w4 fs] a(1) f
    show ?thesis by (fastforce simp: fe elem_ok_def field_frame_def)
  qed
  then have oks: "list_all (field_ok (go_elem u d n)) fs" by (simp add: list_all_iff)
  have "length fs \<le> n" using length_fields_text [of fs] a(1) by simp
  from read_members.object_consumed [OF a(5,3,4,6) _ _ _ oks assms(2) _ this, of "[]" "t # rest" ptrs "[]"] a(2,7,8)
    fsteps_generic [OF assms(1), of u d "[]"] go
  show "\<exists>it'. Read ptrs (Suc n) it = Some (GMap ''map[string]interface {}'' (KeyType ''string'' True)
        (Some (fold (\<lambda>(k, g). AList.update (GString k) g) kgs [])), it')
      \<and> consumes it1 (ch_lbrace # fields_text fs @ [ch_rbrace]) it' \<and> pending it' = t # rest"
    by (auto simp: valueTypes_def is_digit_def ReadObjectCB_def)
qed (simp_all add: is_space_def)

lemma generic_reads: "generic u d v g \<Longrightarrow> reads_go u d v g"
proof (induction rule: generic.induct)
  case (generic_array es gs d)
  then show ?case by (intro reads_array) blast+
next
  case (generic_object fs kgs d)
  then show ?case by (intro reads_object) blast+
qed (auto intro: reads_null reads_bool reads_float reads_number reads_string reads_array0 reads_object0)

section \<open>Properties\<close>

text \<open>C11: \<open>Read\<close> on a JSON text of at most \<open>d\<close> levels, behind white space and followed by a byte that cannot
  continue a number, returns the value the text denotes (floats correctly rounded, or numbers as text
  when \<open>UseNumber\<close> is set; slices and maps built in order, a repeated name overwritten) and stops right
  behind it, whatever the buffering; fuel above the text's length is enough.\<close>

theorem Read_generic:
  assumes "generic u d v g" "length v < n"
    and "wf_iter it" "Error it = None" "UseNumber (configBeforeFrozen (cfg it)) = u"
    and "0 \<le> depth it" "depth it + int d \<le> maxDepth"
    and "list_all is_space ws" "pending it = ws @ v @ t # rest" "\<not> number_char t"
  shows "\<exists>it'. Read ptrs n it = Some (g, it') \<and> consumes it (ws @ v) it' \<and> pending it' = t # rest"
  using generic_reads [OF assms(1)] assms(2-) unfolding reads_go_def by blast

section \<open>Witnesses\<close>

definition sample_obj :: bytes where
  "sample_obj = map of_char (''{'' @ [CHR 0x22] @ ''a'' @ [CHR 0x22] @ '':[1.5, true]}'')"

definition sample_go :: govalue where
  "sample_go = GMap ''map[string]interface {}'' (KeyType ''string'' True)
     (Some [(GString [0x61], GSlice ''[]interface {}'' (Some [GFloat64 (Float False (3 / 2)), GBool True]))])"

lemma sample_generic: "generic False 2 sample_obj sample_go"
proof -
  have n: "generic False 0 [0x31, 0x2E, 0x35] (GFloat64 (Float False (3 / 2)))"
    by (rule generic_float [of _ "[0x31]" "[0x35]" _ False]) (simp_all add: num_ok_def num_text_def is_digit_def, code_simp)
  have b: "generic False 0 [ch_t, ch_r, ch_u, ch_e] (GBool True)"
    using generic_bool [of False 0 True] by (simp add: bool_text_def)
  have "generic False (Suc 0) (ch_lbrack # elems_text [([], [0x31, 0x2E, 0x35], []), ([0x20], [ch_t, ch_r, ch_u, ch_e], [])] @ [ch_rbrack])
      (GSlice ''[]interface {}'' (Some [GFloat64 (Float False (3 / 2)), GBool True]))"
    by (rule generic_array) (use n b in \<open>auto simp: elem_frame_def elem_ok_def is_space_def\<close>)
  then have a: "generic False 1 [0x5B, 0x31, 0x2E, 0x35, 0x2C, 0x20, 0x74, 0x72, 0x75, 0x65, 0x5D]
      (GSlice ''[]interface {}'' (Some [GFloat64 (Float False (3 / 2)), GBool True]))" by simp
  have k: "decode_str [0x61, ch_quote] = Some ([0x61], [])" by code_simp
  have "generic False (Suc 1) (ch_lbrace # fields_text [([], [0x61, ch_quote], [], [],
        [0x5B, 0x31, 0x2E, 0x35, 0x2C, 0x20, 0x74, 0x72, 0x75, 0x65, 0x5D], [])] @ [ch_rbrace])
      (GMap ''map[string]interface {}'' (KeyType ''string'' True) (Some (fold (\<lambda>(k, g). AList.update (GString k) g)
        [([0x61], GSlice ''[]interface {}'' (Some [GFloat64 (Float False (3 / 2)), GBool True]))] [])))"
    by (rule generic_object) (use a k in \<open>auto simp: field_frame_def elem_ok_def name_of_def\<close>)
  then show ?thesis by (simp add: sample_obj_def sample_go_def of_char_def numeral_2_eq_2)
qed

text \<open>No pointer is read into.\<close>

definition no_ptrs :: "string \<Rightarrow> ptr_type" where
  "no_ptrs t = \<lparr>elem_is_ptr = False, elem_zero = GNil, elem_decoder = \<lambda>v it. None\<rparr>"

theorem Read_generic_witness:
  "\<exists>it'. Read no_ptrs 30 (ParseBytes ConfigDefault ([0x20] @ sample_obj @ [ch_comma])) = Some (sample_go, it')
    \<and> consumes (ParseBytes ConfigDefault ([0x20] @ sample_obj @ [ch_comma])) ([0x20] @ sample_obj) it' \<and> pending it' = ch_comma # []"
  by (rule Read_generic [OF sample_generic]) code_simp+

end
