(* ===== verification/AnyValue.thy ===== *)
theory AnyValue
  imports GoValue
begin

text \<open>
  The \<open>any_*.go\<close> files: what the methods of the sixteen Go structs behind the interface \<open>Any\<close> do, apart from \<open>Get\<close>
  and \<open>Keys\<close> and \<open>Size\<close> of the lazy ones, which read JSON and follow in \<open>AnyPath\<close>; and \<open>Wrap\<close>.

  A value of the interface carries its method table, and so does the model: \<open>any_methods\<close> is the table of one
  receiver, there is one table per Go struct (the whole struct, so that it can be held against its file),
  and \<open>methods_of\<close> is the dispatch. A conversion returns its result and the receiver afterwards, because
  those of \<open>numberLazyAny\<close> and \<open>ToString\<close> of the wrapped values store an error in it. The methods \<open>Parse\<close>,
  which return nil and are no part of the interface, are left out.

  \<open>runtime\<close> holds what the files call that is not theirs: the iterator the pool of a configuration hands
  out, marshalling of a Go value, \<open>stream.WriteVal\<close> of a \<open>reflect.Value\<close>, \<open>stream.WriteFloat64\<close>, the text of
  \<open>strconv.FormatFloat\<close>, and the result of a float's conversion to an integer type that cannot hold it,
  which the language leaves open, and what \<open>Read\<close> asks of pointer types.
\<close>

section \<open>Conversions of numbers\<close>

text \<open>\<open>ParseFloat\<close> returns an infinity, with the sign given, when the number is out of range, and
  \<open>float32(x)\<close> is infinite when \<open>x\<close> rounds to more than the greatest \<open>float32\<close>.\<close>

datatype ext_float = Finite go_float | Infinite bool

definition float32_conv :: "go_float \<Rightarrow> ext_float" where
  "float32_conv x =
     (let m = float32_of (magnitude x) in if 2 ^ 128 \<le> m then Infinite (negative x) else Finite (Float (negative x) m))"

definition ext32 :: "ext_float \<Rightarrow> ext_float" where
  "ext32 x = (case x of Finite f \<Rightarrow> float32_conv f | Infinite s \<Rightarrow> Infinite s)"

definition int_float64 :: "int \<Rightarrow> ext_float" where
  "int_float64 i = Finite (Float (i < 0) (nearest64 \<bar>i\<bar> 1))"

definition int_float32 :: "int \<Rightarrow> ext_float" where
  "int_float32 i = Finite (Float (i < 0) (nearest32 \<bar>i\<bar> 1))"

text \<open>The value of a float, and the integer it is truncated to.\<close>

definition float_val :: "go_float \<Rightarrow> rat" where
  "float_val x = (if negative x then - magnitude x else magnitude x)"

definition truncated :: "go_float \<Rightarrow> int" where
  "truncated x = (if negative x then - \<lfloor>magnitude x\<rfloor> else \<lfloor>magnitude x\<rfloor>)"

record runtime =
  pool :: "frozenConfig \<Rightarrow> iterator"
  marshal_to_string :: "govalue \<Rightarrow> bytes \<times> any_error option"
  write_reflect_value :: "govalue \<Rightarrow> stream \<Rightarrow> stream"
  write_float64 :: "go_float \<Rightarrow> stream \<Rightarrow> stream"
  format_float :: "go_float \<Rightarrow> bytes"
  out_of_range :: "go_float \<Rightarrow> int"
  ptr_types :: "string \<Rightarrow> ptr_type"

definition float_int :: "runtime \<Rightarrow> int \<Rightarrow> int \<Rightarrow> go_float \<Rightarrow> int" where
  "float_int rt lo hi x = (if lo \<le> truncated x \<and> truncated x \<le> hi then truncated x else out_of_range rt x)"

section \<open>The interface\<close>

record any_methods =
  m_LastError :: "any_error option"
  m_ValueType :: ValueType
  m_MustBeValid :: "any option"
  m_ToBool :: "bool \<times> any"
  m_ToInt :: "u64 \<times> any"
  m_ToInt32 :: "u32 \<times> any"
  m_ToInt64 :: "u64 \<times> any"
  m_ToUint :: "u64 \<times> any"
  m_ToUint32 :: "u32 \<times> any"
  m_ToUint64 :: "u64 \<times> any"
  m_ToFloat32 :: "ext_float \<times> any"
  m_ToFloat64 :: "ext_float \<times> any"
  m_ToString :: "bytes \<times> any"
  m_WriteTo :: "stream \<Rightarrow> stream"
  m_GetInterface :: "govalue option"

text \<open>\<open>baseAny\<close>, embedded in all of them: for values without parts.\<close>

definition baseAny_Get :: "path \<Rightarrow> any" where
  "baseAny_Get p = invalidAny (Some (GetIndex p))"

definition baseAny_Size :: nat where
  "baseAny_Size = 0"

definition baseAny_Keys :: "bytes list" where
  "baseAny_Keys = []"

text \<open>\<open>None\<close> is the panic.\<close>

definition baseAny_ToVal :: "'v \<Rightarrow> 'v option" where
  "baseAny_ToVal obj = None"

section \<open>\<open>any_nil.go\<close>, \<open>any_bool.go\<close>, \<open>any_invalid.go\<close>\<close>

definition float_0 :: ext_float where "float_0 = Finite float_zero"
definition float_1 :: ext_float where "float_1 = Finite (Float False 1)"

definition nilAny_methods :: any_methods where
  "nilAny_methods =
     (let self = nilAny in
      \<lparr>m_LastError = None, m_ValueType = NilValue, m_MustBeValid = Some self,
       m_ToBool = (False, self), m_ToInt = (0, self), m_ToInt32 = (0, self), m_ToInt64 = (0, self),
       m_ToUint = (0, self), m_ToUint32 = (0, self), m_ToUint64 = (0, self),
       m_ToFloat32 = (float_0, self), m_ToFloat64 = (float_0, self), m_ToString = ([], self),
       m_WriteTo = WriteNil, m_GetInterface = Some GNil\<rparr>)"

definition trueAny_methods :: any_methods where
  "trueAny_methods =
     (let self = trueAny in
      \<lparr>m_LastError = None, m_ValueType = BoolValue, m_MustBeValid = Some self,
       m_ToBool = (True, self), m_ToInt = (1, self), m_ToInt32 = (1, self), m_ToInt64 = (1, self),
       m_ToUint = (1, self), m_ToUint32 = (1, self), m_ToUint64 = (1, self),
       m_ToFloat32 = (float_1, self), m_ToFloat64 = (float_1, self), m_ToString = (map of_char ''true'', self),
       m_WriteTo = WriteTrue, m_GetInterface = Some (GBool True)\<rparr>)"

definition falseAny_methods :: any_methods where
  "falseAny_methods =
     (let self = falseAny in
      \<lparr>m_LastError = None, m_ValueType = BoolValue, m_MustBeValid = Some self,
       m_ToBool = (False, self), m_ToInt = (0, self), m_ToInt32 = (0, self), m_ToInt64 = (0, self),
       m_ToUint = (0, self), m_ToUint32 = (0, self), m_ToUint64 = (0, self),
       m_ToFloat32 = (float_0, self), m_ToFloat64 = (float_0, self), m_ToString = (map of_char ''false'', self),
       m_WriteTo = WriteFalse, m_GetInterface = Some (GBool False)\<rparr>)"

definition newInvalidAny :: "path \<Rightarrow> any" where
  "newInvalidAny p = invalidAny (Some (NotFound p))"

definition invalidAny_methods :: "any_error option \<Rightarrow> any_methods" where
  "invalidAny_methods err =
     (let self = invalidAny err in
      \<lparr>m_LastError = err, m_ValueType = InvalidValue, m_MustBeValid = None,
       m_ToBool = (False, self), m_ToInt = (0, self), m_ToInt32 = (0, self), m_ToInt64 = (0, self),
       m_ToUint = (0, self), m_ToUint32 = (0, self), m_ToUint64 = (0, self),
       m_ToFloat32 = (float_0, self), m_ToFloat64 = (float_0, self), m_ToString = ([], self),
       m_WriteTo = (\<lambda>s. s), m_GetInterface = Some GNil\<rparr>)"

definition invalidAny_Get :: "any_error option \<Rightarrow> path \<Rightarrow> any" where
  "invalidAny_Get err p = invalidAny (Some (GetFromInvalid err p))"

section \<open>\<open>any_int32.go\<close>, \<open>any_int64.go\<close>, \<open>any_uint32.go\<close>, \<open>any_uint64.go\<close>, \<open>any_float.go\<close>\<close>

definition int32Any_methods :: "u32 \<Rightarrow> any_methods" where
  "int32Any_methods val =
     (let self = int32Any val in
      \<lparr>m_LastError = None, m_ValueType = NumberValue, m_MustBeValid = Some self,
       m_ToBool = (val \<noteq> 0, self), m_ToInt = (scast val, self), m_ToInt32 = (val, self), m_ToInt64 = (scast val, self),
       m_ToUint = (scast val, self), m_ToUint32 = (val, self), m_ToUint64 = (scast val, self),
       m_ToFloat32 = (int_float32 (sint val), self), m_ToFloat64 = (int_float64 (sint val), self),
       m_ToString = (int_text (sint val), self),
       m_WriteTo = WriteInt32 val, m_GetInterface = Some (GInt32 val)\<rparr>)"

definition int64Any_methods :: "u64 \<Rightarrow> any_methods" where
  "int64Any_methods val =
     (let self = int64Any val in
      \<lparr>m_LastError = None, m_ValueType = NumberValue, m_MustBeValid = Some self,
       m_ToBool = (val \<noteq> 0, self), m_ToInt = (val, self), m_ToInt32 = (ucast val, self), m_ToInt64 = (val, self),
       m_ToUint = (val, self), m_ToUint32 = (ucast val, self), m_ToUint64 = (val, self),
       m_ToFloat32 = (int_float32 (sint val), self), m_ToFloat64 = (int_float64 (sint val), self),
       m_ToString = (int_text (sint val), self),
       m_WriteTo = WriteInt64 val, m_GetInterface = Some (GInt64 val)\<rparr>)"

definition uint32Any_methods :: "u32 \<Rightarrow> any_methods" where
  "uint32Any_methods val =
     (let self = uint32Any val in
      \<lparr>m_LastError = None, m_ValueType = NumberValue, m_MustBeValid = Some self,
       m_ToBool = (val \<noteq> 0, self), m_ToInt = (ucast val, self), m_ToInt32 = (val, self), m_ToInt64 = (ucast val, self),
       m_ToUint = (ucast val, self), m_ToUint32 = (val, self), m_ToUint64 = (ucast val, self),
       m_ToFloat32 = (int_float32 (uint val), self), m_ToFloat64 = (int_float64 (uint val), self),
       m_ToString = (int_text (uint val), self),
       m_WriteTo = WriteUint32 val, m_GetInterface = Some (GUint32 val)\<rparr>)"

definition uint64Any_methods :: "u64 \<Rightarrow> any_methods" where
  "uint64Any_methods val =
     (let self = uint64Any val in
      \<lparr>m_LastError = None, m_ValueType = NumberValue, m_MustBeValid = Some self,
       m_ToBool = (val \<noteq> 0, self), m_ToInt = (val, self), m_ToInt32 = (ucast val, self), m_ToInt64 = (val, self),
       m_ToUint = (val, self), m_ToUint32 = (ucast val, self), m_ToUint64 = (val, self),
       m_ToFloat32 = (int_float32 (uint val), self), m_ToFloat64 = (int_float64 (uint val), self),
       m_ToString = (int_text (uint val), self),
       m_WriteTo = WriteUint64 val, m_GetInterface = Some (GUint64 val)\<rparr>)"

text \<open>The unsigned conversions give 0 for what is not positive.\<close>

definition floatAny_methods :: "runtime \<Rightarrow> go_float \<Rightarrow> any_methods" where
  "floatAny_methods rt val =
     (let self = floatAny val in
      \<lparr>m_LastError = None, m_ValueType = NumberValue, m_MustBeValid = Some self,
       m_ToBool = (float_val val \<noteq> 0, self),
       m_ToInt = (word_of_int (float_int rt (- (2 ^ 63)) (2 ^ 63 - 1) val), self),
       m_ToInt32 = (word_of_int (float_int rt (- (2 ^ 31)) (2 ^ 31 - 1) val), self),
       m_ToInt64 = (word_of_int (float_int rt (- (2 ^ 63)) (2 ^ 63 - 1) val), self),
       m_ToUint = (if float_val val > 0 then word_of_int (float_int rt 0 (2 ^ 64 - 1) val) else 0, self),
       m_ToUint32 = (if float_val val > 0 then word_of_int (float_int rt 0 (2 ^ 32 - 1) val) else 0, self),
       m_ToUint64 = (if float_val val > 0 then word_of_int (float_int rt 0 (2 ^ 64 - 1) val) else 0, self),
       m_ToFloat32 = (float32_conv val, self), m_ToFloat64 = (Finite val, self),
       m_ToString = (format_float rt val, self),
       m_WriteTo = write_float64 rt val, m_GetInterface = Some (GFloat64 val)\<rparr>)"

section \<open>\<open>any_str.go\<close>\<close>

definition stringAny_Get :: "bytes \<Rightarrow> path \<Rightarrow> any" where
  "stringAny_Get val p = (if p = [] then stringAny val else invalidAny (Some (GetIndex p)))"

definition stringAny_ToBool :: "bytes \<Rightarrow> bool" where
  "stringAny_ToBool str \<longleftrightarrow>
     str \<noteq> [ch_0] \<and> list_ex (\<lambda>c. \<not> (c = 0x20 \<or> c = 0x0A \<or> c = 0x0D \<or> c = 0x09)) (runes str)"

text \<open>\<open>strconv.ParseInt(s, 10, 64)\<close> and \<open>ParseUint(s, 10, 64)\<close> of a string of digits, their errors ignored: 0 when
  there is none, the greatest value of the type when it does not fit.\<close>

definition ParseInt :: "bytes \<Rightarrow> u64" where
  "ParseInt ds = word_of_nat (min (dec_val ds) (2 ^ 63 - 1))"

definition ParseUint :: "bytes \<Rightarrow> u64" where
  "ParseUint ds = word_of_nat (min (dec_val ds) (2 ^ 64 - 1))"

definition stringAny_ToInt64 :: "bytes \<Rightarrow> u64" where
  "stringAny_ToInt64 val =
     (if val = [] then 0
      else
        let startPos = (if val ! 0 = ch_plus \<or> val ! 0 = ch_minus then 1 else 0);
            flag = (if val ! 0 = ch_minus then - 1 else 1);
            endPos = startPos + length (takeWhile is_digit (drop startPos val))
        in flag * ParseInt (gslice val (int startPos) (int endPos)))"

definition stringAny_ToUint64 :: "bytes \<Rightarrow> u64" where
  "stringAny_ToUint64 val =
     (if val = [] then 0
      else if val ! 0 = ch_minus then 0
      else
        let startPos = (if val ! 0 = ch_plus then 1 else 0);
            endPos = startPos + length (takeWhile is_digit (drop startPos val))
        in ParseUint (gslice val (int startPos) (int endPos)))"

text \<open>The loop takes the bytes \<open>. e E + -\<close> and the digits behind the first byte, whatever their order.\<close>

definition stringAny_ToFloat64 :: "bytes \<Rightarrow> ext_float" where
  "stringAny_ToFloat64 val =
     (if val = [] then float_0
      else if val ! 0 \<noteq> ch_plus \<and> val ! 0 \<noteq> ch_minus \<and> (val ! 0 > ch_9 \<or> val ! 0 < ch_0) then float_0
      else
        let endPos = 1 + length (takeWhile number_char (drop 1 val)); str = take endPos val
        in (case parse_decimal str of
              None \<Rightarrow> float_0
            | Some (neg, _) \<Rightarrow> (case ParseFloat str 64 of None \<Rightarrow> Infinite neg | Some x \<Rightarrow> Finite x)))"

definition stringAny_methods :: "bytes \<Rightarrow> any_methods" where
  "stringAny_methods val =
     (let self = stringAny val in
      \<lparr>m_LastError = None, m_ValueType = StringValue, m_MustBeValid = Some self,
       m_ToBool = (stringAny_ToBool val, self), m_ToInt = (stringAny_ToInt64 val, self),
       m_ToInt32 = (ucast (stringAny_ToInt64 val), self), m_ToInt64 = (stringAny_ToInt64 val, self),
       m_ToUint = (stringAny_ToUint64 val, self), m_ToUint32 = (ucast (stringAny_ToUint64 val), self),
       m_ToUint64 = (stringAny_ToUint64 val, self),
       m_ToFloat32 = (ext32 (stringAny_ToFloat64 val), self), m_ToFloat64 = (stringAny_ToFloat64 val, self),
       m_ToString = (val, self),
       m_WriteTo = WriteString val, m_GetInterface = Some (GString val)\<rparr>)"

section \<open>\<open>any_number.go\<close> and the lazy values of \<open>any_object.go\<close> and \<open>any_array.go\<close>\<close>

definition borrowed :: "runtime \<Rightarrow> frozenConfig \<Rightarrow> bytes \<Rightarrow> iterator" where
  "borrowed rt c b = BorrowIterator (pool rt c) b"

text \<open>A conversion reads the text, and keeps the error unless it is the end of the input.\<close>

definition number_conv :: "runtime \<Rightarrow> frozenConfig \<Rightarrow> bytes \<Rightarrow> any_error option \<Rightarrow> (iterator \<Rightarrow> 'v \<times> iterator) \<Rightarrow> 'v \<times> any" where
  "number_conv rt c b err read =
     (case read (borrowed rt c b) of (val, it) \<Rightarrow>
        (val, numberLazyAny c b
          (case Error it of None \<Rightarrow> err | Some e \<Rightarrow> if e = EOF then err else Some (IterErr e))))"

definition numberLazyAny_methods :: "runtime \<Rightarrow> nat \<Rightarrow> frozenConfig \<Rightarrow> bytes \<Rightarrow> any_error option \<Rightarrow> any_methods" where
  "numberLazyAny_methods rt n c b err =
     (let self = numberLazyAny c b err;
          float64 = number_conv rt c b err ReadFloat64 in
      \<lparr>m_LastError = err, m_ValueType = NumberValue, m_MustBeValid = Some self,
       m_ToBool = apfst (\<lambda>x. float_val x \<noteq> 0) float64,
       m_ToInt = number_conv rt c b err (ReadInt 64), m_ToInt32 = number_conv rt c b err ReadInt32,
       m_ToInt64 = number_conv rt c b err ReadInt64,
       m_ToUint = number_conv rt c b err (ReadUint 64), m_ToUint32 = number_conv rt c b err ReadUint32,
       m_ToUint64 = number_conv rt c b err ReadUint64,
       m_ToFloat32 = apfst Finite (number_conv rt c b err ReadFloat32), m_ToFloat64 = apfst Finite float64,
       m_ToString = (b, self),
       m_WriteTo = (\<lambda>s. snd (Stream_Write b s)),
       m_GetInterface = map_option fst (Read (ptr_types rt) n (borrowed rt c b))\<rparr>)"

definition objectLazyAny_methods :: "runtime \<Rightarrow> nat \<Rightarrow> frozenConfig \<Rightarrow> bytes \<Rightarrow> any_error option \<Rightarrow> any_methods" where
  "objectLazyAny_methods rt n c b err =
     (let self = objectLazyAny c b err in
      \<lparr>m_LastError = err, m_ValueType = ObjectValue, m_MustBeValid = Some self,
       m_ToBool = (True, self), m_ToInt = (0, self), m_ToInt32 = (0, self), m_ToInt64 = (0, self),
       m_ToUint = (0, self), m_ToUint32 = (0, self), m_ToUint64 = (0, self),
       m_ToFloat32 = (float_0, self), m_ToFloat64 = (float_0, self), m_ToString = (b, self),
       m_WriteTo = (\<lambda>s. snd (Stream_Write b s)),
       m_GetInterface = map_option fst (Read (ptr_types rt) n (borrowed rt c b))\<rparr>)"

text \<open>An array counts as true when it has an element.\<close>

definition arrayLazyAny_ToBool :: "runtime \<Rightarrow> frozenConfig \<Rightarrow> bytes \<Rightarrow> bool" where
  "arrayLazyAny_ToBool rt c b = fst (ReadArray (borrowed rt c b))"

definition arrayLazyAny_methods :: "runtime \<Rightarrow> nat \<Rightarrow> frozenConfig \<Rightarrow> bytes \<Rightarrow> any_error option \<Rightarrow> any_methods" where
  "arrayLazyAny_methods rt n c b err =
     (let self = arrayLazyAny c b err; toBool = arrayLazyAny_ToBool rt c b in
      \<lparr>m_LastError = err, m_ValueType = ArrayValue, m_MustBeValid = Some self,
       m_ToBool = (toBool, self), m_ToInt = (if toBool then 1 else 0, self), m_ToInt32 = (if toBool then 1 else 0, self),
       m_ToInt64 = (if toBool then 1 else 0, self),
       m_ToUint = (if toBool then 1 else 0, self), m_ToUint32 = (if toBool then 1 else 0, self),
       m_ToUint64 = (if toBool then 1 else 0, self),
       m_ToFloat32 = (if toBool then float_1 else float_0, self), m_ToFloat64 = (if toBool then float_1 else float_0, self),
       m_ToString = (b, self),
       m_WriteTo = (\<lambda>s. snd (Stream_Write b s)),
       m_GetInterface = map_option fst (Read (ptr_types rt) n (borrowed rt c b))\<rparr>)"

text \<open>\<open>ToVal\<close> of the two: the object is decoded with the decoder of its type; the error stays in the iterator
  and is dropped with it.\<close>

definition objectLazyAny_ToVal :: "runtime \<Rightarrow> frozenConfig \<Rightarrow> bytes \<Rightarrow> 'v decoder \<Rightarrow> 'v target \<Rightarrow> 'v target option" where
  "objectLazyAny_ToVal rt c b dec obj = map_option fst (ReadVal dec obj (borrowed rt c b))"

definition arrayLazyAny_ToVal :: "runtime \<Rightarrow> frozenConfig \<Rightarrow> bytes \<Rightarrow> 'v decoder \<Rightarrow> 'v target \<Rightarrow> 'v target option" where
  "arrayLazyAny_ToVal rt c b dec val = map_option fst (ReadVal dec val (borrowed rt c b))"

section \<open>The wrapped values of \<open>any_array.go\<close> and \<open>any_object.go\<close>\<close>

text \<open>What reflection sees: \<open>Len\<close> and \<open>Index\<close> of a slice, the fields of a struct, the entries of a map.\<close>

fun elems :: "govalue \<Rightarrow> govalue list" where
  "elems (GSlice t (Some xs)) = xs"
| "elems _ = []"

fun fields_of :: "govalue \<Rightarrow> (bytes \<times> bool \<times> govalue) list" where
  "fields_of (GStruct t fs) = fs"
| "fields_of _ = []"

fun entries :: "govalue \<Rightarrow> (govalue \<times> govalue) list" where
  "entries (GMap t k (Some es)) = es"
| "entries _ = []"

definition wrapArray :: "govalue \<Rightarrow> any" where "wrapArray val = arrayAny val"
definition wrapStruct :: "govalue \<Rightarrow> any" where "wrapStruct val = objectAny None val"
definition wrapMap :: "govalue \<Rightarrow> any" where "wrapMap val = mapAny None val"

definition arrayAny_methods :: "runtime \<Rightarrow> govalue \<Rightarrow> any_methods" where
  "arrayAny_methods rt val =
     (let self = arrayAny val; len = length (elems val) in
      \<lparr>m_LastError = None, m_ValueType = ArrayValue, m_MustBeValid = Some self,
       m_ToBool = (len \<noteq> 0, self), m_ToInt = (if len = 0 then 0 else 1, self), m_ToInt32 = (if len = 0 then 0 else 1, self),
       m_ToInt64 = (if len = 0 then 0 else 1, self),
       m_ToUint = (if len = 0 then 0 else 1, self), m_ToUint32 = (if len = 0 then 0 else 1, self),
       m_ToUint64 = (if len = 0 then 0 else 1, self),
       m_ToFloat32 = (if len = 0 then float_0 else float_1, self), m_ToFloat64 = (if len = 0 then float_0 else float_1, self),
       m_ToString = (fst (marshal_to_string rt val), self),
       m_WriteTo = write_reflect_value rt val, m_GetInterface = Some val\<rparr>)"

definition arrayAny_Size :: "govalue \<Rightarrow> nat" where
  "arrayAny_Size val = length (elems val)"

definition objectAny_methods :: "runtime \<Rightarrow> any_error option \<Rightarrow> govalue \<Rightarrow> any_methods" where
  "objectAny_methods rt err val =
     (let self = objectAny err val in
      \<lparr>m_LastError = err, m_ValueType = ObjectValue, m_MustBeValid = Some self,
       m_ToBool = (length (fields_of val) \<noteq> 0, self), m_ToInt = (0, self), m_ToInt32 = (0, self), m_ToInt64 = (0, self),
       m_ToUint = (0, self), m_ToUint32 = (0, self), m_ToUint64 = (0, self),
       m_ToFloat32 = (float_0, self), m_ToFloat64 = (float_0, self),
       m_ToString = (case marshal_to_string rt val of (str, err') \<Rightarrow> (str, objectAny err' val)),
       m_WriteTo = write_reflect_value rt val, m_GetInterface = Some val\<rparr>)"

definition objectAny_Keys :: "govalue \<Rightarrow> bytes list" where
  "objectAny_Keys val = map fst (fields_of val)"

definition objectAny_Size :: "govalue \<Rightarrow> nat" where
  "objectAny_Size val = length (fields_of val)"

definition mapAny_methods :: "runtime \<Rightarrow> any_error option \<Rightarrow> govalue \<Rightarrow> any_methods" where
  "mapAny_methods rt err val =
     (let self = mapAny err val in
      \<lparr>m_LastError = err, m_ValueType = ObjectValue, m_MustBeValid = Some self,
       m_ToBool = (True, self), m_ToInt = (0, self), m_ToInt32 = (0, self), m_ToInt64 = (0, self),
       m_ToUint = (0, self), m_ToUint32 = (0, self), m_ToUint64 = (0, self),
       m_ToFloat32 = (float_0, self), m_ToFloat64 = (float_0, self),
       m_ToString = (case marshal_to_string rt val of (str, err') \<Rightarrow> (str, mapAny err' val)),
       m_WriteTo = write_reflect_value rt val, m_GetInterface = Some val\<rparr>)"

text \<open>\<open>reflect.Value.String()\<close> of a key: its text when the kind is string, else \<open><T Value>\<close> with the key's type.\<close>

definition key_String :: "govalue \<Rightarrow> govalue \<Rightarrow> bytes" where
  "key_String val key =
     (case val of
        GMap t (KeyType name True) es \<Rightarrow> (case key of GString s \<Rightarrow> s | GDefined nm (GString s) \<Rightarrow> s | _ \<Rightarrow> [])
      | GMap t (KeyType name False) es \<Rightarrow> map of_char (''<'' @ name @ '' Value>'')
      | _ \<Rightarrow> map of_char ''<interface {} Value>'')"

definition mapAny_Keys :: "govalue \<Rightarrow> bytes list" where
  "mapAny_Keys val = map (\<lambda>(k, v). key_String val k) (entries val)"

definition mapAny_Size :: "govalue \<Rightarrow> nat" where
  "mapAny_Size val = length (entries val)"

section \<open>Dispatch and \<open>Wrap\<close>\<close>

definition methods_of :: "runtime \<Rightarrow> nat \<Rightarrow> any \<Rightarrow> any_methods" where
  "methods_of rt n a =
     (case a of
        nilAny \<Rightarrow> nilAny_methods
      | trueAny \<Rightarrow> trueAny_methods
      | falseAny \<Rightarrow> falseAny_methods
      | invalidAny err \<Rightarrow> invalidAny_methods err
      | stringAny val \<Rightarrow> stringAny_methods val
      | int32Any val \<Rightarrow> int32Any_methods val
      | int64Any val \<Rightarrow> int64Any_methods val
      | uint32Any val \<Rightarrow> uint32Any_methods val
      | uint64Any val \<Rightarrow> uint64Any_methods val
      | floatAny val \<Rightarrow> floatAny_methods rt val
      | numberLazyAny c b err \<Rightarrow> numberLazyAny_methods rt n c b err
      | objectLazyAny c b err \<Rightarrow> objectLazyAny_methods rt n c b err
      | arrayLazyAny c b err \<Rightarrow> arrayLazyAny_methods rt n c b err
      | arrayAny val \<Rightarrow> arrayAny_methods rt val
      | objectAny err val \<Rightarrow> objectAny_methods rt err val
      | mapAny err val \<Rightarrow> mapAny_methods rt err val)"

definition WrapInt32 :: "u32 \<Rightarrow> any" where "WrapInt32 val = int32Any val"
definition WrapInt64 :: "u64 \<Rightarrow> any" where "WrapInt64 val = int64Any val"
definition WrapUint32 :: "u32 \<Rightarrow> any" where "WrapUint32 val = uint32Any val"
definition WrapUint64 :: "u64 \<Rightarrow> any" where "WrapUint64 val = uint64Any val"
definition WrapFloat64 :: "go_float \<Rightarrow> any" where "WrapFloat64 val = floatAny val"
definition WrapString :: "bytes \<Rightarrow> any" where "WrapString val = stringAny val"

text \<open>\<open>None\<close> is the panic of the type assertion (\<open>val.(string)\<close> and so on) when the kind fits but the type is a
  defined one.\<close>

fun Wrap :: "govalue \<Rightarrow> any option" where
  "Wrap GNil = Some nilAny"
| "Wrap (GAny a) = Some a"
| "Wrap (GSlice t xs) = Some (wrapArray (GSlice t xs))"
| "Wrap (GStruct t fs) = Some (wrapStruct (GStruct t fs))"
| "Wrap (GMap t k es) = Some (wrapMap (GMap t k es))"
| "Wrap (GString s) = Some (WrapString s)"
| "Wrap (GInt v) = Some (WrapInt64 v)"
| "Wrap (GInt8 v) = Some (WrapInt32 (scast v))"
| "Wrap (GInt16 v) = Some (WrapInt32 (scast v))"
| "Wrap (GInt32 v) = Some (WrapInt32 v)"
| "Wrap (GInt64 v) = Some (WrapInt64 v)"
| "Wrap (GUint v) = Some (WrapUint64 v)"
| "Wrap (GUintptr v) = Some (WrapUint64 v)"
| "Wrap (GUint8 v) = Some (WrapUint32 (ucast v))"
| "Wrap (GUint16 v) = Some (WrapUint32 (ucast v))"
| "Wrap (GUint32 v) = Some (WrapUint32 v)"
| "Wrap (GUint64 v) = Some (WrapUint64 v)"
| "Wrap (GFloat32 x) = Some (WrapFloat64 x)"
| "Wrap (GFloat64 x) = Some (WrapFloat64 x)"
| "Wrap (GBool b) = Some (if b then trueAny else falseAny)"
| "Wrap (GDefined name v) = None"
| "Wrap (GPtr name v) = Some (invalidAny (Some (UnsupportedType name)))"
| "Wrap (GOther name) = Some (invalidAny (Some (UnsupportedType name)))"

section \<open>Properties\<close>

lemma takeWhile_digits_rest:
  "list_all is_digit ds \<Longrightarrow> rest = [] \<or> \<not> is_digit (hd rest) \<Longrightarrow> takeWhile is_digit (ds @ rest) = ds"
  by (cases rest) (auto simp: takeWhile_append list_all_iff)

lemma clamp_range: "min n (2 ^ k - 1) < (2::nat) ^ k"
proof -
  have "min n (2 ^ k - 1) \<le> (2::nat) ^ k - 1" "0 < (2::nat) ^ k" by simp_all
  then show ?thesis by linarith
qed

lemma sint_id: "- (2 ^ 63) \<le> j \<Longrightarrow> j < 2 ^ 63 \<Longrightarrow> sint (word_of_int j :: u64) = j"
  by (simp add: signed_of_int signed_take_bit_int_eq_self)

lemma clamped_words:
  "sint (word_of_nat (min n (2 ^ 63 - 1)) :: u64) = int (min n (2 ^ 63 - 1))"
  "sint (- word_of_nat (min n (2 ^ 63 - 1)) :: u64) = - int (min n (2 ^ 63 - 1))"
  "uint (word_of_nat (min n (2 ^ 64 - 1)) :: u64) = int (min n (2 ^ 64 - 1))"
proof -
  define m where "m = min n (2 ^ 63 - 1)"
  have "m < 2 ^ 63" unfolding m_def by (rule clamp_range)
  then have r: "int m < 2 ^ 63" by simp
  show "sint (word_of_nat (min n (2 ^ 63 - 1)) :: u64) = int (min n (2 ^ 63 - 1))"
    using sint_id [of "int m"] r unfolding m_def [symmetric] by simp
  show "sint (- word_of_nat (min n (2 ^ 63 - 1)) :: u64) = - int (min n (2 ^ 63 - 1))"
    using sint_id [of "- int m"] r unfolding m_def [symmetric] by simp
  show "uint (word_of_nat (min n (2 ^ 64 - 1)) :: u64) = int (min n (2 ^ 64 - 1))"
    using clamp_range [of n 64] by (simp add: unsigned_of_nat take_bit_nat_eq_self del: of_nat_min)
qed

text \<open>A string that begins with a sign and decimal digits converts to that number, clamped to the type: the
  magnitude is clamped before the sign is applied, so the least \<open>int64\<close> is not reached; an unsigned type gives 0
  for a minus sign. What follows the digits is ignored.\<close>

lemma string_to_integer:
  assumes "sg \<in> {[], [ch_plus], [ch_minus]}" "ds \<noteq> []" "list_all is_digit ds" "rest = [] \<or> \<not> is_digit (hd rest)"
  shows "sint (stringAny_ToInt64 (sg @ ds @ rest)) = (if sg = [ch_minus] then - 1 else 1) * int (min (dec_val ds) (2 ^ 63 - 1))
    \<and> uint (stringAny_ToUint64 (sg @ ds @ rest)) = (if sg = [ch_minus] then 0 else int (min (dec_val ds) (2 ^ 64 - 1)))"
proof -
  obtain h t where ds: "ds = h # t" "is_digit h" using assms(2,3) by (cases ds) auto
  then have h: "h \<noteq> ch_plus" "h \<noteq> ch_minus" by (auto simp: is_digit_def)
  have tw: "takeWhile is_digit (h # t @ rest) = ds" using takeWhile_digits_rest [OF assms(3,4)] ds by simp
  have sl: "gslice (ds @ rest) 0 (int (length ds)) = ds" "gslice (x # ds @ rest) 1 (1 + int (length ds)) = ds" for x
    by (simp_all add: gslice_def nat_add_distrib)
  from assms(1) consider "sg = []" | "sg = [ch_plus]" | "sg = [ch_minus]" by blast
  then show ?thesis
    by cases (use ds h tw sl clamped_words [of "dec_val ds"] in \<open>simp_all add: stringAny_ToInt64_def stringAny_ToUint64_def ParseInt_def ParseUint_def Let_def del: of_nat_min\<close>)
qed

text \<open>The value of an integer kind.\<close>

fun int_value :: "govalue \<Rightarrow> int option" where
  "int_value (GInt v) = Some (sint v)" | "int_value (GInt8 v) = Some (sint v)" | "int_value (GInt16 v) = Some (sint v)"
| "int_value (GInt32 v) = Some (sint v)" | "int_value (GInt64 v) = Some (sint v)"
| "int_value (GUint v) = Some (uint v)" | "int_value (GUintptr v) = Some (uint v)" | "int_value (GUint8 v) = Some (uint v)"
| "int_value (GUint16 v) = Some (uint v)" | "int_value (GUint32 v) = Some (uint v)" | "int_value (GUint64 v) = Some (uint v)"
| "int_value _ = None"

text \<open>The conversions of a lazy value that stands for the integer \<open>i\<close>.\<close>

definition carries_int :: "runtime \<Rightarrow> nat \<Rightarrow> any \<Rightarrow> int \<Rightarrow> bool" where
  "carries_int rt n a i \<longleftrightarrow>
     (\<forall>s. m_WriteTo (methods_of rt n a) s = adds (int_text i) s)
     \<and> fst (m_ToString (methods_of rt n a)) = int_text i \<and> fst (m_ToBool (methods_of rt n a)) = (i \<noteq> 0)
     \<and> fst (m_ToInt64 (methods_of rt n a)) = word_of_int i \<and> fst (m_ToUint64 (methods_of rt n a)) = word_of_int i
     \<and> fst (m_ToInt32 (methods_of rt n a)) = word_of_int i \<and> fst (m_ToUint32 (methods_of rt n a)) = word_of_int i
     \<and> fst (m_ToFloat64 (methods_of rt n a)) = int_float64 i"

lemma unsigned_text: "int_text (int k) = dec_bytes k"
  by (simp add: int_text_def)

lemma kept_words:
  fixes v :: u32 and w :: u64
  shows "word_of_int (sint v) = v" "word_of_int (uint v) = v" "word_of_int (sint w) = w" "word_of_int (uint w) = w"
    "word_of_int (sint v) = (scast v :: u64)" "word_of_int (uint v) = (ucast v :: u64)"
    "word_of_int (sint w) = (ucast w :: u32)" "word_of_int (uint w) = (ucast w :: u32)"
proof -
  have "scast w = (ucast w :: u32)" using down_cast_same [where 'a = 64 and 'b = 32] by (simp add: is_down)
  then show "word_of_int (sint w) = (ucast w :: u32)" using scast_eq [of w] by metis
qed (simp_all only: scast_id word_of_int_uint scast_eq [of v, symmetric] scast_eq [of w, symmetric] ucast_eq [of v, symmetric]
    ucast_eq [of w, symmetric])

lemma any_words:
  "carries_int rt n (int32Any v) (sint v)" "carries_int rt n (int64Any w) (sint w)"
  "carries_int rt n (uint32Any v) (uint v)" "carries_int rt n (uint64Any w) (uint w)"
  using unsigned_text [of "unat v"] unsigned_text [of "unat w"]
  by (simp_all only: carries_int_def kept_words)
    (simp_all add: methods_of_def int32Any_methods_def int64Any_methods_def uint32Any_methods_def
      uint64Any_methods_def Let_def WriteInts_adds WriteUint32_adds WriteUint64_adds
      signed_eq_0_iff unsigned_eq_0_iff)

lemma widened_words:
  "sint (scast (x8 :: 8 word) :: u32) = sint x8" "sint (scast (x16 :: 16 word) :: u32) = sint x16"
  "uint (ucast (x8 :: 8 word) :: u32) = uint x8" "uint (ucast (x16 :: 16 word) :: u32) = uint x16"
  by (simp_all add: sint_up_scast uint_up_ucast is_up)

lemma narrow_words:
  "carries_int rt n (int32Any (scast x8)) (sint (x8 :: 8 word))"
  "carries_int rt n (int32Any (scast x16)) (sint (x16 :: 16 word))"
  "carries_int rt n (uint32Any (ucast x8)) (uint x8)" "carries_int rt n (uint32Any (ucast x16)) (uint x16)"
  using any_words [of rt n "scast x8"] any_words [of rt n "scast x16"] any_words [of rt n "ucast x8"]
    any_words [of rt n "ucast x16"] by (simp_all only: widened_words)

text \<open>\<open>Wrap\<close> of a value of any integer kind keeps the number: it is written and printed as its decimal text, is
  true unless 0, and each conversion to an integer type gives it modulo the type's width.\<close>

lemma Wrap_integer:
  assumes "int_value v = Some i"
  shows "\<exists>a. Wrap v = Some a \<and> carries_int rt n a i"
  using assms by (cases v) (auto simp: WrapInt32_def WrapInt64_def WrapUint32_def WrapUint64_def any_words narrow_words)

section \<open>Witnesses\<close>

definition sample_runtime :: runtime where
  "sample_runtime = \<lparr>pool = NewIterator, marshal_to_string = \<lambda>v. ([], None), write_reflect_value = \<lambda>v s. s,
     write_float64 = \<lambda>v s. s, format_float = \<lambda>x. [], out_of_range = \<lambda>x. 0, ptr_types = no_ptrs\<rparr>"

lemma string_to_integer_witness:
  "sint (stringAny_ToInt64 ([ch_minus] @ map of_char ''9223372036854775808'' @ [ch_dot])) = - 9223372036854775807
    \<and> uint (stringAny_ToUint64 ([ch_minus] @ map of_char ''9223372036854775808'' @ [ch_dot])) = 0"
proof -
  define ds :: bytes where "ds = map of_char ''9223372036854775808''"
  have "dec_val ds = 9223372036854775808" "ds \<noteq> []" unfolding ds_def by (simp_all add: dec_val_def digit_val_def)
  moreover have "list_all is_digit ds" "\<not> is_digit ch_dot" unfolding ds_def by code_simp+
  ultimately show ?thesis unfolding ds_def [symmetric] using string_to_integer [of "[ch_minus]" ds "[ch_dot]"] by simp
qed

lemma Wrap_integer_witness:
  "\<exists>a. Wrap (GInt8 (- 5)) = Some a \<and> carries_int sample_runtime 0 a (- 5)"
  by (rule Wrap_integer) simp

end
