(* ===== verification/AnyPath.thy ===== *)
theory AnyPath
  imports AnyValue
begin

text \<open>
  \<open>any.go\<close> and the parts of \<open>any_object.go\<close> and \<open>any_array.go\<close> that read JSON lazily: \<open>ReadAny\<close> captures the text of a
  value, \<open>Get\<close> walks along a path in it, \<open>Keys\<close> and \<open>Size\<close> count. Fuel bounds the nesting, the number of elements and
  the calls from one \<open>Get\<close> to another; \<open>None\<close> is fuel that ran out, or a panic.

  \<open>at_path v p r\<close> is the reference: the JSON text \<open>v\<close> has the text \<open>r\<close> at the path \<open>p\<close>; \<open>any_of\<close> is the lazy value of a
  text.
\<close>

section \<open>Reading a lazy value\<close>

definition readNumberAny :: "bool \<Rightarrow> iterator \<Rightarrow> (any \<times> iterator) option" where
  "readNumberAny positive it =
     Option.bind (startCapture (head it - 1) it) (\<lambda>it1.
     Option.bind (stopCapture (skipNumber it1)) (\<lambda>(lazyBuf, it2).
     Some (numberLazyAny (cfg it) lazyBuf None, it2)))"

definition readObjectAny :: "nat \<Rightarrow> iterator \<Rightarrow> (any \<times> iterator) option" where
  "readObjectAny n it =
     Option.bind (startCapture (head it - 1) it) (\<lambda>it1.
     Option.bind (skipObject n (Skip n) it1) (\<lambda>it2.
     Option.bind (stopCapture it2) (\<lambda>(lazyBuf, it3).
     Some (objectLazyAny (cfg it) lazyBuf None, it3))))"

definition readArrayAny :: "nat \<Rightarrow> iterator \<Rightarrow> (any \<times> iterator) option" where
  "readArrayAny n it =
     Option.bind (startCapture (head it - 1) it) (\<lambda>it1.
     Option.bind (skipArray n (Skip n) it1) (\<lambda>it2.
     Option.bind (stopCapture it2) (\<lambda>(lazyBuf, it3).
     Some (arrayLazyAny (cfg it) lazyBuf None, it3))))"

definition readAny :: "nat \<Rightarrow> iterator \<Rightarrow> (any \<times> iterator) option" where
  "readAny n it =
     (case nextToken it of (c, it1) \<Rightarrow>
      if c = ch_quote then (case ReadString (unreadByte it1) of (s, it2) \<Rightarrow> Some (stringAny s, it2))
      else if c = ch_n then Some (nilAny, skipThreeBytes ch_u ch_l ch_l it1)
      else if c = ch_t then Some (trueAny, skipThreeBytes ch_r ch_u ch_e it1)
      else if c = ch_f then Some (falseAny, skipFourBytes ch_a ch_l ch_s ch_e it1)
      else if c = ch_lbrace then readObjectAny n it1
      else if c = ch_lbrack then readArrayAny n it1
      else if c = ch_minus then readNumberAny False it1
      else if c = 0 then Some (invalidAny (Some InputEmpty), it1)
      else readNumberAny True it1)"

definition ReadAny :: "nat \<Rightarrow> iterator \<Rightarrow> (any \<times> iterator) option" where
  "ReadAny n it = readAny n it"

section \<open>Walking along a path\<close>

text \<open>The two loops, from the name, or the element, that was just announced.\<close>

fun findObjectField :: "nat \<Rightarrow> nat \<Rightarrow> bytes \<Rightarrow> iterator \<Rightarrow> (bool \<times> iterator) option" where
  "findObjectField n 0 target it = None"
| "findObjectField n (Suc k) target it =
     (case ReadObjectRaw it of (rs, it1) \<Rightarrow>
      if IsNil rs then Some (False, it1)
      else
        Option.bind
          (if ContainsEscapes rs then map_option (\<lambda>s. s = target) (RawString_String (buf it1) rs)
           else Some (target = fst (RawString_Bytes (buf it1) rs)))
          (\<lambda>keyMatches.
             if keyMatches then Some (True, it1)
             else Option.bind (Skip n it1) (findObjectField n k target)))"

fun findArrayElement_loop :: "nat \<Rightarrow> nat \<Rightarrow> int \<Rightarrow> int \<Rightarrow> iterator \<Rightarrow> (bool \<times> iterator) option" where
  "findArrayElement_loop n 0 target i it = None"
| "findArrayElement_loop n (Suc k) target i it =
     (case ReadArray it of (ok, it1) \<Rightarrow>
      if \<not> ok then Some (False, it1)
      else if i = target then Some (True, it1)
      else Option.bind (Skip n it1) (findArrayElement_loop n k target (i + 1)))"

definition findArrayElement :: "nat \<Rightarrow> nat \<Rightarrow> int \<Rightarrow> iterator \<Rightarrow> (bool \<times> iterator) option" where
  "findArrayElement n k target it = findArrayElement_loop n k target 0 it"

text \<open>\<open>'*'\<close> is a rune, an \<open>int32\<close>. \<open>get\<close> is the method \<open>Get\<close> of the value read.\<close>

definition star :: u32 where "star = 0x2A"

fun locatePath :: "nat \<Rightarrow> (any \<Rightarrow> path \<Rightarrow> any option) \<Rightarrow> iterator \<Rightarrow> path \<Rightarrow> (any \<times> iterator) option" where
  "locatePath n get it [] =
     (case Error it of
        None \<Rightarrow> readAny n it
      | Some e \<Rightarrow> if e = EOF then readAny n it else Some (invalidAny (Some (IterErr e)), it))"
| "locatePath n get it (key # p) =
     (case key of
        GString name \<Rightarrow>
          Option.bind (findObjectField n n name it) (\<lambda>(found, it1).
          if found then locatePath n get it1 p else Some (newInvalidAny (key # p), it1))
      | GInt i \<Rightarrow>
          Option.bind (findArrayElement n n (sint i) it) (\<lambda>(found, it1).
          if found then locatePath n get it1 p else Some (newInvalidAny (key # p), it1))
      | GInt32 c \<Rightarrow>
          if c = star then
            Option.bind (readAny n it) (\<lambda>(a, it1). map_option (\<lambda>r. (r, it1)) (get a (key # p)))
          else Some (newInvalidAny (key # p), it)
      | _ \<Rightarrow> Some (newInvalidAny (key # p), it))"

definition is_valid :: "any \<Rightarrow> bool" where
  "is_valid a \<longleftrightarrow> (case a of invalidAny err \<Rightarrow> False | _ \<Rightarrow> True)"

text \<open>The results for all elements of a list: those that are valid.\<close>

fun keep_valid :: "any option list \<Rightarrow> any list option" where
  "keep_valid [] = Some []"
| "keep_valid (r # rs) =
     Option.bind r (\<lambda>a. map_option (\<lambda>as. if is_valid a then a # as else as) (keep_valid rs))"

definition any_slice :: "any list \<Rightarrow> govalue" where
  "any_slice as = GSlice ''[]jsoniter.Any'' (Some (map GAny as))"

definition any_map :: "(bytes \<times> any) list \<Rightarrow> govalue" where
  "any_map m = GMap ''map[string]jsoniter.Any'' (KeyType ''string'' True) (Some (map (\<lambda>(k, a). (GString k, GAny a)) m))"

text \<open>\<open>Get\<close> of each struct; \<open>get\<close> stands for the calls of the method itself.\<close>

definition objectLazyAny_Get :: "runtime \<Rightarrow> nat \<Rightarrow> (any \<Rightarrow> path \<Rightarrow> any option) \<Rightarrow> frozenConfig \<Rightarrow> bytes \<Rightarrow> any_error option
    \<Rightarrow> path \<Rightarrow> any option" where
  "objectLazyAny_Get rt n get c b err p =
     (case p of
        [] \<Rightarrow> Some (objectLazyAny c b err)
      | GString name # p' \<Rightarrow> map_option fst (locatePath n get (borrowed rt c b) p)
      | GInt32 key # p' \<Rightarrow>
          if key = star then
            map_option (\<lambda>(ok, mappedAll, it). wrapMap (any_map mappedAll))
              (ReadObjectCB n
                (\<lambda>it field mappedAll.
                   map_option (\<lambda>(mapped, it1).
                     (True, if is_valid mapped then AList.update field mapped mappedAll else mappedAll, it1))
                     (locatePath n get it p'))
                (borrowed rt c b) [])
          else Some (newInvalidAny p)
      | _ \<Rightarrow> Some (newInvalidAny p))"

definition arrayLazyAny_Get :: "runtime \<Rightarrow> nat \<Rightarrow> (any \<Rightarrow> path \<Rightarrow> any option) \<Rightarrow> frozenConfig \<Rightarrow> bytes \<Rightarrow> any_error option
    \<Rightarrow> path \<Rightarrow> any option" where
  "arrayLazyAny_Get rt n get c b err p =
     (case p of
        [] \<Rightarrow> Some (arrayLazyAny c b err)
      | GInt i # p' \<Rightarrow> map_option fst (locatePath n get (borrowed rt c b) p)
      | GInt32 key # p' \<Rightarrow>
          if key = star then
            map_option (\<lambda>(ok, arr, it). wrapArray (any_slice arr))
              (ReadArrayCB n
                (\<lambda>it arr.
                   Option.bind (readAny n it) (\<lambda>(a, it1).
                   map_option (\<lambda>found. (True, if is_valid found then arr @ [found] else arr, it1)) (get a p')))
                (borrowed rt c b) [])
          else Some (newInvalidAny p)
      | _ \<Rightarrow> Some (newInvalidAny p))"

definition arrayAny_Get :: "(any \<Rightarrow> path \<Rightarrow> any option) \<Rightarrow> govalue \<Rightarrow> path \<Rightarrow> any option" where
  "arrayAny_Get get val p =
     (case p of
        [] \<Rightarrow> Some (arrayAny val)
      | GInt i # p' \<Rightarrow>
          if sint i < 0 \<or> sint i \<ge> int (length (elems val)) then Some (newInvalidAny p)
          else Wrap (elems val ! nat (sint i))
      | GInt32 key # p' \<Rightarrow>
          if key = star then
            map_option (\<lambda>mappedAll. wrapArray (any_slice mappedAll))
              (keep_valid (map (\<lambda>x. Option.bind (Wrap x) (\<lambda>a. get a p')) (elems val)))
          else Some (newInvalidAny p)
      | _ \<Rightarrow> Some (newInvalidAny p))"

text \<open>The loops over fields and entries: the values found, under their names.\<close>

fun map_all :: "(any \<Rightarrow> path \<Rightarrow> any option) \<Rightarrow> path \<Rightarrow> (bytes \<times> govalue) list \<Rightarrow> (bytes \<times> any) list \<Rightarrow> (bytes \<times> any) list option" where
  "map_all get p [] mappedAll = Some mappedAll"
| "map_all get p ((name, x) # xs) mappedAll =
     Option.bind (Wrap x) (\<lambda>a. Option.bind (get a p) (\<lambda>mapped.
     map_all get p xs (if is_valid mapped then AList.update name mapped mappedAll else mappedAll)))"

text \<open>\<open>FieldByName\<close> finds a field that is not exported too; \<open>Interface()\<close> then panics.\<close>

definition objectAny_Get :: "(any \<Rightarrow> path \<Rightarrow> any option) \<Rightarrow> any_error option \<Rightarrow> govalue \<Rightarrow> path \<Rightarrow> any option" where
  "objectAny_Get get err val p =
     (case p of
        [] \<Rightarrow> Some (objectAny err val)
      | GString name # p' \<Rightarrow>
          (case map_of (fields_of val) name of
             None \<Rightarrow> Some (newInvalidAny p)
           | Some (exported, x) \<Rightarrow> if exported then Wrap x else None)
      | GInt32 key # p' \<Rightarrow>
          if key = star then
            map_option (\<lambda>mappedAll. wrapMap (any_map mappedAll))
              (map_all get p' (map (\<lambda>(name, exported, x). (name, x)) (filter (fst \<circ> snd) (fields_of val))) [])
          else Some (newInvalidAny p)
      | _ \<Rightarrow> Some (newInvalidAny p))"

text \<open>The type of a path element, as far as it can be the type of a map's keys. \<open>MapIndex\<close> panics when a value of that type
  cannot be assigned to the key type.\<close>

fun type_name :: "govalue \<Rightarrow> string" where
  "type_name (GBool b) = ''bool''" | "type_name (GString s) = ''string''"
| "type_name (GInt v) = ''int''" | "type_name (GInt8 v) = ''int8''" | "type_name (GInt16 v) = ''int16''"
| "type_name (GInt32 v) = ''int32''" | "type_name (GInt64 v) = ''int64''"
| "type_name (GUint v) = ''uint''" | "type_name (GUintptr v) = ''uintptr''" | "type_name (GUint8 v) = ''uint8''"
| "type_name (GUint16 v) = ''uint16''" | "type_name (GUint32 v) = ''uint32''" | "type_name (GUint64 v) = ''uint64''"
| "type_name (GFloat32 x) = ''float32''" | "type_name (GFloat64 x) = ''float64''"
| "type_name (GDefined t v) = t" | "type_name (GSlice t xs) = t" | "type_name (GStruct t fs) = t"
| "type_name (GMap t k es) = t" | "type_name (GPtr t v) = t" | "type_name (GAny a) = ''jsoniter.Any''"
| "type_name (GOther t) = t" | "type_name GNil = []"

definition assignable :: "govalue \<Rightarrow> govalue \<Rightarrow> bool" where
  "assignable key val =
     (case val of
        GMap t (KeyType name str) es \<Rightarrow> type_name key = name
      | _ \<Rightarrow> True)"

definition mapAny_Get :: "(any \<Rightarrow> path \<Rightarrow> any option) \<Rightarrow> any_error option \<Rightarrow> govalue \<Rightarrow> path \<Rightarrow> any option" where
  "mapAny_Get get err val p =
     (case p of
        [] \<Rightarrow> Some (mapAny err val)
      | GInt32 key # p' \<Rightarrow>
          if key = star then
            map_option (\<lambda>mappedAll. wrapMap (any_map mappedAll))
              (map_all get p' (map (\<lambda>(k, x). (key_String val k, x)) (entries val)) [])
          else Some (newInvalidAny p)
      | key # p' \<Rightarrow>
          if \<not> assignable key val then None
          else (case map_of (entries val) key of None \<Rightarrow> Some (newInvalidAny p) | Some x \<Rightarrow> Wrap x))"

text \<open>The numbers, booleans and nil have the \<open>Get\<close> of \<open>baseAny\<close>.\<close>

fun Get :: "runtime \<Rightarrow> nat \<Rightarrow> any \<Rightarrow> path \<Rightarrow> any option" where
  "Get rt 0 a p = None"
| "Get rt (Suc n) a p =
     (case a of
        invalidAny err \<Rightarrow> Some (invalidAny_Get err p)
      | stringAny val \<Rightarrow> Some (stringAny_Get val p)
      | objectLazyAny c b err \<Rightarrow> objectLazyAny_Get rt n (Get rt n) c b err p
      | arrayLazyAny c b err \<Rightarrow> arrayLazyAny_Get rt n (Get rt n) c b err p
      | arrayAny val \<Rightarrow> arrayAny_Get (Get rt n) val p
      | objectAny err val \<Rightarrow> objectAny_Get (Get rt n) err val p
      | mapAny err val \<Rightarrow> mapAny_Get (Get rt n) err val p
      | _ \<Rightarrow> Some (baseAny_Get p))"

definition frozenConfig_Get :: "runtime \<Rightarrow> nat \<Rightarrow> frozenConfig \<Rightarrow> bytes \<Rightarrow> path \<Rightarrow> any option" where
  "frozenConfig_Get rt n c data p = map_option fst (locatePath n (Get rt n) (borrowed rt c data) p)"

section \<open>Names and sizes\<close>

definition objectLazyAny_Keys :: "runtime \<Rightarrow> nat \<Rightarrow> frozenConfig \<Rightarrow> bytes \<Rightarrow> bytes list option" where
  "objectLazyAny_Keys rt n c b =
     map_option (\<lambda>(ok, keys, it). keys)
       (ReadObjectCB n (\<lambda>it field keys. map_option (\<lambda>it1. (True, keys @ [field], it1)) (Skip n it)) (borrowed rt c b) [])"

fun objectLazyAny_Size_loop :: "nat \<Rightarrow> nat \<Rightarrow> nat \<Rightarrow> iterator \<Rightarrow> nat option" where
  "objectLazyAny_Size_loop n 0 sz it = None"
| "objectLazyAny_Size_loop n (Suc k) sz it =
     (case ReadObjectRaw it of (rs, it1) \<Rightarrow>
      if IsNil rs then Some sz
      else Option.bind (Skip n it1) (objectLazyAny_Size_loop n k (Suc sz)))"

definition objectLazyAny_Size :: "runtime \<Rightarrow> nat \<Rightarrow> frozenConfig \<Rightarrow> bytes \<Rightarrow> nat option" where
  "objectLazyAny_Size rt n c b = objectLazyAny_Size_loop n n 0 (borrowed rt c b)"

definition arrayLazyAny_Size :: "runtime \<Rightarrow> nat \<Rightarrow> frozenConfig \<Rightarrow> bytes \<Rightarrow> nat option" where
  "arrayLazyAny_Size rt n c b =
     map_option (\<lambda>(ok, sz, it). sz)
       (ReadArrayCB n (\<lambda>it sz. map_option (\<lambda>it1. (True, Suc sz, it1)) (Skip n it)) (borrowed rt c b) 0)"

definition any_Size :: "runtime \<Rightarrow> nat \<Rightarrow> any \<Rightarrow> nat option" where
  "any_Size rt n a =
     (case a of
        objectLazyAny c b err \<Rightarrow> objectLazyAny_Size rt n c b
      | arrayLazyAny c b err \<Rightarrow> arrayLazyAny_Size rt n c b
      | arrayAny val \<Rightarrow> Some (arrayAny_Size val)
      | objectAny err val \<Rightarrow> Some (objectAny_Size val)
      | mapAny err val \<Rightarrow> Some (mapAny_Size val)
      | _ \<Rightarrow> Some baseAny_Size)"

definition any_Keys :: "runtime \<Rightarrow> nat \<Rightarrow> any \<Rightarrow> bytes list option" where
  "any_Keys rt n a =
     (case a of
        objectLazyAny c b err \<Rightarrow> objectLazyAny_Keys rt n c b
      | objectAny err val \<Rightarrow> Some (objectAny_Keys val)
      | mapAny err val \<Rightarrow> Some (mapAny_Keys val)
      | _ \<Rightarrow> Some baseAny_Keys)"

section \<open>The codecs of \<open>Any\<close>\<close>

text \<open>A variable of type \<open>Any\<close> may be nil. \<open>anyCodec\<close> is for types that implement the interface; it cannot decode.\<close>

definition directAnyCodec_Decode :: "nat \<Rightarrow> any option decoder" where
  "directAnyCodec_Decode n ptr it = map_option (\<lambda>(a, it1). (Some a, it1)) (readAny n it)"

definition directAnyCodec_Encode :: "runtime \<Rightarrow> nat \<Rightarrow> any option encoder" where
  "directAnyCodec_Encode rt n ptr s =
     (case ptr of None \<Rightarrow> WriteNil s | Some a \<Rightarrow> m_WriteTo (methods_of rt n a) s)"

text \<open>\<open>None\<close> also for the panic on a nil variable.\<close>

definition directAnyCodec_IsEmpty :: "runtime \<Rightarrow> nat \<Rightarrow> any option \<Rightarrow> bool option" where
  "directAnyCodec_IsEmpty rt n ptr = Option.bind ptr (\<lambda>a. map_option (\<lambda>sz. sz = 0) (any_Size rt n a))"

definition anyCodec_Decode :: "any decoder" where
  "anyCodec_Decode ptr it = None"

definition anyCodec_Encode :: "runtime \<Rightarrow> nat \<Rightarrow> any encoder" where
  "anyCodec_Encode rt n obj s = m_WriteTo (methods_of rt n obj) s"

definition anyCodec_IsEmpty :: "runtime \<Rightarrow> nat \<Rightarrow> any \<Rightarrow> bool option" where
  "anyCodec_IsEmpty rt n obj = map_option (\<lambda>sz. sz = 0) (any_Size rt n obj)"

section \<open>What \<open>ReadAny\<close> returns for a JSON text\<close>

fun any_of :: "frozenConfig \<Rightarrow> bytes \<Rightarrow> any" where
  "any_of c [] = invalidAny (Some InputEmpty)"
| "any_of c (h # r) =
     (if h = ch_quote then stringAny (name_of r)
      else if h = ch_n then nilAny
      else if h = ch_t then trueAny
      else if h = ch_f then falseAny
      else if h = ch_lbrace then objectLazyAny c (h # r) None
      else if h = ch_lbrack then arrayLazyAny c (h # r) None
      else numberLazyAny c (h # r) None)"

text \<open>A capture that begins at the token read last is one that began just before it.\<close>

lemma capture_token:
  assumes "wf_iter it1" "can_unread h it1" "captured it1 = None" "Error it1 = None" "\<not> is_space h"
  shows "\<exists>it0 it2. startCapture (head it1 - 1) it1 = Some it2 \<and> nextToken it0 = (h, it2) \<and> wf_iter it0
    \<and> cap_log it0 = Some [] \<and> pending it0 = h # pending it1 \<and> Error it0 = None \<and> depth it0 = depth it1
    \<and> consumes it0 [h] it2 \<and> can_unread h it2 \<and> pending it2 = pending it1
    \<and> same_frame (it1\<lparr>captured := Some []\<rparr>) it0 \<and> end_err it0 = end_err it1"
proof -
  let ?it2 = "it1\<lparr>captureStartedAt := head it1 - 1, captured := Some []\<rparr>"
  let ?it0 = "?it2\<lparr>head := head it1 - 1\<rparr>"
  have h: "1 \<le> head it1" "byte_at (buf it1) (head it1 - 1) = h" using assms(2) by (auto simp: can_unread_def)
  have wf2: "wf_iter ?it2" using assms(1) h by (simp add: wf_iter_def)
  have cu: "can_unread h ?it2" using h by (simp add: can_unread_def)
  have g: "gslice (buf it1) (head it1 - 1) (tail it1) = h # gslice (buf it1) (head it1) (tail it1)"
    "gslice (buf it1) (head it1 - 1) (head it1) = [h]"
    using gslice_Cons [of "head it1 - 1" "tail it1" "buf it1"] gslice_Cons [of "head it1 - 1" "head it1" "buf it1"]
      h assms(1) by (auto simp: wf_iter_def)
  have wf0: "wf_iter ?it0" using assms(1) h by (simp add: wf_iter_def)
  have con: "consumes ?it0 [h] ?it2" using consumes_head [OF wf0, of "head it1"] g assms(1) by (simp add: wf_iter_def)
  have "nextToken ?it0 = (h, ?it2)"
    using h assms(1,5) by (simp add: nextToken.simps [of ?it0] find_from.simps [of _ _ "head it1 - 1"] wf_iter_def)
  moreover have "startCapture (head it1 - 1) it1 = Some ?it2"
    using assms(3) by (simp add: startCapture_def startCaptureTo_def)
  moreover have "pending ?it0 = h # pending it1" "pending ?it2 = pending it1" "cap_log ?it0 = Some []"
    "same_frame (it1\<lparr>captured := Some []\<rparr>) ?it0" "end_err ?it0 = end_err it1"
    using g by (simp_all add: pending_def rest_bytes_def cap_log_def same_frame_def end_err_def)
  ultimately show ?thesis using wf0 con cu assms(4)
    by (intro exI [of _ ?it0] exI [of _ ?it2]) simp
qed

lemma capture_end:
  assumes "consumes it (ws @ [h]) it1" "captured it = None"
    and "same_frame (it1\<lparr>captured := Some []\<rparr>) it0" "end_err it0 = end_err it1" "Error it0 = Error it1" "depth it0 = depth it1"
      "pending it0 = h # pending it1" "cap_log it0 = Some []"
    and "consumes it0 (h # r) it3"
  shows "\<exists>it4. stopCapture it3 = Some (h # r, it4) \<and> consumes it (ws @ h # r) it4 \<and> pending it4 = pending it3"
proof -
  have l: "cap_log it3 = Some (h # r)" using assms(8,9) by (simp add: consumes_def)
  then obtain cp where cp: "captured it3 = Some cp" "cp @ gslice (buf it3) (captureStartedAt it3) (head it3) = h # r"
    by (auto simp: cap_log_def)
  let ?it4 = "it3\<lparr>captureStartedAt := -1, captured := None\<rparr>"
  have "stopCapture it3 = Some (h # r, ?it4)" using cp by (simp add: stopCapture_def)
  moreover have "pending ?it4 = pending it3" by (simp add: pending_def rest_bytes_def)
  moreover have "consumes it (ws @ h # r) ?it4"
    using assms cp
    by (auto simp: consumes_def same_frame_def wf_iter_def cap_log_def pending_def rest_bytes_def end_err_def)
  ultimately show ?thesis by blast
qed

lemma readAny_json:
  assumes "json d v" "length v \<le> n" "wf_iter it" "Error it = None" "0 \<le> depth it" "depth it + int d \<le> maxDepth"
    "captured it = None" "list_all is_space ws" "pending it = ws @ v @ t # rest" "\<not> number_char t"
  shows "\<exists>it'. readAny n it = Some (any_of (cfg it) v, it') \<and> consumes it (ws @ v) it' \<and> pending it' = t # rest"
proof -
  obtain h r where v: "v = h # r" "\<not> is_space h" using json_head [OF assms(1)] by (cases v) auto
  obtain it1 where 1: "nextToken it = (h, it1)" "consumes it (ws @ [h]) it1" "can_unread h it1" "pending it1 = r @ t # rest"
    using token [OF assms(3,8), of h "r @ t # rest"] assms(9) v by auto
  note s1 = consumes_same [OF 1(2)]
  have e1: "Error it1 = None" "captured it1 = None" "cfg it1 = cfg it" using s1 assms(4,7) by auto
  obtain it0 it2 where c: "startCapture (head it1 - 1) it1 = Some it2" "nextToken it0 = (h, it2)" "wf_iter it0"
    "cap_log it0 = Some []" "pending it0 = h # pending it1" "Error it0 = None" "depth it0 = depth it1" "consumes it0 [h] it2"
    "can_unread h it2" "pending it2 = pending it1" "same_frame (it1\<lparr>captured := Some []\<rparr>) it0" "end_err it0 = end_err it1"
    using capture_token [OF _ 1(3) e1(2,1) v(2)] s1 by blast
  have fin: "\<exists>it4. stopCapture it3 = Some (v, it4) \<and> consumes it (ws @ v) it4 \<and> pending it4 = pending it3"
    if "consumes it0 v it3" for it3
    using capture_end [OF 1(2) assms(7) c(11,12) _ c(7,5,4), of r it3] that c(6) e1 v by simp
  have p0: "pending it0 = [] @ v @ t # rest" using c(5) 1(4) v by simp
  obtain it3 where sk: "Skip (Suc n) it0 = Some it3" "consumes it0 v it3" "pending it3 = t # rest"
    using json_skips [OF assms(1), unfolded skips_def, rule_format, OF _ c(3,6) _ _ _ p0 assms(10), of "Suc n"]
      c(7) s1 assms(2,5,6) by auto
  obtain it4 where f: "stopCapture it3 = Some (v, it4)" "consumes it (ws @ v) it4" "pending it4 = t # rest"
    using fin [OF sk(2)] sk(3) by auto
  from assms(1) show ?thesis
  proof (cases rule: json.cases)
    case json_null
    then have "r = [ch_u, ch_l, ch_l]" "h = ch_n" using v by auto
    with skipThreeBytes_ok [of it1 ch_u ch_l ch_l "t # rest"] 1 s1 v consumes_trans [OF 1(2)] show ?thesis
      by (fastforce simp: readAny_def)
  next
    case json_true
    then have "r = [ch_r, ch_u, ch_e]" "h = ch_t" using v by auto
    with skipThreeBytes_ok [of it1 ch_r ch_u ch_e "t # rest"] 1 s1 v consumes_trans [OF 1(2)] show ?thesis
      by (fastforce simp: readAny_def)
  next
    case json_false
    then have "r = [ch_a, ch_l, ch_s, ch_e]" "h = ch_f" using v by auto
    with skipFourBytes_ok [of it1 ch_a ch_l ch_s ch_e "t # rest"] 1 s1 v consumes_trans [OF 1(2)] show ?thesis
      by (fastforce simp: readAny_def)
  next
    case json_number
    obtain neg ip fp where n: "h # r = (if neg then [ch_minus] else []) @ num_text ip fp" "num_ok ip fp"
      "ParseFloat (h # r) 64 \<noteq> None" using json_number unfolding number_token_def v(1) by blast
    have hd: "h = ch_minus \<or> is_digit h" using number_token_head [OF json_number] v by auto
    have k: "h \<noteq> ch_quote" "h \<noteq> ch_n" "h \<noteq> ch_t" "h \<noteq> ch_f" "h \<noteq> ch_lbrace" "h \<noteq> ch_lbrack" "h \<noteq> 0"
      using hd by (auto simp: is_digit_def)
    have c8: "consumes it0 ([] @ [h]) it2" using c(8) by simp
    have p2: "pending it2 = r @ t # rest" using c(10) 1(4) by simp
    have sn: "consumes it0 v (skipNumber it2)" "pending (skipNumber it2) = t # rest"
      using skipNumber_consumes [OF c8 c(9,6) p2 n assms(10)] v by simp_all
    from fin [OF sn(1)] sn(2) obtain it5 where "stopCapture (skipNumber it2) = Some (v, it5)" "consumes it (ws @ v) it5"
      "pending it5 = t # rest" by auto
    with 1(1) c(1) k e1 v show ?thesis by (cases "h = ch_minus") (simp_all add: readAny_def readNumberAny_def)
  next
    case (json_string s x)
    then have "h = ch_quote" "r = s" using v by auto
    from unreadByte_spec [OF 1(2,3) e1(1)] 1(4) have u: "consumes it ws (unreadByte it1)"
      "pending (unreadByte it1) = [] @ ch_quote # r @ t # rest" using \<open>h = ch_quote\<close> by auto
    note su = consumes_same [OF u(1)]
    from decode_str_local [OF json_string(2)] have "\<forall>ys. decode_str (r @ ys) = Some (x, ys)" using \<open>r = s\<close> by auto
    with ReadString_literal [OF _ _ _ u(2), of x] su assms(4) obtain it5 where
      "ReadString (unreadByte it1) = (x, it5)" "consumes (unreadByte it1) (ch_quote # r) it5" "pending it5 = t # rest" by auto
    with 1(1) consumes_trans [OF u(1)] json_string v show ?thesis by (auto simp: readAny_def name_of_def)
  qed (use f 1(1) c(1,2) sk(1) e1 v in \<open>auto simp: readAny_def readArrayAny_def readObjectAny_def is_digit_def\<close>)
qed

section \<open>The search loops\<close>

text \<open>A member announced by the brace or a comma.\<close>

lemma ReadObjectRaw_member:
  assumes "wf_iter it" "Error it = None" "c = ch_lbrace \<or> c = ch_comma" "list_all is_space ws" "list_all is_space w1"
    "decode_str k = Some (d, [])" "list_all is_space w2" "pending it = ws @ c # w1 @ ch_quote # k @ w2 @ ch_colon # rest"
  shows "\<exists>rs it1. ReadObjectRaw it = (rs, it1) \<and> \<not> IsNil rs \<and> RawString_String (buf it1) rs = Some d
    \<and> (\<not> ContainsEscapes rs \<longrightarrow> fst (RawString_Bytes (buf it1) rs) = d)
    \<and> consumes it (ws @ c # w1 @ ch_quote # k @ w2 @ [ch_colon]) it1 \<and> pending it1 = rest"
proof -
  have nsp: "\<not> is_space c" "\<not> is_space ch_quote" using assms(3) by (auto simp: is_space_def)
  from token [OF assms(1,4,8) nsp(1)] obtain it1 where
    1: "nextToken it = (c, it1)" "consumes it (ws @ [c]) it1" "pending it1 = w1 @ ch_quote # k @ w2 @ ch_colon # rest" .
  note s1 = consumes_same [OF 1(2)]
  from token [OF _ assms(5) 1(3) nsp(2)] s1 obtain it2 where
    2: "nextToken it1 = (ch_quote, it2)" "consumes it1 (w1 @ [ch_quote]) it2" "pending it2 = k @ w2 @ ch_colon # rest" by blast
  note s2 = consumes_same [OF 2(2)]
  have raw: "ReadRawString it1 = readRawStringInner it2" using 2(1) by (simp add: ReadRawString_def)
  have "name_read it2 (k @ w2) d rest (realize_unless_buffered (readRawStringInner it2))"
    using name_colon [OF _ _ assms(6,7) 2(3)] s1 s2 assms(2) by simp
  then obtain rs it3 it4 where 3: "realize_unless_buffered (readRawStringInner it2) = (rs, it3)"
    "nextToken it3 = (ch_colon, it4)" "consumes it2 ((k @ w2) @ [ch_colon]) it4" "pending it4 = rest"
    "\<not> IsNil rs" "RawString_String (buf it4) rs = Some d"
    by (cases "realize_unless_buffered (readRawStringInner it2)") (auto simp: name_read_def)
  have "ReadObjectRaw it = (rs, it4)"
    using 1(1) 2(1) 3(1,2) raw assms(3) by (auto simp: ReadObjectRaw_def read_colon_def)
  moreover have "consumes it (ws @ c # w1 @ ch_quote # k @ w2 @ [ch_colon]) it4"
    using consumes_trans [OF 1(2) consumes_trans [OF 2(2) 3(3)]] by simp
  moreover have "\<not> ContainsEscapes rs \<longrightarrow> fst (RawString_Bytes (buf it4) rs) = d"
    using 3(5,6) by (auto simp: RawString_String_def RawString_Bytes_def ContainsEscapes_def IsNil_def Let_def gslice_def)
  ultimately show ?thesis using 3(4-6) by blast
qed

text \<open>The end of the object.\<close>

lemma ReadObjectRaw_end:
  assumes "wf_iter it" "list_all is_space ws" "pending it = ws @ ch_rbrace # rest"
  shows "\<exists>it1. ReadObjectRaw it = (nil_RawString, it1)"
  using nextToken_at [OF assms] by (auto simp: is_space_def ReadObjectRaw_def)

text \<open>A value between the colon and the comma behind it.\<close>

lemma Skip_member:
  assumes "json d v" "length v < n" "wf_iter it" "Error it = None" "0 \<le> depth it" "depth it + int d \<le> maxDepth"
    "list_all is_space w" "list_all is_space w'" "pending it = w @ v @ w' @ c # rest" "\<not> number_char c"
  shows "\<exists>it'. Skip n it = Some it' \<and> consumes it (w @ v) it' \<and> pending it' = w' @ c # rest"
proof -
  obtain t ts where t: "w' @ c # rest = t # ts" "\<not> number_char t" using split_after [OF assms(8,10)] by blast
  with json_skips [OF assms(1)] assms show ?thesis unfolding skips_def by metis
qed

abbreviation field_key :: "field \<Rightarrow> bytes" where "field_key f \<equiv> name_of (field_lit f)"

text \<open>One member that is passed over: its name is as written, then its value is skipped.\<close>

lemma pass_member:
  assumes "wf_iter it" "Error it = None" "0 \<le> depth it" "depth it + int d \<le> maxDepth" "c = ch_lbrace \<or> c = ch_comma"
    "list_all is_space ws" "field_ok (json d) (a1, b, a2, a3, u, a4)" "length u < n"
    "pending it = ws @ c # a1 @ ch_quote # b @ a2 @ ch_colon # a3 @ u @ a4 @ c' # X" "\<not> number_char c'"
  shows "\<exists>rs it1 it2 xs. ReadObjectRaw it = (rs, it1) \<and> \<not> IsNil rs \<and> RawString_String (buf it1) rs = Some (name_of b)
    \<and> (\<not> ContainsEscapes rs \<longrightarrow> fst (RawString_Bytes (buf it1) rs) = name_of b)
    \<and> Skip n it1 = Some it2 \<and> consumes it xs it2 \<and> pending it2 = a4 @ c' # X \<and> list_all is_space a4"
proof -
  from assms(7) obtain dd where ok: "list_all is_space a1" "decode_str b = Some (dd, [])" "list_all is_space a2"
    and el: "list_all is_space a3" "json d u" "list_all is_space a4" by (auto simp: elem_ok_def)
  from ReadObjectRaw_member [OF assms(1,2,5,6) ok assms(9)] obtain rs it1 where
    1: "ReadObjectRaw it = (rs, it1)" "\<not> IsNil rs" "RawString_String (buf it1) rs = Some dd"
    "\<not> ContainsEscapes rs \<longrightarrow> fst (RawString_Bytes (buf it1) rs) = dd"
    "consumes it (ws @ c # a1 @ ch_quote # b @ a2 @ [ch_colon]) it1" "pending it1 = a3 @ u @ a4 @ c' # X" by blast
  note s1 = consumes_same [OF 1(5)]
  from Skip_member [OF el(2) assms(8) _ _ _ _ el(1,3) 1(6) assms(10)] s1 assms(2-4) obtain it2 where
    2: "Skip n it1 = Some it2" "consumes it1 (a3 @ u) it2" "pending it2 = a4 @ c' # X" by auto
  have "dd = name_of b" using ok(2) by (simp add: name_of_def)
  with 1 2 consumes_trans [OF 1(5) 2(2)] el(3) show ?thesis by (intro exI conjI) auto
qed

text \<open>From the brace or a comma on: the member of that name that comes first is found, if there is one.\<close>

lemma find_field:
  assumes "wf_iter it" "Error it = None" "0 \<le> depth it" "depth it + int d \<le> maxDepth" "c = ch_lbrace \<or> c = ch_comma"
    "list_all is_space ws" "\<forall>f \<in> set (pre @ (w1, k, w2, w3, v, w4) # post). field_ok (json d) f"
    "target \<notin> field_key ` set pre" "name_of k = target"
    "pending it = ws @ c # fields_text (pre @ (w1, k, w2, w3, v, w4) # post) @ ch_rbrace # rest"
    "\<forall>f \<in> set pre. length (field_val f) < n" "length pre < m"
  shows "\<exists>it' xs. findObjectField n m target it = Some (True, it') \<and> consumes it xs it'
    \<and> pending it' = w3 @ v @ w4 @ fst (after_field post rest) # snd (after_field post rest)"
  using assms
proof (induction pre arbitrary: it c ws m)
  case Nil
  obtain m' where m: "m = Suc m'" using Nil.prems(12) by (cases m) auto
  from Nil.prems(7) obtain dd where ok: "list_all is_space w1" "decode_str k = Some (dd, [])" "list_all is_space w2" by auto
  have p: "pending it = ws @ c # w1 @ ch_quote # k @ w2 @ ch_colon # w3 @ v @ w4 @ fst (after_field post rest) # snd (after_field post rest)"
    using Nil.prems(10) fields_text_Cons [of w1 k w2 w3 v w4 post rest] by simp
  from ReadObjectRaw_member [OF Nil.prems(1,2,5,6) ok p] obtain rs it1 where
    "ReadObjectRaw it = (rs, it1)" "\<not> IsNil rs" "RawString_String (buf it1) rs = Some dd"
    "\<not> ContainsEscapes rs \<longrightarrow> fst (RawString_Bytes (buf it1) rs) = dd"
    "consumes it (ws @ c # w1 @ ch_quote # k @ w2 @ [ch_colon]) it1"
    "pending it1 = w3 @ v @ w4 @ fst (after_field post rest) # snd (after_field post rest)" by blast
  moreover have "dd = target" using Nil.prems(9) ok(2) by (simp add: name_of_def)
  ultimately show ?case using m by auto
next
  case (Cons g pre)
  obtain m' where m: "m = Suc m'" "length pre < m'" using Cons.prems(12) by (cases m) auto
  obtain a1 b a2 a3 u a4 where g: "g = (a1, b, a2, a3, u, a4)" by (cases g) auto
  let ?X = "fields_text (pre @ (w1, k, w2, w3, v, w4) # post) @ ch_rbrace # rest"
  have p: "pending it = ws @ c # a1 @ ch_quote # b @ a2 @ ch_colon # a3 @ u @ a4 @ ch_comma # ?X"
    using Cons.prems(10) fields_text_Cons [of a1 b a2 a3 u a4 "pre @ (w1, k, w2, w3, v, w4) # post" rest]
    by (simp add: g after_field_def)
  have com: "\<not> number_char ch_comma" by (simp add: number_char_def is_digit_def)
  have gok: "field_ok (json d) (a1, b, a2, a3, u, a4)" "length u < n" using Cons.prems(7,11) g by auto
  from pass_member [OF Cons.prems(1-6) gok p com] obtain rs it1 it2 ys where
    1: "ReadObjectRaw it = (rs, it1)" "\<not> IsNil rs" "RawString_String (buf it1) rs = Some (name_of b)"
    "\<not> ContainsEscapes rs \<longrightarrow> fst (RawString_Bytes (buf it1) rs) = name_of b" "Skip n it1 = Some it2"
    "consumes it ys it2" "pending it2 = a4 @ ch_comma # ?X" "list_all is_space a4" by blast
  note s2 = consumes_same [OF 1(6)]
  have ne: "name_of b \<noteq> target" using Cons.prems(8) g by auto
  from Cons.IH [of it2 ch_comma a4 m'] s2 1(7,8) Cons.prems m(2) obtain it' xs where
    3: "findObjectField n m' target it2 = Some (True, it')" "consumes it2 xs it'"
      "pending it' = w3 @ v @ w4 @ fst (after_field post rest) # snd (after_field post rest)" by auto
  have "findObjectField n m target it = Some (True, it')" using 1 3(1) ne m(1) by simp
  then show ?case using consumes_trans [OF 1(6) 3(2)] 3(3) by blast
qed

lemma find_no_field:
  assumes "wf_iter it" "Error it = None" "0 \<le> depth it" "depth it + int d \<le> maxDepth" "c = ch_lbrace \<or> c = ch_comma"
    "list_all is_space ws" "\<forall>f \<in> set fs. field_ok (json d) f" "fs \<noteq> []" "target \<notin> field_key ` set fs"
    "pending it = ws @ c # fields_text fs @ ch_rbrace # rest"
    "\<forall>f \<in> set fs. length (field_val f) < n" "length fs < m"
  shows "\<exists>it'. findObjectField n m target it = Some (False, it')"
  using assms
proof (induction fs arbitrary: it c ws m)
  case (Cons g fs)
  obtain m' where m: "m = Suc m'" "length fs < m'" using Cons.prems(12) by (cases m) auto
  obtain a1 b a2 a3 u a4 where g: "g = (a1, b, a2, a3, u, a4)" by (cases g) auto
  let ?c = "fst (after_field fs rest)" and ?X = "snd (after_field fs rest)"
  have p: "pending it = ws @ c # a1 @ ch_quote # b @ a2 @ ch_colon # a3 @ u @ a4 @ ?c # ?X"
    using Cons.prems(10) fields_text_Cons [of a1 b a2 a3 u a4 fs rest] by (simp add: g)
  have gok: "field_ok (json d) (a1, b, a2, a3, u, a4)" "length u < n" using Cons.prems(7,11) g by auto
  from pass_member [OF Cons.prems(1-6) gok p] after_field_token obtain rs it1 it2 ys where
    1: "ReadObjectRaw it = (rs, it1)" "\<not> IsNil rs" "RawString_String (buf it1) rs = Some (name_of b)"
    "\<not> ContainsEscapes rs \<longrightarrow> fst (RawString_Bytes (buf it1) rs) = name_of b" "Skip n it1 = Some it2"
    "consumes it ys it2" "pending it2 = a4 @ ?c # ?X" "list_all is_space a4" by blast
  note s2 = consumes_same [OF 1(6)]
  have ne: "name_of b \<noteq> target" using Cons.prems(9) g by auto
  have "\<exists>it'. findObjectField n m' target it2 = Some (False, it')"
  proof (cases "fs = []")
    case True
    obtain m'' where "m' = Suc m''" using m(2) by (cases m') auto
    moreover obtain it3 where "ReadObjectRaw it2 = (nil_RawString, it3)"
      using ReadObjectRaw_end [of it2 a4 rest] 1(7,8) s2 True Cons.prems(1) by (auto simp: after_field_def)
    ultimately show ?thesis by (simp add: IsNil_def nil_RawString_def)
  next
    case False
    with Cons.IH [of it2 ch_comma a4 m'] s2 1(7,8) Cons.prems m(2) show ?thesis by (auto simp: after_field_def)
  qed
  with 1 ne m(1) show ?case by auto
qed simp

lemma count_fields:
  assumes "wf_iter it" "Error it = None" "0 \<le> depth it" "depth it + int d \<le> maxDepth" "c = ch_lbrace \<or> c = ch_comma"
    "list_all is_space ws" "\<forall>f \<in> set fs. field_ok (json d) f" "fs \<noteq> []"
    "pending it = ws @ c # fields_text fs @ ch_rbrace # rest"
    "\<forall>f \<in> set fs. length (field_val f) < n" "length fs < m"
  shows "objectLazyAny_Size_loop n m sz it = Some (sz + length fs)"
  using assms
proof (induction fs arbitrary: it c ws m sz)
  case (Cons g fs)
  obtain m' where m: "m = Suc m'" "length fs < m'" using Cons.prems(11) by (cases m) auto
  obtain a1 b a2 a3 u a4 where g: "g = (a1, b, a2, a3, u, a4)" by (cases g) auto
  let ?c = "fst (after_field fs rest)" and ?X = "snd (after_field fs rest)"
  have p: "pending it = ws @ c # a1 @ ch_quote # b @ a2 @ ch_colon # a3 @ u @ a4 @ ?c # ?X"
    using Cons.prems(9) fields_text_Cons [of a1 b a2 a3 u a4 fs rest] by (simp add: g)
  have gok: "field_ok (json d) (a1, b, a2, a3, u, a4)" "length u < n" using Cons.prems(7,10) g by auto
  from pass_member [OF Cons.prems(1-6) gok p] after_field_token obtain rs it1 it2 ys where
    1: "ReadObjectRaw it = (rs, it1)" "\<not> IsNil rs" "Skip n it1 = Some it2"
    "consumes it ys it2" "pending it2 = a4 @ ?c # ?X" "list_all is_space a4" by blast
  note s2 = consumes_same [OF 1(4)]
  have "objectLazyAny_Size_loop n m' (Suc sz) it2 = Some (Suc sz + length fs)"
  proof (cases "fs = []")
    case True
    obtain m'' where "m' = Suc m''" using m(2) by (cases m') auto
    moreover obtain it3 where "ReadObjectRaw it2 = (nil_RawString, it3)"
      using ReadObjectRaw_end [of it2 a4 rest] 1(5,6) s2 True Cons.prems(1) by (auto simp: after_field_def)
    ultimately show ?thesis using True by (simp add: IsNil_def nil_RawString_def)
  next
    case False
    with Cons.IH [of it2 ch_comma a4 m' "Suc sz"] s2 1(5,6) Cons.prems m(2) show ?thesis by (auto simp: after_field_def)
  qed
  with 1 m(1) show ?case by simp
qed simp

text \<open>An element announced by the bracket or a comma.\<close>

lemma ReadArray_element:
  assumes "wf_iter it" "Error it = None" "c = ch_lbrack \<or> c = ch_comma" "list_all is_space ws" "list_all is_space w"
    "e \<noteq> []" "hd e \<noteq> ch_rbrack" "\<not> is_space (hd e)" "pending it = ws @ c # w @ e @ rest"
  shows "\<exists>it1 xs w'. ReadArray it = (True, it1) \<and> consumes it xs it1 \<and> pending it1 = w' @ e @ rest \<and> list_all is_space w'"
proof -
  obtain h r where e: "e = h # r" "h \<noteq> ch_rbrack" "\<not> is_space h" using assms(6-8) by (cases e) auto
  have nsp: "\<not> is_space c" using assms(3) by (auto simp: is_space_def)
  from token [OF assms(1,4,9) nsp] obtain it1 where
    1: "nextToken it = (c, it1)" "consumes it (ws @ [c]) it1" "pending it1 = w @ e @ rest" .
  note s1 = consumes_same [OF 1(2)]
  show ?thesis
  proof (cases "c = ch_comma")
    case True
    then have "ReadArray it = (True, it1)" using 1(1) by (simp add: ReadArray_def)
    with 1 assms(5) show ?thesis by blast
  next
    case False
    then have cb: "c = ch_lbrack" using assms(3) by simp
    from token_unread [OF _ _ assms(5), of it1 h "r @ rest"] s1 1(3) e assms(2) obtain it2 where
      2: "nextToken it1 = (h, it2)" "consumes it1 w (unreadByte it2)" "pending (unreadByte it2) = h # r @ rest" by auto
    have "ReadArray it = (True, unreadByte it2)" using 1(1) 2(1) cb e(2) by (simp add: ReadArray_def)
    moreover have "consumes it ((ws @ [c]) @ w) (unreadByte it2)" using consumes_trans [OF 1(2) 2(2)] .
    moreover have "pending (unreadByte it2) = [] @ e @ rest" using 2(3) e(1) by simp
    ultimately show ?thesis by (metis list.pred_inject(1))
  qed
qed

lemma find_element:
  assumes "wf_iter it" "Error it = None" "0 \<le> depth it" "depth it + int d \<le> maxDepth" "c = ch_lbrack \<or> c = ch_comma"
    "list_all is_space ws" "\<forall>x \<in> set (pre @ (w, e, w') # post). elem_ok (json d) x" "target = i + int (length pre)"
    "pending it = ws @ c # elems_text (pre @ (w, e, w') # post) @ ch_rbrack # rest"
    "\<forall>x \<in> set pre. length (fst (snd x)) < n" "length pre < m"
  shows "\<exists>it' xs w0. findArrayElement_loop n m target i it = Some (True, it') \<and> consumes it xs it' \<and> list_all is_space w0
    \<and> pending it' = w0 @ e @ w' @ fst (after_elem post rest) # snd (after_elem post rest)"
  using assms
proof (induction pre arbitrary: it c ws m i)
  case Nil
  obtain m' where m: "m = Suc m'" using Nil.prems(11) by (cases m) auto
  from Nil.prems(7) have ok: "list_all is_space w" "json d e" by (auto simp: elem_ok_def)
  have p: "pending it = ws @ c # w @ e @ (w' @ fst (after_elem post rest) # snd (after_elem post rest))"
    using Nil.prems(9) elems_text_Cons [of w e w' post rest] by simp
  from json_head [OF ok(2)] ReadArray_element [OF Nil.prems(1,2,5,6) ok(1) _ _ _ p] obtain it1 xs w0 where
    "ReadArray it = (True, it1)" "consumes it xs it1" "list_all is_space w0"
    "pending it1 = w0 @ e @ w' @ fst (after_elem post rest) # snd (after_elem post rest)" by blast
  then show ?case using m Nil.prems(8) by auto
next
  case (Cons x pre)
  obtain m' where m: "m = Suc m'" "length pre < m'" using Cons.prems(11) by (cases m) auto
  obtain a u a' where x: "x = (a, u, a')" by (cases x) auto
  from Cons.prems(7) x have ok: "list_all is_space a" "json d u" "list_all is_space a'" by (auto simp: elem_ok_def)
  let ?X = "elems_text (pre @ (w, e, w') # post) @ ch_rbrack # rest"
  have p: "pending it = ws @ c # a @ u @ a' @ ch_comma # ?X"
    using Cons.prems(9) elems_text_Cons [of a u a' "pre @ (w, e, w') # post" rest] by (simp add: x after_elem_def)
  from json_head [OF ok(2)] ReadArray_element [OF Cons.prems(1,2,5,6) ok(1) _ _ _ p] obtain it1 xs w0 where
    1: "ReadArray it = (True, it1)" "consumes it xs it1" "list_all is_space w0" "pending it1 = w0 @ u @ a' @ ch_comma # ?X" by blast
  note s1 = consumes_same [OF 1(2)]
  have len: "length u < n" using Cons.prems(10) x by simp
  have com: "\<not> number_char ch_comma" by (simp add: number_char_def is_digit_def)
  from Skip_member [OF ok(2) len _ _ _ _ 1(3) ok(3) 1(4) com] s1 Cons.prems(2-4) obtain it2 where
    2: "Skip n it1 = Some it2" "consumes it1 (w0 @ u) it2" "pending it2 = a' @ ch_comma # ?X" by auto
  note s2 = consumes_same [OF 2(2)]
  from Cons.IH [of it2 ch_comma a' "i + 1" m'] s1 s2 2(3) ok(3) Cons.prems m(2) obtain it' ys w1 where
    3: "findArrayElement_loop n m' target (i + 1) it2 = Some (True, it')" "consumes it2 ys it'" "list_all is_space w1"
      "pending it' = w1 @ e @ w' @ fst (after_elem post rest) # snd (after_elem post rest)" by auto
  have "findArrayElement_loop n m target i it = Some (True, it')"
    using 1(1) 2(1) 3(1) m(1) Cons.prems(8) by simp
  then show ?case using consumes_trans [OF 1(2) consumes_trans [OF 2(2) 3(2)]] 3(3,4) by blast
qed

lemma ReadArray_end:
  assumes "wf_iter it" "list_all is_space ws" "pending it = ws @ ch_rbrack # rest"
  shows "\<exists>it1. ReadArray it = (False, it1)"
  using nextToken_at [OF assms] by (auto simp: is_space_def ReadArray_def)

lemma find_no_element:
  assumes "wf_iter it" "Error it = None" "0 \<le> depth it" "depth it + int d \<le> maxDepth" "c = ch_lbrack \<or> c = ch_comma"
    "list_all is_space ws" "\<forall>x \<in> set es. elem_ok (json d) x" "es \<noteq> []" "target < i \<or> i + int (length es) \<le> target"
    "pending it = ws @ c # elems_text es @ ch_rbrack # rest"
    "\<forall>x \<in> set es. length (fst (snd x)) < n" "length es < m"
  shows "\<exists>it'. findArrayElement_loop n m target i it = Some (False, it')"
  using assms
proof (induction es arbitrary: it c ws m i)
  case (Cons x es)
  obtain m' where m: "m = Suc m'" "length es < m'" using Cons.prems(12) by (cases m) auto
  obtain a u a' where x: "x = (a, u, a')" by (cases x) auto
  from Cons.prems(7) x have ok: "list_all is_space a" "json d u" "list_all is_space a'" by (auto simp: elem_ok_def)
  let ?c = "fst (after_elem es rest)" and ?X = "snd (after_elem es rest)"
  have p: "pending it = ws @ c # a @ u @ a' @ ?c # ?X"
    using Cons.prems(10) elems_text_Cons [of a u a' es rest] by (simp add: x)
  from json_head [OF ok(2)] ReadArray_element [OF Cons.prems(1,2,5,6) ok(1) _ _ _ p] obtain it1 xs w0 where
    1: "ReadArray it = (True, it1)" "consumes it xs it1" "list_all is_space w0" "pending it1 = w0 @ u @ a' @ ?c # ?X" by blast
  note s1 = consumes_same [OF 1(2)]
  have len: "length u < n" using Cons.prems(11) x by simp
  have com: "\<not> number_char ?c" using after_elem_token by blast
  from Skip_member [OF ok(2) len _ _ _ _ 1(3) ok(3) 1(4) com] s1 Cons.prems(2-4) obtain it2 where
    2: "Skip n it1 = Some it2" "consumes it1 (w0 @ u) it2" "pending it2 = a' @ ?c # ?X" by auto
  note s2 = consumes_same [OF 2(2)]
  have "\<exists>it'. findArrayElement_loop n m' target (i + 1) it2 = Some (False, it')"
  proof (cases "es = []")
    case True
    obtain m'' where "m' = Suc m''" using m(2) by (cases m') auto
    moreover obtain it3 where "ReadArray it2 = (False, it3)"
      using ReadArray_end [of it2 a' rest] 2(3) s2 ok(3) True by (auto simp: after_elem_def)
    ultimately show ?thesis by simp
  next
    case False
    with Cons.IH [of it2 ch_comma a' "i + 1" m'] s1 s2 2(3) ok(3) Cons.prems m(2) show ?thesis by (auto simp: after_elem_def)
  qed
  with 1 2(1) m(1) Cons.prems(9) show ?case by auto
qed simp

section \<open>Paths in a text\<close>

text \<open>\<open>at_path d v p r\<close>: the JSON text \<open>v\<close> of at most \<open>d\<close> levels has the text \<open>r\<close> at the path \<open>p\<close> of names and
  positions. Of members with the same name the first counts.\<close>

definition json_fields :: "nat \<Rightarrow> field list \<Rightarrow> bool" where
  "json_fields d fs \<longleftrightarrow> (\<forall>f \<in> set fs. field_ok (json d) f)"

definition json_elems :: "nat \<Rightarrow> (bytes \<times> bytes \<times> bytes) list \<Rightarrow> bool" where
  "json_elems d es \<longleftrightarrow> (\<forall>x \<in> set es. elem_ok (json d) x)"

inductive at_path :: "nat \<Rightarrow> bytes \<Rightarrow> path \<Rightarrow> bytes \<Rightarrow> bool" where
  at_here: "json d v \<Longrightarrow> at_path d v [] v"
| at_field: "json_fields d (pre @ f # post) \<Longrightarrow> name \<notin> field_key ` set pre \<Longrightarrow> field_key f = name \<Longrightarrow>
    at_path d (field_val f) p r \<Longrightarrow>
    at_path (Suc d) (ch_lbrace # fields_text (pre @ f # post) @ [ch_rbrace]) (GString name # p) r"
| at_elem: "json_elems d (pre @ x # post) \<Longrightarrow> sint i = int (length pre) \<Longrightarrow>
    at_path d (fst (snd x)) p r \<Longrightarrow>
    at_path (Suc d) (ch_lbrack # elems_text (pre @ x # post) @ [ch_rbrack]) (GInt i # p) r"

text \<open>\<open>lacks d v key\<close>: the JSON text \<open>v\<close> has no part of that name or at that position, or is no object, no array.\<close>

definition lacks :: "nat \<Rightarrow> bytes \<Rightarrow> govalue \<Rightarrow> bool" where
  "lacks d v key \<longleftrightarrow> json d v \<and>
     (case key of
        GString name \<Rightarrow> hd v \<noteq> ch_lbrace \<or> (\<exists>w. list_all is_space w \<and> v = ch_lbrace # w @ [ch_rbrace])
          \<or> (\<exists>fs. fs \<noteq> [] \<and> json_fields d fs \<and> name \<notin> field_key ` set fs
               \<and> v = ch_lbrace # fields_text fs @ [ch_rbrace])
      | GInt i \<Rightarrow> hd v \<noteq> ch_lbrack \<or> (\<exists>w. list_all is_space w \<and> v = ch_lbrack # w @ [ch_rbrack])
          \<or> (\<exists>es. es \<noteq> [] \<and> json_elems d es \<and> (sint i < 0 \<or> int (length es) \<le> sint i)
               \<and> v = ch_lbrack # elems_text es @ [ch_rbrack])
      | GInt32 c \<Rightarrow> c \<noteq> star
      | _ \<Rightarrow> True)"

lemma json_elems_nonempty: "json_elems d es \<Longrightarrow> \<forall>x \<in> set es. fst (snd x) \<noteq> []"
  by (auto simp: json_elems_def elem_ok_def split_beta dest!: bspec json_head)

lemma length_field_val: "f \<in> set fs \<Longrightarrow> length (field_val f) \<le> length (fields_text fs)"
  using length_fields by (cases f) auto

lemma length_elem: "x \<in> set es \<Longrightarrow> length (fst (snd x)) \<le> length (elems_text es)"
  using length_elems by (cases x) auto

lemma json_more: "json d v \<Longrightarrow> json (Suc d) v"
proof (induction rule: json.induct)
  case (json_array es d)
  then have "\<forall>x \<in> set es. elem_ok (json (Suc d)) x" by (auto simp: elem_ok_def)
  then show ?case using json_array(2) by (rule json.json_array)
next
  case (json_object fs d)
  then have "\<forall>f \<in> set fs. field_ok (json (Suc d)) f" by (auto simp: elem_ok_def)
  then show ?case using json_object(2) by (rule json.json_object)
qed (auto intro: json.intros)

lemma at_path_json: "at_path d v p r \<Longrightarrow> json d v \<and> json d r \<and> length r \<le> length v"
proof (induction rule: at_path.induct)
  case (at_field d pre f post name p r)
  then have "json (Suc d) (ch_lbrace # fields_text (pre @ f # post) @ [ch_rbrace])" by (intro json.json_object) (auto simp: json_fields_def)
  with at_field json_more length_field_val [of f "pre @ f # post"] show ?case by fastforce
next
  case (at_elem d pre x post i p r)
  then have "json (Suc d) (ch_lbrack # elems_text (pre @ x # post) @ [ch_rbrack])" by (intro json.json_array) (auto simp: json_elems_def)
  with at_elem json_more length_elem [of x "pre @ x # post"] show ?case by fastforce
qed auto

text \<open>Walking along the path comes to the text at it.\<close>

lemma locate_prefix:
  assumes "at_path d v p r" "length v \<le> n" "wf_iter it" "Error it = None" "0 \<le> depth it" "depth it + int d \<le> maxDepth"
    "list_all is_space ws" "pending it = ws @ v @ ys" "ys = [] \<or> \<not> number_char (hd ys)"
  shows "\<exists>it' ws' zs xs. locatePath n get it (p @ q) = locatePath n get it' q \<and> consumes it xs it' \<and> list_all is_space ws'
    \<and> pending it' = ws' @ r @ zs \<and> (if p = [] then zs = ys else zs \<noteq> []) \<and> (zs = [] \<or> \<not> number_char (hd zs))"
  using assms
proof (induction arbitrary: it ws ys rule: at_path.induct)
  case (at_here d v)
  then show ?case using consumes_refl [of it] by (metis append_Nil)
next
  case (at_field d pre f post name p r)
  obtain w1 k w2 w3 u w4 where f: "f = (w1, k, w2, w3, u, w4)" by (cases f) auto
  have p: "pending it = ws @ ch_lbrace # fields_text (pre @ (w1, k, w2, w3, u, w4) # post) @ ch_rbrace # ys"
    using at_field.prems(7) f by simp
  have small: "length (field_val g) < n" if "g \<in> set (pre @ f # post)" for g
    using length_field_val [OF that] at_field.prems(1) by simp
  have m: "length pre < n"
    using length_fields_text [of "pre @ f # post"] at_field.prems(1) by simp
  have dd: "depth it + int d \<le> maxDepth" using at_field.prems(5) by simp
  obtain it1 xs where 1: "findObjectField n n name it = Some (True, it1)" "consumes it xs it1"
      "pending it1 = w3 @ u @ w4 @ fst (after_field post ys) # snd (after_field post ys)"
    using find_field [OF at_field.prems(2-4) dd _ at_field.prems(6) _ _ _ p _ m, of name n] at_field.hyps small f by (auto simp: json_fields_def)
  note s1 = consumes_same [OF 1(2)]
  have w: "list_all is_space w3" "list_all is_space w4" using at_field.hyps(1) f by (auto simp: elem_ok_def json_fields_def json_elems_def)
  obtain t ts where t: "w4 @ fst (after_field post ys) # snd (after_field post ys) = t # ts" "\<not> number_char t"
    using split_after [OF w(2)] after_field_token by blast
  have len: "length (field_val f) \<le> n" using small [of f] by simp
  from at_field.IH [OF len, of it1 w3 "t # ts"] s1 at_field.prems(3,4) dd w(1) 1(3) t f obtain it' ws' zs us where
    "locatePath n get it1 (p @ q) = locatePath n get it' q" "consumes it1 us it'" "list_all is_space ws'"
    "pending it' = ws' @ r @ zs" "zs \<noteq> []" "zs = [] \<or> \<not> number_char (hd zs)" by (auto split: if_splits)
  moreover from this(1) 1(1) have "locatePath n get it ((GString name # p) @ q) = locatePath n get it' q" by simp
  ultimately show ?case using consumes_trans [OF 1(2)] by (intro exI conjI) auto
next
  case (at_elem d pre x post i p r)
  obtain w e w' where x: "x = (w, e, w')" by (cases x) auto
  have p: "pending it = ws @ ch_lbrack # elems_text (pre @ (w, e, w') # post) @ ch_rbrack # ys"
    using at_elem.prems(7) x by simp
  have small: "length (fst (snd y)) < n" if "y \<in> set (pre @ x # post)" for y
    using length_elem [OF that] at_elem.prems(1) by simp
  from length_elems_text [OF json_elems_nonempty [OF at_elem.hyps(1)]] at_elem.prems(1) have m: "length pre < n" by simp
  have dd: "depth it + int d \<le> maxDepth" using at_elem.prems(5) by simp
  have ok: "\<forall>y \<in> set (pre @ (w, e, w') # post). elem_ok (json d) y" using at_elem.hyps(1) x by (simp add: json_elems_def)
  have sm: "\<forall>y \<in> set pre. length (fst (snd y)) < n" using small by simp
  have ti: "sint i = 0 + int (length pre)" using at_elem.hyps(2) by simp
  obtain it1 xs w0 where 1: "findArrayElement n n (sint i) it = Some (True, it1)" "consumes it xs it1" "list_all is_space w0"
      "pending it1 = w0 @ e @ w' @ fst (after_elem post ys) # snd (after_elem post ys)"
    using find_element [OF at_elem.prems(2-4) dd disjI1 [OF refl] at_elem.prems(6) ok ti p sm m] unfolding findArrayElement_def by blast
  note s1 = consumes_same [OF 1(2)]
  have w: "list_all is_space w'" using at_elem.hyps(1) x by (auto simp: elem_ok_def json_fields_def json_elems_def)
  obtain t ts where t: "w' @ fst (after_elem post ys) # snd (after_elem post ys) = t # ts" "\<not> number_char t"
    using split_after [OF w] after_elem_token by blast
  have len: "length (fst (snd x)) \<le> n" using small [of x] by simp
  from at_elem.IH [OF len, of it1 w0 "t # ts"] s1 at_elem.prems(3,4) dd 1(3,4) t x obtain it' ws' zs us where
    "locatePath n get it1 (p @ q) = locatePath n get it' q" "consumes it1 us it'" "list_all is_space ws'"
    "pending it' = ws' @ r @ zs" "zs \<noteq> []" "zs = [] \<or> \<not> number_char (hd zs)" by (auto split: if_splits)
  moreover from this(1) 1(1) have "locatePath n get it ((GInt i # p) @ q) = locatePath n get it' q" by simp
  ultimately show ?case using consumes_trans [OF 1(2)] by (intro exI conjI) auto
qed

end
