(* ===== verification/AnyGet.thy ===== *)
theory AnyGet
  imports AnyPath
begin

text \<open>
  What \<open>Get\<close>, \<open>Keys\<close>, \<open>Size\<close> and \<open>ReadAny\<close> give on JSON texts, and where they part from it.

  The iterators come from the pool of the configuration: \<open>pool_ok\<close> is what \<open>ReturnIterator\<close> leaves them with.
\<close>

section \<open>Borrowed iterators\<close>

definition pool_ok :: "runtime \<Rightarrow> frozenConfig \<Rightarrow> bool" where
  "pool_ok rt c \<longleftrightarrow> captured (pool rt c) = None \<and> Error (pool rt c) = None \<and> cfg (pool rt c) = c"

lemma borrowed_start:
  assumes "pool_ok rt c"
  shows "wf_iter (borrowed rt c b)" "Error (borrowed rt c b) = None" "depth (borrowed rt c b) = 0"
    "captured (borrowed rt c b) = None" "pending (borrowed rt c b) = [] @ b" "cfg (borrowed rt c b) = c"
  using ResetBytes_start [of "pool rt c" b] assms
  by (simp_all add: borrowed_def BorrowIterator_def pool_ok_def ResetBytes_def)

section \<open>The end of a path\<close>

lemma locate_here:
  assumes "json d r" "length r \<le> n" "wf_iter it" "Error it = None" "0 \<le> depth it" "depth it + int d \<le> maxDepth"
    "captured it = None" "list_all is_space ws" "pending it = ws @ r @ ys" "ys \<noteq> []" "\<not> number_char (hd ys)"
  shows "\<exists>it'. locatePath n get it [] = Some (any_of (cfg it) r, it')"
proof -
  obtain t rest where ys: "ys = t # rest" "\<not> number_char t" using assms(10,11) by (cases ys) auto
  from readAny_json [OF assms(1-8), of t rest] assms(9) ys assms(4) show ?thesis by auto
qed

lemma head_in:
  assumes "json d s" "wf_iter it" "list_all is_space ws" "pending it = ws @ s @ ys"
  shows "\<exists>it1. nextToken it = (hd s, it1) \<and> hd s \<notin> {ch_comma, ch_rbrack, ch_rbrace}"
proof -
  obtain h r where s: "s = h # r" "\<not> is_space h" using json_head [OF assms(1)] by (cases s) auto
  have "h \<notin> {ch_comma, ch_rbrack, ch_rbrace}"
    using assms(1) s(1) by (cases rule: json.cases) (auto dest!: number_token_head simp: is_digit_def)
  with nextToken_at [OF assms(2,3), of h "r @ ys"] assms(4) s show ?thesis by auto
qed

lemma locate_missing:
  assumes "lacks d s key" "length s \<le> n" "wf_iter it" "Error it = None" "0 \<le> depth it" "depth it + int d \<le> maxDepth"
    "list_all is_space ws" "pending it = ws @ s @ ys"
  shows "\<exists>it'. locatePath n get it (key # q) = Some (newInvalidAny (key # q), it')"
proof -
  have j: "json d s" using assms(1) by (simp add: lacks_def)
  then obtain m where n: "n = Suc m" using json_head [OF j] assms(2) by (cases n) auto
  from head_in [OF j assms(3,7,8)] obtain it1 where
    h: "nextToken it = (hd s, it1)" "hd s \<notin> {ch_comma, ch_rbrack, ch_rbrace}" by blast
  show ?thesis
  proof (cases key)
    case (GString name)
    have "\<exists>it'. findObjectField n n name it = Some (False, it')"
    proof (cases "hd s = ch_lbrace")
      case False
      then have "fst (ReadObjectRaw it) = nil_RawString" using h by (auto simp: ReadObjectRaw_def)
      then show ?thesis using n by (cases "ReadObjectRaw it") (simp add: IsNil_def nil_RawString_def)
    next
      case True
      from assms(1) True GString consider w where "list_all is_space w" "s = ch_lbrace # w @ [ch_rbrace]"
        | fs where "fs \<noteq> []" "json_fields d fs" "name \<notin> field_key ` set fs" "s = ch_lbrace # fields_text fs @ [ch_rbrace]"
        unfolding lacks_def by auto
      then show ?thesis
      proof cases
        case 1
        from token [OF assms(3,7), of ch_lbrace "w @ ch_rbrace # ys"] assms(8) 1 obtain it2 where
          2: "nextToken it = (ch_lbrace, it2)" "consumes it (ws @ [ch_lbrace]) it2" "pending it2 = w @ ch_rbrace # ys"
          by (auto simp: is_space_def)
        obtain it3 where "nextToken it2 = (ch_rbrace, it3)"
          using nextToken_at [OF consumes_wf [OF 2(2)] 1(1) 2(3)] by (auto simp: is_space_def)
        with 2(1) have "fst (ReadObjectRaw it) = nil_RawString" by (simp add: ReadObjectRaw_def)
        then show ?thesis using n by (cases "ReadObjectRaw it") (simp add: IsNil_def nil_RawString_def)
      next
        case 2
        have "length fs < n" using length_fields_text [of fs] 2(4) assms(2) by simp
        moreover have "\<forall>f \<in> set fs. length (field_val f) < n" using length_field_val 2(4) assms(2) by fastforce
        ultimately show ?thesis
          using find_no_field [OF assms(3-6) disjI1 [OF refl] assms(7) _ 2(1,3)] 2(2,4) assms(8)
          by (simp add: json_fields_def)
      qed
    qed
    then show ?thesis using GString by auto
  next
    case (GInt i)
    have "\<exists>it'. findArrayElement_loop n n (sint i) 0 it = Some (False, it')"
    proof (cases "hd s = ch_lbrack")
      case False
      then have "\<not> fst (ReadArray it)" using h by (auto simp: ReadArray_def)
      then show ?thesis using n by (cases "ReadArray it") simp
    next
      case True
      from assms(1) True GInt consider w where "list_all is_space w" "s = ch_lbrack # w @ [ch_rbrack]"
        | es where "es \<noteq> []" "json_elems d es" "sint i < 0 \<or> int (length es) \<le> sint i" "s = ch_lbrack # elems_text es @ [ch_rbrack]"
        unfolding lacks_def by auto
      then show ?thesis
      proof cases
        case 1
        from token [OF assms(3,7), of ch_lbrack "w @ ch_rbrack # ys"] assms(8) 1 obtain it2 where
          2: "nextToken it = (ch_lbrack, it2)" "consumes it (ws @ [ch_lbrack]) it2" "pending it2 = w @ ch_rbrack # ys"
          by (auto simp: is_space_def)
        obtain it3 where "nextToken it2 = (ch_rbrack, it3)"
          using nextToken_at [OF consumes_wf [OF 2(2)] 1(1) 2(3)] by (auto simp: is_space_def)
        with 2(1) have "\<not> fst (ReadArray it)" by (simp add: ReadArray_def)
        then show ?thesis using n by (cases "ReadArray it") simp
      next
        case 2
        have "length es < n" using length_elems_text [OF json_elems_nonempty [OF 2(2)]] 2(4) assms(2) by simp
        moreover have "\<forall>x \<in> set es. length (fst (snd x)) < n" using length_elem 2(4) assms(2) by fastforce
        ultimately show ?thesis
          using find_no_element [OF assms(3-6) disjI1 [OF refl] assms(7) _ 2(1), of "sint i" 0] 2 assms(8)
          by (simp add: json_elems_def)
      qed
    qed
    then show ?thesis using GInt by (auto simp: findArrayElement_def)
  next
    case (GInt32 c)
    with assms(1) have "c \<noteq> star" by (simp add: lacks_def)
    with GInt32 show ?thesis by simp
  qed simp_all
qed

lemma get_found:
  assumes "at_path d v p s" "at_path d s q r" "length v \<le> n" "int d \<le> maxDepth" "pool_ok rt c"
    "list_all is_space ws" "if ys = [] then p @ q \<noteq> [] else \<not> number_char (hd ys)"
  shows "frozenConfig_Get rt n c (ws @ v @ ys) (p @ q) = Some (any_of c r)"
proof -
  note b = borrowed_start [OF assms(5), of "ws @ v @ ys"]
  have pn: "pending (borrowed rt c (ws @ v @ ys)) = ws @ v @ ys" using b(5) by simp
  have dp: "0 \<le> depth (borrowed rt c (ws @ v @ ys))" "depth (borrowed rt c (ws @ v @ ys)) + int d \<le> maxDepth"
    using b(3) assms(4) by simp_all
  have yz: "ys = [] \<or> \<not> number_char (hd ys)" using assms(7) by (simp split: if_splits)
  from locate_prefix [OF assms(1,3) b(1,2) dp assms(6) pn yz, of "Get rt n" q] obtain it1 ws1 zs xs where
    1: "locatePath n (Get rt n) (borrowed rt c (ws @ v @ ys)) (p @ q) = locatePath n (Get rt n) it1 q"
    "consumes (borrowed rt c (ws @ v @ ys)) xs it1" "list_all is_space ws1" "pending it1 = ws1 @ s @ zs"
    "if p = [] then zs = ys else zs \<noteq> []" "zs = [] \<or> \<not> number_char (hd zs)" by blast
  note s1 = consumes_same [OF 1(2)]
  have it1: "wf_iter it1" "Error it1 = None" "0 \<le> depth it1" "depth it1 + int d \<le> maxDepth" "captured it1 = None" "cfg it1 = c"
    using s1 b dp by auto
  have ls: "length s \<le> n" using at_path_json [OF assms(1)] assms(3) by auto
  from locate_prefix [OF assms(2) ls it1(1-4) 1(3,4,6), of "Get rt n" "[]"] obtain it2 ws2 zs2 us where
    2: "locatePath n (Get rt n) it1 q = locatePath n (Get rt n) it2 []" "consumes it1 us it2"
    "list_all is_space ws2" "pending it2 = ws2 @ r @ zs2" "if q = [] then zs2 = zs else zs2 \<noteq> []"
    "zs2 = [] \<or> \<not> number_char (hd zs2)" by auto
  note s2 = consumes_same [OF 2(2)]
  have z: "zs2 \<noteq> []" "\<not> number_char (hd zs2)" using 1(5,6) 2(5,6) assms(7) by (auto split: if_splits)
  have r: "json d r" "length r \<le> n" using at_path_json [OF assms(2)] ls by auto
  from locate_here [OF r _ _ _ _ _ 2(3,4) z, of "Get rt n"] s2 it1 obtain it3 where
    "locatePath n (Get rt n) it2 [] = Some (any_of c r, it3)" by auto
  with 1(1) 2(1) show ?thesis by (simp add: frozenConfig_Get_def)
qed

section \<open>Properties of \<open>Get\<close>\<close>

text \<open>C10: \<open>Get\<close> with a path of names and positions gives the lazy value of the text at that path, of any JSON
  text, whatever surrounds it and whatever iterator the pool hands out.\<close>

theorem Get_finds:
  assumes "at_path d v p r" "length v \<le> n" "int d \<le> maxDepth" "pool_ok rt c"
    and "list_all is_space ws" "if ys = [] then p \<noteq> [] else \<not> number_char (hd ys)"
  shows "frozenConfig_Get rt n c (ws @ v @ ys) p = Some (any_of c r)"
  using get_found [OF at_path.at_here assms(1-5), of ys] at_path_json [OF assms(1)] assms(6) by simp

text \<open>C19: where the text at the path \<open>p\<close> has no part under the next key, or is no object or array that could have
  one, \<open>Get\<close> gives an invalid value that names the rest of the path.\<close>

theorem Get_reports_missing:
  assumes "at_path d v p s" "lacks d s key" "length v \<le> n" "int d \<le> maxDepth" "pool_ok rt c"
    and "list_all is_space ws" "ys = [] \<or> \<not> number_char (hd ys)"
  shows "frozenConfig_Get rt n c (ws @ v @ ys) (p @ key # q) = Some (invalidAny (Some (NotFound (key # q))))"
proof -
  note b = borrowed_start [OF assms(5), of "ws @ v @ ys"]
  have pn: "pending (borrowed rt c (ws @ v @ ys)) = ws @ v @ ys" using b(5) by simp
  have dp: "0 \<le> depth (borrowed rt c (ws @ v @ ys))" "depth (borrowed rt c (ws @ v @ ys)) + int d \<le> maxDepth"
    using b(3) assms(4) by simp_all
  from locate_prefix [OF assms(1,3) b(1,2) dp assms(6) pn assms(7), of "Get rt n" "key # q"] obtain it' ws' zs xs where
    1: "locatePath n (Get rt n) (borrowed rt c (ws @ v @ ys)) (p @ key # q) = locatePath n (Get rt n) it' (key # q)"
    "consumes (borrowed rt c (ws @ v @ ys)) xs it'" "list_all is_space ws'" "pending it' = ws' @ s @ zs" by blast
  note s = consumes_same [OF 1(2)]
  have r: "length s \<le> n" using at_path_json [OF assms(1)] assms(3) by auto
  from locate_missing [OF assms(2) r _ _ _ _ 1(3,4), of "Get rt n" q] s b dp obtain it2 where
    "locatePath n (Get rt n) it' (key # q) = Some (newInvalidAny (key # q), it2)" by auto
  with 1(1) show ?thesis by (simp add: frozenConfig_Get_def newInvalidAny_def)
qed

text \<open>C20: a path may be walked in two calls: \<open>Get\<close> on the value that \<open>Get\<close> found gives what one call with
  both paths gives.\<close>

theorem Get_composes:
  assumes "at_path d v p s" "at_path d s (key # q) r" "length v \<le> n" "int d \<le> maxDepth" "pool_ok rt c"
    and "list_all is_space ws" "if ys = [] then p \<noteq> [] else \<not> number_char (hd ys)"
  shows "Option.bind (frozenConfig_Get rt n c (ws @ v @ ys) p) (\<lambda>a. Get rt (Suc n) a (key # q))
    = frozenConfig_Get rt n c (ws @ v @ ys) (p @ key # q)"
proof -
  have ls: "json d s" "length s \<le> n" using at_path_json [OF assms(1)] assms(3) by auto
  from get_found [OF at_path.at_here [OF ls(1)] assms(2) ls(2) assms(4,5), of "[]" "[]"] have
    f: "frozenConfig_Get rt n c s (key # q) = Some (any_of c r)" by simp
  have g: "Get rt (Suc n) (any_of c s) (key # q) = Some (any_of c r)"
    using assms(2)
  proof (cases rule: at_path.cases)
    case (at_field d' pre g post name)
    then have "any_of c s = objectLazyAny c s None" by simp
    with f at_field show ?thesis by (simp add: objectLazyAny_Get_def frozenConfig_Get_def)
  next
    case (at_elem d' pre x post i)
    then have "any_of c s = arrayLazyAny c s None" by simp
    with f at_elem show ?thesis by (simp add: arrayLazyAny_Get_def frozenConfig_Get_def)
  qed
  have "frozenConfig_Get rt n c (ws @ v @ ys) (p @ key # q) = Some (any_of c r)"
    using get_found [OF assms(1-6), of ys] assms(7) by (simp split: if_splits)
  moreover have "frozenConfig_Get rt n c (ws @ v @ ys) p = Some (any_of c s)"
    using get_found [OF at_path.at_here assms(1,3-6), of ys] at_path_json [OF assms(1)] assms(7) by simp
  ultimately show ?thesis using g by simp
qed

section \<open>The star on arrays\<close>

abbreviation star_step :: "(any \<Rightarrow> path \<Rightarrow> any option) \<Rightarrow> frozenConfig \<Rightarrow> path \<Rightarrow> bytes \<Rightarrow> any list \<Rightarrow> any list" where
  "star_step get c p e arr \<equiv> (let found = the (get (any_of c e) p) in if is_valid found then arr @ [found] else arr)"

interpretation star_elements: element_reader
    "\<lambda>it arr. Option.bind (readAny n it) (\<lambda>(a, it1).
       map_option (\<lambda>found. (True, if is_valid found then arr @ [found] else arr, it1)) (get a p))"
    "\<lambda>it. captured it = None \<and> cfg it = c" "\<lambda>e. json d e \<and> length e \<le> n \<and> get (any_of c e) p \<noteq> None"
    "star_step get c p" "int d" for n get p c d
proof (unfold_locales, goal_cases)
  case (1 it ws e t rest s)
  then show ?case using readAny_json [of d e n it ws t rest] by (fastforce simp: Let_def)
next
  case (2 e)
  then show ?case using json_head by blast
next
  case (4 it xs it')
  show ?case using consumes_same [OF 4(2)] 4(1) by metis
qed simp

abbreviation found :: "(any \<Rightarrow> path \<Rightarrow> any option) \<Rightarrow> frozenConfig \<Rightarrow> path \<Rightarrow> bytes \<times> bytes \<times> bytes \<Rightarrow> any" where
  "found get c p x \<equiv> the (get (any_of c (fst (snd x))) p)"

lemma keep_valid_found:
  "\<forall>x \<in> set es. get (any_of c (fst (snd x))) p \<noteq> None \<Longrightarrow>
    keep_valid (map (\<lambda>x. get (any_of c (fst (snd x))) p) es) = Some (filter is_valid (map (found get c p) es))"
  by (induction es) auto

lemma steps_star: "steps (star_step get c p) es s = s @ filter is_valid (map (found get c p) es)"
  by (induction es arbitrary: s) (auto simp: Let_def)

lemma star_array:
  assumes "json_elems d es" "es \<noteq> []" "length (elems_text es) < n" "int (Suc d) \<le> maxDepth" "pool_ok rt c"
    and "\<forall>x \<in> set es. Get rt n (any_of c (fst (snd x))) p \<noteq> None"
  shows "Get rt (Suc n) (arrayLazyAny c (ch_lbrack # elems_text es @ [ch_rbrack]) err) (GInt32 star # p)
    = map_option (\<lambda>as. arrayAny (any_slice as)) (keep_valid (map (\<lambda>x. Get rt n (any_of c (fst (snd x))) p) es))"
proof -
  let ?it = "borrowed rt c (ch_lbrack # elems_text es @ [ch_rbrack])"
  note b = borrowed_start [OF assms(5), of "ch_lbrack # elems_text es @ [ch_rbrack]"]
  have ok: "list_all (elem_ok (\<lambda>e. json d e \<and> length e \<le> n \<and> Get rt n (any_of c e) p \<noteq> None)) es"
    using assms(1,3,6) length_elem by (fastforce simp: list_all_iff json_elems_def elem_ok_def split_beta)
  have len: "length es \<le> n" using length_elems_text [OF json_elems_nonempty [OF assms(1)]] assms(3) by simp
  have dp: "0 \<le> depth ?it" "depth ?it + 1 + int d \<le> maxDepth" "(0::int) \<le> int d" using b(3) assms(4) by simp_all
  have p: "pending ?it = [] @ ch_lbrack # elems_text es @ ch_rbrack # []" using b(5) by simp
  from star_elements.array_consumed [where get = "Get rt n" and p = p and c = c and n = n and d = d and s = "[]", OF conjI [OF b(4,6)] b(1,2) dp _ ok assms(2) p len] obtain it' where
    1: "ReadArrayCB n (\<lambda>it arr. Option.bind (readAny n it) (\<lambda>(a, it1).
       map_option (\<lambda>found. (True, if is_valid found then arr @ [found] else arr, it1)) (Get rt n a p))) ?it []
      = Some (True, steps (star_step (Get rt n) c p) es [], it')" by auto
  with keep_valid_found [of es "Get rt n" c p] assms(6) steps_star [of "Get rt n" c p es "[]"] show ?thesis
    by (simp add: arrayLazyAny_Get_def wrapArray_def)
qed

text \<open>C21: \<open>Get\<close> with the star on the text of an array is the array of what \<open>Get\<close> with the rest of the path gives
  for each element, in order, without the invalid results.\<close>

theorem Get_star_array:
  assumes "json_elems d es" "es \<noteq> []" "length (elems_text es) < n" "int (Suc d) \<le> maxDepth" "pool_ok rt c"
    and "\<forall>x \<in> set es. Get rt n (any_of c (fst (snd x))) p \<noteq> None"
  shows "Get rt (Suc n) (arrayLazyAny c (ch_lbrack # elems_text es @ [ch_rbrack]) err) (GInt32 star # p)
    = map_option (\<lambda>as. arrayAny (any_slice as)) (keep_valid (map (\<lambda>x. Get rt n (any_of c (fst (snd x))) p) es))"
  by (rule star_array [OF assms])

text \<open>The star as the last key drops what is no string, array or object: the elements of a numeric array are all
  lost, since \<open>Get\<close> with no key is an invalid value for a number, a boolean and null.\<close>

lemma star_drops_scalars:
  assumes "json_elems 0 es" "es \<noteq> []" "length (elems_text es) < n" "pool_ok rt c"
    and "\<forall>x \<in> set es. hd (fst (snd x)) \<notin> {ch_quote, ch_lbrack, ch_lbrace}"
  shows "Get rt (Suc n) (arrayLazyAny c (ch_lbrack # elems_text es @ [ch_rbrack]) err) [GInt32 star]
    = Some (arrayAny (any_slice []))"
proof -
  from assms(3) obtain m where n: "n = Suc m" by (cases n) auto
  have g: "\<exists>e. Get rt n (any_of c (fst (snd x))) [] = Some (invalidAny e)" if x: "x \<in> set es" for x
  proof -
    from assms(1) x have "json 0 (fst (snd x))" by (cases x) (auto simp: json_elems_def elem_ok_def)
    then show ?thesis using assms(5) x n
      by (cases rule: json.cases) (auto simp: baseAny_Get_def dest!: number_token_head)
  qed
  then have "\<forall>x \<in> set es. Get rt n (any_of c (fst (snd x))) [] \<noteq> None" by fastforce
  moreover from g have "keep_valid (map (\<lambda>x. Get rt n (any_of c (fst (snd x))) []) es) = Some []"
    by (induction es) (fastforce simp: is_valid_def)+
  ultimately show ?thesis using star_array [OF assms(1-3) _ assms(4), of "[]" err] by (simp add: maxDepth_def)
qed

text \<open>The star on an object stops inside the first member whose rest of the path leads to a proper part: the
  iterator stands within the value then, and the members that follow are lost. The same path on the array of the same
  members finds both.\<close>

definition sample_star :: bytes where
  "sample_star = map of_char (map (\<lambda>c. if c = CHR 0x27 then CHR 0x22 else c)
     ''{'x':{'a':1},'y':{'a':3}}'')"

definition sample_list :: bytes where
  "sample_list = map of_char (map (\<lambda>c. if c = CHR 0x27 then CHR 0x22 else c)
     ''[{'a':1},{'a':3}]'')"

lemma star_object_stops:
  "frozenConfig_Get sample_runtime 24 ConfigDefault sample_star [GInt32 star, GString [0x61]]
      = Some (mapAny None (any_map [([0x78], numberLazyAny ConfigDefault [0x31] None)]))
    \<and> frozenConfig_Get sample_runtime 24 ConfigDefault sample_list [GInt32 star, GString [0x61]]
      = Some (arrayAny (any_slice [numberLazyAny ConfigDefault [0x31] None, numberLazyAny ConfigDefault [0x33] None]))"
  by (intro conjI; code_simp)

section \<open>Names and sizes\<close>

interpretation key_members: field_reader
    "\<lambda>it rs keys. case RawString_String (buf it) rs of None \<Rightarrow> None | Some field \<Rightarrow>
       map_option (\<lambda>it1. (True, keys @ [field], it1)) (Skip n it)"
    "\<lambda>it. True" "\<lambda>e. json d e \<and> length e < n" "\<lambda>field e keys. keys @ [field]" "int d" for n d
proof (unfold_locales, goal_cases)
  case (1 rs name it ws e t rest s)
  then show ?case using json_skips [of d e] unfolding skips_def by fastforce
next
  case (2 e)
  then show ?case using json_head by blast
qed auto

interpretation size_elements: element_reader
    "\<lambda>it sz. map_option (\<lambda>it1. (True, Suc sz, it1)) (Skip n it)"
    "\<lambda>it. True" "\<lambda>e. json d e \<and> length e < n" "\<lambda>e. Suc" "int d" for n d
proof (unfold_locales, goal_cases)
  case (1 it ws e t rest s)
  then show ?case using json_skips [of d e] unfolding skips_def by fastforce
next
  case (2 e)
  then show ?case using json_head by blast
qed auto

lemma fsteps_keys: "fsteps (\<lambda>field e keys. keys @ [field]) fs s = s @ map field_key fs"
  by (induction fs arbitrary: s) auto

lemma steps_size: "steps (\<lambda>e. Suc) es s = s + length es"
  by (induction es arbitrary: s) auto

text \<open>C22: \<open>Keys\<close> lists the names of all members of an object in order, repeated ones too, and \<open>Size\<close> counts the
  members; \<open>Size\<close> of an array counts its elements, and the array is true when there is one.\<close>

theorem Keys_and_Size:
  assumes "json_fields d fs" "fs \<noteq> []" "length (fields_text fs) < n"
    and "json_elems d es" "es \<noteq> []" "length (elems_text es) < n" and "int (Suc d) \<le> maxDepth" "pool_ok rt c"
  shows "objectLazyAny_Keys rt n c (ch_lbrace # fields_text fs @ [ch_rbrace]) = Some (map field_key fs)
    \<and> objectLazyAny_Size rt n c (ch_lbrace # fields_text fs @ [ch_rbrace]) = Some (length fs)
    \<and> arrayLazyAny_Size rt n c (ch_lbrack # elems_text es @ [ch_rbrack]) = Some (length es)
    \<and> arrayLazyAny_ToBool rt c (ch_lbrack # elems_text es @ [ch_rbrack])"
proof -
  let ?o = "borrowed rt c (ch_lbrace # fields_text fs @ [ch_rbrace])" and ?a = "borrowed rt c (ch_lbrack # elems_text es @ [ch_rbrack])"
  note bo = borrowed_start [OF assms(8), of "ch_lbrace # fields_text fs @ [ch_rbrace]"]
  note ba = borrowed_start [OF assms(8), of "ch_lbrack # elems_text es @ [ch_rbrack]"]
  have po: "pending ?o = [] @ ch_lbrace # fields_text fs @ ch_rbrace # []" using bo(5) by simp
  have pa: "pending ?a = [] @ ch_lbrack # elems_text es @ ch_rbrack # []" using ba(5) by simp
  have dpo: "0 \<le> depth ?o" "depth ?o + 1 + int d \<le> maxDepth" "(0::int) \<le> int d" using bo(3) assms(7) by simp_all
  have dpa: "0 \<le> depth ?a" "depth ?a + 1 + int d \<le> maxDepth" using ba(3) assms(7) by simp_all
  have lf: "\<forall>f \<in> set fs. length (field_val f) < n" using length_field_val assms(3) by fastforce
  have le: "\<forall>x \<in> set es. length (fst (snd x)) < n" using length_elem assms(6) by fastforce
  have okf: "list_all (field_ok (\<lambda>e. json d e \<and> length e < n)) fs"
    using assms(1) lf by (fastforce simp: list_all_iff json_fields_def elem_ok_def)
  have oke: "list_all (elem_ok (\<lambda>e. json d e \<and> length e < n)) es"
    using assms(4) le by (fastforce simp: list_all_iff json_elems_def elem_ok_def)
  have nf: "length fs \<le> n" "length fs < n" using length_fields_text [of fs] assms(3) by simp_all
  have ne: "length es \<le> n" using length_elems_text [OF json_elems_nonempty [OF assms(4)]] assms(6) by simp
  obtain it1 where 1: "ReadObjectRawCB n (\<lambda>it rs keys. case RawString_String (buf it) rs of None \<Rightarrow> None | Some field \<Rightarrow>
       map_option (\<lambda>it1. (True, keys @ [field], it1)) (Skip n it)) ?o [] = Some (True, map field_key fs, it1)"
    using key_members.object_consumed [OF TrueI bo(1,2) dpo _ okf assms(2) po nf(1), of "[]"] fsteps_keys [of fs "[]"] by auto
  obtain it2 where 2: "ReadArrayCB n (\<lambda>it sz. map_option (\<lambda>it1. (True, Suc sz, it1)) (Skip n it)) ?a 0 = Some (True, length es, it2)"
    using size_elements.array_consumed [OF TrueI ba(1,2) dpa dpo(3) _ oke assms(5) pa ne, of 0] steps_size [of es 0] by auto
  have 3: "objectLazyAny_Size_loop n n 0 ?o = Some (0 + length fs)"
    using count_fields [OF bo(1,2) dpo(1) _ disjI1 [OF refl] _ _ assms(2) po lf nf(2), of d 0] assms(1) dpo(2) by (simp add: json_fields_def)
  obtain w e w' post where es: "es = (w, e, w') # post" using assms(5) by (cases es) auto
  then have e: "list_all is_space w" "json d e" using assms(4) by (auto simp: json_elems_def elem_ok_def)
  have pa': "pending ?a = [] @ ch_lbrack # w @ e @ (w' @ fst (after_elem post []) # snd (after_elem post []))"
    using pa elems_text_Cons [of w e w' post "[]"] es by simp
  have "fst (ReadArray ?a)"
    using ReadArray_element [OF ba(1,2) disjI1 [OF refl] _ e(1) _ _ _ pa'] json_head [OF e(2)] by auto
  with 1 2 3 show ?thesis
    by (simp add: objectLazyAny_Keys_def ReadObjectCB_def objectLazyAny_Size_def arrayLazyAny_Size_def arrayLazyAny_ToBool_def)
qed

section \<open>Reading and writing lazy values\<close>

text \<open>What writing the lazy value of a text appends: the text itself, but for strings, which were decoded.\<close>

definition any_text :: "bytes \<Rightarrow> bytes" where
  "any_text v = (if hd v = ch_quote then string_text (name_of (tl v)) else v)"

lemma any_of_text:
  assumes "json d v" "s_out s = None"
  shows "m_WriteTo (methods_of rt n (any_of c v)) s = adds (any_text v) s"
  using assms(1)
proof (cases rule: json.cases)
  case json_number
  from number_token_head [OF this] obtain h r where "v = h # r" "h = ch_minus \<or> is_digit h" by blast
  moreover from this(2) have "h \<noteq> ch_quote" "h \<noteq> ch_n" "h \<noteq> ch_t" "h \<noteq> ch_f" "h \<noteq> ch_lbrace" "h \<noteq> ch_lbrack"
    by (auto simp: is_digit_def)
  ultimately show ?thesis using assms(2)
    by (simp add: methods_of_def numberLazyAny_methods_def any_text_def Stream_Write_def adds_def Let_def)
qed (use assms(2) in \<open>simp_all add: methods_of_def any_text_def nilAny_methods_def trueAny_methods_def falseAny_methods_def stringAny_methods_def
    arrayLazyAny_methods_def objectLazyAny_methods_def Stream_Write_def adds_def Let_def write_literals WriteString_adds WriteTrue_def WriteFalse_def write_adds string_text_def\<close>)

text \<open>C23: a variable of type \<open>Any\<close> is decoded from a JSON text to the lazy value of exactly that text, from which nothing
  else is consumed, and encoding it gives the text back, a string as the literal of its contents.\<close>

theorem Any_round_trip:
  assumes "json d v" "length v \<le> n" "wf_iter it" "Error it = None" "0 \<le> depth it" "depth it + int d \<le> maxDepth"
    and "captured it = None" "list_all is_space ws" "pending it = ws @ v @ t # rest" "\<not> number_char t" "s_out s = None"
  shows "\<exists>it'. directAnyCodec_Decode n old it = Some (Some (any_of (cfg it) v), it') \<and> consumes it (ws @ v) it'
    \<and> pending it' = t # rest \<and> directAnyCodec_Encode rt k (Some (any_of (cfg it) v)) s = adds (any_text v) s"
  using readAny_json [OF assms(1-10)] any_of_text [OF assms(1,11)]
  by (auto simp: directAnyCodec_Decode_def directAnyCodec_Encode_def)

text \<open>The value \<open>ReadAny\<close> returns has the type \<open>WhatIsNext\<close> announces, for every JSON text.\<close>

lemma ReadAny_type:
  assumes "json d v" "length v \<le> n" "wf_iter it" "Error it = None" "0 \<le> depth it" "depth it + int d \<le> maxDepth"
    and "captured it = None" "list_all is_space ws" "pending it = ws @ v @ t # rest" "\<not> number_char t"
  shows "\<exists>a it'. ReadAny n it = Some (a, it') \<and> m_ValueType (methods_of rt k a) = fst (WhatIsNext it)
    \<and> m_ValueType (methods_of rt k a) \<noteq> InvalidValue \<and> m_MustBeValid (methods_of rt k a) = Some a"
proof -
  obtain h r where v: "v = h # r" "\<not> is_space h" using json_head [OF assms(1)] by (cases v) auto
  obtain it1 where w: "WhatIsNext it = (valueTypes h, it1)"
    using WhatIsNext_at [OF assms(3,4,8), of h "r @ t # rest"] assms(9) v by auto
  have "m_ValueType (methods_of rt k (any_of c v)) = valueTypes h \<and> valueTypes h \<noteq> InvalidValue
      \<and> m_MustBeValid (methods_of rt k (any_of c v)) = Some (any_of c v)" for c
    using assms(1)
  proof (cases rule: json.cases)
    case json_number
    from number_token_head [OF this] v have "h = ch_minus \<or> is_digit h" by auto
    moreover from this have "h \<noteq> ch_quote" "h \<noteq> ch_n" "h \<noteq> ch_t" "h \<noteq> ch_f" "h \<noteq> ch_lbrace" "h \<noteq> ch_lbrack"
      by (auto simp: is_digit_def)
    ultimately show ?thesis using v by (auto simp: methods_of_def numberLazyAny_methods_def Let_def valueTypes_def)
  qed (use v in \<open>auto simp: methods_of_def nilAny_methods_def trueAny_methods_def falseAny_methods_def stringAny_methods_def
      arrayLazyAny_methods_def objectLazyAny_methods_def Let_def valueTypes_def is_digit_def\<close>)
  with readAny_json [OF assms] w show ?thesis by (auto simp: ReadAny_def)
qed

section \<open>Witnesses\<close>

lemma sample_pool: "pool_ok sample_runtime c"
  by (simp add: pool_ok_def sample_runtime_def NewIterator_def)

definition sample_elems :: "(bytes \<times> bytes \<times> bytes) list" where
  "sample_elems = [([], [ch_n, ch_u, ch_l, ch_l], []), ([ch_space], [ch_t, ch_r, ch_u, ch_e], [])]"

definition sample_arr :: bytes where
  "sample_arr = ch_lbrack # elems_text sample_elems @ [ch_rbrack]"

definition sample_members :: "field list" where
  "sample_members = [([], [0x61, ch_quote], [], [ch_space], sample_arr, [])]"

definition sample_doc :: bytes where
  "sample_doc = ch_lbrace # fields_text sample_members @ [ch_rbrace]"

definition sample_rows :: "(bytes \<times> bytes \<times> bytes) list" where
  "sample_rows = [([], [ch_n, ch_u, ch_l, ch_l], []), ([], sample_arr, [])]"

lemma sample_texts:
  "json_elems d sample_elems" "json (Suc k) sample_arr" "json_fields 1 sample_members" "json_elems 1 sample_rows" "json 2 sample_doc"
proof -
  show e: "json_elems d sample_elems" for d
    by (auto simp: json_elems_def sample_elems_def elem_ok_def is_space_def json.intros)
  show a: "json (Suc k) sample_arr" for k unfolding sample_arr_def
    by (rule json_array) (use e in \<open>simp_all add: json_elems_def\<close>, simp add: sample_elems_def)
  have "decode_str [0x61, ch_quote] = Some ([0x61], [])" by code_simp
  then show f: "json_fields 1 sample_members" using a [of 0]
    by (auto simp: json_fields_def sample_members_def elem_ok_def is_space_def)
  show "json_elems 1 sample_rows" using a [of 0]
    by (auto simp: json_elems_def sample_rows_def elem_ok_def is_space_def json.intros)
  have "json (Suc 1) sample_doc" unfolding sample_doc_def
    by (rule json_object) (use f in \<open>simp_all add: json_fields_def\<close>, simp add: sample_members_def)
  then show "json 2 sample_doc" by (simp add: numeral_2_eq_2)
qed

lemma sample_at:
  "at_path (Suc k) sample_arr [GInt 1] [ch_t, ch_r, ch_u, ch_e]" "at_path 2 sample_doc [GString [0x61]] sample_arr"
  "at_path 2 sample_doc [GString [0x61], GInt 1] [ch_t, ch_r, ch_u, ch_e]"
proof -
  have k: "name_of [0x61, ch_quote] = [0x61]" by code_simp
  have f: "at_path 1 sample_arr p r \<Longrightarrow> at_path 2 sample_doc (GString [0x61] # p) r" for p r
    using at_field [of 1 "[]" "hd sample_members" "[]" "[0x61]" p r] sample_texts(3) k
    by (simp add: sample_doc_def sample_members_def numeral_2_eq_2)
  show a: "at_path (Suc k) sample_arr [GInt 1] [ch_t, ch_r, ch_u, ch_e]" for k
    using at_elem [of k "[hd sample_elems]" "hd (tl sample_elems)" "[]" 1 "[]" "[ch_t, ch_r, ch_u, ch_e]"] sample_texts(1) [of k]
    by (simp add: sample_arr_def sample_elems_def at_here json.intros)
  show "at_path 2 sample_doc [GString [0x61]] sample_arr" using f at_here [OF sample_texts(2), of 0] by simp
  show "at_path 2 sample_doc [GString [0x61], GInt 1] [ch_t, ch_r, ch_u, ch_e]" using f a [of 0] by simp
qed

theorem Get_finds_witness:
  "frozenConfig_Get sample_runtime 30 ConfigDefault ([ch_space] @ sample_doc @ []) [GString [0x61], GInt 1] = Some trueAny"
  using Get_finds [OF sample_at(3), of 30 sample_runtime ConfigDefault "[ch_space]" "[]"] sample_pool
  by (simp add: maxDepth_def is_space_def sample_doc_def sample_members_def sample_arr_def sample_elems_def)

lemma sample_lengths:
  "length sample_doc = 19" "length (fields_text sample_members) = 17" "length (elems_text sample_elems) = 10"
  "length (elems_text sample_rows) = 17" "sample_members \<noteq> []" "sample_elems \<noteq> []" "sample_rows \<noteq> []" "length sample_arr = 12"
  by (simp_all add: sample_doc_def sample_members_def sample_arr_def sample_elems_def sample_rows_def)

theorem Get_reports_missing_witness:
  "frozenConfig_Get sample_runtime 30 ConfigDefault ([] @ sample_doc @ []) ([GString [0x61]] @ GInt 2 # [])
    = Some (invalidAny (Some (NotFound [GInt 2])))"
proof (rule Get_reports_missing [OF sample_at(2)])
  have "json_elems 1 sample_elems" "json 2 sample_arr" using sample_texts(1) [of 1] sample_texts(2) [of 1] by (simp_all add: numeral_2_eq_2)
  moreover have "length sample_elems = 2" by (simp add: sample_elems_def)
  ultimately show "lacks 2 sample_arr (GInt 2)"
    using sample_texts(1) [of 2] sample_lengths(6) by (auto simp: lacks_def sample_arr_def)
qed (use sample_lengths sample_pool in \<open>simp_all add: maxDepth_def\<close>)

theorem Get_composes_witness:
  "Option.bind (frozenConfig_Get sample_runtime 30 ConfigDefault ([] @ sample_doc @ []) [GString [0x61]])
      (\<lambda>a. Get sample_runtime (Suc 30) a (GInt 1 # []))
    = frozenConfig_Get sample_runtime 30 ConfigDefault ([] @ sample_doc @ []) ([GString [0x61]] @ GInt 1 # [])"
  by (rule Get_composes [OF sample_at(2) sample_at(1) [of 1, unfolded Suc_1]]) (use sample_lengths sample_pool in \<open>simp_all add: maxDepth_def\<close>)

theorem Get_star_array_witness:
  "Get sample_runtime (Suc 30) (arrayLazyAny ConfigDefault (ch_lbrack # elems_text sample_rows @ [ch_rbrack]) None) (GInt32 star # [GInt 1])
    = map_option (\<lambda>as. arrayAny (any_slice as))
        (keep_valid (map (\<lambda>x. Get sample_runtime 30 (any_of ConfigDefault (fst (snd x))) [GInt 1]) sample_rows))"
proof (rule Get_star_array [OF sample_texts(4)])
  show "\<forall>x \<in> set sample_rows. Get sample_runtime 30 (any_of ConfigDefault (fst (snd x))) [GInt 1] \<noteq> None" by code_simp
qed (use sample_lengths sample_pool in \<open>simp_all add: maxDepth_def\<close>)

lemma star_drops_scalars_witness:
  "Get sample_runtime (Suc 30) (arrayLazyAny ConfigDefault (ch_lbrack # elems_text sample_elems @ [ch_rbrack]) None) [GInt32 star]
    = Some (arrayAny (any_slice []))"
  by (rule star_drops_scalars [OF sample_texts(1)])
    (use sample_lengths sample_pool in \<open>simp_all add: sample_elems_def [symmetric]\<close>, simp_all add: sample_elems_def)

theorem Keys_and_Size_witness:
  "objectLazyAny_Keys sample_runtime 30 ConfigDefault (ch_lbrace # fields_text sample_members @ [ch_rbrace])
      = Some (map field_key sample_members)
    \<and> objectLazyAny_Size sample_runtime 30 ConfigDefault (ch_lbrace # fields_text sample_members @ [ch_rbrace])
      = Some (length sample_members)
    \<and> arrayLazyAny_Size sample_runtime 30 ConfigDefault (ch_lbrack # elems_text sample_elems @ [ch_rbrack])
      = Some (length sample_elems)
    \<and> arrayLazyAny_ToBool sample_runtime ConfigDefault (ch_lbrack # elems_text sample_elems @ [ch_rbrack])"
  by (rule Keys_and_Size [OF sample_texts(3) _ _ sample_texts(1)]) (use sample_lengths sample_pool in \<open>simp_all add: maxDepth_def\<close>)

theorem Any_round_trip_witness:
  "\<exists>it'. directAnyCodec_Decode 30 None (ParseBytes ConfigDefault ([] @ sample_doc @ [ch_comma]))
      = Some (Some (any_of ConfigDefault sample_doc), it')
    \<and> consumes (ParseBytes ConfigDefault ([] @ sample_doc @ [ch_comma])) ([] @ sample_doc) it' \<and> pending it' = ch_comma # []
    \<and> directAnyCodec_Encode sample_runtime 0 (Some (any_of ConfigDefault sample_doc)) (NewStream ConfigDefault None)
      = adds (any_text sample_doc) (NewStream ConfigDefault None)"
proof -
  let ?it = "ParseBytes ConfigDefault ([] @ sample_doc @ [ch_comma])"
  note p = ParseBytes_start [of ConfigDefault "[] @ sample_doc @ [ch_comma]"]
  have c: "cfg ?it = ConfigDefault" "captured ?it = None" by (simp_all add: ParseBytes_def)
  show ?thesis
    using Any_round_trip [OF sample_texts(5), of 30 ?it "[]" ch_comma "[]" "NewStream ConfigDefault None" None sample_runtime 0]
      sample_lengths(1) p unfolding c by (simp add: maxDepth_def number_char_def is_digit_def NewStream_def)
qed

lemma ReadAny_type_witness:
  "\<exists>a it'. ReadAny 30 (ParseBytes ConfigDefault ([] @ sample_doc @ [ch_comma])) = Some (a, it')
    \<and> m_ValueType (methods_of sample_runtime 0 a) = fst (WhatIsNext (ParseBytes ConfigDefault ([] @ sample_doc @ [ch_comma])))
    \<and> m_ValueType (methods_of sample_runtime 0 a) \<noteq> InvalidValue \<and> m_MustBeValid (methods_of sample_runtime 0 a) = Some a"
proof -
  have c: "captured (ParseBytes ConfigDefault b) = None" for b by (simp add: ParseBytes_def)
  show ?thesis
    by (rule ReadAny_type [OF sample_texts(5), where ws = "[]" and t = ch_comma and rest = "[]"])
      (use sample_lengths(1) c in \<open>simp_all add: ParseBytes_start maxDepth_def number_char_def is_digit_def\<close>)
qed

end
