(* ===== verification/Marshaler.thy ===== *)
theory Marshaler
  imports Descriptor
begin

text \<open>
  \<open>reflect_marshaler.go\<close>: the codecs of types with the methods \<open>MarshalJSON\<close>, \<open>MarshalText\<close>, \<open>UnmarshalJSON\<close> and
  \<open>UnmarshalText\<close>, and \<open>createCheckIsEmpty\<close> of \<open>reflect_struct_encoder.go\<close>, which they ask whether a value is empty.

  The methods are code of the user: \<open>user_methods\<close> gives, for each type, those it implements, and what reflect2 says of
  nil values. A method of a pointer type gets the pointer and returns it with the value it points to afterwards.
  The value of an interface type is \<open>VPtr None\<close> when it is nil and \<open>VPtr (Some v)\<close> when it holds \<open>v\<close>.
\<close>

section \<open>The methods of user types\<close>

record user_methods =
  MarshalJSON :: "gotype \<Rightarrow> (gval \<Rightarrow> bytes \<times> go_error option) option"
  MarshalText :: "gotype \<Rightarrow> (gval \<Rightarrow> bytes \<times> go_error option) option"
  UnmarshalJSON :: "gotype \<Rightarrow> (bytes \<Rightarrow> gval \<Rightarrow> gval \<times> string option) option"
  UnmarshalText :: "gotype \<Rightarrow> (bytes \<Rightarrow> gval \<Rightarrow> gval \<times> string option) option"
  IsNullable :: "gotype \<Rightarrow> bool"
  reflect_IsNil :: "gotype \<Rightarrow> gval \<Rightarrow> bool"

definition marshalerType :: gotype where "marshalerType = OtherType Interface ''json.Marshaler''"
definition textMarshalerType :: gotype where "textMarshalerType = OtherType Interface ''encoding.TextMarshaler''"

section \<open>Encoders\<close>

definition marshalerEncoder_Encode :: "user_methods \<Rightarrow> gotype \<Rightarrow> (gval \<Rightarrow> bytes \<times> go_error option) \<Rightarrow> gval encoder" where
  "marshalerEncoder_Encode u valType marshalJSON obj s =
     (if IsNullable u valType \<and> reflect_IsNil u valType obj then WriteNil s
      else
        (case marshalJSON obj of
           (b, Some err) \<Rightarrow> s\<lparr>s_Error := Some err\<rparr>
         | (b, None) \<Rightarrow>
             let b' = (if b \<noteq> [] \<and> last b = ch_nl then butlast b else b) in snd (Stream_Write b' s)))"

definition marshalerEncoder_IsEmpty :: "(gval \<Rightarrow> bool) \<Rightarrow> gval \<Rightarrow> bool" where
  "marshalerEncoder_IsEmpty checkIsEmpty v \<longleftrightarrow> checkIsEmpty v"

definition directMarshalerEncoder_Encode :: "(gval \<Rightarrow> bytes \<times> go_error option) \<Rightarrow> gval encoder" where
  "directMarshalerEncoder_Encode marshalJSON marshaler s =
     (if to_ptr marshaler = None then WriteNil s
      else
        (case marshalJSON marshaler of
           (b, Some err) \<Rightarrow> s\<lparr>s_Error := Some err\<rparr>
         | (b, None) \<Rightarrow> snd (Stream_Write b s)))"

definition directMarshalerEncoder_IsEmpty :: "(gval \<Rightarrow> bool) \<Rightarrow> gval \<Rightarrow> bool" where
  "directMarshalerEncoder_IsEmpty checkIsEmpty v \<longleftrightarrow> checkIsEmpty v"

definition textMarshalerEncoder_Encode ::
    "user_methods \<Rightarrow> gotype \<Rightarrow> (gval \<Rightarrow> bytes \<times> go_error option) \<Rightarrow> gencoder \<Rightarrow> gval encoder" where
  "textMarshalerEncoder_Encode u valType marshalText stringEncoder obj s =
     (if IsNullable u valType \<and> reflect_IsNil u valType obj then WriteNil s
      else
        (case marshalText obj of
           (b, Some err) \<Rightarrow> s\<lparr>s_Error := Some err\<rparr>
         | (b, None) \<Rightarrow> Encode stringEncoder (VString b) s))"

definition textMarshalerEncoder_IsEmpty :: "(gval \<Rightarrow> bool) \<Rightarrow> gval \<Rightarrow> bool" where
  "textMarshalerEncoder_IsEmpty checkIsEmpty v \<longleftrightarrow> checkIsEmpty v"

definition directTextMarshalerEncoder_Encode :: "(gval \<Rightarrow> bytes \<times> go_error option) \<Rightarrow> gencoder \<Rightarrow> gval encoder" where
  "directTextMarshalerEncoder_Encode marshalText stringEncoder marshaler s =
     (if to_ptr marshaler = None then WriteNil s
      else
        (case marshalText marshaler of
           (b, Some err) \<Rightarrow> s\<lparr>s_Error := Some err\<rparr>
         | (b, None) \<Rightarrow> Encode stringEncoder (VString b) s))"

definition directTextMarshalerEncoder_IsEmpty :: "(gval \<Rightarrow> bool) \<Rightarrow> gval \<Rightarrow> bool" where
  "directTextMarshalerEncoder_IsEmpty checkIsEmpty v \<longleftrightarrow> checkIsEmpty v"

text \<open>\<open>referenceEncoder\<close> and \<open>referenceDecoder\<close> of \<open>reflect_optional.go\<close> pass on the address of the address of the value.\<close>

definition referenceEncoder :: "gencoder \<Rightarrow> gencoder" where
  "referenceEncoder encoder =
     \<lparr>Encode = (\<lambda>v. Encode encoder (VPtr (Some v))), IsEmpty = (\<lambda>v. IsEmpty encoder (VPtr (Some v))), EmbeddedPtrNil = None\<rparr>"

definition referenceDecoder_Decode :: "gval decoder \<Rightarrow> gval decoder" where
  "referenceDecoder_Decode decoder old it =
     map_option (\<lambda>(v, it1). (case to_ptr v of None \<Rightarrow> old | Some x \<Rightarrow> x, it1)) (decoder (VPtr (Some old)) it)"

text \<open>\<open>structEncoder\<close> and \<open>lazyErrorEncoder\<close> find no value empty, nor does \<open>arrayEncoder\<close>. The codec of a map is
  \<open>encoderOfMap\<close>.\<close>

definition createCheckIsEmpty :: "ctx \<Rightarrow> gotype \<Rightarrow> gval \<Rightarrow> bool" where
  "createCheckIsEmpty c typ =
     (case typ of
        Basic k s \<Rightarrow>
          if \<not> native_kind k then IsEmpty (lazyErrorEncoder (unsupported c typ))
          else if s \<noteq> kind_name k then IsEmpty (encoderOfType c (Basic k (kind_name k)))
          else IsEmpty (createEncoderOfNative c k)
      | SliceType s t \<Rightarrow>
          if Kind t = Uint8 then (\<lambda>v. base64Codec_IsEmpty (to_bytes v)) else (\<lambda>v. sliceEncoder_IsEmpty (to_slice v))
      | ArrayType s n t \<Rightarrow> (\<lambda>v. False)
      | PtrType t \<Rightarrow> (\<lambda>v. OptionalEncoder_IsEmpty (to_ptr v))
      | MapType s k t \<Rightarrow> (\<lambda>v. mapEncoder_IsEmpty (map_option (iterate c) (to_map v)))
      | StructType m s fs \<Rightarrow> structEncoder_IsEmpty
      | OtherType k s \<Rightarrow>
          if k = Interface then IsEmpty (ifaceEncoder c typ) else IsEmpty (lazyErrorEncoder (unsupported c typ)))"

definition stringType :: gotype where "stringType = Basic String ''string''"

definition createEncoderOfMarshaler :: "user_methods \<Rightarrow> ctx \<Rightarrow> gotype \<Rightarrow> gencoder option" where
  "createEncoderOfMarshaler u c typ =
     (let ptrType = PtrType typ;
          marshaler = (\<lambda>valType f. \<lparr>Encode = marshalerEncoder_Encode u valType f,
            IsEmpty = marshalerEncoder_IsEmpty (createCheckIsEmpty c valType), EmbeddedPtrNil = None\<rparr>);
          textMarshaler = (\<lambda>valType f. \<lparr>Encode = textMarshalerEncoder_Encode u valType f (encoderOfType c stringType),
            IsEmpty = textMarshalerEncoder_IsEmpty (createCheckIsEmpty c valType), EmbeddedPtrNil = None\<rparr>)
      in
      if typ = marshalerType then
        map_option (\<lambda>f. \<lparr>Encode = directMarshalerEncoder_Encode f,
          IsEmpty = directMarshalerEncoder_IsEmpty (createCheckIsEmpty c typ), EmbeddedPtrNil = None\<rparr>) (MarshalJSON u typ)
      else if MarshalJSON u typ \<noteq> None then map_option (marshaler typ) (MarshalJSON u typ)
      else if ctxPrefix c \<noteq> [] \<and> MarshalJSON u ptrType \<noteq> None then
        map_option (\<lambda>f. referenceEncoder (marshaler ptrType f)) (MarshalJSON u ptrType)
      else if typ = textMarshalerType then
        map_option (\<lambda>f. \<lparr>Encode = directTextMarshalerEncoder_Encode f (encoderOfType c stringType),
          IsEmpty = directTextMarshalerEncoder_IsEmpty (createCheckIsEmpty c typ), EmbeddedPtrNil = None\<rparr>) (MarshalText u typ)
      else if MarshalText u typ \<noteq> None then map_option (textMarshaler typ) (MarshalText u typ)
      else if ctxPrefix c \<noteq> [] \<and> MarshalText u ptrType \<noteq> None then
        map_option (\<lambda>f. referenceEncoder (textMarshaler ptrType f)) (MarshalText u ptrType)
      else None)"

section \<open>Decoders\<close>

definition unmarshalerDecoder_Decode :: "(bytes \<Rightarrow> gval \<Rightarrow> gval \<times> string option) \<Rightarrow> gdecoder" where
  "unmarshalerDecoder_Decode unmarshalJSON n obj it =
     (let it1 = unreadByte (snd (nextToken it)) in
      map_option (\<lambda>(b, it2).
        case unmarshalJSON b obj of (obj', err) \<Rightarrow>
          (obj', case err of None \<Rightarrow> it2 | Some msg \<Rightarrow> ReportError ''unmarshalerDecoder'' msg it2))
        (SkipAndReturnBytes n it1))"

definition textUnmarshalerDecoder_Decode :: "gval \<Rightarrow> (bytes \<Rightarrow> gval \<Rightarrow> gval \<times> string option) \<Rightarrow> gdecoder" where
  "textUnmarshalerDecoder_Decode zeroElem unmarshalText n ptr it =
     (let obj = (if to_ptr ptr = None then VPtr (Some zeroElem) else ptr) in
      case ReadString it of (str, it1) \<Rightarrow>
      (case unmarshalText str obj of (obj', err) \<Rightarrow>
        Some (obj', case err of None \<Rightarrow> it1 | Some msg \<Rightarrow> ReportError ''textUnmarshalerDecoder'' msg it1)))"

definition createDecoderOfMarshaler :: "user_methods \<Rightarrow> ctx \<Rightarrow> gotype \<Rightarrow> gdecoder option" where
  "createDecoderOfMarshaler u c typ =
     (case UnmarshalJSON u (PtrType typ) of
        Some f \<Rightarrow> Some (\<lambda>n. referenceDecoder_Decode (unmarshalerDecoder_Decode f n))
      | None \<Rightarrow>
          (case UnmarshalText u (PtrType typ) of
             Some f \<Rightarrow> Some (\<lambda>n. referenceDecoder_Decode (textUnmarshalerDecoder_Decode (zero typ) f n))
           | None \<Rightarrow> None))"

section \<open>Properties\<close>

text \<open>C24: a type with \<open>MarshalJSON\<close> and, on its pointer, \<open>UnmarshalJSON\<close>: the text that \<open>MarshalJSON\<close> returns, without one
  line end, is what is written, and it is byte for byte what \<open>UnmarshalJSON\<close> is called with when it is read back, with the
  pointer to the variable; the variable then holds what the method left, and an error of the method is reported.\<close>

theorem marshaler_round_trip:
  assumes "MarshalJSON u typ = Some f" "typ \<noteq> marshalerType" "\<not> (IsNullable u typ \<and> reflect_IsNil u typ v)"
    and "f v = (t @ nl, None)" "nl = [ch_nl] \<or> nl = [] \<and> last t \<noteq> ch_nl" "json d t" "s_out s = None"
    and "UnmarshalJSON u (PtrType typ) = Some g" "g t (VPtr (Some old)) = (VPtr (Some v'), err)"
    and "length t < n" "wf_iter it" "Error it = None" "0 \<le> depth it" "depth it + int d \<le> maxDepth" "captured it = None"
    and "list_all is_space ws" "pending it = ws @ t @ x # rest" "\<not> number_char x"
  shows "\<exists>e dec it1. createEncoderOfMarshaler u c typ = Some e \<and> createDecoderOfMarshaler u c typ = Some dec
    \<and> Encode e v s = adds t s \<and> consumes it (ws @ t) it1 \<and> pending it1 = x # rest
    \<and> dec n old it = Some (v', case err of None \<Rightarrow> it1 | Some msg \<Rightarrow> ReportError ''unmarshalerDecoder'' msg it1)"
proof -
  obtain h r where t: "t = h # r" "\<not> is_space h" using json_head [OF assms(6)] by (cases t) auto
  obtain it2 where 2: "WhatIsNext it = (valueTypes h, it2)" "consumes it ws it2" "pending it2 = t @ x # rest"
    using WhatIsNext_at [OF assms(11,12,16), of h "r @ x # rest"] assms(17) t by auto
  note s2 = consumes_same [OF 2(2)]
  obtain it1 where 1: "SkipAndReturnBytes n it2 = Some (t, it1)" "consumes it2 t it1" "pending it1 = x # rest"
    using SkipAndReturnBytes_value [OF assms(6,10) _ _ _ _ _ 2(3) assms(18)] s2 assms(11-15) by auto
  have "unreadByte (snd (nextToken it)) = it2" using 2(1) by (simp add: WhatIsNext_def split_beta)
  with 1(1) assms(9) have "referenceDecoder_Decode (unmarshalerDecoder_Decode g n) old it
      = Some (v', case err of None \<Rightarrow> it1 | Some msg \<Rightarrow> ReportError ''unmarshalerDecoder'' msg it1)"
    by (simp add: referenceDecoder_Decode_def unmarshalerDecoder_Decode_def)
  moreover have "marshalerEncoder_Encode u typ f v s = adds t s"
    using assms(3,4,5,7) t by (auto simp: marshalerEncoder_Encode_def Stream_Write_def adds_def Let_def)
  ultimately show ?thesis using assms(1,2,8) 1(3) consumes_trans [OF 2(2) 1(2)]
    by (auto simp: createEncoderOfMarshaler_def createDecoderOfMarshaler_def Let_def)
qed

text \<open>With \<open>MarshalJSON\<close> on the pointer only, no value in a field is ever empty: the emptiness asked is that of the pointer
  to the field, which is not nil. So \<open>omitempty\<close> has no effect on such a field, not even on a nil slice or map.\<close>

lemma pointer_marshaler_never_empty:
  assumes "MarshalJSON u typ = None" "MarshalJSON u (PtrType typ) \<noteq> None" "typ \<noteq> marshalerType" "ctxPrefix c \<noteq> []"
  shows "\<exists>e. createEncoderOfMarshaler u c typ = Some e \<and> (\<forall>v. \<not> IsEmpty e v)"
  using assms by (auto simp: createEncoderOfMarshaler_def referenceEncoder_def marshalerEncoder_IsEmpty_def createCheckIsEmpty_def
      OptionalEncoder_IsEmpty_def)

section \<open>Witnesses\<close>

definition sample_type :: gotype where
  "sample_type = SliceType ''main.T'' (Basic Bool ''bool'')"

definition sample_methods :: user_methods where
  "sample_methods = \<lparr>MarshalJSON = [sample_type \<mapsto> \<lambda>v. (map of_char ''true'' @ [ch_nl], None),
       PtrType (PtrType sample_type) \<mapsto> \<lambda>v. ([ch_0], None)],
     MarshalText = Map.empty, UnmarshalJSON = [PtrType sample_type \<mapsto> \<lambda>b p. (VPtr (Some (VString b)), None)],
     UnmarshalText = Map.empty, IsNullable = (\<lambda>t. False), reflect_IsNil = (\<lambda>t v. False)\<rparr>"

theorem marshaler_round_trip_witness:
  "\<exists>e dec it1. createEncoderOfMarshaler sample_methods base_ctx sample_type = Some e
    \<and> createDecoderOfMarshaler sample_methods base_ctx sample_type = Some dec
    \<and> Encode e (VSlice None) (NewStream ConfigDefault None) = adds (map of_char ''true'') (NewStream ConfigDefault None)
    \<and> consumes (ParseBytes ConfigDefault ([] @ map of_char ''true'' @ [ch_comma])) ([] @ map of_char ''true'') it1
    \<and> pending it1 = ch_comma # []
    \<and> dec 9 (VSlice None) (ParseBytes ConfigDefault ([] @ map of_char ''true'' @ [ch_comma]))
      = Some (VString (map of_char ''true''), case None of None \<Rightarrow> it1 | Some msg \<Rightarrow> ReportError ''unmarshalerDecoder'' msg it1)"
  by (rule marshaler_round_trip [where nl = "[ch_nl]" and d = 0 and f = "\<lambda>v. (map of_char ''true'' @ [ch_nl], None)"
        and g = "\<lambda>b p. (VPtr (Some (VString b)), None)"])
    (simp_all add: sample_methods_def sample_type_def marshalerType_def NewStream_def ParseBytes_start maxDepth_def json_true
      number_char_def is_digit_def)

lemma pointer_marshaler_never_empty_witness:
  "\<exists>e. createEncoderOfMarshaler sample_methods (base_ctx\<lparr>ctxPrefix := ''[sliceElem]''\<rparr>) (PtrType sample_type) = Some e
    \<and> (\<forall>v. \<not> IsEmpty e v)"
  by (rule pointer_marshaler_never_empty) (simp_all add: sample_methods_def sample_type_def marshalerType_def)

end
