(* ===== verification/StreamFloat.thy ===== *)
theory StreamFloat
  imports AnyValue
begin

text \<open>
  \<open>stream_float.go\<close> and \<open>stream_time.go\<close>, the float codecs of \<open>reflect_native.go\<close> and the lossy ones of \<open>config.go\<close>.

  A float is finite, infinite or not a number. \<open>strconv.AppendFloat\<close> is a parameter: for a finite float, the mark of the
  format \<open>e\<close> and a bit size it gives the shortest text. Arithmetic on \<open>float64\<close> is \<open>nearest64\<close> of the exact result. A
  time is its year and its text in the format \<open>time.RFC3339Nano\<close>.
\<close>

section \<open>The writers\<close>

datatype float_value = Fin go_float | PosInf | NegInf | NaN

type_synonym append_float = "go_float \<Rightarrow> bool \<Rightarrow> nat \<Rightarrow> bytes"

definition round64 :: "rat \<Rightarrow> rat" where
  "round64 x = nearest64 (rat_num x) (rat_den x)"

text \<open>The text of \<open>%f\<close> for what is no number.\<close>

fun not_finite :: "float_value \<Rightarrow> string" where
  "not_finite PosInf = ''+Inf''" | "not_finite NegInf = ''-Inf''" | "not_finite _ = ''NaN''"

definition write_not_finite :: "float_value \<Rightarrow> stream \<Rightarrow> stream" where
  "write_not_finite val s =
     (if invalidFloatToNil (s_cfg s) then WriteNil s
      else s\<lparr>s_Error := Some (LibErr (''unsupported value: '' @ not_finite val))\<rparr>)"

text \<open>The end of the buffer from \<open>e-09\<close> to \<open>e-9\<close>.\<close>

definition clean_exponent :: "bytes \<Rightarrow> bytes" where
  "clean_exponent b =
     (let n = length b in
      if n \<ge> 4 \<and> b ! (n - 4) = ch_e \<and> b ! (n - 3) = ch_minus \<and> b ! (n - 2) = ch_0
      then take (n - 1) (b[n - 2 := b ! (n - 1)]) else b)"

definition WriteFloat32 :: "append_float \<Rightarrow> float_value \<Rightarrow> stream \<Rightarrow> stream" where
  "WriteFloat32 appendFloat val s =
     (case val of
        Fin x \<Rightarrow>
          let a = magnitude x;
              fmt_e = (a \<noteq> 0 \<and> (float32_of a < float32_of (1 / 10 ^ 6) \<or> float32_of (10 ^ 21) \<le> float32_of a));
              b = s_buf s @ appendFloat x fmt_e 32
          in s\<lparr>s_buf := if fmt_e then clean_exponent b else b\<rparr>
      | _ \<Rightarrow> write_not_finite val s)"

definition WriteFloat64 :: "append_float \<Rightarrow> float_value \<Rightarrow> stream \<Rightarrow> stream" where
  "WriteFloat64 appendFloat val s =
     (case val of
        Fin x \<Rightarrow>
          let a = magnitude x;
              fmt_e = (a \<noteq> 0 \<and> (a < round64 (1 / 10 ^ 6) \<or> round64 (10 ^ 21) \<le> a));
              b = s_buf s @ appendFloat x fmt_e 64
          in s\<lparr>s_buf := if fmt_e then clean_exponent b else b\<rparr>
      | _ \<Rightarrow> write_not_finite val s)"

text \<open>The loops of the lossy writers: zeros behind the dot, and the zeros at the end of the buffer.\<close>

fun lossy_zeros :: "nat \<Rightarrow> u64 \<Rightarrow> stream \<Rightarrow> stream" where
  "lossy_zeros 0 fval s = s"
| "lossy_zeros (Suc p) fval s =
     (if fval < word_of_int (pow10 ! Suc p) then lossy_zeros p fval (writeByte ch_0 s) else s)"

function strip_zeros :: "bytes \<Rightarrow> bytes" where
  "strip_zeros b = (if b \<noteq> [] \<and> last b = ch_0 then strip_zeros (butlast b) else b)"
  by pat_completeness auto
termination by (relation "measure length") auto

declare strip_zeros.simps [simp del]

definition lossy_digits :: "u64 \<Rightarrow> stream \<Rightarrow> stream" where
  "lossy_digits lval s =
     (let s1 = WriteUint64 (lval div 1000000) s; fval = lval mod 1000000 in
      if fval = 0 then s1
      else
        let s2 = WriteUint64 fval (lossy_zeros 5 fval (writeByte ch_dot s1))
        in s2\<lparr>s_buf := strip_zeros (s_buf s2)\<rparr>)"

text \<open>\<open>uint64(val*exp + 0.5)\<close> for a value that is not negative.\<close>

definition lossy_units :: "rat \<Rightarrow> u64" where
  "lossy_units val = word_of_int \<lfloor>round64 (round64 (val * 1000000) + 1 / 2)\<rfloor>"

definition is_negative :: "go_float \<Rightarrow> bool" where
  "is_negative x \<longleftrightarrow> negative x \<and> magnitude x \<noteq> 0"

definition WriteFloat32Lossy :: "append_float \<Rightarrow> float_value \<Rightarrow> stream \<Rightarrow> stream" where
  "WriteFloat32Lossy appendFloat val s =
     (case val of
        Fin x \<Rightarrow>
          (case (if is_negative x then (float_neg x, writeByte ch_minus s) else (x, s)) of
             (x, s) \<Rightarrow>
               if magnitude x > 0x4ffffff then WriteFloat32 appendFloat (Fin x) s
               else lossy_digits (lossy_units (magnitude x)) s)
      | _ \<Rightarrow> write_not_finite val s)"

definition WriteFloat64Lossy :: "append_float \<Rightarrow> float_value \<Rightarrow> stream \<Rightarrow> stream" where
  "WriteFloat64Lossy appendFloat val s =
     (case val of
        Fin x \<Rightarrow>
          (case (if is_negative x then (float_neg x, writeByte ch_minus s) else (x, s)) of
             (x, s) \<Rightarrow>
               if magnitude x > 0x4ffffff then WriteFloat64 appendFloat (Fin x) s
               else lossy_digits (lossy_units (magnitude x)) s)
      | _ \<Rightarrow> write_not_finite val s)"

record go_time =
  time_year :: int
  RFC3339Nano :: bytes

definition WriteTime :: "go_time \<Rightarrow> stream \<Rightarrow> stream" where
  "WriteTime val s =
     (if time_year val < 0 \<or> time_year val \<ge> 10000
      then s\<lparr>s_Error := Some (LibErr ''stream.WriteTime: year outside of range [0,9999]'')\<rparr>
      else s\<lparr>s_buf := s_buf s @ [ch_quote] @ RFC3339Nano val @ [ch_quote]\<rparr>)"

section \<open>The codecs\<close>

definition float32Codec_Decode :: "float_value decoder" where
  "float32Codec_Decode = unless_nil (\<lambda>it. case ReadFloat32 it of (x, it1) \<Rightarrow> (Fin x, it1))"

definition float64Codec_Decode :: "float_value decoder" where
  "float64Codec_Decode = unless_nil (\<lambda>it. case ReadFloat64 it of (x, it1) \<Rightarrow> (Fin x, it1))"

definition float32Codec_Encode :: "append_float \<Rightarrow> float_value encoder" where
  "float32Codec_Encode appendFloat v s = WriteFloat32 appendFloat v s"

definition float64Codec_Encode :: "append_float \<Rightarrow> float_value encoder" where
  "float64Codec_Encode appendFloat v s = WriteFloat64 appendFloat v s"

definition lossyFloat32Encoder_Encode :: "append_float \<Rightarrow> float_value encoder" where
  "lossyFloat32Encoder_Encode appendFloat v s = WriteFloat32Lossy appendFloat v s"

definition lossyFloat64Encoder_Encode :: "append_float \<Rightarrow> float_value encoder" where
  "lossyFloat64Encoder_Encode appendFloat v s = WriteFloat64Lossy appendFloat v s"

definition is_zero_float :: "float_value \<Rightarrow> bool" where
  "is_zero_float v \<longleftrightarrow> (case v of Fin x \<Rightarrow> magnitude x = 0 | _ \<Rightarrow> False)"

definition float32Codec_IsEmpty :: "float_value \<Rightarrow> bool" where "float32Codec_IsEmpty v = is_zero_float v"
definition float64Codec_IsEmpty :: "float_value \<Rightarrow> bool" where "float64Codec_IsEmpty v = is_zero_float v"
definition lossyFloat32Encoder_IsEmpty :: "float_value \<Rightarrow> bool" where "lossyFloat32Encoder_IsEmpty v = is_zero_float v"
definition lossyFloat64Encoder_IsEmpty :: "float_value \<Rightarrow> bool" where "lossyFloat64Encoder_IsEmpty v = is_zero_float v"

section \<open>The digits of the lossy writers\<close>

lemma length_dec_bytes: "0 < k \<Longrightarrow> length (dec_bytes n) \<le> k \<longleftrightarrow> n < 10 ^ k"
proof (induction n arbitrary: k rule: dec_bytes.induct)
  case (1 n)
  then obtain j where k: "k = Suc j" by (cases k) auto
  show ?case
  proof (cases "n < 10")
    case True
    have "(10::nat) \<le> 10 ^ k" using k by simp
    with True have "n < 10 ^ k" by simp
    with True k show ?thesis by (subst dec_bytes.simps) simp
  next
    case False
    then have l: "length (dec_bytes n) = Suc (length (dec_bytes (n div 10)))" by (subst dec_bytes.simps) simp
    show ?thesis
    proof (cases "j = 0")
      case True
      then show ?thesis using False l k dec_bytes_nonempty [of "n div 10"] by (cases "dec_bytes (n div 10)") auto
    next
      case j: False
      have "n div 10 < 10 ^ j \<longleftrightarrow> n < 10 ^ j * 10" by (rule div_less_iff_less_mult) simp
      with 1(1) [OF False, of j] j l k show ?thesis by (simp add: mult.commute)
    qed
  qed
qed

lemma pow10_word: "k \<le> 6 \<Longrightarrow> unat (word_of_int (pow10 ! k) :: u64) = 10 ^ k"
proof -
  have "\<forall>k \<in> {0,1,2,3,4,5,6}. unat (word_of_int (pow10 ! k) :: u64) = 10 ^ k" by (simp add: pow10_def)
  moreover assume "k \<le> 6"
  then have "k \<in> {0,1,2,3,4,5,6}" by auto
  ultimately show ?thesis by blast
qed

lemma lossy_zeros_adds:
  "p \<le> 5 \<Longrightarrow> unat f < 10 ^ Suc p \<Longrightarrow> lossy_zeros p f s = adds (replicate (Suc p - length (dec_bytes (unat f))) ch_0) s"
proof (induction p arbitrary: s)
  case 0
  then show ?case using dec_bytes_nonempty [of "unat f"] by (cases "dec_bytes (unat f)") (auto simp: adds_def)
next
  case (Suc p)
  have lt: "f < word_of_int (pow10 ! Suc p) \<longleftrightarrow> length (dec_bytes (unat f)) \<le> Suc p"
    using length_dec_bytes [of "Suc p" "unat f"] pow10_word [of "Suc p"] Suc.prems(1) by (simp add: word_less_nat_alt)
  show ?case
  proof (cases "f < word_of_int (pow10 ! Suc p)")
    case True
    then have l: "length (dec_bytes (unat f)) \<le> Suc p" "unat f < 10 ^ Suc p" using lt length_dec_bytes [of "Suc p" "unat f"] by auto
    with Suc.IH [of "writeByte ch_0 s"] Suc.prems(1) True show ?thesis
      by (simp add: stream_adds Suc_diff_le replicate_append_same [symmetric] adds_def)
  next
    case False
    then have "length (dec_bytes (unat f)) = Suc (Suc p)"
      using lt length_dec_bytes [of "Suc (Suc p)" "unat f"] Suc.prems(2) by simp
    with False show ?thesis by (simp add: adds_def)
  qed
qed

lemma strip_step: "b \<noteq> [] \<and> last b = ch_0 \<Longrightarrow> strip_zeros b = strip_zeros (butlast b)"
  by (subst strip_zeros.simps) simp

lemma strip_stop: "\<not> (b \<noteq> [] \<and> last b = ch_0) \<Longrightarrow> strip_zeros b = b"
  by (subst strip_zeros.simps) auto

lemma strip_zeros_split: "\<exists>k. b = strip_zeros b @ replicate k ch_0 \<and> (strip_zeros b = [] \<or> last (strip_zeros b) \<noteq> ch_0)"
proof (induction b rule: strip_zeros.induct)
  case (1 b)
  show ?case
  proof (cases "b \<noteq> [] \<and> last b = ch_0")
    case True
    from 1 [OF True] obtain k where k: "butlast b = strip_zeros (butlast b) @ replicate k ch_0"
      "strip_zeros (butlast b) = [] \<or> last (strip_zeros (butlast b)) \<noteq> ch_0" by blast
    have "b = butlast b @ [ch_0]" using True by (metis append_butlast_last_id)
    with k(1) have "b = strip_zeros (butlast b) @ replicate (Suc k) ch_0" by (metis append.assoc replicate_append_same replicate_Suc)
    with k(2) strip_step [OF True] show ?thesis by metis
  next
    case False
    from strip_stop [OF this] False show ?thesis by (intro exI [of _ 0]) auto
  qed
qed

lemma strip_zeros_append: "strip_zeros b \<noteq> [] \<Longrightarrow> strip_zeros (a @ b) = a @ strip_zeros b"
proof (induction b rule: strip_zeros.induct)
  case (1 b)
  show ?case
  proof (cases "b \<noteq> [] \<and> last b = ch_0")
    case True
    then have "strip_zeros (a @ b) = strip_zeros (a @ butlast b)" using strip_step [of "a @ b"] by (simp add: butlast_append)
    with 1 True strip_step [OF True] show ?thesis by simp
  next
    case False
    with 1(2) have b: "strip_zeros b = b" "b \<noteq> []" using strip_stop [OF False] by auto
    with False strip_stop [of "a @ b"] show ?thesis by simp
  qed
qed

lemma dec_val_zeros: "dec_val (xs @ replicate k ch_0) = dec_val xs * 10 ^ k" "dec_val (replicate k ch_0 @ xs) = dec_val xs"
proof -
  have "dec_val_from v (replicate k ch_0) = v * 10 ^ k" for v by (induction k arbitrary: v) (auto simp: digit_val_def)
  then show "dec_val (xs @ replicate k ch_0) = dec_val xs * 10 ^ k" by (simp add: dec_val_def dec_val_from_append)
  have "dec_val_from 0 (replicate k ch_0) = 0" by (induction k) (auto simp: digit_val_def)
  then show "dec_val (replicate k ch_0 @ xs) = dec_val xs" by (simp add: dec_val_def dec_val_from_append)
qed

text \<open>The value of a decimal with integer part \<open>ip\<close> and fraction \<open>fp\<close>.\<close>

definition decimal :: "bytes \<Rightarrow> bytes \<Rightarrow> rat" where
  "decimal ip fp = of_nat (dec_val ip) + of_nat (dec_val fp) / 10 ^ length fp"

lemma lossy_digits_adds:
  "\<exists>ip fp. lossy_digits lval s = adds (num_text ip fp) s \<and> num_ok ip fp \<and> (fp = [] \<or> last fp \<noteq> ch_0) \<and> length fp \<le> 6
    \<and> decimal ip fp = of_nat (unat lval) / 10 ^ 6"
proof -
  define i where "i = unat lval div 1000000"
  define f where "f = unat lval mod 1000000"
  have w: "unat (lval div 1000000) = i" "unat (lval mod 1000000) = f" by (simp_all add: i_def f_def unat_div unat_mod)
  have n: "unat lval = i * 1000000 + f" by (simp add: i_def f_def)
  have i0: "hd (dec_bytes i) = ch_0 \<longrightarrow> length (dec_bytes i) = 1" using hd_dec_bytes [of i] by (cases "i = 0") (auto simp: dec_bytes_small)
  show ?thesis
  proof (cases "f = 0")
    case True
    then have "lval mod 1000000 = 0" using w(2) by (simp add: unat_eq_zero)
    with w(1) have "lossy_digits lval s = adds (num_text (dec_bytes i) []) s" by (simp add: lossy_digits_def stream_adds num_text_def)
    moreover have "num_ok (dec_bytes i) []" using dec_bytes_digits [of i] dec_bytes_nonempty i0 by (simp add: num_ok_def list_all_iff)
    moreover have "decimal (dec_bytes i) [] = of_nat (unat lval) / 10 ^ 6" using n True by (simp add: decimal_def dec_val_dec_bytes, simp add: dec_val_def)
    ultimately show ?thesis by (intro exI [of _ "dec_bytes i"] exI [of _ "[]"]) simp
  next
    case False
    define frac where "frac = replicate (6 - length (dec_bytes f)) ch_0 @ dec_bytes f"
    have f6: "f < 10 ^ Suc 5" "length (dec_bytes f) \<le> 6" using length_dec_bytes [of 6 f] by (simp_all add: f_def)
    have fr: "length frac = 6" "dec_val frac = f" "list_all is_digit frac"
      using f6(2) dec_bytes_digits [of f] by (auto simp: frac_def dec_val_zeros dec_val_dec_bytes list_all_iff is_digit_def)
    obtain k where k: "frac = strip_zeros frac @ replicate k ch_0" "strip_zeros frac = [] \<or> last (strip_zeros frac) \<noteq> ch_0"
      using strip_zeros_split by blast
    define fp where "fp = strip_zeros frac"
    have v: "f = dec_val fp * 10 ^ k" using fr(2) k(1) dec_val_zeros(1) [of fp k] by (simp add: fp_def)
    have fp: "fp \<noteq> []" using v False by (auto simp: dec_val_def)
    have len: "length fp + k = 6" using fr(1) arg_cong [OF k(1), of length] by (simp add: fp_def)
    have nz: "lval mod 1000000 \<noteq> 0" using w(2) False by (metis unsigned_0)
    have "lossy_digits lval s = s\<lparr>s_buf := strip_zeros ((s_buf s @ dec_bytes i @ [ch_dot]) @ frac)\<rparr>"
      using w f6(1) lossy_zeros_adds [of 5 "lval mod 1000000"] unfolding lossy_digits_def Let_def if_not_P [OF nz]
      by (simp add: stream_adds frac_def adds_def)
    also have "\<dots> = s\<lparr>s_buf := (s_buf s @ dec_bytes i @ [ch_dot]) @ fp\<rparr>" unfolding fp_def by (subst strip_zeros_append) (use fp fp_def in auto)
    also have "\<dots> = adds (num_text (dec_bytes i) fp) s" using fp by (simp add: adds_def num_text_def)
    finally have t: "lossy_digits lval s = adds (num_text (dec_bytes i) fp) s" .
    have "list_all is_digit fp" using fr(3) k(1) by (metis fp_def list_all_append)
    then have ok: "num_ok (dec_bytes i) fp" using dec_bytes_digits [of i] dec_bytes_nonempty i0 by (simp add: num_ok_def list_all_iff)
    have "(10::rat) ^ 6 = 10 ^ length fp * 10 ^ k" using len by (metis power_add)
    then have "decimal (dec_bytes i) fp = of_nat (unat lval) / 10 ^ 6"
      unfolding decimal_def n dec_val_dec_bytes by (simp add: v field_simps)
    with t ok k(2) len fp show ?thesis by (intro exI [of _ "dec_bytes i"] exI [of _ fp]) (simp add: fp_def)
  qed
qed

section \<open>How far the units are from the float\<close>

lemma pow2_powi: "pow2 e = 2 powi e"
  by (simp add: pow2_def power_int_def field_simps)

lemma lead_exp_le:
  assumes "0 < n" "0 < d"
  shows "pow2 (lead_exp n d) * of_int d \<le> of_int n"
proof -
  let ?a = "bitlen n" and ?b = "bitlen d"
  have b: "(2::int) ^ nat (?a - 1) \<le> n" "d < 2 ^ nat ?b" "0 < ?a" "0 < ?b"
    using bitlen_bounds [of n] bitlen_bounds [of d] assms bitlen_nonneg [of n] bitlen_nonneg [of d]
      bitlen_eq_zero_iff [of n] bitlen_eq_zero_iff [of d] by auto
  have n: "(2::rat) powi (?a - 1) \<le> of_int n"
    using b(1,3) of_int_le_iff [of "2 ^ nat (?a - 1)" n, where 'a = rat] by (simp add: power_int_def)
  have d: "of_int d < (2::rat) powi ?b"
    using b(2,4) of_int_less_iff [of d "2 ^ nat ?b", where 'a = rat] by (simp add: power_int_def)
  have "pow2 (?a - ?b - 1) * of_int d \<le> (2::rat) powi (?a - ?b - 1) * 2 powi ?b"
    unfolding pow2_powi using d by (intro mult_left_mono) auto
  also have "\<dots> = 2 powi (?a - 1)" by (simp flip: power_int_add)
  finally show ?thesis using n by (simp add: lead_exp_def Let_def)
qed

lemma rat_num_den: "of_int (rat_num x) / of_int (rat_den x) = x" "0 < rat_den x"
  using quotient_of_div [of x] quotient_of_denom_pos' [of x] by (cases "quotient_of x"; simp add: rat_num_def rat_den_def)+

lemma round64_error:
  assumes "0 \<le> x" "x < 2 ^ 47"
  shows "\<bar>round64 x - x\<bar> \<le> 1 / 128"
proof (cases "x = 0")
  case True
  then show ?thesis using rat_num_den_of_int [of 0] by (simp add: round64_def nearest64_def nearest_def)
next
  case False
  note q = rat_num_den [of x]
  have n: "0 < rat_num x" using q False assms(1)
    by (metis divide_le_0_iff dual_order.order_iff_strict linorder_not_le of_int_0_less_iff of_int_le_0_iff)
  have "pow2 (lead_exp (rat_num x) (rat_den x)) * of_int (rat_den x) \<le> of_int (rat_num x)" by (rule lead_exp_le [OF n q(2)])
  then have "pow2 (lead_exp (rat_num x) (rat_den x)) \<le> x" using q by (metis of_int_0_less_iff pos_le_divide_eq)
  then have "(2::rat) powi lead_exp (rat_num x) (rat_den x) < 2 powi 47" using assms(2) by (simp add: pow2_powi)
  then have "lead_exp (rat_num x) (rat_den x) < 47" by (metis linorder_not_le one_le_numeral power_int_increasing)
  then have "pow2 (max (lead_exp (rat_num x) (rat_den x)) (- 1022) - 53 + 1) \<le> 2 powi (- 6)"
    unfolding pow2_powi by (intro power_int_increasing) auto
  moreover have "(2::rat) powi (- 6) = 1 / 64" by (simp add: power_int_minus)
  ultimately show ?thesis
    using nearest_half_ulp [OF n q(2), of 53 "- 1022"] q(1) by (simp add: round64_def nearest64_def)
qed

text \<open>The product, the sum and the truncation: a half and two roundings away from the exact product.\<close>

lemma lossy_units_error:
  assumes "0 \<le> m" "m \<le> 0x4ffffff"
  shows "\<bar>of_nat (unat (lossy_units m)) - m * 10 ^ 6\<bar> \<le> 1 / 2 + 1 / 64"
proof -
  define r where "r = round64 (m * 1000000)"
  define t where "t = round64 (r + 1 / 2)"
  have m: "0 \<le> m * 1000000" "m * 1000000 \<le> 83886079000000" using assms by simp_all
  have lim: "m * 1000000 < 2 ^ 47" by (rule le_less_trans [OF m(2)]) simp
  have r: "r - m * 1000000 \<le> 1 / 128" "m * 1000000 - r \<le> 1 / 128"
    using round64_error [OF m(1) lim] unfolding r_def abs_le_iff by linarith+
  have "(2::rat) ^ 47 = 140737488355328" "(2::rat) ^ 48 = 281474976710656" by simp_all
  note pw = this
  have "0 \<le> r + 1 / 2" "r + 1 / 2 < 2 ^ 47" unfolding pw using m r by linarith+
  from round64_error [OF this] have t: "t - (r + 1 / 2) \<le> 1 / 128" "r + 1 / 2 - t \<le> 1 / 128"
    unfolding t_def abs_le_iff by linarith+
  have "0 \<le> t" "t < 2 ^ 48" unfolding pw using r t m by linarith+
  then have f: "0 \<le> \<lfloor>t\<rfloor>" "\<lfloor>t\<rfloor> < 2 ^ 48" by (simp_all add: floor_less_iff)
  then have "uint (word_of_int \<lfloor>t\<rfloor> :: u64) = \<lfloor>t\<rfloor>" by (simp add: uint_word_of_int)
  then have u: "of_nat (unat (lossy_units m)) = (of_int \<lfloor>t\<rfloor> :: rat)"
    by (metis lossy_units_def t_def r_def of_int_of_nat_eq uint_nat)
  have "of_int \<lfloor>t\<rfloor> \<le> t" "t < of_int \<lfloor>t\<rfloor> + 1" by linarith+
  moreover have "m * 10 ^ 6 = m * 1000000" by simp
  ultimately show ?thesis using r t unfolding u abs_le_iff by (intro conjI; linarith)
qed

section \<open>Floats are read back\<close>

text \<open>A float that is written without an exponent, and whose text is what \<open>strconv\<close> promises for the precision -1: a
  decimal that parses to that float.\<close>

definition decimal_text :: "append_float \<Rightarrow> float_value \<Rightarrow> bool" where
  "decimal_text appendFloat v \<longleftrightarrow> (\<exists>x neg ip fp. v = Fin x
     \<and> (magnitude x = 0 \<or> round64 (1 / 10 ^ 6) \<le> magnitude x \<and> magnitude x < round64 (10 ^ 21))
     \<and> appendFloat x False 64 = (if neg then [ch_minus] else []) @ num_text ip fp \<and> num_ok ip fp
     \<and> ParseFloat ((if neg then [ch_minus] else []) @ num_text ip fp) 64 = Some x)"

definition float_text :: "append_float \<Rightarrow> float_value \<Rightarrow> bytes" where
  "float_text appendFloat v = (case v of Fin x \<Rightarrow> appendFloat x False 64 | _ \<Rightarrow> [])"

lemma float64_writes:
  assumes "decimal_text appendFloat v"
  shows "float64Codec_Encode appendFloat v s = adds (float_text appendFloat v) s"
  using assms by (auto simp: decimal_text_def float64Codec_Encode_def WriteFloat64_def float_text_def adds_def Let_def)

lemma num_text_head: "num_ok ip fp \<Longrightarrow> \<exists>c cs. (if neg then [ch_minus] else []) @ num_text ip fp = c # cs \<and> (c = ch_minus \<or> is_digit c)"
  by (cases neg; cases ip) (auto simp: num_ok_def num_text_def)

lemma float64_codec:
  "codec (float64Codec_Encode appendFloat) (\<lambda>n. float64Codec_Decode) (\<lambda>c i. float_text appendFloat) (decimal_text appendFloat) 0 (\<lambda>c. True)"
proof (unfold_locales, goal_cases)
  case (1 v s)
  then show ?case by (simp add: float64_writes)
next
  case (2 v it ws c i t rest n old)
  from 2(1) obtain x neg ip fp where v: "v = Fin x" "num_ok ip fp"
    "float_text appendFloat v = (if neg then [ch_minus] else []) @ num_text ip fp"
    "ParseFloat ((if neg then [ch_minus] else []) @ num_text ip fp) 64 = Some x" by (auto simp: decimal_text_def float_text_def)
  obtain h hs where h: "float_text appendFloat v = h # hs" "h = ch_minus \<or> is_digit h" using num_text_head [OF v(2), of neg] v(3) by auto
  show ?case unfolding float64Codec_Decode_def
  proof (rule unless_nil_reads [OF 2(2,3,6,7)])
    fix it1
    assume a: "wf_iter it1" "Error it1 = None" "pending it1 = float_text appendFloat v @ t # rest"
    from ReadFloat64_literal [OF a(1,2) _ v(2) _ 2(8) v(4), of "[]" rest] a(3) v(1,3)
    show "\<exists>it'. (case ReadFloat64 it1 of (x, it1) \<Rightarrow> (Fin x, it1)) = (v, it')
        \<and> consumes it1 (float_text appendFloat v) it' \<and> pending it' = t # rest" by auto
  qed (use h in \<open>auto simp: is_space_def is_digit_def\<close>)
next
  case (3 v c i)
  then obtain ip fp neg where "num_ok ip fp" "float_text appendFloat v = (if neg then [ch_minus] else []) @ num_text ip fp"
    by (auto simp: decimal_text_def float_text_def)
  with num_text_head [of ip fp neg] show ?case by (auto simp: is_space_def is_digit_def)
qed

interpretation float64: codec "float64Codec_Encode appendFloat" "\<lambda>n. float64Codec_Decode" "\<lambda>c i. float_text appendFloat"
    "decimal_text appendFloat" 0 "\<lambda>c. True" for appendFloat
  by (rule float64_codec)

section \<open>Properties\<close>

text \<open>C31: for a finite float of magnitude at most \<open>0x4ffffff\<close> the lossy writers append, behind a minus sign when it is
  negative, a JSON number of at most six digits after the dot, without a zero at the end, that is within a millionth
  of the magnitude, in spite of the two roundings of the product and the sum; and both writers append the same.\<close>

theorem lossy_writers_precision:
  assumes "0 \<le> magnitude x" "magnitude x \<le> 0x4ffffff"
  shows "\<exists>ip fp. WriteFloat64Lossy appendFloat (Fin x) s = adds ((if is_negative x then [ch_minus] else []) @ num_text ip fp) s
    \<and> WriteFloat32Lossy appendFloat (Fin x) s = WriteFloat64Lossy appendFloat (Fin x) s
    \<and> num_ok ip fp \<and> (fp = [] \<or> last fp \<noteq> ch_0) \<and> length fp \<le> 6 \<and> \<bar>decimal ip fp - magnitude x\<bar> < 1 / 10 ^ 6"
proof -
  obtain ip fp where l: "lossy_digits (lossy_units (magnitude x)) (if is_negative x then writeByte ch_minus s else s)
      = adds (num_text ip fp) (if is_negative x then writeByte ch_minus s else s)"
    "num_ok ip fp" "fp = [] \<or> last fp \<noteq> ch_0" "length fp \<le> 6" "decimal ip fp = of_nat (unat (lossy_units (magnitude x))) / 10 ^ 6"
    using lossy_digits_adds by blast
  have "decimal ip fp * 10 ^ 6 = of_nat (unat (lossy_units (magnitude x)))" using l(5) by simp
  then have "\<bar>decimal ip fp * 10 ^ 6 - magnitude x * 10 ^ 6\<bar> < 1" using lossy_units_error [OF assms] by simp
  then have "\<bar>(decimal ip fp - magnitude x) * 10 ^ 6\<bar> < 1" by (simp only: left_diff_distrib)
  then have "\<bar>decimal ip fp - magnitude x\<bar> * 10 ^ 6 < 1" unfolding abs_mult by simp
  then have "\<bar>decimal ip fp - magnitude x\<bar> < 1 / 10 ^ 6" by simp
  with l(1-4) assms(2) show ?thesis
    by (intro exI [of _ ip] exI [of _ fp]) (auto simp: WriteFloat64Lossy_def WriteFloat32Lossy_def float_neg_def stream_adds adds_def)
qed

text \<open>C30: a finite \<open>float64\<close> between a millionth and \<open>10 ^ 21\<close> in magnitude, or zero, is read back from what the codec
  writes for it, whatever the buffering, provided that the text \<open>strconv.AppendFloat\<close> gives is a decimal that parses to it.\<close>

theorem float64_round_trip:
  assumes "decimal_text appendFloat v" "s_buf (float64Codec_Encode appendFloat v s) = s_buf s @ w"
    and "wf_iter it" "Error it = None" "0 \<le> depth it" "depth it \<le> maxDepth" "captured it = None"
    and "list_all is_space ws" "pending it = ws @ w @ t # rest" "\<not> number_char t"
  shows "\<exists>it'. float64Codec_Decode old it = Some (v, it') \<and> consumes it (ws @ w) it' \<and> pending it' = t # rest"
proof -
  have w: "w = float_text appendFloat v" using assms(2) float64_writes [OF assms(1), of s] by (simp add: adds_def)
  show ?thesis unfolding w
    by (rule float64.reads [OF assms(1,3,4,5) _ assms(8) _ assms(10) lessI TrueI assms(7)]) (use assms(6,9) w in simp_all)
qed

section \<open>Witnesses\<close>

theorem lossy_writers_precision_witness:
  "\<exists>ip fp. WriteFloat64Lossy (\<lambda>x e n. []) (Fin (Float True (3 / 2))) (NewStream ConfigDefault None)
      = adds ((if is_negative (Float True (3 / 2)) then [ch_minus] else []) @ num_text ip fp) (NewStream ConfigDefault None)
    \<and> WriteFloat32Lossy (\<lambda>x e n. []) (Fin (Float True (3 / 2))) (NewStream ConfigDefault None)
      = WriteFloat64Lossy (\<lambda>x e n. []) (Fin (Float True (3 / 2))) (NewStream ConfigDefault None)
    \<and> num_ok ip fp \<and> (fp = [] \<or> last fp \<noteq> ch_0) \<and> length fp \<le> 6 \<and> \<bar>decimal ip fp - magnitude (Float True (3 / 2))\<bar> < 1 / 10 ^ 6"
  by (rule lossy_writers_precision) simp_all

theorem float64_round_trip_witness:
  "\<exists>it'. float64Codec_Decode NaN (ParseBytes ConfigDefault [0x20, 0x2D, 0x31, 0x2E, 0x35, 0x2C]) = Some (Fin (Float True (3 / 2)), it')
    \<and> consumes (ParseBytes ConfigDefault [0x20, 0x2D, 0x31, 0x2E, 0x35, 0x2C]) ([0x20] @ [0x2D, 0x31, 0x2E, 0x35]) it' \<and> pending it' = [0x2C]"
proof (rule float64_round_trip)
  have "ParseFloat [0x2D, 0x31, 0x2E, 0x35] 64 = Some (Float True (3 / 2))" by code_simp
  moreover have "round64 (1 / 10 ^ 6) \<le> 3 / 2 \<and> 3 / 2 < round64 (10 ^ 21)" by code_simp
  ultimately show "decimal_text (\<lambda>x e n. [0x2D, 0x31, 0x2E, 0x35]) (Fin (Float True (3 / 2)))" unfolding decimal_text_def
    by (intro exI [of _ "Float True (3 / 2)"] exI [of _ True] exI [of _ "[0x31]"] exI [of _ "[0x35]"])
      (simp add: num_text_def num_ok_def is_digit_def)
  show "s_buf (float64Codec_Encode (\<lambda>x e n. [0x2D, 0x31, 0x2E, 0x35]) (Fin (Float True (3 / 2))) (NewStream ConfigDefault None))
    = s_buf (NewStream ConfigDefault None) @ [0x2D, 0x31, 0x2E, 0x35]" by code_simp
qed code_simp+

end
