(* ===== verification/BinaryCodec.thy ===== *)
theory BinaryCodec
  imports GoTypes
begin

text \<open>
  \<open>extra/binary_as_string_codec.go\<close>: byte slices as string literals in which the bytes outside a safe set are
  written as two backslashes, an x and two hexadecimal digits.

  \<open>bin_text\<close> is the encoding the format intends. The writer departs from it on some slices: \<open>faithful\<close> says on
  which it does not.
\<close>

section \<open>The tables\<close>

text \<open>The file has its own copies of the tables of \<open>stream_str.go\<close>.\<close>

definition binary_safeSet :: "byte \<Rightarrow> bool" where
  "binary_safeSet c \<longleftrightarrow> ch_space \<le> c \<and> c < RuneSelf \<and> c \<noteq> ch_quote \<and> c \<noteq> ch_bslash"

definition hex :: bytes where
  "hex = [0x30, 0x31, 0x32, 0x33, 0x34, 0x35, 0x36, 0x37, 0x38, 0x39, 0x61, 0x62, 0x63, 0x64, 0x65, 0x66]"

section \<open>Writing\<close>

text \<open>\<open>for i, c = range s\<close>: the variable \<open>i\<close> keeps its last value when the loop ends. \<open>k\<close> counts the iterations.\<close>

fun writeBytes_loop :: "bytes \<Rightarrow> nat \<Rightarrow> nat \<Rightarrow> bytes \<Rightarrow> nat \<times> bytes" where
  "writeBytes_loop [] k i space = (i, space)"
| "writeBytes_loop (c # cs) k i space =
     (if c < RuneSelf \<and> binary_safeSet c then writeBytes_loop cs (Suc k) k (space @ [c]) else (k, space))"

fun writeBytesSlowPath_loop :: "bytes \<Rightarrow> bytes \<Rightarrow> nat \<Rightarrow> nat \<Rightarrow> bytes \<Rightarrow> nat \<times> bytes" where
  "writeBytesSlowPath_loop s [] i start space = (start, space)"
| "writeBytesSlowPath_loop s (b # bs) i start space =
     (let escape = [ch_bslash, ch_bslash, 0x78, byte_at hex (uint (drop_bit 4 b)), byte_at hex (uint (b AND 0xF))] in
      if RuneSelf \<le> b then writeBytesSlowPath_loop s bs (Suc i) (Suc i) (space @ escape)
      else if binary_safeSet b then writeBytesSlowPath_loop s bs (Suc i) start space
      else
        let space1 = (if start < i then space @ gslice s (int start) (int i) else space)
        in writeBytesSlowPath_loop s bs (Suc i) (Suc i) (space1 @ escape))"

definition writeBytesSlowPath :: "bytes \<Rightarrow> bytes \<Rightarrow> bytes" where
  "writeBytesSlowPath space s =
     (case writeBytesSlowPath_loop s s 0 0 space of (start, space1) \<Rightarrow>
      let space2 = (if start < length s then space1 @ drop start s else space1)
      in space2 @ [ch_quote])"

definition writeBytes :: "bytes \<Rightarrow> bytes \<Rightarrow> bytes" where
  "writeBytes space s =
     (case writeBytes_loop s 0 0 (space @ [ch_quote]) of (i, space1) \<Rightarrow>
      if int i = int (length s) - 1 then space1 @ [ch_quote]
      else writeBytesSlowPath space1 (drop i s))"

definition binaryAsStringCodec_Encode :: "bytes option encoder" where
  "binaryAsStringCodec_Encode v s = SetBuffer (writeBytes (s_buf s) (case v of None \<Rightarrow> [] | Some b \<Rightarrow> b)) s"

definition binaryAsStringCodec_IsEmpty :: "bytes option \<Rightarrow> bool" where
  "binaryAsStringCodec_IsEmpty v \<longleftrightarrow> (case v of None \<Rightarrow> True | Some b \<Rightarrow> b = [])"

section \<open>Reading\<close>

definition readHex :: "iterator \<Rightarrow> byte \<Rightarrow> byte \<Rightarrow> byte \<times> iterator" where
  "readHex it b1 b2 =
     (let bad = (\<lambda>b. ReportError ''read hex'' (''expects 0~9 or a~f, but found '' @ byte_str b) it) in
      if ch_0 \<le> b1 \<and> b1 \<le> ch_9 \<or> ch_a \<le> b1 \<and> b1 \<le> ch_f then
        let ret = (if ch_0 \<le> b1 \<and> b1 \<le> ch_9 then b1 - ch_0 else b1 - ch_a + 10) * 16 in
        if ch_0 \<le> b2 \<and> b2 \<le> ch_9 then (ret + (b2 - ch_0), it)
        else if ch_a \<le> b2 \<and> b2 \<le> ch_f then (ret + (b2 - ch_a + 10), it)
        else (0, bad b2)
      else (0, bad b1))"

text \<open>The loop over the raw bytes. Outside, \<open>None\<close> is the panic of an index out of range; inside, it is the early
  return, which leaves the variable as it was.\<close>

abbreviation (input) only_x :: string where
  "only_x \<equiv> [CHR 0x5C, CHR 0x5C] @ ''x is only supported escape''"

fun binary_Decode_loop :: "bytes \<Rightarrow> bytes \<Rightarrow> iterator \<Rightarrow> (bytes option \<times> iterator) option" where
  "binary_Decode_loop [] bs it = Some (Some bs, it)"
| "binary_Decode_loop (b # r1) bs it =
     (if b = ch_bslash then
        (case r1 of
           [] \<Rightarrow> None
         | b2 # r2 \<Rightarrow>
             if b2 \<noteq> ch_bslash then Some (None, ReportError ''decode binary as string'' only_x it)
             else
               (case r2 of
                  [] \<Rightarrow> None
                | b3 # r3 \<Rightarrow>
                    if b3 \<noteq> 0x78 then Some (None, ReportError ''decode binary as string'' only_x it)
                    else
                      (case r3 of
                         b4 # b5 # r5 \<Rightarrow> (case readHex it b4 b5 of (h, it1) \<Rightarrow> binary_Decode_loop r5 (bs @ [h]) it1)
                       | _ \<Rightarrow> None)))
      else binary_Decode_loop r1 (bs @ [b]) it)"

definition binaryAsStringCodec_Decode :: "bytes option decoder" where
  "binaryAsStringCodec_Decode old it =
     (case ReadRawString it of (raw, it1) \<Rightarrow>
      map_option (\<lambda>(bs, it2). (case bs of None \<Rightarrow> old | Some b \<Rightarrow> Some b, it2))
        (binary_Decode_loop (fst (RawString_Bytes (buf it1) raw)) [] it1))"

section \<open>The extension\<close>

definition binaryType :: gotype where
  "binaryType = SliceType ''[]uint8'' (Basic Uint8 ''uint8'')"

definition BinaryAsStringExtension_CreateEncoder :: "gotype \<Rightarrow> gencoder option" where
  "BinaryAsStringExtension_CreateEncoder typ =
     (if typ = binaryType
      then Some (val_encoder to_bytes binaryAsStringCodec_Encode binaryAsStringCodec_IsEmpty) else None)"

definition BinaryAsStringExtension_CreateDecoder :: "gotype \<Rightarrow> gdecoder option" where
  "BinaryAsStringExtension_CreateDecoder typ =
     (if typ = binaryType then Some (\<lambda>n. val_decoder of_bytes to_bytes binaryAsStringCodec_Decode) else None)"

definition BinaryAsStringExtension :: extension where
  "BinaryAsStringExtension = DummyExtension\<lparr>CreateEncoder := BinaryAsStringExtension_CreateEncoder,
     CreateDecoder := BinaryAsStringExtension_CreateDecoder\<rparr>"

section \<open>What the writer writes\<close>

definition hex_esc :: "byte \<Rightarrow> bytes" where
  "hex_esc b = [ch_bslash, ch_bslash, 0x78, byte_at hex (uint (drop_bit 4 b)), byte_at hex (uint (b AND 0xF))]"

definition bin_text :: "bytes \<Rightarrow> bytes" where
  "bin_text s = concat (map (\<lambda>b. if binary_safeSet b then [b] else hex_esc b) s)"

definition faithful :: "bytes \<Rightarrow> bool" where
  "faithful s \<longleftrightarrow> length (dropWhile binary_safeSet s) \<noteq> 1
     \<and> successively (\<lambda>a b. binary_safeSet a \<longrightarrow> b < RuneSelf) (dropWhile binary_safeSet s)"

lemma bin_text_simps [simp]:
  "bin_text [] = []" "bin_text (b # bs) = (if binary_safeSet b then [b] else hex_esc b) @ bin_text bs"
  by (simp_all add: bin_text_def)

lemma binary_safe_ascii: "binary_safeSet b \<Longrightarrow> b < RuneSelf"
  by (simp add: binary_safeSet_def)

lemma bin_text_safe: "list_all binary_safeSet s \<Longrightarrow> bin_text (s @ t) = s @ bin_text t"
  by (induction s) auto

text \<open>The contents the slow path writes, with the run of safe bytes not yet copied.\<close>

fun kept :: "bytes \<Rightarrow> bytes \<Rightarrow> bytes" where
  "kept pend [] = pend"
| "kept pend (b # bs) =
     (if RuneSelf \<le> b then hex_esc b @ kept [] bs
      else if binary_safeSet b then kept (pend @ [b]) bs
      else pend @ hex_esc b @ kept [] bs)"

lemma writeBytesSlowPath_loop_kept:
  assumes "s = pre @ bs" "i = length pre" "start \<le> i" "writeBytesSlowPath_loop s bs i start space = (start', space')"
  shows "space' @ drop start' s = space @ kept (drop start pre) bs"
  using assms
proof (induction bs arbitrary: pre i start space)
  case (Cons b bs)
  have g: "gslice s (int start) (int i) = drop start pre" using Cons.prems by (simp add: gslice_def)
  have s: "s = (pre @ [b]) @ bs" "Suc i = length (pre @ [b])" using Cons.prems by simp_all
  consider "RuneSelf \<le> b" | "\<not> RuneSelf \<le> b" "binary_safeSet b" | "\<not> RuneSelf \<le> b" "\<not> binary_safeSet b" by blast
  then show ?case
  proof cases
    case 1
    with Cons.prems(4) Cons.IH [OF s order.refl] Cons.prems(2) show ?thesis by (simp add: hex_esc_def Let_def)
  next
    case 2
    with Cons.prems(4) Cons.IH [OF s, of start space] Cons.prems(2,3) show ?thesis by simp
  next
    case 3
    with Cons.prems(4) Cons.IH [OF s order.refl] Cons.prems(2,3) g show ?thesis
      by (simp add: hex_esc_def Let_def split: if_splits)
  qed
qed simp

lemma writeBytesSlowPath_kept: "writeBytesSlowPath space s = space @ kept [] s @ [ch_quote]"
proof -
  obtain start' space' where l: "writeBytesSlowPath_loop s s 0 0 space = (start', space')" by force
  from writeBytesSlowPath_loop_kept [OF _ _ _ l, of "[]"] have "space' @ drop start' s = space @ kept [] s" by simp
  with l show ?thesis by (auto simp: writeBytesSlowPath_def)
qed

lemma writeBytes_loop_runs:
  "writeBytes_loop cs k i space =
     (if list_all binary_safeSet cs then (if cs = [] then i else k + length cs - 1)
      else k + length (takeWhile binary_safeSet cs), space @ takeWhile binary_safeSet cs)"
  by (induction cs arbitrary: k i space) (auto simp: binary_safe_ascii)

lemma writeBytes_kept:
  "writeBytes space s = space @ ch_quote # takeWhile binary_safeSet s
     @ (if length (dropWhile binary_safeSet s) = 1 then [] else kept [] (dropWhile binary_safeSet s)) @ [ch_quote]"
proof -
  let ?p = "takeWhile binary_safeSet s" and ?r = "dropWhile binary_safeSet s"
  have len: "length s = length ?p + length ?r" by (metis length_append takeWhile_dropWhile_id)
  show ?thesis
  proof (cases "list_all binary_safeSet s")
    case True
    then have pr: "?p = s" "?r = []" by (auto simp: list_all_iff)
    have "writeBytes_loop s 0 0 (space @ [ch_quote]) = (length s - 1, (space @ [ch_quote]) @ s)"
      unfolding writeBytes_loop_runs pr using True by simp
    then show ?thesis unfolding pr
      by (cases s) (simp_all add: writeBytes_def writeBytesSlowPath_kept del: writeBytes_loop.simps(2))
  next
    case False
    moreover have "drop (length ?p) s = ?r" by (metis append_eq_conv_conj takeWhile_dropWhile_id)
    ultimately show ?thesis using len by (auto simp: writeBytes_def writeBytes_loop_runs writeBytesSlowPath_kept)
  qed
qed

lemma length_kept: "length (kept pend bs) \<le> length pend + length (bin_text bs)"
proof (induction bs arbitrary: pend)
  case (Cons b bs)
  show ?case using Cons [of "[]"] Cons [of "pend @ [b]"] by (auto simp: hex_esc_def dest: binary_safe_ascii)
qed simp

lemma kept_exact:
  "kept pend bs = pend @ bin_text bs \<longleftrightarrow> (pend \<noteq> [] \<and> bs \<noteq> [] \<longrightarrow> hd bs < RuneSelf)
     \<and> successively (\<lambda>a b. binary_safeSet a \<longrightarrow> b < RuneSelf) bs"
proof (induction bs arbitrary: pend)
  case (Cons b bs)
  consider "RuneSelf \<le> b" | "\<not> RuneSelf \<le> b" "binary_safeSet b" | "\<not> RuneSelf \<le> b" "\<not> binary_safeSet b" by blast
  then show ?case
  proof cases
    case 1
    then have b: "\<not> binary_safeSet b" using binary_safe_ascii by fastforce
    have "kept pend (b # bs) = pend @ bin_text (b # bs) \<longrightarrow> pend = []"
    proof
      assume e: "kept pend (b # bs) = pend @ bin_text (b # bs)"
      have "length (kept pend (b # bs)) \<le> length (bin_text (b # bs))" using 1 b length_kept [of "[]" bs] by simp
      with e show "pend = []" by simp
    qed
    with 1 b Cons [of "[]"] show ?thesis by (auto simp: successively_Cons)
  next
    case 2
    with Cons [of "pend @ [b]"] show ?thesis by (auto simp: successively_Cons)
  next
    case 3
    with Cons [of "[]"] show ?thesis by (auto simp: successively_Cons)
  qed
qed simp

section \<open>Reading it back\<close>

lemma readHex_esc: "readHex it (byte_at hex (uint (drop_bit 4 b))) (byte_at hex (uint (b AND 0xF))) = (b, it)"
  by (rule all_bytes [of "\<lambda>b. readHex it (byte_at hex (uint (drop_bit 4 b))) (byte_at hex (uint (b AND 0xF))) = (b, it)"]) code_simp

lemma binary_Decode_loop_text:
  "binary_Decode_loop (bin_text s @ r) bs it = binary_Decode_loop r (bs @ s) it"
proof (induction s arbitrary: bs)
  case (Cons b s)
  then show ?case using readHex_esc [of it b] by (auto simp: hex_esc_def binary_safeSet_def)
qed simp

definition bin_plain :: "byte \<Rightarrow> bool" where
  "bin_plain c \<longleftrightarrow> ch_space \<le> c \<and> c \<noteq> ch_quote \<and> c \<noteq> ch_bslash"

lemma hex_plain: "bin_plain (byte_at hex (uint (drop_bit 4 b))) \<and> bin_plain (byte_at hex (uint (b AND 0xF)))" for b :: byte
  by (rule all_bytes [of "\<lambda>b. bin_plain (byte_at hex (uint (drop_bit 4 b))) \<and> bin_plain (byte_at hex (uint (b AND 0xF)))"]) code_simp

lemma raw_str_plain: "bin_plain c \<Longrightarrow> raw_str False h (c # r) = raw_prefix [c] (raw_str False h r)"
  by (auto simp: bin_plain_def)

lemma raw_bin_text: "raw_str False h (bin_text s @ r) = raw_prefix (bin_text s) (raw_str False (h \<or> \<not> list_all binary_safeSet s) r)"
proof (induction s arbitrary: h)
  case (Cons b s)
  show ?case
  proof (cases "binary_safeSet b")
    case True
    then have "bin_plain b" by (simp add: binary_safeSet_def bin_plain_def)
    with True Cons show ?thesis by (simp add: raw_str_plain del: raw_str.simps)
  next
    case False
    moreover have "bin_plain 0x78" by (simp add: bin_plain_def)
    moreover have "raw_str False h (ch_bslash # ch_bslash # t) = raw_prefix [ch_bslash, ch_bslash] (raw_str False True t)" for t
      by (simp add: simple_escape_def)
    ultimately show ?thesis using Cons [of True] hex_plain [of b] by (simp add: hex_esc_def raw_str_plain del: raw_str.simps)
  qed
qed (simp add: raw_prefix_def option.map_ident case_prod_beta')

text \<open>A literal with such contents is read by the loop.\<close>

lemma binary_Decode_literal:
  assumes "wf_iter it" "Error it = None" "dropWhile is_space (pending it) = ch_quote # bin_text s @ r @ rest"
    and "\<And>h. \<exists>h'. raw_str False h (r @ rest) = Some (r, h', rest)"
  shows "\<exists>it1 xs. binaryAsStringCodec_Decode old it
      = map_option (\<lambda>(bs, it2). (case bs of None \<Rightarrow> old | Some b \<Rightarrow> Some b, it2)) (binary_Decode_loop (gslice r 0 (int (length r) - 1)) s it1)
    \<and> consumes it xs it1 \<and> pending it1 = rest"
proof -
  obtain raw it1 where rs: "ReadRawString it = (raw, it1)" by force
  obtain h' where "raw_str False False (bin_text s @ r @ rest) = Some (bin_text s @ r, h', rest)"
    using assms(4) [of "\<not> list_all binary_safeSet s"] by (auto simp: raw_bin_text simp del: raw_str.simps)
  with ReadRawString_quote [OF assms(1-3)] rs have
    1: "raw_bytes (buf it1) raw = bin_text s @ r" "\<exists>xs. consumes it xs it1" "pending it1 = rest" by (auto simp: raw_reads_def)
  have "r \<noteq> []" using assms(4) [of False] by (cases r; cases rest) (auto simp: raw_prefix_def split: if_splits)
  then have "fst (RawString_Bytes (buf it1) raw) = bin_text s @ gslice r 0 (int (length r) - 1)"
    using 1(1) by (cases r) (auto simp: RawString_Bytes_def Let_def gslice_def nat_add_distrib)
  with 1 rs binary_Decode_loop_text [of s _ "[]" it1] show ?thesis by (auto simp: binaryAsStringCodec_Decode_def)
qed

section \<open>Properties\<close>

text \<open>C38: the writer appends the intended literal exactly on the faithful slices: the first byte that needs an
  escape is not the last byte of the slice, and from there on no byte above 127 follows a safe one.\<close>

theorem binary_writes_exactly:
  "writeBytes space s = space @ ch_quote # bin_text s @ [ch_quote] \<longleftrightarrow> faithful s"
proof -
  let ?p = "takeWhile binary_safeSet s" and ?r = "dropWhile binary_safeSet s"
  have "list_all binary_safeSet ?p" by (auto simp: list_all_iff dest: set_takeWhileD)
  then have t: "bin_text s = ?p @ bin_text ?r" using bin_text_safe [of ?p ?r] by simp
  have "bin_text ?r \<noteq> []" if "length ?r = 1"
    using that by (cases ?r) (auto simp: hex_esc_def)
  then show ?thesis using kept_exact [of "[]" ?r] by (auto simp: writeBytes_kept t faithful_def)
qed

text \<open>C39: a faithful slice is read back from what was written for it, whatever follows.\<close>

theorem binary_round_trip:
  assumes "faithful s" "wf_iter it" "Error it = None"
    and "pending it = s_buf (binaryAsStringCodec_Encode (Some s) st) @ rest" "s_buf st = []"
  shows "\<exists>it'. binaryAsStringCodec_Decode old it = Some (Some s, it') \<and> Error it' = None \<and> pending it' = rest"
proof -
  have "writeBytes [] s = ch_quote # bin_text s @ [ch_quote]" using assms(1) binary_writes_exactly [of "[]" s] by simp
  then have "dropWhile is_space (pending it) = ch_quote # bin_text s @ [ch_quote] @ rest"
    using assms(4,5) by (simp add: binaryAsStringCodec_Encode_def SetBuffer_def is_space_def)
  from binary_Decode_literal [OF assms(2,3) this, of old] obtain it1 xs where
    1: "binaryAsStringCodec_Decode old it = Some (Some s, it1)" "consumes it xs it1" "pending it1 = rest"
    by (auto simp: gslice_def)
  with consumes_Error [OF 1(2)] assms(3) show ?thesis by simp
qed

text \<open>Bytes are lost elsewhere. An escaped byte at the end of a slice that is otherwise safe is not written, and
  safe bytes between two escaped ones are not written when the second is above 127: different slices have the
  same text.\<close>

lemma binary_loses_bytes:
  assumes "list_all binary_safeSet p" "\<not> binary_safeSet b" "list_all binary_safeSet q" "RuneSelf \<le> c"
  shows "writeBytes space (p @ [b]) = writeBytes space p
    \<and> writeBytes space (p @ b # q @ [c]) = writeBytes space (p @ [b, c])"
proof -
  have w: "takeWhile binary_safeSet (p @ b # r) = p" "dropWhile binary_safeSet (p @ b # r) = b # r" for r
    using assms(1,2) by (auto simp: list_all_iff takeWhile_append dropWhile_append)
  have w0: "takeWhile binary_safeSet p = p" "dropWhile binary_safeSet p = []" using assms(1) by (auto simp: list_all_iff)
  have k: "kept pend (q @ [c]) = hex_esc c" for pend
    using assms(3,4) by (induction q arbitrary: pend) (auto dest: binary_safe_ascii)
  have c: "kept pend [c] = hex_esc c" for pend using assms(4) by simp
  show ?thesis unfolding writeBytes_kept w w0 using assms(2) k c by auto
qed

text \<open>The reader panics on a literal that ends in an escaped backslash, whatever it holds before: it indexes
  past the end.\<close>

lemma binary_Decode_panics:
  assumes "wf_iter it" "Error it = None"
    and "pending it = ch_quote # bin_text s @ [ch_bslash, ch_bslash, ch_quote] @ rest"
  shows "binaryAsStringCodec_Decode old it = None"
proof -
  have "raw_str False h ([ch_bslash, ch_bslash, ch_quote] @ rest) = Some ([ch_bslash, ch_bslash, ch_quote], True, rest)" for h
    by (simp add: simple_escape_def)
  then have "\<exists>h'. raw_str False h ([ch_bslash, ch_bslash, ch_quote] @ rest) = Some ([ch_bslash, ch_bslash, ch_quote], h', rest)" for h
    by blast
  moreover have "dropWhile is_space (pending it) = ch_quote # bin_text s @ [ch_bslash, ch_bslash, ch_quote] @ rest"
    using assms(3) by (simp add: is_space_def)
  ultimately show ?thesis using binary_Decode_literal [OF assms(1,2), of s "[ch_bslash, ch_bslash, ch_quote]" rest old]
    by (auto simp: gslice_def)
qed

theorem binary_round_trip_witness:
  "\<exists>it'. binaryAsStringCodec_Decode None (ParseBytes ConfigDefault (s_buf (binaryAsStringCodec_Encode (Some [0x61, 1, 0x80, 0x62, 2])
      (NewStream ConfigDefault None)) @ [ch_comma])) = Some (Some [0x61, 1, 0x80, 0x62, 2], it') \<and> Error it' = None \<and> pending it' = [ch_comma]"
proof -
  have "s_buf (NewStream ConfigDefault None) = []" by (simp add: NewStream_def)
  then show ?thesis by (rule binary_round_trip [rotated 4]) (code_simp, simp_all add: ParseBytes_start)
qed

lemma binary_loses_bytes_witness:
  "writeBytes [] ([0x61] @ [1]) = writeBytes [] [0x61] \<and> writeBytes [] ([0x61] @ 1 # [0x62] @ [0x80]) = writeBytes [] ([0x61] @ [1, 0x80])"
  by (rule binary_loses_bytes) code_simp+

lemma binary_Decode_panics_witness:
  "binaryAsStringCodec_Decode None (ParseBytes ConfigDefault (ch_quote # bin_text [0x61] @ [ch_bslash, ch_bslash, ch_quote] @ [])) = None"
  by (rule binary_Decode_panics [OF _ _ conjunct2 [OF conjunct2 [OF conjunct2 [OF conjunct2 [OF ParseBytes_start]]]]])
    (simp_all add: ParseBytes_start)

end
