(* ===== verification/FuzzyDecoder.thy ===== *)
theory FuzzyDecoder
  imports AnyValue Descriptor
begin

text \<open>
  \<open>extra/fuzzy_decoder.go\<close>: decoders that turn numbers, strings, booleans and null into strings and numbers, and read an
  array where a struct or a map is expected.

  The ten closures that \<open>RegisterFuzzyDecoders\<close> passes differ in the type only; \<open>fuzzy_fun\<close> is their common body. The
  width of \<open>int\<close> and \<open>uint\<close> is that of the readers, 32 or 64. A float is a finite number; what the conversion of a float to
  a type that cannot hold it gives is the parameter \<open>out_of_range\<close> of \<open>runtime\<close>, whose iterators serve as new ones too.
\<close>

section \<open>Strings\<close>

text \<open>\<open>iter.ReadVal(&number)\<close>.\<close>

definition read_number :: "iterator \<Rightarrow> (bytes \<times> iterator) option" where
  "read_number it =
     (case ReadVal jsonNumberCodec_Decode (Pointer []) it of
        Some (Pointer number, it1) \<Rightarrow> Some (number, it1)
      | _ \<Rightarrow> None)"

definition fuzzyStringDecoder_Decode :: "nat \<Rightarrow> bytes decoder" where
  "fuzzyStringDecoder_Decode n old it =
     (case WhatIsNext it of (valueType, it1) \<Rightarrow>
      if valueType = NumberValue then read_number it1
      else if valueType = StringValue then Some (ReadString it1)
      else if valueType = NilValue then map_option (\<lambda>it2. ([], it2)) (Skip n it1)
      else Some (old, ReportError ''fuzzyStringDecoder'' ''not number or string'' it1))"

section \<open>Integers\<close>

text \<open>The error of the new iterator, unless it is the end of its input.\<close>

definition pass_error :: "iterator \<Rightarrow> iterator \<Rightarrow> iterator" where
  "pass_error newIter it =
     (if Error newIter \<noteq> None \<and> Error newIter \<noteq> Some EOF then it\<lparr>Error := Error newIter\<rparr> else it)"

definition fuzzyIntegerDecoder_Decode :: "iterator \<Rightarrow> (bool \<Rightarrow> 'v \<Rightarrow> iterator \<Rightarrow> 'v \<times> iterator) \<Rightarrow> nat \<Rightarrow> 'v decoder" where
  "fuzzyIntegerDecoder_Decode pooled fun n old it =
     (case WhatIsNext it of (valueType, it1) \<Rightarrow>
      map_option (\<lambda>(str, it2).
        let str = (if length str = 0 then [ch_0] else str);
            newIter = BorrowIterator pooled str;
            isFloat = ch_dot \<in> set str
        in case fun isFloat old newIter of (v, newIter1) \<Rightarrow> (v, pass_error newIter1 it2))
       (if valueType = NumberValue then read_number it1
        else if valueType = StringValue then Some (ReadString it1)
        else if valueType = BoolValue then
          (case ReadBool it1 of (b, it2) \<Rightarrow> Some (if b then [0x31] else [ch_0], it2))
        else if valueType = NilValue then map_option (\<lambda>it2. ([ch_0], it2)) (Skip n it1)
        else Some ([], ReportError ''fuzzyIntegerDecoder'' ''not number or string'' it1)))"

text \<open>\<open>lo\<close> and \<open>hi\<close> are the bounds of the type as \<open>float64\<close>: of the 64-bit types the upper one is rounded up.\<close>

definition fuzzy_fun :: "runtime \<Rightarrow> string \<Rightarrow> rat \<Rightarrow> rat \<Rightarrow> int \<Rightarrow> int \<Rightarrow> (iterator \<Rightarrow> 'a::len word \<times> iterator)
    \<Rightarrow> bool \<Rightarrow> 'a word \<Rightarrow> iterator \<Rightarrow> 'a word \<times> iterator" where
  "fuzzy_fun rt op lo hi least greatest readInt isFloat old it =
     (if isFloat then
        (case ReadFloat64 it of (val, it1) \<Rightarrow>
         if float_val val > hi \<or> float_val val < lo then (old, ReportError op ''exceed range'' it1)
         else (word_of_int (float_int rt least greatest val), it1))
      else readInt it)"

definition fuzzy_int :: "runtime \<Rightarrow> bool \<Rightarrow> u64 \<Rightarrow> iterator \<Rightarrow> u64 \<times> iterator" where
  "fuzzy_int rt = fuzzy_fun rt ''fuzzy decode int'' (- (2 ^ 63)) (2 ^ 63) (- (2 ^ 63)) (2 ^ 63 - 1) (ReadInt 64)"

definition fuzzy_uint :: "runtime \<Rightarrow> bool \<Rightarrow> u64 \<Rightarrow> iterator \<Rightarrow> u64 \<times> iterator" where
  "fuzzy_uint rt = fuzzy_fun rt ''fuzzy decode uint'' 0 (2 ^ 64) 0 (2 ^ 64 - 1) (ReadUint 64)"

definition fuzzy_int8 :: "runtime \<Rightarrow> bool \<Rightarrow> byte \<Rightarrow> iterator \<Rightarrow> byte \<times> iterator" where
  "fuzzy_int8 rt = fuzzy_fun rt ''fuzzy decode int8'' (- 128) 127 (- 128) 127 ReadInt8"

definition fuzzy_uint8 :: "runtime \<Rightarrow> bool \<Rightarrow> byte \<Rightarrow> iterator \<Rightarrow> byte \<times> iterator" where
  "fuzzy_uint8 rt = fuzzy_fun rt ''fuzzy decode uint8'' 0 255 0 255 ReadUint8"

definition fuzzy_int16 :: "runtime \<Rightarrow> bool \<Rightarrow> u16 \<Rightarrow> iterator \<Rightarrow> u16 \<times> iterator" where
  "fuzzy_int16 rt = fuzzy_fun rt ''fuzzy decode int16'' (- 32768) 32767 (- 32768) 32767 ReadInt16"

definition fuzzy_uint16 :: "runtime \<Rightarrow> bool \<Rightarrow> u16 \<Rightarrow> iterator \<Rightarrow> u16 \<times> iterator" where
  "fuzzy_uint16 rt = fuzzy_fun rt ''fuzzy decode uint16'' 0 65535 0 65535 ReadUint16"

definition fuzzy_int32 :: "runtime \<Rightarrow> bool \<Rightarrow> u32 \<Rightarrow> iterator \<Rightarrow> u32 \<times> iterator" where
  "fuzzy_int32 rt = fuzzy_fun rt ''fuzzy decode int32'' (- 2147483648) 2147483647 (- 2147483648) 2147483647 ReadInt32"

definition fuzzy_uint32 :: "runtime \<Rightarrow> bool \<Rightarrow> u32 \<Rightarrow> iterator \<Rightarrow> u32 \<times> iterator" where
  "fuzzy_uint32 rt = fuzzy_fun rt ''fuzzy decode uint32'' 0 4294967295 0 4294967295 ReadUint32"

definition fuzzy_int64 :: "runtime \<Rightarrow> bool \<Rightarrow> u64 \<Rightarrow> iterator \<Rightarrow> u64 \<times> iterator" where
  "fuzzy_int64 rt = fuzzy_fun rt ''fuzzy decode int64'' (- (2 ^ 63)) (2 ^ 63) (- (2 ^ 63)) (2 ^ 63 - 1) ReadInt64"

definition fuzzy_uint64 :: "runtime \<Rightarrow> bool \<Rightarrow> u64 \<Rightarrow> iterator \<Rightarrow> u64 \<times> iterator" where
  "fuzzy_uint64 rt = fuzzy_fun rt ''fuzzy decode uint64'' 0 (2 ^ 64) 0 (2 ^ 64 - 1) ReadUint64"

section \<open>Floats\<close>

definition fuzzyFloat32Decoder_Decode :: "iterator \<Rightarrow> nat \<Rightarrow> go_float decoder" where
  "fuzzyFloat32Decoder_Decode pooled n old it =
     (case WhatIsNext it of (valueType, it1) \<Rightarrow>
      if valueType = NumberValue then Some (ReadFloat32 it1)
      else if valueType = StringValue then
        (case ReadString it1 of (str, it2) \<Rightarrow>
         case ReadFloat32 (BorrowIterator pooled str) of (v, newIter) \<Rightarrow> Some (v, pass_error newIter it2))
      else if valueType = BoolValue then
        (case ReadBool it1 of (b, it2) \<Rightarrow> Some (if b then Float False 1 else float_zero, it2))
      else if valueType = NilValue then map_option (\<lambda>it2. (float_zero, it2)) (Skip n it1)
      else Some (old, ReportError ''fuzzyFloat32Decoder'' ''not number or string'' it1))"

definition fuzzyFloat64Decoder_Decode :: "iterator \<Rightarrow> nat \<Rightarrow> go_float decoder" where
  "fuzzyFloat64Decoder_Decode pooled n old it =
     (case WhatIsNext it of (valueType, it1) \<Rightarrow>
      if valueType = NumberValue then Some (ReadFloat64 it1)
      else if valueType = StringValue then
        (case ReadString it1 of (str, it2) \<Rightarrow>
         case ReadFloat64 (BorrowIterator pooled str) of (v, newIter) \<Rightarrow> Some (v, pass_error newIter it2))
      else if valueType = BoolValue then
        (case ReadBool it1 of (b, it2) \<Rightarrow> Some (if b then Float False 1 else float_zero, it2))
      else if valueType = NilValue then map_option (\<lambda>it2. (float_zero, it2)) (Skip n it1)
      else Some (old, ReportError ''fuzzyFloat64Decoder'' ''not number or string'' it1))"

section \<open>Arrays for structs and maps\<close>

definition tolerateEmptyArrayDecoder_Decode :: "iterator \<Rightarrow> 'v decoder \<Rightarrow> nat \<Rightarrow> 'v decoder" where
  "tolerateEmptyArrayDecoder_Decode pooled valDecoder n old it =
     (case WhatIsNext it of (valueType, it1) \<Rightarrow>
      if valueType = ArrayValue then
        Option.bind (Skip n it1) (\<lambda>it2.
          map_option (\<lambda>(v, newIter). (v, it2)) (valDecoder old (BorrowIterator pooled [ch_lbrace, ch_rbrace])))
      else valDecoder old it1)"

definition tolerateEmptyArrayExtension_DecorateDecoder :: "iterator \<Rightarrow> gotype \<Rightarrow> gdecoder \<Rightarrow> gdecoder" where
  "tolerateEmptyArrayExtension_DecorateDecoder pooled typ decoder =
     (if Kind typ = Struct \<or> Kind typ = Map then (\<lambda>n. tolerateEmptyArrayDecoder_Decode pooled (decoder n) n) else decoder)"

definition tolerateEmptyArrayExtension :: "iterator \<Rightarrow> extension" where
  "tolerateEmptyArrayExtension pooled =
     DummyExtension\<lparr>DecorateDecoder := tolerateEmptyArrayExtension_DecorateDecoder pooled\<rparr>"

section \<open>Registration\<close>

text \<open>\<open>float_gval\<close> and \<open>gval_float\<close> are the values of the float types, which are parameters of the dispatch.\<close>

definition RegisterFuzzyDecoders ::
    "runtime \<Rightarrow> iterator \<Rightarrow> (go_float \<Rightarrow> gval) \<Rightarrow> (gval \<Rightarrow> go_float) \<Rightarrow> ctx \<Rightarrow> ctx" where
  "RegisterFuzzyDecoders rt pooled float_gval gval_float c =
     foldl (\<lambda>c (typ, decoder). RegisterTypeDecoder typ decoder c) (RegisterGlobalExtension (tolerateEmptyArrayExtension pooled) c)
       [(''string'', \<lambda>n. val_decoder VString to_string (fuzzyStringDecoder_Decode n)),
        (''float32'', \<lambda>n. val_decoder float_gval gval_float (fuzzyFloat32Decoder_Decode pooled n)),
        (''float64'', \<lambda>n. val_decoder float_gval gval_float (fuzzyFloat64Decoder_Decode pooled n)),
        (''int'', \<lambda>n. val_decoder V64 to_64 (fuzzyIntegerDecoder_Decode pooled (fuzzy_int rt) n)),
        (''uint'', \<lambda>n. val_decoder V64 to_64 (fuzzyIntegerDecoder_Decode pooled (fuzzy_uint rt) n)),
        (''int8'', \<lambda>n. val_decoder V8 to_8 (fuzzyIntegerDecoder_Decode pooled (fuzzy_int8 rt) n)),
        (''uint8'', \<lambda>n. val_decoder V8 to_8 (fuzzyIntegerDecoder_Decode pooled (fuzzy_uint8 rt) n)),
        (''int16'', \<lambda>n. val_decoder V16 to_16 (fuzzyIntegerDecoder_Decode pooled (fuzzy_int16 rt) n)),
        (''uint16'', \<lambda>n. val_decoder V16 to_16 (fuzzyIntegerDecoder_Decode pooled (fuzzy_uint16 rt) n)),
        (''int32'', \<lambda>n. val_decoder V32 to_32 (fuzzyIntegerDecoder_Decode pooled (fuzzy_int32 rt) n)),
        (''uint32'', \<lambda>n. val_decoder V32 to_32 (fuzzyIntegerDecoder_Decode pooled (fuzzy_uint32 rt) n)),
        (''int64'', \<lambda>n. val_decoder V64 to_64 (fuzzyIntegerDecoder_Decode pooled (fuzzy_int64 rt) n)),
        (''uint64'', \<lambda>n. val_decoder V64 to_64 (fuzzyIntegerDecoder_Decode pooled (fuzzy_uint64 rt) n))]"

section \<open>What is converted\<close>

text \<open>The text that is read as a number, for a JSON text that is no array and no object.\<close>

fun fuzzy_text :: "bytes \<Rightarrow> bytes" where
  "fuzzy_text [] = []"
| "fuzzy_text (h # r) =
     (if h = ch_quote then (if name_of r = [] then [ch_0] else name_of r)
      else if h = ch_t then [0x31]
      else if h = ch_f \<or> h = ch_n then [ch_0]
      else h # r)"

lemma read_number_reads:
  assumes "number_ok v" "wf_iter it" "Error it = None" "pending it = v @ t # rest" "\<not> number_char t"
  shows "\<exists>it'. read_number it = Some (v, it') \<and> consumes it v it' \<and> pending it' = t # rest"
proof -
  obtain it' where 1: "jsonNumberCodec_Decode [] it = Some (v, it')" "consumes it v it'" "pending it' = t # rest"
    using number_reads [OF assms(1-3), of "[]" t rest "[]"] assms(4,5) by auto
  with consumes_same [OF 1(2)] show ?thesis by (simp add: read_number_def ReadVal_def)
qed

lemma number_token_ok:
  assumes "number_token v"
  shows "number_ok v"
proof -
  from assms obtain neg ip fp where v: "v = (if neg then [ch_minus] else []) @ num_text ip fp" "num_ok ip fp"
    by (auto simp: number_token_def)
  then show ?thesis by (auto simp: number_ok_def num_ok_def num_text_def number_char_def list_all_iff)
qed

text \<open>The string, or what stands for it, that the decoders take from a text.\<close>

lemma fuzzy_integer:
  assumes "json 0 v" "length v < n" "wf_iter it" "Error it = None" "0 \<le> depth it" "depth it \<le> maxDepth"
    "list_all is_space ws" "pending it = ws @ v @ t # rest" "\<not> number_char t"
  shows "\<exists>it'. consumes it (ws @ v) it' \<and> pending it' = t # rest
    \<and> fuzzyIntegerDecoder_Decode pooled fn n old it =
      (case fn (ch_dot \<in> set (fuzzy_text v)) old (BorrowIterator pooled (fuzzy_text v)) of
         (x, newIter) \<Rightarrow> Some (x, pass_error newIter it'))"
proof -
  obtain h r where v: "v = h # r" "\<not> is_space h" using json_head [OF assms(1)] by (cases v) auto
  obtain it1 where 1: "WhatIsNext it = (valueTypes h, it1)" "consumes it ws it1" "pending it1 = v @ t # rest"
    using WhatIsNext_at [OF assms(3,4,7), of h "r @ t # rest"] assms(8) v by auto
  note s1 = consumes_same [OF 1(2)]
  have w1: "wf_iter it1" "Error it1 = None" using s1 assms(3,4) by auto
  show ?thesis using assms(1)
  proof (cases rule: json.cases)
    case json_null
    obtain it2 where "Skip n it1 = Some it2" "consumes it1 v it2" "pending it2 = t # rest"
      using json_skips [OF assms(1), unfolded skips_def, rule_format, of n it1 "[]" t rest] assms(2,5,6,9) s1 w1 1(3) by auto
    with 1(1) json_null v consumes_trans [OF 1(2)] show ?thesis
      by (auto simp: fuzzyIntegerDecoder_Decode_def valueTypes_def is_digit_def Let_def split: prod.splits)
  next
    case json_true
    with ReadBool_reads [OF w1(1), of True "t # rest"] 1 obtain it2 where
      "ReadBool it1 = (True, it2)" "consumes it1 v it2" "pending it2 = t # rest" by (auto simp: bool_text_def)
    with 1(1) json_true v consumes_trans [OF 1(2)] show ?thesis
      by (auto simp: fuzzyIntegerDecoder_Decode_def valueTypes_def is_digit_def Let_def split: prod.splits)
  next
    case json_false
    with ReadBool_reads [OF w1(1), of False "t # rest"] 1 obtain it2 where
      "ReadBool it1 = (False, it2)" "consumes it1 v it2" "pending it2 = t # rest" by (auto simp: bool_text_def)
    with 1(1) json_false v consumes_trans [OF 1(2)] show ?thesis
      by (auto simp: fuzzyIntegerDecoder_Decode_def valueTypes_def is_digit_def Let_def split: prod.splits)
  next
    case json_number
    then have n: "number_ok v" by (rule number_token_ok)
    obtain it2 where "read_number it1 = Some (v, it2)" "consumes it1 v it2" "pending it2 = t # rest"
      using read_number_reads [OF n w1 1(3) assms(9)] by auto
    moreover have "h \<noteq> ch_quote" "h \<noteq> ch_t" "h \<noteq> ch_f" "h \<noteq> ch_n" "valueTypes h = NumberValue"
      using number_token_head [OF json_number] v by (auto simp: is_digit_def valueTypes_def)
    ultimately show ?thesis using 1(1) v consumes_trans [OF 1(2)]
      by (auto simp: fuzzyIntegerDecoder_Decode_def Let_def split: prod.splits)
  next
    case (json_string s x)
    then have h: "h = ch_quote" "r = s" using v by auto
    from decode_str_local [OF json_string(2)] have "\<forall>ys. decode_str (s @ ys) = Some (x, ys)" by auto
    then obtain it2 where "ReadString it1 = (x, it2)" "consumes it1 v it2" "pending it2 = t # rest"
      using ReadString_literal [OF w1, of "[]" s "t # rest" x] 1(3) v h by auto
    moreover have "name_of s = x" using json_string(2) by (simp add: name_of_def)
    ultimately show ?thesis using 1(1) v h consumes_trans [OF 1(2)]
      by (auto simp: fuzzyIntegerDecoder_Decode_def Let_def valueTypes_def split: prod.splits)
  qed
qed

section \<open>Properties\<close>

text \<open>C40: on a JSON number, string, boolean or null a fuzzy integer decoder consumes exactly that text and gives what its
  closure reads from the text \<open>fuzzy_text\<close>: that of the number, the contents of the string, 1 for true and 0 for false, null
  and the empty string. So a number and the string of its digits decode alike, whatever the type. An error of the closure
  becomes the error of the iterator, unless it is the end of the input.\<close>

theorem fuzzy_integer_reads:
  assumes "json 0 v" "length v < n" "wf_iter it" "Error it = None" "0 \<le> depth it" "depth it \<le> maxDepth"
    and "list_all is_space ws" "pending it = ws @ v @ t # rest" "\<not> number_char t"
  shows "\<exists>it'. consumes it (ws @ v) it' \<and> pending it' = t # rest
    \<and> fuzzyIntegerDecoder_Decode pooled fn n old it =
      (case fn (ch_dot \<in> set (fuzzy_text v)) old (BorrowIterator pooled (fuzzy_text v)) of
         (x, newIter) \<Rightarrow> Some (x, pass_error newIter it'))"
  by (rule fuzzy_integer [OF assms])

text \<open>A struct or map decoder is given an empty object in place of any JSON array, whether it is empty or not: the
  elements are skipped without an error, and an error of the decoder on the empty object is dropped.\<close>

lemma tolerate_any_array:
  assumes "json d (ch_lbrack # v)" "length (ch_lbrack # v) < n" "wf_iter it" "Error it = None" "0 \<le> depth it" "depth it + int d \<le> maxDepth"
    and "list_all is_space ws" "pending it = ws @ (ch_lbrack # v) @ t # rest" "\<not> number_char t"
  shows "\<exists>it'. consumes it (ws @ ch_lbrack # v) it' \<and> pending it' = t # rest
    \<and> tolerateEmptyArrayDecoder_Decode pooled valDecoder n old it
      = map_option (\<lambda>(x, newIter). (x, it')) (valDecoder old (BorrowIterator pooled [ch_lbrace, ch_rbrace]))"
proof -
  obtain it1 where 1: "WhatIsNext it = (ArrayValue, it1)" "consumes it ws it1" "pending it1 = (ch_lbrack # v) @ t # rest"
    using WhatIsNext_at [OF assms(3,4,7), of ch_lbrack "v @ t # rest"] assms(8) by (auto simp: valueTypes_def is_space_def is_digit_def)
  note s1 = consumes_same [OF 1(2)]
  obtain it2 where "Skip n it1 = Some it2" "consumes it1 (ch_lbrack # v) it2" "pending it2 = t # rest"
    using json_skips [OF assms(1), unfolded skips_def, rule_format, of n it1 "[]" t rest] assms(2-6,9) s1 1(3) by auto
  with 1(1) consumes_trans [OF 1(2)] show ?thesis by (auto simp: tolerateEmptyArrayDecoder_Decode_def)
qed

text \<open>Where the fuzzy integer decoders accept what they should not: an exponent is ignored, so 1e3 is 1, and so is what
  follows the digits in a string.\<close>

lemma fuzzy_integer_accepts:
  "map_option (\<lambda>(x, it). (x, Error it)) (fuzzyIntegerDecoder_Decode (NewIterator ConfigDefault) (fuzzy_int64 rt) 3 0
      (ParseBytes ConfigDefault (map of_char ''1e3,''))) = Some (1, None)
    \<and> map_option (\<lambda>(x, it). (x, Error it)) (fuzzyIntegerDecoder_Decode (NewIterator ConfigDefault) (fuzzy_int8 rt) 3 0
      (ParseBytes ConfigDefault (ch_quote # map of_char ''12abc'' @ [ch_quote, ch_comma]))) = Some (12, None)"
  by (intro conjI; code_simp)

text \<open>A float equal to the upper bound of \<open>int64\<close>, which is rounded up to a float, passes the test of the range, though it is no
  value of the type; so does that of \<open>uint64\<close>.\<close>

lemma fuzzy_bound_accepted:
  "ReadFloat64 it = (Float False (2 ^ 63), it1) \<Longrightarrow>
    fuzzy_int64 rt True old it = (word_of_int (out_of_range rt (Float False (2 ^ 63))), it1)"
  "ReadFloat64 it = (Float False (2 ^ 64), it1) \<Longrightarrow>
    fuzzy_uint64 rt True old it = (word_of_int (out_of_range rt (Float False (2 ^ 64))), it1)"
  by (simp_all add: fuzzy_int64_def fuzzy_uint64_def fuzzy_fun_def float_val_def float_int_def truncated_def)

section \<open>Witnesses\<close>

lemma sample_string: "json 0 [ch_quote, 0x31, 0x32, ch_quote]"
  by (rule json_string [of _ "[0x31, 0x32]"]) code_simp

theorem fuzzy_integer_reads_witness:
  "\<exists>it'. consumes (ParseBytes ConfigDefault ([] @ [ch_quote, 0x31, 0x32, ch_quote] @ [ch_comma])) ([] @ [ch_quote, 0x31, 0x32, ch_quote]) it'
    \<and> pending it' = ch_comma # []
    \<and> fuzzyIntegerDecoder_Decode (NewIterator ConfigDefault) (fuzzy_int8 sample_runtime) 9 0
        (ParseBytes ConfigDefault ([] @ [ch_quote, 0x31, 0x32, ch_quote] @ [ch_comma])) =
      (case fuzzy_int8 sample_runtime (ch_dot \<in> set (fuzzy_text [ch_quote, 0x31, 0x32, ch_quote])) 0
          (BorrowIterator (NewIterator ConfigDefault) (fuzzy_text [ch_quote, 0x31, 0x32, ch_quote])) of
         (x, newIter) \<Rightarrow> Some (x, pass_error newIter it'))"
  by (rule fuzzy_integer_reads [OF sample_string])
    (simp_all add: ParseBytes_start maxDepth_def number_char_def is_digit_def)

lemma tolerate_any_array_witness:
  "\<exists>it'. consumes (ParseBytes ConfigDefault ([] @ (ch_lbrack # map of_char ''1, null]'') @ [ch_comma])) ([] @ ch_lbrack # map of_char ''1, null]'') it'
    \<and> pending it' = ch_comma # []
    \<and> tolerateEmptyArrayDecoder_Decode (NewIterator ConfigDefault) (\<lambda>old it. Some (False, it)) 20 True
        (ParseBytes ConfigDefault ([] @ (ch_lbrack # map of_char ''1, null]'') @ [ch_comma]))
      = map_option (\<lambda>(x, newIter). (x, it')) ((\<lambda>old it. Some (False, it)) True (BorrowIterator (NewIterator ConfigDefault) [ch_lbrace, ch_rbrace]))"
  by (rule tolerate_any_array [where d = 1])
    (use sample_json in \<open>simp_all add: ParseBytes_start maxDepth_def number_char_def is_digit_def\<close>)

end
