(* ===== verification/Extensions.thy ===== *)
theory Extensions
  imports Descriptor AnyValue "HOL-Library.Signed_Division"
begin

text \<open>
  The small files of the package \<open>extra\<close>: names of fields by a strategy (\<open>naming_strategy.go\<close>), unexported fields
  (\<open>privat_fields.go\<close>) and times as integers (\<open>time_as_int64_codec.go\<close>).

  \<open>unicode.IsUpper\<close> and \<open>unicode.ToLower\<close> are parameters. A time is its distance from the epoch in nanoseconds;
  \<open>UnixNano\<close> is that number in 64 bits.
\<close>

section \<open>Naming strategy\<close>

text \<open>Both extensions look at the key \<open>json\<close> of the tag, whatever the key of the configuration.\<close>

definition json_tag :: "gofield \<Rightarrow> string option" where
  "json_tag f = map_of (Tag f) ''json''"

definition namingStrategy_binding :: "(string \<Rightarrow> string) \<Rightarrow> rawBinding \<Rightarrow> rawBinding" where
  "namingStrategy_binding translate b =
     (let name = Name (rawField b);
          renamed = b\<lparr>rawToNames := [translate name], rawFromNames := [translate name]\<rparr>
      in
      if IsLower (hd name) \<or> hd name = CHR ''_'' then b
      else
        (case json_tag (rawField b) of
           None \<Rightarrow> renamed
         | Some tag \<Rightarrow>
             let tagParts = split_comma tag in
             if hd tagParts = ''-'' then b
             else if hd tagParts \<noteq> [] then b
             else renamed))"

definition namingStrategyExtension_UpdateStructDescriptor :: "(string \<Rightarrow> string) \<Rightarrow> rawBinding list \<Rightarrow> rawBinding list" where
  "namingStrategyExtension_UpdateStructDescriptor translate flds = map (namingStrategy_binding translate) flds"

definition SetNamingStrategy :: "(string \<Rightarrow> string) \<Rightarrow> ctx \<Rightarrow> ctx" where
  "SetNamingStrategy translate c =
     RegisterGlobalExtension
       (DummyExtension\<lparr>UpdateStructDescriptor := namingStrategyExtension_UpdateStructDescriptor translate\<rparr>) c"

text \<open>The loop over the runes, after the first.\<close>

fun underscore_runes :: "(int \<Rightarrow> bool) \<Rightarrow> (int \<Rightarrow> int) \<Rightarrow> int list \<Rightarrow> int list" where
  "underscore_runes isUpper toLower [] = []"
| "underscore_runes isUpper toLower (c # cs) =
     (if isUpper c then [0x5F, toLower c] else [c]) @ underscore_runes isUpper toLower cs"

definition LowerCaseWithUnderscores :: "(int \<Rightarrow> bool) \<Rightarrow> (int \<Rightarrow> int) \<Rightarrow> bytes \<Rightarrow> bytes" where
  "LowerCaseWithUnderscores isUpper toLower name =
     concat (map WriteRune
       (case runes name of [] \<Rightarrow> [] | c # cs \<Rightarrow> toLower c # underscore_runes isUpper toLower cs))"

section \<open>Unexported fields\<close>

definition private_calcFieldNames :: "string \<Rightarrow> string \<Rightarrow> string \<Rightarrow> string list" where
  "private_calcFieldNames originalFieldName tagProvidedFieldName wholeTag =
     (if wholeTag = ''-'' then []
      else
        let fieldNames = (if tagProvidedFieldName = [] then [originalFieldName] else [tagProvidedFieldName])
        in if IsLower (hd originalFieldName) then [] else fieldNames)"

definition privateFields_binding :: "rawBinding \<Rightarrow> rawBinding" where
  "privateFields_binding b =
     (let name = Name (rawField b) in
      if IsLower (hd name) then
        (case json_tag (rawField b) of
           None \<Rightarrow> b\<lparr>rawFromNames := [name], rawToNames := [name]\<rparr>
         | Some tag \<Rightarrow>
             let names = private_calcFieldNames name (hd (split_comma tag)) tag
             in b\<lparr>rawFromNames := names, rawToNames := names\<rparr>)
      else b)"

definition privateFieldsExtension_UpdateStructDescriptor :: "rawBinding list \<Rightarrow> rawBinding list" where
  "privateFieldsExtension_UpdateStructDescriptor flds = map privateFields_binding flds"

definition SupportPrivateFields :: "ctx \<Rightarrow> ctx" where
  "SupportPrivateFields c =
     RegisterGlobalExtension (DummyExtension\<lparr>UpdateStructDescriptor := privateFieldsExtension_UpdateStructDescriptor\<rparr>) c"

section \<open>Times\<close>

definition UnixNano :: "int \<Rightarrow> u64" where
  "UnixNano ts = word_of_int ts"

definition timeAsInt64Codec_Decode :: "u64 \<Rightarrow> int decoder" where
  "timeAsInt64Codec_Decode precision old it =
     (case ReadInt64 it of (v, it1) \<Rightarrow> Some (sint (v * precision), it1))"

definition timeAsInt64Codec_IsEmpty :: "int \<Rightarrow> bool" where
  "timeAsInt64Codec_IsEmpty ts \<longleftrightarrow> UnixNano ts = 0"

text \<open>Division by a precision of zero panics.\<close>

definition timeAsInt64Codec_Encode :: "u64 \<Rightarrow> int \<Rightarrow> stream \<Rightarrow> stream option" where
  "timeAsInt64Codec_Encode precision ts s =
     (if precision = 0 then None else Some (WriteInt64 (word_of_int (sint (UnixNano ts) sdiv sint precision)) s))"

section \<open>Properties\<close>

text \<open>The extension for unexported fields leaves out every unexported field that has a tag for JSON, also one that gives
  it a name: it is neither written nor read.\<close>

lemma tagged_private_field_hidden:
  assumes "IsLower (hd (Name (rawField b)))" "json_tag (rawField b) = Some tag"
  shows "rawFromNames (privateFields_binding b) = [] \<and> rawToNames (privateFields_binding b) = []"
  using assms by (simp add: privateFields_binding_def private_calcFieldNames_def Let_def)

text \<open>A time between the least and the greatest \<open>int64\<close> nanosecond that is written at a positive precision is read back
  rounded towards the epoch to a multiple of the precision, by less than the precision.\<close>

lemma time_round_trip:
  assumes "0 < sint p" "- (2 ^ 63) \<le> ts" "ts < 2 ^ 63" "wf_iter it" "ends_int x"
    and "timeAsInt64Codec_Encode p ts s = Some s1" "s_buf s1 = s_buf s @ text" "pending it = text @ x # rest"
  shows "\<exists>it'. timeAsInt64Codec_Decode p old it = Some (ts sdiv sint p * sint p, it')
    \<and> consumes it text it' \<and> pending it' = x # rest
    \<and> \<bar>ts - ts sdiv sint p * sint p\<bar> < sint p \<and> \<bar>ts sdiv sint p * sint p\<bar> \<le> \<bar>ts\<bar>"
proof -
  define q where "q = ts sdiv sint p"
  define a where "a = \<bar>ts\<bar> div sint p"
  have q: "q = sgn ts * a" using assms(1) by (simp add: q_def a_def signed_divide_int_def)
  have d: "\<bar>ts\<bar> = a * sint p + \<bar>ts\<bar> mod sint p" by (simp add: a_def)
  have r: "0 \<le> \<bar>ts\<bar> mod sint p" "\<bar>ts\<bar> mod sint p < sint p" using assms(1) by simp_all
  have "0 \<le> a" using assms(1) by (simp add: a_def pos_imp_zdiv_nonneg_iff)
  moreover have "a * sint p \<le> \<bar>ts\<bar>" "\<bar>ts\<bar> - a * sint p < sint p" using d r by linarith+
  ultimately have a: "0 \<le> a" "a * sint p \<le> \<bar>ts\<bar>" "\<bar>ts\<bar> - a * sint p < sint p" by blast+
  have "a * 1 \<le> a * sint p" using a(1) assms(1) by (intro mult_left_mono) auto
  with a(2) have a4: "a \<le> \<bar>ts\<bar>" by simp
  have a5: "0 \<le> a * sint p" using a(1) assms(1) by simp
  obtain b where b: "b = a * sint p" by blast
  have q: "q = (if 0 < ts then a else if ts = 0 then 0 else - a)" "q * sint p = (if 0 < ts then b else if ts = 0 then 0 else - b)"
    using assms(1) q b by (simp_all add: sgn_if)
  have m: "\<bar>ts - q * sint p\<bar> < sint p" "\<bar>q * sint p\<bar> \<le> \<bar>ts\<bar>"
    and r: "- (2 ^ 63) \<le> q" "q < 2 ^ 63" "- (2 ^ 63) \<le> q * sint p" "q * sint p < 2 ^ 63"
    unfolding q(2) unfolding q(1) using a a4 a5 assms(1-3) unfolding b [symmetric] by (auto simp: abs_if split: if_splits)
  have "text = int_text q"
    using assms(1-3,6,7) sint_id [OF assms(2,3)] sint_id [OF r(1,2)]
    by (auto simp: timeAsInt64Codec_Encode_def UnixNano_def q_def WriteInts_adds adds_def split: if_splits)
  with assms(4,5,8) have "at_int it [] q (x # rest)" by (simp add: at_int_def)
  with signed_reader_laws(4) r(1,2) obtain it' where
    1: "ReadInt64 it = (word_of_int q, it')" "consumes it ([] @ int_text q) it'" "pending it' = x # rest"
    unfolding reads_int_def by fastforce
  have "word_of_int q * p = word_of_int (q * sint p)" by simp
  then have "sint (word_of_int q * p) = q * sint p" using sint_id [OF r(3,4)] by metis
  with 1 m \<open>text = int_text q\<close> show ?thesis by (simp add: timeAsInt64Codec_Decode_def q_def)
qed

section \<open>Witnesses\<close>

definition sample_binding :: rawBinding where
  "sample_binding = \<lparr>Index = 0, rawField = Field ''age'' False [(''json'', ''age'')] (Basic Int8 ''int8''), rawLevels = [0],
     rawFromNames = [], rawToNames = [], rawEncoder = lazyErrorEncoder (LibErr []), rawDecoder = lazyErrorDecoder_Decode (LibErr [])\<rparr>"

lemma tagged_private_field_hidden_witness:
  "rawFromNames (privateFields_binding sample_binding) = [] \<and> rawToNames (privateFields_binding sample_binding) = []"
  by (rule tagged_private_field_hidden [where tag = "''age''"]) (simp_all add: sample_binding_def json_tag_def IsLower_def)

lemma time_round_trip_witness:
  "\<exists>it'. timeAsInt64Codec_Decode 1000 0 (ParseBytes ConfigDefault ([ch_minus, 0x31] @ [ch_comma]))
      = Some (- 1500 sdiv sint (1000 :: u64) * sint (1000 :: u64), it')
    \<and> consumes (ParseBytes ConfigDefault ([ch_minus, 0x31] @ [ch_comma])) [ch_minus, 0x31] it' \<and> pending it' = ch_comma # []
    \<and> \<bar>- 1500 - - 1500 sdiv sint (1000 :: u64) * sint (1000 :: u64)\<bar> < sint (1000 :: u64)
    \<and> \<bar>- 1500 sdiv sint (1000 :: u64) * sint (1000 :: u64)\<bar> \<le> \<bar>- 1500\<bar>"
proof (rule time_round_trip [where s = "NewStream ConfigDefault None"])
  have "dec_bytes (Suc 0) = [0x31]" by code_simp
  then show "timeAsInt64Codec_Encode 1000 (- 1500) (NewStream ConfigDefault None)
      = Some (adds [ch_minus, 0x31] (NewStream ConfigDefault None))"
    by (simp add: timeAsInt64Codec_Encode_def UnixNano_def WriteInts_adds int_text_def)
qed (simp_all add: ParseBytes_start adds_def ends_int_def is_digit_def)

end
