(* ===== verification/Spec2Isabelle.thy ===== *)
theory Spec2Isabelle
  imports SkipSloppy Api TypeCodec AnyGet Marshaler StreamFloat BinaryCodec FuzzyDecoder Extensions
begin

text \<open>
  A verification development of the JSON library under \<open>src/\<close>, a fork of json-iterator for Go: the
  iterator that reads JSON, the stream that writes it, the codecs of Go types built on them, and the
  functions users call.

  \<^bold>\<open>Parts, and how they interact.\<close> An \<open>Iterator\<close> (\<open>iter*.go\<close>) holds a window of a buffer that an
  \<open>io.Reader\<close> refills; the readers of literals, integers, floats, strings, arrays and objects take bytes
  from the window and call \<open>loadMore\<close> at its end. A \<open>Stream\<close> (\<open>stream*.go\<close>) appends to a buffer that
  \<open>Flush\<close> hands to an \<open>io.Writer\<close>. A \<open>ValDecoder\<close> reads a Go value from an iterator and a \<open>ValEncoder\<close>
  writes one to a stream (\<open>reflect_*.go\<close>); the codecs of composite types call those of their parts.
  \<open>config.go\<close> and \<open>adapter.go\<close> borrow streams and iterators from pools, run the codec of the argument's
  type and inspect the error.

  \<^bold>\<open>Theories.\<close>
  \<^item> \<open>Prelude\<close>: Go's integers as words, character codes, slices, the decimal numeral of a number.
  \<^item> \<open>Config\<close> (\<open>config.go\<close>): \<open>Config\<close>, \<open>frozenConfig\<close>, \<open>Froze\<close>, the predefined configurations.
  \<^item> \<open>Iter\<close> (\<open>iter.go\<close>): the record \<open>iterator\<close>, refills, tokens, errors, depth. \<open>wf_iter\<close> is the invariant of
    its window, \<open>pending\<close> the input still to come, \<open>consumes\<close> the relation all reading lemmas use.
  \<^item> \<open>IterLiteral\<close>, \<open>IterInt\<close>, \<open>IterStr\<close>, \<open>IterFloat\<close>, \<open>IterObject\<close>, \<open>IterSkip\<close> (\<open>iter_skip.go\<close>, \<open>iter_int.go\<close>,
    \<open>iter_str.go\<close> with \<open>rawstring.go\<close>, \<open>iter_float.go\<close>, \<open>iter_array.go\<close> with \<open>iter_object.go\<close>,
    \<open>iter_skip_strict.go\<close>): one definition per function, a reference meaning of the text it reads, and the
    lemmas that it computes this meaning wherever the buffer ends. \<open>SkipSloppy\<close> (\<open>iter_skip_sloppy.go\<close>) is the variant
    of \<open>IterSkip\<close> for another build, and consumes the same on JSON.
  \<^item> \<open>StreamCore\<close>, \<open>StreamInt\<close>, \<open>StreamStr\<close> (\<open>stream.go\<close> with \<open>pool.go\<close>, \<open>stream_int.go\<close>, \<open>stream_str.go\<close>): the
    record \<open>stream\<close>, the bytes each writer appends (collection \<open>stream_adds\<close>), delivery to the writer.
  \<^item> \<open>Native\<close> (\<open>reflect_native.go\<close>): the codecs of the predeclared types and the locale \<open>codec\<close>, the
    contract of every codec: the encoder appends \<open>val_text\<close>, the decoder reads it back. \<open>closed_codec\<close>
    extends it to texts that may be followed by anything.
  \<^item> \<open>SliceCodec\<close>, \<open>MapCodec\<close>, \<open>StructEncoder\<close>, \<open>StructDecoder\<close>, \<open>StructCodec\<close> (\<open>reflect_slice.go\<close>,
    \<open>reflect_array.go\<close>, \<open>reflect_optional.go\<close>, \<open>reflect_map.go\<close>, \<open>reflect_struct_encoder.go\<close>,
    \<open>reflect_struct_decoder.go\<close>): the codecs of composite types as functions of those of their parts, and
    sublocales which show that they keep the contract when the parts do.
  \<^item> \<open>RawCodec\<close> (\<open>reflect_json_raw_message.go\<close>, \<open>reflect_json_number.go\<close>, \<open>base64Codec\<close>): raw messages, \<open>Number\<close>,
    byte slices in base64.
  \<^item> \<open>Api\<close> (\<open>config.go\<close>, \<open>adapter.go\<close>, \<open>reflect.go\<close>): \<open>Marshal\<close>, \<open>Unmarshal\<close>, \<open>Valid\<close>, \<open>Encoder\<close>, \<open>Decoder\<close>.
  \<^item> \<open>GoTypes\<close> (\<open>reflect.go\<close>, \<open>reflect_extension.go\<close> and the constructors of the other files): Go types and values, the
    extensions, the description of structs, the choice of the codec of a type, the caches of an API.
  \<^item> \<open>Descriptor\<close>: the order of the bindings of a struct. \<open>TypeCodec\<close>: by induction on types, the chosen codecs
    keep the contract (\<open>chosen_codecs_keep\<close>), and the caches hold what was chosen.
  \<^item> \<open>GoValue\<close> (\<open>iter.go\<close>, \<open>reflect_dynamic.go\<close>): values of interface type, \<open>Read\<close> and the value a text denotes (\<open>generic\<close>).
  \<^item> \<open>AnyValue\<close>, \<open>AnyPath\<close>, \<open>AnyGet\<close> (\<open>any*.go\<close>): the types behind \<open>Any\<close>, one table of results of the methods per type;
    \<open>locatePath\<close> and \<open>Get\<close>, against \<open>at_path\<close>, the part of a text at a path; the properties of both.
  \<^item> \<open>Marshaler\<close> (\<open>reflect_marshaler.go\<close>, \<open>createCheckIsEmpty\<close>): the codecs that call methods of user types.
  \<^item> \<open>StreamFloat\<close> (\<open>stream_float.go\<close>, \<open>stream_time.go\<close>): floats and times written; what the codec of \<open>float64\<close>
    writes it reads back, and how close the lossy writers come.
  \<^item> \<open>BinaryCodec\<close>, \<open>FuzzyDecoder\<close>, \<open>Extensions\<close> (\<open>extra/\<close>): byte slices as text, tolerant decoders, naming
    strategies, unexported fields and times as integers, on top of the extensions of \<open>GoTypes\<close>.

  \<^bold>\<open>State and effects.\<close> A method that changes the iterator or the stream returns the changed record. Errors
  are the field \<open>Error\<close> of the record, as in the code; a panic is \<open>None\<close>. A pointer that a decoder fills
  is the value it held and the value it holds. Refills are explicit: the reader is the list of the results
  of its next calls, and theorems quantify over all lists, so over all ways to cut the input.

  \<^bold>\<open>Loops and fuel.\<close> Loops over the bytes of a buffer recurse on its remaining length and terminate by
  proof. The callback loops over the elements of arrays, objects and maps take a fuel and give \<open>None\<close> when
  it runs out. \<open>Skip_value\<close>, \<open>members_decoded\<close>, \<open>parse_back\<close> and the round trips show that fuel above the
  length of the text is enough, so they state that the code returns, and what.

  \<^bold>\<open>Parameters.\<close> \<open>toLower\<close> is \<open>strings.ToLower\<close>; \<open>grow\<close> is reflect2's \<open>UnsafeGrow\<close>; the iteration order of
  a Go map is the order of a list; the writer is a script of its results. \<open>ctx\<close> of \<open>GoTypes\<close> has further ones: the
  codecs of types with their own methods, of interface types and of floats, which \<open>Marshaler\<close>, \<open>GoValue\<close> and \<open>StreamFloat\<close>
  define. The methods of user types are \<open>user_methods\<close>; \<open>strconv.AppendFloat\<close>, the conversion of a float that its target
  cannot hold, and the iterators that a pool hands out are \<open>append_float\<close> and \<open>runtime\<close>.

  \<^bold>\<open>Not modelled.\<close> Types that contain themselves; numbers that are infinite or not a number outside
  \<open>StreamFloat\<close>; the formatting of floats and times, which the code leaves to \<open>strconv\<close> and \<open>time\<close>.
\<close>

end
